(* ===== verification/Prelude.thy ===== *)
theory Prelude
  imports Main "HOL-Library.Word" "HOL-Library.Multiset"
begin

text \<open>
  Shared vocabulary of the development: Rust's fixed-width integers and their checked operations,
  the list and option facts the components use, and the generic interface of a component whose
  steps keep an invariant.
  \<^item> \<open>u8\<close>, \<open>u16\<close>, \<open>u32\<close>, \<open>u64\<close> are words of that width; \<open>usize\<close> quantities
    (lengths, indices, counts) are naturals, and \<open>usize_max\<close> is written out where the source
    checks for overflow (a 64-bit target).
  \<^item> A Rust panic (\<open>expect\<close>, \<open>unreachable!\<close>, \<open>assert!\<close>, an index out of range) is the value
    \<open>None\<close> of type \<open>'a run\<close>; a result that is returned is \<open>Some\<close>.
\<close>

section \<open>Machine integers\<close>

type_synonym u8 = "8 word"
type_synonym u16 = "16 word"
type_synonym u32 = "32 word"
type_synonym u64 = "64 word"

type_synonym 'a run = "'a option"

definition usize_max :: nat where
  "usize_max = 2 ^ 64 - 1"

definition u64_checked_add :: "u64 \<Rightarrow> u64 \<Rightarrow> u64 option" where
  "u64_checked_add a b = (if unat a + unat b < 2 ^ 64 then Some (a + b) else None)"

definition u64_try_from_usize :: "nat \<Rightarrow> u64 option" where
  "u64_try_from_usize n = (if n < 2 ^ 64 then Some (of_nat n) else None)"

definition non_zero_u64 :: "u64 \<Rightarrow> u64 option" where
  "non_zero_u64 w = (if w = 0 then None else Some w)"

definition usize_checked_add :: "nat \<Rightarrow> nat \<Rightarrow> nat option" where
  "usize_checked_add a b = (if a + b \<le> usize_max then Some (a + b) else None)"

definition usize_saturating_add :: "nat \<Rightarrow> nat \<Rightarrow> nat" where
  "usize_saturating_add a b = min (a + b) usize_max"

definition usize_saturating_mul :: "nat \<Rightarrow> nat \<Rightarrow> nat" where
  "usize_saturating_mul a b = min (a * b) usize_max"

section \<open>Lists\<close>

text \<open>\<open>iter().position(p)\<close> and \<open>slice.get(i)\<close> of the standard library.\<close>

fun position :: "('a \<Rightarrow> bool) \<Rightarrow> 'a list \<Rightarrow> nat option" where
  "position p [] = None"
| "position p (x # xs) = (if p x then Some 0 else map_option Suc (position p xs))"

definition slice_get :: "'a list \<Rightarrow> nat \<Rightarrow> 'a option" where
  "slice_get xs i = (if i < length xs then Some (xs ! i) else None)"

text \<open>\<open>Vec::insert\<close>, \<open>Vec::remove\<close> and \<open>splice(i..i, ys)\<close>, at an index in range.\<close>

definition splice_at :: "nat \<Rightarrow> 'a list \<Rightarrow> 'a list \<Rightarrow> 'a list" where
  "splice_at i ys xs = take i xs @ ys @ drop i xs"

definition remove_at :: "nat \<Rightarrow> 'a list \<Rightarrow> 'a list" where
  "remove_at i xs = take i xs @ drop (Suc i) xs"

text \<open>The first element a scan meets for the second time, as a loop over \<open>HashSet::insert\<close> finds
  it.\<close>

fun first_duplicate :: "'a set \<Rightarrow> 'a list \<Rightarrow> 'a option" where
  "first_duplicate seen [] = None"
| "first_duplicate seen (x # xs) =
     (if x \<in> seen then Some x else first_duplicate (insert x seen) xs)"

section \<open>A component whose steps keep an invariant\<close>

locale invariant_system =
  fixes step :: "'s \<Rightarrow> 's \<Rightarrow> bool" and inv :: "'s \<Rightarrow> bool"
  assumes inv_step: "inv s \<Longrightarrow> step s t \<Longrightarrow> inv t"
begin

lemma inv_steps:
  assumes "step\<^sup>*\<^sup>* s t" and "inv s"
  shows "inv t"
  using assms by (induction rule: rtranclp_induct) (auto intro: inv_step)

end

section \<open>Facts about the vocabulary\<close>

lemma u64_checked_add_Some:
  "u64_checked_add a b = Some c \<Longrightarrow> unat c = unat a + unat b"
  by (auto simp: u64_checked_add_def unat_word_ariths split: if_splits)

lemma u64_checked_add_SomeD:
  "u64_checked_add a b = Some c \<Longrightarrow> c = a + b \<and> unat a + unat b < 2 ^ 64"
  by (auto simp: u64_checked_add_def split: if_splits)

lemma u64_try_from_usize_Some:
  "u64_try_from_usize n = Some w \<Longrightarrow> unat w = n \<and> n < 2 ^ 64"
  by (auto simp: u64_try_from_usize_def unat_of_nat split: if_splits)

lemma usize_checked_add_Some [simp]:
  "usize_checked_add a b = Some c \<longleftrightarrow> c = a + b \<and> a + b \<le> usize_max"
  by (auto simp: usize_checked_add_def)

lemma non_zero_u64_Some [simp]: "non_zero_u64 w = Some v \<longleftrightarrow> w = v \<and> v \<noteq> 0"
  by (auto simp: non_zero_u64_def)

lemma position_None_iff: "position p xs = None \<longleftrightarrow> (\<forall>x \<in> set xs. \<not> p x)"
  by (induction xs) auto

lemma position_SomeD:
  "position p xs = Some i \<Longrightarrow> i < length xs \<and> p (xs ! i) \<and> (\<forall>j < i. \<not> p (xs ! j))"
proof (induction xs arbitrary: i)
  case Nil
  then show ?case by simp
next
  case (Cons x xs)
  show ?case
  proof (cases "p x")
    case True
    with Cons.prems show ?thesis by simp
  next
    case False
    with Cons.prems obtain k where k: "position p xs = Some k" "i = Suc k" by auto
    from Cons.IH [OF k(1)] False k(2) show ?thesis
      by (auto simp: nth_Cons split: nat.splits)
  qed
qed

lemma position_Some_iff_ex: "(\<exists>i. position p xs = Some i) \<longleftrightarrow> (\<exists>x \<in> set xs. p x)"
  using position_None_iff [of p xs] by (cases "position p xs") auto

lemma slice_get_Some [simp]: "slice_get xs i = Some x \<longleftrightarrow> i < length xs \<and> xs ! i = x"
  by (auto simp: slice_get_def)

lemma slice_get_None [simp]: "slice_get xs i = None \<longleftrightarrow> length xs \<le> i"
  by (auto simp: slice_get_def)

lemma splice_at_mset [simp]: "mset (splice_at i ys xs) = mset ys + mset xs"
  by (metis append_take_drop_id mset_append splice_at_def union_assoc union_commute)

lemma splice_at_set [simp]: "set (splice_at i ys xs) = set ys \<union> set xs"
  by (metis append_take_drop_id set_append splice_at_def sup_assoc sup_commute)

lemma splice_at_map: "map f (splice_at i ys xs) = splice_at i (map f ys) (map f xs)"
  by (simp add: splice_at_def take_map drop_map)

lemma splice_at_end [simp]: "splice_at (length xs) ys xs = xs @ ys"
  by (simp add: splice_at_def)

lemma remove_at_mset:
  "i < length xs \<Longrightarrow> mset (remove_at i xs) + {# xs ! i #} = mset xs"
  by (metis (no_types, lifting) add_mset_add_single id_take_nth_drop mset.simps(2) mset_append
      remove_at_def union_mset_add_mset_right)

lemma remove_at_insert_mset:
  "i < length xs \<Longrightarrow> mset (splice_at j [xs ! i] (remove_at i xs)) = mset xs"
  using remove_at_mset [of i xs] by (simp add: add.commute)

lemma first_duplicate_None_iff:
  "first_duplicate seen xs = None \<longleftrightarrow> distinct xs \<and> set xs \<inter> seen = {}"
  by (induction seen xs rule: first_duplicate.induct) auto

lemma first_duplicate_SomeD:
  "first_duplicate seen xs = Some x \<Longrightarrow> x \<in> set xs"
  by (induction seen xs rule: first_duplicate.induct) (auto split: if_splits)

lemma mset_eq_set_distinct:
  "mset xs = mset ys \<Longrightarrow> distinct ys \<Longrightarrow> distinct xs \<and> set xs = set ys"
  by (metis mset_eq_imp_distinct_iff mset_eq_setD)

lemma distinct_filter_partition:
  "mset (filter P xs @ filter (\<lambda>x. \<not> P x) xs) = mset xs"
  by (induction xs) auto

end
