(* ===== verification/Identity.thy ===== *)
theory Identity
  imports Prelude
begin

text \<open>
  Stable identities and their monotone allocators (playlist-core \<open>id.rs\<close> and the first half of
  \<open>entry.rs\<close>). Item IDs and Group IDs are separate lineages with the same protocol: a preflight
  proposes a whole range without changing the high-watermark, a commit publishes it. The interface
  of that protocol is the locale \<open>id_allocator\<close>, interpreted for both allocators.
\<close>

section \<open>Definitions\<close>

datatype playlist_item_id = PlaylistItemId (item_raw: u64)

datatype playlist_compound_group_id = PlaylistCompoundGroupId (group_raw: u64)

datatype playlist_entry_id =
    EntrySingle playlist_item_id
  | EntryCompound playlist_compound_group_id

datatype item_id_persistence_error = ReservedZero

definition item_id_from_persistence_value ::
    "u64 \<Rightarrow> item_id_persistence_error + playlist_item_id" where
  "item_id_from_persistence_value value =
     (case non_zero_u64 value of
        Some raw \<Rightarrow> Inr (PlaylistItemId raw)
      | None \<Rightarrow> Inl ReservedZero)"

definition item_id_expose_value :: "playlist_item_id \<Rightarrow> u64" where
  "item_id_expose_value i = item_raw i"

definition group_id_from_persistence_value ::
    "u64 \<Rightarrow> item_id_persistence_error + playlist_compound_group_id" where
  "group_id_from_persistence_value value =
     (case non_zero_u64 value of
        Some raw \<Rightarrow> Inr (PlaylistCompoundGroupId raw)
      | None \<Rightarrow> Inl ReservedZero)"

subsection \<open>The Item ID allocator\<close>

record item_id_allocator =
  next_item_id :: u64

record item_id_allocation_plan =
  allocated_item_ids :: "playlist_item_id list"
  next_item_id_after_commit :: u64

datatype item_id_allocation_error =
    ItemArithmeticExhausted
  | ItemCollision playlist_item_id

datatype allocator_restore_error =
    ReservedZeroWatermark
  | WatermarkNotAboveRestoredIds u64 playlist_item_id

definition item_allocator_initial :: item_id_allocator where
  "item_allocator_initial = \<lparr>next_item_id = 1\<rparr>"

definition next_item_id_from_persistence_value :: "u64 \<Rightarrow> allocator_restore_error + u64" where
  "next_item_id_from_persistence_value value =
     (case non_zero_u64 value of Some raw \<Rightarrow> Inr raw | None \<Rightarrow> Inl ReservedZeroWatermark)"

fun max_item_id :: "playlist_item_id list \<Rightarrow> playlist_item_id option" where
  "max_item_id [] = None"
| "max_item_id (x # xs) =
     (case max_item_id xs of
        None \<Rightarrow> Some x
      | Some m \<Rightarrow> Some (if item_raw m < item_raw x then x else m))"

definition item_allocator_restore ::
    "u64 \<Rightarrow> playlist_item_id list \<Rightarrow> allocator_restore_error + item_id_allocator" where
  "item_allocator_restore watermark restored =
     (case max_item_id restored of
        Some maximum \<Rightarrow>
          if watermark \<le> item_raw maximum
          then Inl (WatermarkNotAboveRestoredIds watermark maximum)
          else Inr \<lparr>next_item_id = watermark\<rparr>
      | None \<Rightarrow> Inr \<lparr>next_item_id = watermark\<rparr>)"

text \<open>The loop over the offsets of the proposed range; it stops at the first collision.\<close>

fun item_allocation_loop ::
    "u64 \<Rightarrow> playlist_item_id set \<Rightarrow> nat list \<Rightarrow>
     item_id_allocation_error + playlist_item_id list" where
  "item_allocation_loop start existing [] = Inr []"
| "item_allocation_loop start existing (offset # offsets) =
     (case Option.bind (u64_checked_add start (of_nat offset)) non_zero_u64 of
        None \<Rightarrow> Inl ItemArithmeticExhausted
      | Some raw \<Rightarrow>
          if PlaylistItemId raw \<in> existing then Inl (ItemCollision (PlaylistItemId raw))
          else (case item_allocation_loop start existing offsets of
                  Inl e \<Rightarrow> Inl e
                | Inr ids \<Rightarrow> Inr (PlaylistItemId raw # ids)))"

definition item_preflight_allocation ::
    "item_id_allocator \<Rightarrow> nat \<Rightarrow> playlist_item_id set \<Rightarrow>
     item_id_allocation_error + item_id_allocation_plan" where
  "item_preflight_allocation a item_count existing =
     (if item_count = 0 then
        Inr \<lparr>allocated_item_ids = [], next_item_id_after_commit = next_item_id a\<rparr>
      else
        (case u64_try_from_usize item_count of
           None \<Rightarrow> Inl ItemArithmeticExhausted
         | Some count64 \<Rightarrow>
             (case Option.bind (u64_checked_add (next_item_id a) count64) non_zero_u64 of
                None \<Rightarrow> Inl ItemArithmeticExhausted
              | Some next_after \<Rightarrow>
                  (case item_allocation_loop (next_item_id a) existing [0..<item_count] of
                     Inl e \<Rightarrow> Inl e
                   | Inr ids \<Rightarrow>
                       Inr \<lparr>allocated_item_ids = ids,
                            next_item_id_after_commit = next_after\<rparr>))))"

definition item_commit_allocation ::
    "item_id_allocator \<Rightarrow> item_id_allocation_plan \<Rightarrow> item_id_allocator" where
  "item_commit_allocation a plan = a\<lparr>next_item_id := next_item_id_after_commit plan\<rparr>"

subsection \<open>The Group ID allocator\<close>

record group_id_allocator =
  next_group_id :: u64

record group_id_allocation_plan =
  allocated_group_ids :: "playlist_compound_group_id list"
  next_group_id_after_commit :: u64

datatype group_id_allocation_error =
    GroupArithmeticExhausted
  | GroupCollision playlist_compound_group_id

datatype group_allocator_restore_error =
    GroupReservedZeroWatermark
  | GroupWatermarkNotAboveRestoredIds u64 playlist_compound_group_id

definition group_allocator_initial :: group_id_allocator where
  "group_allocator_initial = \<lparr>next_group_id = 1\<rparr>"

definition next_group_id_from_persistence_value ::
    "u64 \<Rightarrow> group_allocator_restore_error + u64" where
  "next_group_id_from_persistence_value value =
     (case non_zero_u64 value of Some raw \<Rightarrow> Inr raw | None \<Rightarrow> Inl GroupReservedZeroWatermark)"

fun max_group_id :: "playlist_compound_group_id list \<Rightarrow> playlist_compound_group_id option" where
  "max_group_id [] = None"
| "max_group_id (x # xs) =
     (case max_group_id xs of
        None \<Rightarrow> Some x
      | Some m \<Rightarrow> Some (if group_raw m < group_raw x then x else m))"

definition group_allocator_restore ::
    "u64 \<Rightarrow> playlist_compound_group_id list \<Rightarrow>
     group_allocator_restore_error + group_id_allocator" where
  "group_allocator_restore watermark restored =
     (case max_group_id restored of
        Some maximum \<Rightarrow>
          if watermark \<le> group_raw maximum
          then Inl (GroupWatermarkNotAboveRestoredIds watermark maximum)
          else Inr \<lparr>next_group_id = watermark\<rparr>
      | None \<Rightarrow> Inr \<lparr>next_group_id = watermark\<rparr>)"

fun group_allocation_loop ::
    "u64 \<Rightarrow> playlist_compound_group_id set \<Rightarrow> nat list \<Rightarrow>
     group_id_allocation_error + playlist_compound_group_id list" where
  "group_allocation_loop start existing [] = Inr []"
| "group_allocation_loop start existing (offset # offsets) =
     (case Option.bind (u64_checked_add start (of_nat offset)) non_zero_u64 of
        None \<Rightarrow> Inl GroupArithmeticExhausted
      | Some raw \<Rightarrow>
          if PlaylistCompoundGroupId raw \<in> existing
          then Inl (GroupCollision (PlaylistCompoundGroupId raw))
          else (case group_allocation_loop start existing offsets of
                  Inl e \<Rightarrow> Inl e
                | Inr ids \<Rightarrow> Inr (PlaylistCompoundGroupId raw # ids)))"

definition group_preflight_allocation ::
    "group_id_allocator \<Rightarrow> nat \<Rightarrow> playlist_compound_group_id set \<Rightarrow>
     group_id_allocation_error + group_id_allocation_plan" where
  "group_preflight_allocation a group_count existing =
     (if group_count = 0 then
        Inr \<lparr>allocated_group_ids = [], next_group_id_after_commit = next_group_id a\<rparr>
      else
        (case u64_try_from_usize group_count of
           None \<Rightarrow> Inl GroupArithmeticExhausted
         | Some count64 \<Rightarrow>
             (case Option.bind (u64_checked_add (next_group_id a) count64) non_zero_u64 of
                None \<Rightarrow> Inl GroupArithmeticExhausted
              | Some next_after \<Rightarrow>
                  (case group_allocation_loop (next_group_id a) existing [0..<group_count] of
                     Inl e \<Rightarrow> Inl e
                   | Inr ids \<Rightarrow>
                       Inr \<lparr>allocated_group_ids = ids,
                            next_group_id_after_commit = next_after\<rparr>))))"

definition group_commit_allocation ::
    "group_id_allocator \<Rightarrow> group_id_allocation_plan \<Rightarrow> group_id_allocator" where
  "group_commit_allocation a plan = a\<lparr>next_group_id := next_group_id_after_commit plan\<rparr>"

section \<open>The allocator interface\<close>

text \<open>
  What the queue relies on: a successful preflight of \<open>n\<close> identities is a run of \<open>n\<close> distinct new
  values from the watermark up to the watermark after the commit, and the only way to fail with a
  fresh range is arithmetic exhaustion.
\<close>

locale id_allocator =
  fixes raw :: "'i \<Rightarrow> u64"
    and watermark :: "'a \<Rightarrow> u64"
    and preflight :: "'a \<Rightarrow> nat \<Rightarrow> 'i set \<Rightarrow> 'e + 'p"
    and plan_ids :: "'p \<Rightarrow> 'i list"
    and commit :: "'a \<Rightarrow> 'p \<Rightarrow> 'a"
    and exhausted :: 'e
  assumes raw_inj: "raw i = raw j \<Longrightarrow> i = j"
    and plan_length: "preflight a n E = Inr p \<Longrightarrow> length (plan_ids p) = n"
    and plan_raw: "preflight a n E = Inr p \<Longrightarrow> k < n \<Longrightarrow>
      unat (raw (plan_ids p ! k)) = unat (watermark a) + k"
    and plan_watermark: "preflight a n E = Inr p \<Longrightarrow>
      unat (watermark (commit a p)) = unat (watermark a) + n"
    and fail_fresh: "preflight a n E = Inl e \<Longrightarrow> watermark a \<noteq> 0 \<Longrightarrow> \<forall>i \<in> E. unat (raw i) < unat (watermark a) \<Longrightarrow>
      e = exhausted \<and> 2 ^ 64 \<le> unat (watermark a) + n"
begin

text \<open>Every known identity is non-zero and below the watermark.\<close>

definition below :: "'a \<Rightarrow> 'i set \<Rightarrow> bool" where
  "below a E \<longleftrightarrow> watermark a \<noteq> 0 \<and> (\<forall>i \<in> E. raw i \<noteq> 0 \<and> unat (raw i) < unat (watermark a))"

lemma plan_distinct:
  assumes "preflight a n E = Inr p"
  shows "distinct (plan_ids p)"
proof (unfold distinct_conv_nth, intro allI impI)
  fix i j assume "i < length (plan_ids p)" "j < length (plan_ids p)" "i \<noteq> j"
  then have "unat (raw (plan_ids p ! i)) \<noteq> unat (raw (plan_ids p ! j))"
    by (simp add: plan_length [OF assms] plan_raw [OF assms])
  then show "plan_ids p ! i \<noteq> plan_ids p ! j" by auto
qed

lemma plan_range:
  assumes "preflight a n E = Inr p" and "i \<in> set (plan_ids p)"
  shows "unat (watermark a) \<le> unat (raw i) \<and> unat (raw i) < unat (watermark (commit a p))"
proof -
  from assms obtain k where "k < n" and "i = plan_ids p ! k"
    by (metis in_set_conv_nth plan_length)
  with assms(1) show ?thesis by (simp add: plan_raw plan_watermark)
qed

lemma plan_fresh:
  "preflight a n E = Inr p \<Longrightarrow> below a F \<Longrightarrow> set (plan_ids p) \<inter> F = {}"
  using plan_range by (fastforce simp: below_def)

lemma below_commit:
  assumes "preflight a n E = Inr p" and "below a F"
  shows "below (commit a p) (F \<union> set (plan_ids p))"
proof -
  have mono: "unat (watermark a) \<le> unat (watermark (commit a p))"
    using plan_watermark [OF assms(1)] by simp
  have pos: "0 < unat (watermark a)"
    using assms(2) by (simp add: below_def unat_gt_0)
  have old: "raw i \<noteq> 0 \<and> unat (raw i) < unat (watermark (commit a p))" if "i \<in> F" for i
    using assms(2) that mono by (auto simp: below_def)
  have new: "raw i \<noteq> 0 \<and> unat (raw i) < unat (watermark (commit a p))"
    if "i \<in> set (plan_ids p)" for i
  proof -
    from plan_range [OF assms(1) that] pos have "0 < unat (raw i)" by linarith
    then show ?thesis using plan_range [OF assms(1) that] by auto
  qed
  show ?thesis using old new pos mono by (auto simp: below_def)
qed

lemma below_mono: "below a F \<Longrightarrow> G \<subseteq> F \<Longrightarrow> below a G"
  by (auto simp: below_def)

lemma below_fail:
  "preflight a n E = Inl e \<Longrightarrow> below a E \<Longrightarrow> e = exhausted"
  using fail_fresh by (auto simp: below_def)

end

section \<open>Both allocators implement the interface\<close>

lemma range_value:
  assumes "unat start + k < 2 ^ 64" and "start \<noteq> 0"
  shows "Option.bind (u64_checked_add start (of_nat k)) non_zero_u64 = Some (start + of_nat k)"
    and "unat (start + of_nat k) = unat start + k"
proof -
  have k: "unat (of_nat k :: u64) = k"
    using assms(1) by (simp add: unat_of_nat)
  then have add: "u64_checked_add start (of_nat k) = Some (start + of_nat k)"
    using assms(1) by (simp add: u64_checked_add_def)
  with k show val: "unat (start + of_nat k) = unat start + k"
    using u64_checked_add_Some by metis
  with assms(2) have "start + of_nat k \<noteq> 0"
    by (metis add_is_0 unat_eq_zero)
  with add show "Option.bind (u64_checked_add start (of_nat k)) non_zero_u64 = Some (start + of_nat k)"
    by simp
qed

lemma item_allocation_loop_spec:
  "start \<noteq> 0 \<Longrightarrow> \<forall>k \<in> set offsets. unat start + k < 2 ^ 64 \<Longrightarrow>
   item_allocation_loop start existing offsets =
     (let ids = map (\<lambda>k. PlaylistItemId (start + of_nat k)) offsets in
      case List.find (\<lambda>i. i \<in> existing) ids of
        Some i \<Rightarrow> Inl (ItemCollision i)
      | None \<Rightarrow> Inr ids)"
  by (induction offsets) (auto simp: range_value Let_def split: option.splits)

lemma group_allocation_loop_spec:
  "start \<noteq> 0 \<Longrightarrow> \<forall>k \<in> set offsets. unat start + k < 2 ^ 64 \<Longrightarrow>
   group_allocation_loop start existing offsets =
     (let ids = map (\<lambda>k. PlaylistCompoundGroupId (start + of_nat k)) offsets in
      case List.find (\<lambda>i. i \<in> existing) ids of
        Some i \<Rightarrow> Inl (GroupCollision i)
      | None \<Rightarrow> Inr ids)"
  by (induction offsets) (auto simp: range_value Let_def split: option.splits)

text \<open>A zero watermark cannot start a non-empty range.\<close>

lemma allocation_loop_zero:
  assumes "0 < n"
  shows "item_allocation_loop 0 E [0..<n] = Inl ItemArithmeticExhausted"
    and "group_allocation_loop 0 F [0..<n] = Inl GroupArithmeticExhausted"
  using assms by (simp_all add: upt_conv_Cons u64_checked_add_def non_zero_u64_def)

lemma checked_range_end:
  assumes "u64_try_from_usize n = Some c" and "Option.bind (u64_checked_add w c) non_zero_u64 = Some v"
  shows "unat v = unat w + n" and "unat w + n < 2 ^ 64"
  using assms u64_try_from_usize_Some u64_checked_add_Some u64_checked_add_SomeD
  by (fastforce split: bind_splits)+

lemma checked_range_fail:
  assumes "w \<noteq> 0"
    and "(case u64_try_from_usize n of None \<Rightarrow> None
          | Some c \<Rightarrow> Option.bind (u64_checked_add w c) non_zero_u64) = None"
  shows "2 ^ 64 \<le> unat w + n"
proof (rule ccontr)
  assume "\<not> ?thesis"
  then have "u64_try_from_usize n = Some (of_nat n)" and "unat w + n < 2 ^ 64"
    by (auto simp: u64_try_from_usize_def)
  with range_value(1) [of w n] assms show False by simp
qed

lemma item_preflight_Inr:
  assumes "item_preflight_allocation a n E = Inr p"
  shows "allocated_item_ids p = map (\<lambda>k. PlaylistItemId (next_item_id a + of_nat k)) [0..<n]"
    and "unat (next_item_id_after_commit p) = unat (next_item_id a) + n"
    and "\<forall>k < n. unat (next_item_id a + of_nat k) = unat (next_item_id a) + k"
proof -
  consider (zero) "n = 0" | (pos) "0 < n" by auto
  then have "allocated_item_ids p = map (\<lambda>k. PlaylistItemId (next_item_id a + of_nat k)) [0..<n]
      \<and> unat (next_item_id_after_commit p) = unat (next_item_id a) + n
      \<and> (\<forall>k < n. unat (next_item_id a + of_nat k) = unat (next_item_id a) + k)"
  proof cases
    case zero
    with assms show ?thesis by (auto simp: item_preflight_allocation_def)
  next
    case pos
    with assms obtain c where c: "u64_try_from_usize n = Some c"
      and v: "Option.bind (u64_checked_add (next_item_id a) c) non_zero_u64
        = Some (next_item_id_after_commit p)"
      and l: "item_allocation_loop (next_item_id a) E [0..<n] = Inr (allocated_item_ids p)"
      by (auto simp: item_preflight_allocation_def split: if_splits option.splits sum.splits)
    have nz: "next_item_id a \<noteq> 0"
      using l allocation_loop_zero(1) [OF pos, of E] by auto
    note fit = checked_range_end [OF c v]
    from l nz fit(2) show ?thesis
      by (auto simp: item_allocation_loop_spec Let_def fit(1) range_value(2) split: option.splits)
  qed
  then show "allocated_item_ids p = map (\<lambda>k. PlaylistItemId (next_item_id a + of_nat k)) [0..<n]"
    and "unat (next_item_id_after_commit p) = unat (next_item_id a) + n"
    and "\<forall>k < n. unat (next_item_id a + of_nat k) = unat (next_item_id a) + k"
    by blast+
qed

lemma group_preflight_Inr:
  assumes "group_preflight_allocation a n E = Inr p"
  shows "allocated_group_ids p = map (\<lambda>k. PlaylistCompoundGroupId (next_group_id a + of_nat k)) [0..<n]"
    and "unat (next_group_id_after_commit p) = unat (next_group_id a) + n"
    and "\<forall>k < n. unat (next_group_id a + of_nat k) = unat (next_group_id a) + k"
proof -
  consider (zero) "n = 0" | (pos) "0 < n" by auto
  then have "allocated_group_ids p
        = map (\<lambda>k. PlaylistCompoundGroupId (next_group_id a + of_nat k)) [0..<n]
      \<and> unat (next_group_id_after_commit p) = unat (next_group_id a) + n
      \<and> (\<forall>k < n. unat (next_group_id a + of_nat k) = unat (next_group_id a) + k)"
  proof cases
    case zero
    with assms show ?thesis by (auto simp: group_preflight_allocation_def)
  next
    case pos
    with assms obtain c where c: "u64_try_from_usize n = Some c"
      and v: "Option.bind (u64_checked_add (next_group_id a) c) non_zero_u64
        = Some (next_group_id_after_commit p)"
      and l: "group_allocation_loop (next_group_id a) E [0..<n] = Inr (allocated_group_ids p)"
      by (auto simp: group_preflight_allocation_def split: if_splits option.splits sum.splits)
    have nz: "next_group_id a \<noteq> 0"
      using l allocation_loop_zero(2) [OF pos, of E] by auto
    note fit = checked_range_end [OF c v]
    from l nz fit(2) show ?thesis
      by (auto simp: group_allocation_loop_spec Let_def fit(1) range_value(2) split: option.splits)
  qed
  then show "allocated_group_ids p
        = map (\<lambda>k. PlaylistCompoundGroupId (next_group_id a + of_nat k)) [0..<n]"
    and "unat (next_group_id_after_commit p) = unat (next_group_id a) + n"
    and "\<forall>k < n. unat (next_group_id a + of_nat k) = unat (next_group_id a) + k"
    by blast+
qed

lemma find_fresh:
  assumes "\<forall>i \<in> E. unat (r i) < lo" and "\<forall>i \<in> set xs. lo \<le> unat (r i)"
  shows "List.find (\<lambda>i. i \<in> E) xs = None"
  using assms by (fastforce simp: find_None_iff)

lemma item_preflight_Inl:
  assumes "item_preflight_allocation a n E = Inl e" and "next_item_id a \<noteq> 0"
    and "\<forall>i \<in> E. unat (item_raw i) < unat (next_item_id a)"
  shows "e = ItemArithmeticExhausted \<and> 2 ^ 64 \<le> unat (next_item_id a) + n"
proof (cases "unat (next_item_id a) + n < 2 ^ 64")
  case True
  then have "u64_try_from_usize n = Some (of_nat n)"
    by (simp add: u64_try_from_usize_def)
  moreover have "List.find (\<lambda>i. i \<in> E) (map (\<lambda>k. PlaylistItemId (next_item_id a + of_nat k)) [0..<n]) = None"
    by (rule find_fresh [OF assms(3)]) (use True assms(2) in \<open>auto simp: range_value(2)\<close>)
  ultimately show ?thesis
    using assms True range_value(1) [OF True assms(2)]
    by (auto simp: item_preflight_allocation_def item_allocation_loop_spec Let_def split: if_splits)
next
  case False
  then have "(case u64_try_from_usize n of None \<Rightarrow> None
      | Some c \<Rightarrow> Option.bind (u64_checked_add (next_item_id a) c) non_zero_u64) = None"
    using checked_range_end(2) [of n _ "next_item_id a"] by (fastforce split: option.splits)
  with False assms(1) show ?thesis
    by (auto simp: item_preflight_allocation_def split: if_splits option.splits sum.splits)
qed

lemma group_preflight_Inl:
  assumes "group_preflight_allocation a n E = Inl e" and "next_group_id a \<noteq> 0"
    and "\<forall>i \<in> E. unat (group_raw i) < unat (next_group_id a)"
  shows "e = GroupArithmeticExhausted \<and> 2 ^ 64 \<le> unat (next_group_id a) + n"
proof (cases "unat (next_group_id a) + n < 2 ^ 64")
  case True
  then have "u64_try_from_usize n = Some (of_nat n)"
    by (simp add: u64_try_from_usize_def)
  moreover have "List.find (\<lambda>i. i \<in> E) (map (\<lambda>k. PlaylistCompoundGroupId (next_group_id a + of_nat k)) [0..<n]) = None"
    by (rule find_fresh [OF assms(3)]) (use True assms(2) in \<open>auto simp: range_value(2)\<close>)
  ultimately show ?thesis
    using assms True range_value(1) [OF True assms(2)]
    by (auto simp: group_preflight_allocation_def group_allocation_loop_spec Let_def split: if_splits)
next
  case False
  then have "(case u64_try_from_usize n of None \<Rightarrow> None
      | Some c \<Rightarrow> Option.bind (u64_checked_add (next_group_id a) c) non_zero_u64) = None"
    using checked_range_end(2) [of n _ "next_group_id a"] by (fastforce split: option.splits)
  with False assms(1) show ?thesis
    by (auto simp: group_preflight_allocation_def split: if_splits option.splits sum.splits)
qed

interpretation items: id_allocator item_raw next_item_id item_preflight_allocation
  allocated_item_ids item_commit_allocation ItemArithmeticExhausted
  by unfold_locales
    (auto simp: item_preflight_Inr item_commit_allocation_def playlist_item_id.expand
      dest: item_preflight_Inl)

interpretation groups: id_allocator group_raw next_group_id group_preflight_allocation
  allocated_group_ids group_commit_allocation GroupArithmeticExhausted
  by unfold_locales
    (auto simp: group_preflight_Inr group_commit_allocation_def playlist_compound_group_id.expand
      dest: group_preflight_Inl)

section \<open>Restore\<close>

lemma max_item_id_None [simp]: "max_item_id xs = None \<longleftrightarrow> xs = []"
  by (cases xs) (auto split: option.splits)

lemma max_item_id_upper: "max_item_id xs = Some m \<Longrightarrow> i \<in> set xs \<Longrightarrow> item_raw i \<le> item_raw m"
  by (induction xs arbitrary: m) (fastforce split: option.splits if_splits)+

lemma item_allocator_restore_Inr:
  "item_allocator_restore w ids = Inr a \<Longrightarrow>
   next_item_id a = w \<and> (\<forall>i \<in> set ids. unat (item_raw i) < unat w)"
  using max_item_id_upper [of ids]
  by (fastforce simp: item_allocator_restore_def not_le word_less_nat_alt word_le_nat_alt
      split: option.splits if_splits)

lemma max_group_id_None [simp]: "max_group_id xs = None \<longleftrightarrow> xs = []"
  by (cases xs) (auto split: option.splits)

lemma max_group_id_upper: "max_group_id xs = Some m \<Longrightarrow> i \<in> set xs \<Longrightarrow> group_raw i \<le> group_raw m"
  by (induction xs arbitrary: m) (fastforce split: option.splits if_splits)+

lemma group_allocator_restore_Inr:
  "group_allocator_restore w ids = Inr a \<Longrightarrow>
   next_group_id a = w \<and> (\<forall>i \<in> set ids. unat (group_raw i) < unat w)"
  using max_group_id_upper [of ids]
  by (fastforce simp: group_allocator_restore_def not_le word_less_nat_alt word_le_nat_alt
      split: option.splits if_splits)

end
