(* ===== verification/Playlist_Entry.thy ===== *)
theory Playlist_Entry
  imports Identity
begin

text \<open>
  The records a queue stores (playlist-core \<open>locator.rs\<close>, \<open>metadata.rs\<close>, \<open>payload.rs\<close>,
  \<open>import.rs\<close>, \<open>cue_semantics.rs\<close>, \<open>playback_span.rs\<close>, \<open>item.rs\<close>, \<open>entry.rs\<close>,
  \<open>entry_restore.rs\<close>) and the read-only projections of a list of top-level entries
  (\<open>queue/read.rs\<close>, \<open>queue/traversal.rs\<close>, \<open>queue/structural.rs\<close>).
  \<^item> Strings are byte strings. A native path is its bytes; \<open>path_components\<close> is what Rust's path
    equality and order compare (Unix). Times and durations are nanoseconds.
  \<^item> The reference-counted payload of an item is its value; sharing is not observable.
\<close>

section \<open>Locators, metadata and durable payloads\<close>

datatype foreign_path_platform = Linux | MacOs | Windows | OtherPlatform string

datatype foreign_path_encoding =
    ForeignUtf8 string
  | ForeignBytes "u8 list"
  | ForeignWide "u16 list"
  | ForeignOpaque string "u32 list"

datatype local_locator =
    Native string
  | Foreign foreign_path_platform foreign_path_encoding

datatype playlist_locator = Local local_locator | Url string

text \<open>\<open>Path::components\<close>: repeated separators and inner \<open>.\<close> segments are dropped, a leading
  \<open>.\<close> of a relative path is kept.\<close>

datatype path_component = RootDir | CurDir | ParentDir | NormalComponent string

fun path_segments :: "string \<Rightarrow> string list" where
  "path_segments [] = [[]]"
| "path_segments (c # cs) =
     (if c = CHR ''/'' then [] # path_segments cs
      else case path_segments cs of [] \<Rightarrow> [[c]] | seg # segs \<Rightarrow> (c # seg) # segs)"

definition segment_component :: "string \<Rightarrow> path_component option" where
  "segment_component seg =
     (if seg = [] \<or> seg = ''.'' then None
      else if seg = ''..'' then Some ParentDir else Some (NormalComponent seg))"

definition path_components :: "string \<Rightarrow> path_component list" where
  "path_components path =
     (let segs = path_segments path;
          has_root = (path \<noteq> [] \<and> hd path = CHR ''/'')
      in (if has_root then [RootDir] else if hd segs = ''.'' then [CurDir] else [])
         @ List.map_filter segment_component segs)"

text \<open>Equality of locators, as \<open>derive(PartialEq)\<close> gives it: native paths by components, every
  other locator by its value.\<close>

fun locator_eq :: "playlist_locator \<Rightarrow> playlist_locator \<Rightarrow> bool" where
  "locator_eq (Local (Native a)) (Local (Native b)) \<longleftrightarrow> path_components a = path_components b"
| "locator_eq a b \<longleftrightarrow> a = b"

datatype playlist_media_kind = Unknown | Audio | Video

record local_source_fingerprint =
  file_size_bytes :: u64
  modified_at :: int

record cached_playlist_metadata =
  fallback_display_name :: string
  media_kind :: playlist_media_kind
  meta_duration :: "nat option"
  title :: "string option"
  artists :: "string list"
  album :: "string option"
  disc_number :: "u64 option"
  track_number :: "u64 option"
  season_number :: "u64 option"
  episode_number :: "u64 option"

datatype cached_metadata_error = ArtistsLimitExceeded nat nat

definition MAX_CACHED_ARTISTS :: nat where
  "MAX_CACHED_ARTISTS = 32"

definition metadata_new :: "string \<Rightarrow> playlist_media_kind \<Rightarrow> cached_playlist_metadata" where
  "metadata_new name kind =
     \<lparr>fallback_display_name = name, media_kind = kind, meta_duration = None, title = None,
      artists = [], album = None, disc_number = None, track_number = None,
      season_number = None, episode_number = None\<rparr>"

definition metadata_with_artists ::
    "cached_playlist_metadata \<Rightarrow> string list \<Rightarrow>
     cached_metadata_error + cached_playlist_metadata" where
  "metadata_with_artists m xs =
     (if length xs > MAX_CACHED_ARTISTS
      then Inl (ArtistsLimitExceeded (length xs) MAX_CACHED_ARTISTS)
      else Inr (m\<lparr>artists := xs\<rparr>))"

subsection \<open>Playback spans and CUE frame positions\<close>

definition duration_max :: nat where
  "duration_max = (2 ^ 64 - 1) * 1000000000 + 999999999"

record playlist_playback_span =
  span_start :: nat
  span_end_exclusive :: "nat option"

datatype playlist_playback_span_error = EndNotAfterStart | ZeroDuration | EndOverflow

definition playback_span_new ::
    "nat \<Rightarrow> nat option \<Rightarrow> playlist_playback_span_error + playlist_playback_span" where
  "playback_span_new start end_exclusive =
     (if (case end_exclusive of None \<Rightarrow> False | Some e \<Rightarrow> e \<le> start)
      then Inl EndNotAfterStart
      else Inr \<lparr>span_start = start, span_end_exclusive = end_exclusive\<rparr>)"

definition playback_span_from_start_and_duration ::
    "nat \<Rightarrow> nat \<Rightarrow> playlist_playback_span_error + playlist_playback_span" where
  "playback_span_from_start_and_duration start duration =
     (if duration = 0 then Inl ZeroDuration
      else if start + duration > duration_max then Inl EndOverflow
      else playback_span_new start (Some (start + duration)))"

definition playback_span_duration :: "playlist_playback_span \<Rightarrow> nat option run" where
  "playback_span_duration s =
     (case span_end_exclusive s of
        None \<Rightarrow> Some None
      | Some e \<Rightarrow> if span_start s \<le> e then Some (Some (e - span_start s)) else None)"

definition PLAYLIST_CUE_FRAMES_PER_SECOND :: u64 where
  "PLAYLIST_CUE_FRAMES_PER_SECOND = 75"

definition cue_media_time :: "u64 \<Rightarrow> nat" where
  "cue_media_time frames =
     unat (frames div PLAYLIST_CUE_FRAMES_PER_SECOND) * 1000000000
     + unat ((frames mod PLAYLIST_CUE_FRAMES_PER_SECOND) * 1000000000
             div PLAYLIST_CUE_FRAMES_PER_SECOND)"

datatype playlist_cue_file_type = Wave | Aiff | Mp3 | Flac

datatype playlist_cue_document_export_eligibility = Exact | Ineligible

record playlist_cue_track_export_semantics =
  cue_file_type :: playlist_cue_file_type
  cue_track_number :: u8
  cue_index00 :: "u64 option"
  cue_index01 :: u64
  cue_document_eligibility :: playlist_cue_document_export_eligibility

datatype playlist_cue_track_semantics_error = InvalidTrackNumber | Index00AfterIndex01

definition cue_track_semantics_new ::
    "playlist_cue_file_type \<Rightarrow> u8 \<Rightarrow> u64 option \<Rightarrow> u64 \<Rightarrow>
     playlist_cue_document_export_eligibility \<Rightarrow>
     playlist_cue_track_semantics_error + playlist_cue_track_export_semantics" where
  "cue_track_semantics_new file_type number index00 index01 eligibility =
     (if \<not> (1 \<le> number \<and> number \<le> 99) then Inl InvalidTrackNumber
      else if (case index00 of None \<Rightarrow> False | Some pregap \<Rightarrow> pregap > index01)
      then Inl Index00AfterIndex01
      else Inr \<lparr>cue_file_type = file_type, cue_track_number = number, cue_index00 = index00,
                cue_index01 = index01, cue_document_eligibility = eligibility\<rparr>)"

subsection \<open>Durable reopen payloads\<close>

datatype service_reopen_material_kind =
    StableWebpageIdentity | StableOriginalIdentity | StableExtractorIdentity
  | FormatUrl | ManifestUrl | FragmentUrl | KeyUrl | SignedEndpoint
  | Headers | Cookies | AuthorizationOrSession

record service_durable_reopen_payload =
  service_owner :: string
  payload_version :: u16
  material_kind :: service_reopen_material_kind
  service_payload :: "u8 list"

datatype durable_reopen_locator =
    ReopenLocal local_locator
  | ReopenUrl string
  | ReopenService service_durable_reopen_payload

datatype ancillary_track_selection_kind = Manual | Automatic

datatype ancillary_track_origin = Embedded | External durable_reopen_locator

record playlist_ancillary_track_hint =
  semantic_identity :: string
  hint_language :: "string option"
  hint_display_name :: "string option"
  selection_kind :: ancillary_track_selection_kind
  hint_origin :: ancillary_track_origin
  service_format_identity :: "string option"

datatype playlist_import_source_kind = ImportM3u | ImportXspf | ImportCue | ImportService

record playlist_import_provenance =
  root_locator :: durable_reopen_locator
  source_kind :: playlist_import_source_kind
  source_ordinal :: "u32 option"

datatype playlist_import_availability = Available | Unavailable

record playlist_single_durable_payload =
  reopen_locator :: durable_reopen_locator
  playback_span :: "playlist_playback_span option"
  cue_export_semantics :: "playlist_cue_track_export_semantics option"
  ancillary_track_hints :: "playlist_ancillary_track_hint list"
  provenance :: playlist_import_provenance
  availability :: playlist_import_availability

datatype playlist_cue_semantics_attachment_error =
    NonCueProvenance | MissingPlaybackSpan | PlaybackStartMismatch

definition with_cue_export_semantics ::
    "playlist_single_durable_payload \<Rightarrow> playlist_cue_track_export_semantics \<Rightarrow>
     playlist_cue_semantics_attachment_error + playlist_single_durable_payload" where
  "with_cue_export_semantics p semantics =
     (if source_kind (provenance p) \<noteq> ImportCue then Inl NonCueProvenance
      else (case playback_span p of
              None \<Rightarrow> Inl MissingPlaybackSpan
            | Some span \<Rightarrow>
                if span_start span \<noteq> cue_media_time (cue_index01 semantics)
                then Inl PlaybackStartMismatch
                else Inr (p\<lparr>cue_export_semantics := Some semantics\<rparr>)))"

record playlist_compound_durable_payload =
  group_reopen_locator :: durable_reopen_locator
  group_import_provenance :: playlist_import_provenance

section \<open>Items, groups and entries\<close>

record playlist_item_draft =
  draft_locator :: playlist_locator
  draft_fingerprint :: "local_source_fingerprint option"
  draft_metadata :: cached_playlist_metadata
  draft_payload :: "playlist_single_durable_payload option"

record playlist_item_payload =
  locator :: playlist_locator
  cached_metadata :: cached_playlist_metadata
  durable_payload :: "playlist_single_durable_payload option"

record playlist_item =
  item_id :: playlist_item_id
  local_fingerprint :: "local_source_fingerprint option"
  item_payload :: playlist_item_payload

definition into_item :: "playlist_item_draft \<Rightarrow> playlist_item_id \<Rightarrow> playlist_item" where
  "into_item d i =
     \<lparr>item_id = i, local_fingerprint = draft_fingerprint d,
      item_payload = \<lparr>locator = draft_locator d, cached_metadata = draft_metadata d,
                      durable_payload = draft_payload d\<rparr>\<rparr>"

definition replace_local_cache ::
    "local_source_fingerprint option \<Rightarrow> cached_playlist_metadata \<Rightarrow> playlist_item \<Rightarrow>
     playlist_item" where
  "replace_local_cache fp metadata it =
     it\<lparr>local_fingerprint := fp,
        item_payload := (item_payload it)\<lparr>cached_metadata := metadata\<rparr>\<rparr>"

record playlist_compound_part =
  part_group_id :: playlist_compound_group_id
  part_ordinal :: u32
  part_item :: playlist_item

record playlist_compound_group =
  group_id :: playlist_compound_group_id
  provenance_locator :: playlist_locator
  cached_summary :: cached_playlist_metadata
  group_parts :: "playlist_compound_part list"
  group_durable_payload :: "playlist_compound_durable_payload option"

record playlist_compound_group_draft =
  gdraft_provenance_locator :: playlist_locator
  gdraft_cached_summary :: cached_playlist_metadata
  gdraft_parts :: "playlist_item_draft list"
  gdraft_durable_payload :: "playlist_compound_durable_payload option"

datatype empty_playlist_compound_draft = EmptyPlaylistCompoundDraft

definition compound_group_draft_new ::
    "playlist_locator \<Rightarrow> cached_playlist_metadata \<Rightarrow> playlist_item_draft list \<Rightarrow>
     empty_playlist_compound_draft + playlist_compound_group_draft" where
  "compound_group_draft_new loc summary parts =
     (if parts = [] then Inl EmptyPlaylistCompoundDraft
      else Inr \<lparr>gdraft_provenance_locator = loc, gdraft_cached_summary = summary,
                gdraft_parts = parts, gdraft_durable_payload = None\<rparr>)"

datatype playlist_entry_draft =
    DraftSingle playlist_item_draft
  | DraftCompound playlist_compound_group_draft

fun draft_retained_item_count :: "playlist_entry_draft \<Rightarrow> nat" where
  "draft_retained_item_count (DraftSingle _) = 1"
| "draft_retained_item_count (DraftCompound g) = length (gdraft_parts g)"

fun draft_is_compound :: "playlist_entry_draft \<Rightarrow> bool" where
  "draft_is_compound (DraftSingle _) = False"
| "draft_is_compound (DraftCompound _) = True"

text \<open>The only constructor of a compound draft rejects an empty part list.\<close>

fun draft_wf :: "playlist_entry_draft \<Rightarrow> bool" where
  "draft_wf (DraftSingle _) = True"
| "draft_wf (DraftCompound g) = (gdraft_parts g \<noteq> [])"

definition ordinal_from_zero_based :: "nat \<Rightarrow> u32 option" where
  "ordinal_from_zero_based index =
     (if index < 2 ^ 32 \<and> index + 1 < 2 ^ 32 then Some (of_nat (index + 1)) else None)"

fun group_parts_from ::
    "playlist_compound_group_id \<Rightarrow> nat \<Rightarrow> (playlist_item_draft \<times> playlist_item_id) list \<Rightarrow>
     playlist_compound_part list run" where
  "group_parts_from g index [] = Some []"
| "group_parts_from g index ((d, i) # rest) =
     (case ordinal_from_zero_based index of
        None \<Rightarrow> None
      | Some ordinal \<Rightarrow>
          map_option
            (Cons \<lparr>part_group_id = g, part_ordinal = ordinal, part_item = into_item d i\<rparr>)
            (group_parts_from g (Suc index) rest))"

definition group_from_draft ::
    "playlist_compound_group_draft \<Rightarrow> playlist_compound_group_id \<Rightarrow> playlist_item_id list \<Rightarrow>
     playlist_compound_group run" where
  "group_from_draft d g ids =
     map_option
       (\<lambda>parts. \<lparr>group_id = g, provenance_locator = gdraft_provenance_locator d,
                 cached_summary = gdraft_cached_summary d, group_parts = parts,
                 group_durable_payload = gdraft_durable_payload d\<rparr>)
       (group_parts_from g 0 (zip (gdraft_parts d) ids))"

datatype playlist_entry =
    Single playlist_item
  | Compound playlist_compound_group

fun entry_id :: "playlist_entry \<Rightarrow> playlist_entry_id" where
  "entry_id (Single it) = EntrySingle (item_id it)"
| "entry_id (Compound g) = EntryCompound (group_id g)"

fun entry_playable_items :: "playlist_entry \<Rightarrow> playlist_item list" where
  "entry_playable_items (Single it) = [it]"
| "entry_playable_items (Compound g) = map part_item (group_parts g)"

fun entry_retained_item_count :: "playlist_entry \<Rightarrow> nat" where
  "entry_retained_item_count (Single _) = 1"
| "entry_retained_item_count (Compound g) = length (group_parts g)"

fun as_compound :: "playlist_entry \<Rightarrow> playlist_compound_group option" where
  "as_compound (Single _) = None"
| "as_compound (Compound g) = Some g"

fun for_each_playable_item_mut ::
    "(playlist_item \<Rightarrow> playlist_item) \<Rightarrow> playlist_entry \<Rightarrow> playlist_entry" where
  "for_each_playable_item_mut f (Single it) = Single (f it)"
| "for_each_playable_item_mut f (Compound g) =
     Compound (g\<lparr>group_parts := map (\<lambda>p. p\<lparr>part_item := f (part_item p)\<rparr>) (group_parts g)\<rparr>)"

subsection \<open>Restore records\<close>

record restored_playlist_item =
  restored_item_id :: playlist_item_id
  restored_item_draft :: playlist_item_draft

record restored_playlist_compound_group =
  restored_group_id :: playlist_compound_group_id
  restored_group_draft :: playlist_compound_group_draft
  restored_part_item_ids :: "playlist_item_id list"

datatype restored_playlist_compound_group_error = PartIdentityCountMismatch nat nat

definition restored_compound_group_new ::
    "playlist_compound_group_id \<Rightarrow> playlist_compound_group_draft \<Rightarrow> playlist_item_id list \<Rightarrow>
     restored_playlist_compound_group_error + restored_playlist_compound_group" where
  "restored_compound_group_new g d ids =
     (if length (gdraft_parts d) \<noteq> length ids
      then Inl (PartIdentityCountMismatch (length (gdraft_parts d)) (length ids))
      else Inr \<lparr>restored_group_id = g, restored_group_draft = d, restored_part_item_ids = ids\<rparr>)"

datatype restored_playlist_entry =
    RestoredSingle restored_playlist_item
  | RestoredCompound restored_playlist_compound_group

fun restored_retained_item_count :: "restored_playlist_entry \<Rightarrow> nat" where
  "restored_retained_item_count (RestoredSingle _) = 1"
| "restored_retained_item_count (RestoredCompound g) = length (restored_part_item_ids g)"

fun restored_item_ids :: "restored_playlist_entry \<Rightarrow> playlist_item_id list" where
  "restored_item_ids (RestoredSingle it) = [restored_item_id it]"
| "restored_item_ids (RestoredCompound g) = restored_part_item_ids g"

fun restored_compound_group_id :: "restored_playlist_entry \<Rightarrow> playlist_compound_group_id option" where
  "restored_compound_group_id (RestoredSingle _) = None"
| "restored_compound_group_id (RestoredCompound g) = Some (restored_group_id g)"

fun restored_into_entry :: "restored_playlist_entry \<Rightarrow> playlist_entry run" where
  "restored_into_entry (RestoredSingle it) =
     Some (Single (into_item (restored_item_draft it) (restored_item_id it)))"
| "restored_into_entry (RestoredCompound g) =
     map_option Compound
       (group_from_draft (restored_group_draft g) (restored_group_id g) (restored_part_item_ids g))"

text \<open>What the constructors of the restore records guarantee.\<close>

fun restored_wf :: "restored_playlist_entry \<Rightarrow> bool" where
  "restored_wf (RestoredSingle it) = (item_raw (restored_item_id it) \<noteq> 0)"
| "restored_wf (RestoredCompound g) =
     (gdraft_parts (restored_group_draft g) \<noteq> []
      \<and> length (gdraft_parts (restored_group_draft g)) = length (restored_part_item_ids g)
      \<and> group_raw (restored_group_id g) \<noteq> 0
      \<and> (\<forall>i \<in> set (restored_part_item_ids g). item_raw i \<noteq> 0))"

section \<open>Projections of a list of entries\<close>

definition iter_playable_items :: "playlist_entry list \<Rightarrow> playlist_item list" where
  "iter_playable_items es = concat (map entry_playable_items es)"

definition iter_playable_ids :: "playlist_entry list \<Rightarrow> playlist_item_id list" where
  "iter_playable_ids es = map item_id (iter_playable_items es)"

definition iter_top_level_entry_ids :: "playlist_entry list \<Rightarrow> playlist_entry_id list" where
  "iter_top_level_entry_ids es = map entry_id es"

definition retained_item_count :: "playlist_entry list \<Rightarrow> nat" where
  "retained_item_count es = sum_list (map entry_retained_item_count es)"

definition item_lookup :: "playlist_entry list \<Rightarrow> playlist_item_id \<Rightarrow> playlist_item option" where
  "item_lookup es i = List.find (\<lambda>it. item_id it = i) (iter_playable_items es)"

definition top_level_entry ::
    "playlist_entry list \<Rightarrow> playlist_entry_id \<Rightarrow> playlist_entry option" where
  "top_level_entry es e = List.find (\<lambda>x. entry_id x = e) es"

fun structural_entry_id_for_item ::
    "playlist_entry list \<Rightarrow> playlist_item_id \<Rightarrow> playlist_entry_id option" where
  "structural_entry_id_for_item [] i = None"
| "structural_entry_id_for_item (Single it # es) i =
     (if item_id it = i then Some (EntrySingle (item_id it))
      else structural_entry_id_for_item es i)"
| "structural_entry_id_for_item (Compound g # es) i =
     (if \<exists>p \<in> set (group_parts g). item_id (part_item p) = i then Some (EntryCompound (group_id g))
      else structural_entry_id_for_item es i)"

definition canonical_index_of :: "playlist_entry list \<Rightarrow> playlist_item_id \<Rightarrow> nat option" where
  "canonical_index_of es i = position (\<lambda>c. c = i) (iter_playable_ids es)"

definition first_playable_item_id ::
    "playlist_entry list \<Rightarrow> playlist_entry_id \<Rightarrow> playlist_item_id option" where
  "first_playable_item_id es e =
     (case top_level_entry es e of
        None \<Rightarrow> None
      | Some (Single it) \<Rightarrow> Some (item_id it)
      | Some (Compound g) \<Rightarrow>
          (case group_parts g of [] \<Rightarrow> None | p # _ \<Rightarrow> Some (item_id (part_item p))))"

text \<open>\<open>find\<close> then \<open>next\<close> on the same iterator: the element after the first match.\<close>

fun element_after :: "('a \<Rightarrow> bool) \<Rightarrow> 'a list \<Rightarrow> 'a option" where
  "element_after p [] = None"
| "element_after p (x # xs) =
     (if p x then (case xs of [] \<Rightarrow> None | y # _ \<Rightarrow> Some y) else element_after p xs)"

definition next_playable_item_id_in_entry ::
    "playlist_entry list \<Rightarrow> playlist_item_id \<Rightarrow> playlist_item_id option" where
  "next_playable_item_id_in_entry es i =
     (case structural_entry_id_for_item es i of
        None \<Rightarrow> None
      | Some owner \<Rightarrow>
          (case top_level_entry es owner of
             None \<Rightarrow> None
           | Some (Single _) \<Rightarrow> None
           | Some (Compound g) \<Rightarrow>
               map_option (\<lambda>p. item_id (part_item p))
                 (element_after (\<lambda>p. item_id (part_item p) = i) (group_parts g))))"

definition retained_entry_ids_for_items ::
    "playlist_entry list \<Rightarrow> playlist_item_id set \<Rightarrow> playlist_entry_id set" where
  "retained_entry_ids_for_items es kept =
     set (map entry_id
       (filter (\<lambda>e. filter (\<lambda>it. item_id it \<in> kept) (entry_playable_items e) \<noteq> []) es))"

datatype structural_entry_lookup_error =
    LookupNotFound
  | LookupCompoundPart playlist_item_id playlist_entry_id

definition compound_owner ::
    "playlist_entry list \<Rightarrow> playlist_item_id \<Rightarrow> playlist_entry_id option" where
  "compound_owner es i =
     map_option (\<lambda>g. EntryCompound (group_id g))
       (List.find (\<lambda>g. \<exists>p \<in> set (group_parts g). item_id (part_item p) = i)
         (List.map_filter as_compound es))"

definition resolve_top_level_entry_index ::
    "playlist_entry list \<Rightarrow> playlist_entry_id \<Rightarrow> structural_entry_lookup_error + nat" where
  "resolve_top_level_entry_index es e =
     (case position (\<lambda>x. entry_id x = e) es of
        Some index \<Rightarrow> Inr index
      | None \<Rightarrow>
          (case e of
             EntryCompound _ \<Rightarrow> Inl LookupNotFound
           | EntrySingle part \<Rightarrow>
               (case compound_owner es part of
                  Some owner \<Rightarrow> Inl (LookupCompoundPart part owner)
                | None \<Rightarrow> Inl LookupNotFound)))"

fun compound_ids :: "playlist_entry list \<Rightarrow> playlist_compound_group_id list" where
  "compound_ids [] = []"
| "compound_ids (Single _ # es) = compound_ids es"
| "compound_ids (Compound g # es) = group_id g # compound_ids es"

subsection \<open>Well-formed entries\<close>

text \<open>A committed group is non-empty and its parts carry its identity and their one-based ordinal.\<close>

fun entry_wf :: "playlist_entry \<Rightarrow> bool" where
  "entry_wf (Single _) = True"
| "entry_wf (Compound g) =
     (group_parts g \<noteq> []
      \<and> map part_group_id (group_parts g) = replicate (length (group_parts g)) (group_id g)
      \<and> map (\<lambda>p. unat (part_ordinal p)) (group_parts g) = map Suc [0..<length (group_parts g)])"

definition entries_wf :: "playlist_entry list \<Rightarrow> bool" where
  "entries_wf es \<longleftrightarrow>
     (\<forall>e \<in> set es. entry_wf e) \<and> distinct (iter_playable_ids es) \<and> distinct (compound_ids es)"

section \<open>Facts about the projections\<close>

lemma iter_playable_ids_simps [simp]:
  "iter_playable_ids [] = []"
  "iter_playable_ids (e # es) = map item_id (entry_playable_items e) @ iter_playable_ids es"
  "iter_playable_ids (es @ fs) = iter_playable_ids es @ iter_playable_ids fs"
  by (simp_all add: iter_playable_ids_def iter_playable_items_def)

lemma compound_ids_append [simp]: "compound_ids (es @ fs) = compound_ids es @ compound_ids fs"
  by (induction es rule: compound_ids.induct) auto

lemma iter_playable_ids_concat:
  "iter_playable_ids es = concat (map (\<lambda>e. map item_id (entry_playable_items e)) es)"
  by (induction es) auto

lemma set_iter_playable_ids:
  "set (iter_playable_ids es) = (\<Union>e \<in> set es. item_id ` set (entry_playable_items e))"
  by (induction es) auto

lemma set_compound_ids: "set (compound_ids es) = {g. EntryCompound g \<in> entry_id ` set es}"
  by (induction es rule: compound_ids.induct) auto

lemma length_entry_playable_items [simp]:
  "length (entry_playable_items e) = entry_retained_item_count e"
  by (cases e) auto

lemma length_iter_playable_ids: "length (iter_playable_ids es) = retained_item_count es"
  by (induction es) (auto simp: retained_item_count_def)

lemma retained_item_count_simps [simp]:
  "retained_item_count [] = 0"
  "retained_item_count (e # es) = entry_retained_item_count e + retained_item_count es"
  "retained_item_count (es @ fs) = retained_item_count es + retained_item_count fs"
  by (simp_all add: retained_item_count_def)

text \<open>The projections only depend on the order up to permutation.\<close>

lemma mset_iter_playable_ids:
  "mset es = mset fs \<Longrightarrow> mset (iter_playable_ids es) = mset (iter_playable_ids fs)"
proof -
  have "mset (iter_playable_ids es)
      = \<Sum>\<^sub># (image_mset (\<lambda>e. mset (map item_id (entry_playable_items e))) (mset es))" for es
    by (induction es) auto
  then show "mset es = mset fs \<Longrightarrow> ?thesis" by simp
qed

lemma mset_compound_ids:
  "mset es = mset fs \<Longrightarrow> mset (compound_ids es) = mset (compound_ids fs)"
proof -
  have "mset (compound_ids es)
      = \<Sum>\<^sub># (image_mset (\<lambda>e. case e of Single _ \<Rightarrow> {#} | Compound g \<Rightarrow> {# group_id g #}) (mset es))" for es
    by (induction es rule: compound_ids.induct) auto
  then show "mset es = mset fs \<Longrightarrow> ?thesis" by simp
qed

lemma mset_retained_item_count:
  "mset es = mset fs \<Longrightarrow> retained_item_count es = retained_item_count fs"
  by (metis mset_map retained_item_count_def sum_mset_sum_list)

lemma entries_wf_mset:
  assumes "mset es = mset fs"
  shows "entries_wf es \<longleftrightarrow> entries_wf fs"
  using assms mset_eq_setD [OF assms] mset_iter_playable_ids [OF assms] mset_compound_ids [OF assms]
  by (simp add: entries_wf_def) (metis mset_eq_imp_distinct_iff)

lemma entries_wf_Nil [simp]: "entries_wf []"
  by (simp add: entries_wf_def)

lemma entries_wf_append:
  "entries_wf (es @ fs) \<longleftrightarrow> entries_wf es \<and> entries_wf fs
   \<and> set (iter_playable_ids es) \<inter> set (iter_playable_ids fs) = {}
   \<and> set (compound_ids es) \<inter> set (compound_ids fs) = {}"
  by (auto simp: entries_wf_def)

lemma entries_wf_Cons:
  "entries_wf (e # es) \<Longrightarrow> entries_wf es \<and> entry_wf e
     \<and> item_id ` set (entry_playable_items e) \<inter> set (iter_playable_ids es) = {}"
  by (cases e) (auto simp: entries_wf_def)

lemma entries_wf_filter: "entries_wf es \<Longrightarrow> entries_wf (filter P es)"
proof (induction es)
  case Nil
  then show ?case by simp
next
  case (Cons e es)
  have "set (iter_playable_ids (filter P es)) \<subseteq> set (iter_playable_ids es)"
    and "set (compound_ids (filter P es)) \<subseteq> set (compound_ids es)"
    by (auto simp: set_iter_playable_ids set_compound_ids)
  then show ?case
    using Cons entries_wf_append [of "[e]" es] entries_wf_append [of "[e]" "filter P es"]
    by fastforce
qed

lemma entry_ids_nonempty: "entry_wf e \<Longrightarrow> entry_playable_items e \<noteq> []"
  by (cases e) auto

lemma iter_playable_ids_empty_iff:
  "entries_wf es \<Longrightarrow> iter_playable_ids es = [] \<longleftrightarrow> es = []"
  by (cases es) (auto simp: entry_ids_nonempty dest: entries_wf_Cons)

lemma entry_id_eq_Single: "entry_id f = EntrySingle i \<longleftrightarrow> (\<exists>it. f = Single it \<and> item_id it = i)"
  by (cases f) auto

lemma entry_id_eq_Compound: "entry_id f = EntryCompound g \<longleftrightarrow> (\<exists>h. f = Compound h \<and> group_id h = g)"
  by (cases f) auto

lemma distinct_entry_ids: "entries_wf es \<Longrightarrow> distinct (iter_top_level_entry_ids es)"
  unfolding iter_top_level_entry_ids_def
proof (induction es)
  case Nil
  then show ?case by simp
next
  case (Cons e es)
  have "entry_id e \<notin> entry_id ` set es"
  proof
    assume "entry_id e \<in> entry_id ` set es"
    then obtain f where f: "f \<in> set es" "entry_id e = entry_id f" by auto
    show False
    proof (cases e)
      case (Single it)
      with f(2) obtain jt where "f = Single jt" "item_id jt = item_id it"
        using entry_id_eq_Single [of f "item_id it"] by auto
      with f(1) Single Cons.prems show False
        by (auto simp: entries_wf_def set_iter_playable_ids)
    next
      case (Compound g)
      with f(2) obtain h where "f = Compound h" "group_id h = group_id g"
        using entry_id_eq_Compound [of f "group_id g"] by auto
      with f(1) Compound Cons.prems show False
        by (auto simp: entries_wf_def set_compound_ids image_iff)
    qed
  qed
  with Cons show ?case by (auto dest: entries_wf_Cons)
qed

lemma entry_id_inj:
  "entries_wf es \<Longrightarrow> e \<in> set es \<Longrightarrow> f \<in> set es \<Longrightarrow> entry_id e = entry_id f \<Longrightarrow> e = f"
  using distinct_entry_ids [of es] by (auto simp: iter_top_level_entry_ids_def distinct_map inj_on_def)

lemma top_level_entry_Some:
  "top_level_entry es k = Some e \<Longrightarrow> e \<in> set es \<and> entry_id e = k"
  by (auto simp: top_level_entry_def find_Some_iff)

lemma top_level_entry_mem:
  "entries_wf es \<Longrightarrow> e \<in> set es \<Longrightarrow> top_level_entry es (entry_id e) = Some e"
proof -
  assume wf: "entries_wf es" and e: "e \<in> set es"
  then obtain f where "top_level_entry es (entry_id e) = Some f"
    unfolding top_level_entry_def by (metis (mono_tags, lifting) find_None_iff not_None_eq)
  then show ?thesis using top_level_entry_Some entry_id_inj [OF wf _ e] by metis
qed

lemma structural_entry_id_for_item_Some:
  "structural_entry_id_for_item es i = Some k \<Longrightarrow>
   \<exists>e \<in> set es. entry_id e = k \<and> i \<in> item_id ` set (entry_playable_items e)"
  by (induction es i rule: structural_entry_id_for_item.induct) (auto split: if_splits)

lemma structural_entry_id_for_item_None:
  "structural_entry_id_for_item es i = None \<longleftrightarrow> i \<notin> set (iter_playable_ids es)"
  by (induction es i rule: structural_entry_id_for_item.induct) auto

lemma structural_entry_id_for_item_ex:
  "i \<in> set (iter_playable_ids es) \<Longrightarrow> \<exists>k. structural_entry_id_for_item es i = Some k"
  using structural_entry_id_for_item_None [of es i] by (cases "structural_entry_id_for_item es i") auto

lemma structural_entry_id_for_item_mem:
  assumes "entries_wf es" and "e \<in> set es" and "i \<in> item_id ` set (entry_playable_items e)"
  shows "structural_entry_id_for_item es i = Some (entry_id e)"
proof -
  have "i \<in> set (iter_playable_ids es)" using assms by (auto simp: set_iter_playable_ids)
  then obtain k where k: "structural_entry_id_for_item es i = Some k"
    using structural_entry_id_for_item_ex by blast
  then obtain f where f: "f \<in> set es" "entry_id f = k" "i \<in> item_id ` set (entry_playable_items f)"
    using structural_entry_id_for_item_Some by blast
  have "f = e"
  proof (rule ccontr)
    assume ne: "f \<noteq> e"
    obtain xs ys where es: "es = xs @ e # ys" using assms(2) by (auto simp: in_set_conv_decomp)
    then have "f \<in> set (xs @ ys)" using f(1) ne by auto
    moreover have "set (iter_playable_ids (xs @ ys)) \<inter> item_id ` set (entry_playable_items e) = {}"
      using assms(1) unfolding es by (auto simp: entries_wf_def)
    ultimately show False
      using f(3) assms(3) by (auto simp: set_iter_playable_ids)
  qed
  with k f show ?thesis by simp
qed

lemma item_lookup_None: "item_lookup es i = None \<longleftrightarrow> i \<notin> set (iter_playable_ids es)"
  by (auto simp: item_lookup_def find_None_iff iter_playable_ids_def)

lemma item_lookup_Some: "item_lookup es i = Some it \<Longrightarrow> i \<in> set (iter_playable_ids es) \<and> item_id it = i"
  by (auto simp: item_lookup_def find_Some_iff iter_playable_ids_def)

lemma first_playable_item_id_Some:
  "first_playable_item_id es k = Some i \<Longrightarrow>
   \<exists>e \<in> set es. entry_id e = k \<and> i \<in> item_id ` set (entry_playable_items e)"
  by (auto simp: first_playable_item_id_def split: option.splits playlist_entry.splits list.splits
      dest!: top_level_entry_Some)

lemma first_playable_item_id_mem:
  assumes "entries_wf es" and "e \<in> set es"
  shows "first_playable_item_id es (entry_id e) = Some (item_id (hd (entry_playable_items e)))"
proof -
  have "entry_wf e" using assms by (simp add: entries_wf_def)
  then show ?thesis
    using top_level_entry_mem [OF assms]
    by (cases e) (auto simp: first_playable_item_id_def hd_map split: list.splits)
qed

lemma element_after_Some: "element_after p xs = Some y \<Longrightarrow> y \<in> set xs"
  by (induction xs) (auto split: if_splits list.splits)

lemma next_playable_item_id_in_entry_Some:
  "next_playable_item_id_in_entry es i = Some j \<Longrightarrow>
   \<exists>e \<in> set es. structural_entry_id_for_item es i = Some (entry_id e)
     \<and> j \<in> item_id ` set (entry_playable_items e)"
  by (auto simp: next_playable_item_id_in_entry_def split: option.splits playlist_entry.splits
      dest!: top_level_entry_Some element_after_Some)

lemma iter_playable_ids_mem:
  "e \<in> set es \<Longrightarrow> i \<in> item_id ` set (entry_playable_items e) \<Longrightarrow> i \<in> set (iter_playable_ids es)"
  by (auto simp: set_iter_playable_ids)

lemma retained_entry_ids_subset:
  "retained_entry_ids_for_items es kept \<subseteq> set (iter_top_level_entry_ids es)"
  by (auto simp: retained_entry_ids_for_items_def iter_top_level_entry_ids_def)

lemma canonical_index_of_ex:
  "i \<in> set (iter_playable_ids es) \<longleftrightarrow> (\<exists>n. canonical_index_of es i = Some n)"
  by (simp add: canonical_index_of_def position_Some_iff_ex)

lemma canonical_index_of_SomeD:
  "canonical_index_of es i = Some n \<Longrightarrow> n < retained_item_count es \<and> iter_playable_ids es ! n = i"
  using position_SomeD [of "\<lambda>c. c = i" "iter_playable_ids es" n]
  by (simp add: canonical_index_of_def length_iter_playable_ids)

lemma resolve_Inr:
  "resolve_top_level_entry_index es k = Inr n \<Longrightarrow> n < length es \<and> entry_id (es ! n) = k"
  by (auto simp: resolve_top_level_entry_index_def split: option.splits playlist_entry_id.splits
      dest: position_SomeD)

lemma resolve_Inl:
  "resolve_top_level_entry_index es k = Inl e \<Longrightarrow> k \<notin> set (iter_top_level_entry_ids es)"
  by (auto simp: resolve_top_level_entry_index_def iter_top_level_entry_ids_def position_None_iff
      split: option.splits playlist_entry_id.splits)

lemma resolve_ex:
  "k \<in> set (iter_top_level_entry_ids es) \<Longrightarrow> \<exists>n. resolve_top_level_entry_index es k = Inr n"
  using resolve_Inl by (cases "resolve_top_level_entry_index es k") blast+

subsection \<open>Building entries from drafts\<close>

lemma group_parts_from_ex:
  "index + length ps < 2 ^ 32 \<Longrightarrow>
   \<exists>parts. group_parts_from g index ps = Some parts
     \<and> map part_group_id parts = replicate (length ps) g
     \<and> map (\<lambda>p. unat (part_ordinal p)) parts = map Suc [index..<index + length ps]
     \<and> map (\<lambda>p. item_id (part_item p)) parts = map snd ps"
proof (induction g index ps rule: group_parts_from.induct)
  case (1 g index)
  then show ?case by simp
next
  case (2 g index d i rest)
  then have fit: "index < 2 ^ 32" "index + 1 < 2 ^ 32" by auto
  then have o: "ordinal_from_zero_based index = Some (of_nat (index + 1))"
    by (simp add: ordinal_from_zero_based_def)
  have u: "unat (of_nat (index + 1) :: u32) = Suc index"
    using fit(2) by (simp add: unat_of_nat del: of_nat_add of_nat_Suc)
  have "Suc index + length rest < 2 ^ 32" using "2.prems" by simp
  from "2.IH" [OF o this] obtain parts where
    "group_parts_from g (Suc index) rest = Some parts"
    "map part_group_id parts = replicate (length rest) g"
    "map (\<lambda>p. unat (part_ordinal p)) parts = map Suc [Suc index..<Suc index + length rest]"
    "map (\<lambda>p. item_id (part_item p)) parts = map snd rest" by blast
  moreover have "[index..<index + length ((d, i) # rest)] = index # [Suc index..<Suc index + length rest]"
    by (simp add: upt_conv_Cons del: upt_Suc)
  ultimately show ?case using o u
    by (simp add: into_item_def del: of_nat_add of_nat_Suc upt_Suc)
qed

lemma group_from_draft_ex:
  assumes "length (gdraft_parts d) = length ids" and "length ids < 2 ^ 32" and "gdraft_parts d \<noteq> []"
  shows "\<exists>grp. group_from_draft d g ids = Some grp \<and> group_id grp = g
    \<and> entry_wf (Compound grp) \<and> map (\<lambda>p. item_id (part_item p)) (group_parts grp) = ids"
proof -
  have len: "length (zip (gdraft_parts d) ids) = length ids" using assms(1) by simp
  from group_parts_from_ex [of 0 "zip (gdraft_parts d) ids" g] obtain parts where
    p: "group_parts_from g 0 (zip (gdraft_parts d) ids) = Some parts"
    "map part_group_id parts = replicate (length ids) g"
    "map (\<lambda>p. unat (part_ordinal p)) parts = map Suc [0..<length ids]"
    "map (\<lambda>p. item_id (part_item p)) parts = ids"
    using assms len by auto
  have "length parts = length ids" using p(4) by (metis length_map)
  with p assms show ?thesis by (auto simp: group_from_draft_def)
qed

lemma restored_into_entry_ex:
  assumes "restored_wf r" and "restored_retained_item_count r < 2 ^ 32"
  shows "\<exists>e. restored_into_entry r = Some e \<and> entry_wf e
    \<and> map item_id (entry_playable_items e) = restored_item_ids r
    \<and> (case restored_compound_group_id r of
         None \<Rightarrow> (\<exists>it. e = Single it)
       | Some g \<Rightarrow> (\<exists>grp. e = Compound grp \<and> group_id grp = g))"
proof (cases r)
  case (RestoredSingle it)
  then show ?thesis by (simp add: into_item_def)
next
  case (RestoredCompound g)
  with assms group_from_draft_ex [of "restored_group_draft g" "restored_part_item_ids g" "restored_group_id g"]
  show ?thesis by (auto simp: comp_def simp del: entry_wf.simps)
qed

subsection \<open>Metadata-only updates\<close>

lemma for_each_ids:
  assumes "\<And>it. item_id (f it) = item_id it"
  shows "entry_id (for_each_playable_item_mut f e) = entry_id e"
    and "map item_id (entry_playable_items (for_each_playable_item_mut f e))
       = map item_id (entry_playable_items e)"
    and "entry_wf (for_each_playable_item_mut f e) = entry_wf e"
    and "entry_retained_item_count (for_each_playable_item_mut f e) = entry_retained_item_count e"
  using assms by (cases e; simp add: comp_def)+

lemma for_each_entries:
  assumes "\<And>it. item_id (f it) = item_id it"
  shows "iter_top_level_entry_ids (map (for_each_playable_item_mut f) es) = iter_top_level_entry_ids es"
    and "iter_playable_ids (map (for_each_playable_item_mut f) es) = iter_playable_ids es"
    and "compound_ids (map (for_each_playable_item_mut f) es) = compound_ids es"
    and "entries_wf (map (for_each_playable_item_mut f) es) = entries_wf es"
proof -
  show ids: "iter_playable_ids (map (for_each_playable_item_mut f) es) = iter_playable_ids es"
    by (induction es) (auto simp: for_each_ids [OF assms])
  show cids: "compound_ids (map (for_each_playable_item_mut f) es) = compound_ids es"
    by (induction es rule: compound_ids.induct) auto
  show "iter_top_level_entry_ids (map (for_each_playable_item_mut f) es) = iter_top_level_entry_ids es"
    by (simp add: iter_top_level_entry_ids_def for_each_ids [OF assms])
  show "entries_wf (map (for_each_playable_item_mut f) es) = entries_wf es"
    using ids cids by (auto simp: entries_wf_def for_each_ids [OF assms])
qed

end
