(* ===== verification/Shuffle.thy ===== *)
theory Shuffle
  imports Playlist_Entry "HOL-Library.Sublist"
begin

text \<open>
  The shuffle traversal (playlist-core \<open>queue/shuffle/runtime.rs\<close> and \<open>types.rs\<close>): a factual
  history with a cursor, the set-like list of upcoming top-level entries, and the copy-on-write
  preview that a manual or automatic navigation walks before it is committed.
  The random number generator of the \<open>rand\<close> crate is a parameter: \<open>rng_shuffle\<close> is
  \<open>SliceRandom::shuffle\<close> on entry IDs, \<open>rng_range\<close> is \<open>random_range(lo..hi)\<close>; what the code
  relies on is \<open>rng_ok\<close>. Operations that read the queue take its list of entries.
\<close>

section \<open>Definitions\<close>

record 'r rng =
  rng_shuffle :: "'r \<Rightarrow> playlist_entry_id list \<Rightarrow> playlist_entry_id list \<times> 'r"
  rng_range :: "'r \<Rightarrow> nat \<Rightarrow> nat \<Rightarrow> nat \<times> 'r"

text \<open>Documented behaviour of \<open>rand\<close>: a shuffle permutes, a range draws an element of it.\<close>

definition rng_ok :: "'r rng \<Rightarrow> bool" where
  "rng_ok R \<longleftrightarrow>
     (\<forall>r xs. mset (fst (rng_shuffle R r xs)) = mset xs)
     \<and> (\<forall>r lo hi. lo < hi \<longrightarrow> lo \<le> fst (rng_range R r lo hi) \<and> fst (rng_range R r lo hi) < hi)"

datatype repeat_mode = StopAtEnd | RepeatQueue | RepeatOne

datatype manual_navigation_direction = NavNext | NavPrevious

definition MAX_SHUFFLE_HISTORY_ENTRIES :: nat where
  "MAX_SHUFFLE_HISTORY_ENTRIES = 1024"

record shuffle_traversal =
  history :: "playlist_item_id list"
  history_cursor :: "nat option"
  upcoming :: "playlist_entry_id list"

record shuffle_visit_identity =
  visit_item_id :: playlist_item_id
  visit_entry_id :: playlist_entry_id

record speculative_upcoming_step =
  step_item_id :: playlist_item_id
  consumed_entry_id :: "playlist_entry_id option"
  started_new_cycle :: bool

record shuffle_manual_preview =
  base_history :: "playlist_item_id list"
  base_history_cursor :: "nat option"
  logical_history_cursor :: "nat option"
  working_upcoming :: "playlist_entry_id list"
  upcoming_steps :: "speculative_upcoming_step list"

datatype shuffle_preview_step =
    StepTarget playlist_item_id
  | StepBoundary
  | StepPreviousFromPersistedIdle
  | StepReturnedToCommittedOrigin playlist_item_id

subsection \<open>The committed traversal\<close>

definition empty_idle :: shuffle_traversal where
  "empty_idle = \<lparr>history = [], history_cursor = None, upcoming = []\<rparr>"

definition fresh ::
    "'r rng \<Rightarrow> 'r \<Rightarrow> playlist_entry_id list \<Rightarrow> shuffle_visit_identity option \<Rightarrow>
     shuffle_traversal \<times> 'r" where
  "fresh R r canonical current =
     (let (shuffled, r') =
        rng_shuffle R r
          (filter (\<lambda>e. Some e \<noteq> map_option visit_entry_id current) canonical)
      in (\<lparr>history = (case current of None \<Rightarrow> [] | Some c \<Rightarrow> [visit_item_id c]),
           history_cursor = map_option (\<lambda>_. 0) current,
           upcoming = shuffled\<rparr>, r'))"

definition append_factual_visit :: "shuffle_traversal \<Rightarrow> playlist_item_id \<Rightarrow> shuffle_traversal" where
  "append_factual_visit t target =
     (let kept = take (case history_cursor t of None \<Rightarrow> 0 | Some cursor \<Rightarrow> cursor + 1) (history t);
          visited = kept @ [target];
          bounded = (if length visited > MAX_SHUFFLE_HISTORY_ENTRIES
                     then drop (length visited - MAX_SHUFFLE_HISTORY_ENTRIES) visited
                     else visited)
      in t\<lparr>history := bounded, history_cursor := Some (length bounded - 1)\<rparr>)"

definition remove_from_upcoming :: "shuffle_traversal \<Rightarrow> playlist_entry_id \<Rightarrow> shuffle_traversal" where
  "remove_from_upcoming t target = t\<lparr>upcoming := filter (\<lambda>e. e \<noteq> target) (upcoming t)\<rparr>"

definition commit_direct_transition ::
    "shuffle_traversal \<Rightarrow> shuffle_visit_identity \<Rightarrow> shuffle_traversal" where
  "commit_direct_transition t target =
     append_factual_visit (remove_from_upcoming t (visit_entry_id target)) (visit_item_id target)"

definition commit_history_cursor :: "shuffle_traversal \<Rightarrow> nat \<Rightarrow> shuffle_traversal" where
  "commit_history_cursor t cursor = t\<lparr>history_cursor := Some cursor\<rparr>"

text \<open>The random merge of old upcoming entries with shuffled new ones: one draw per element while
  both sides have elements left.\<close>

fun merge_loop ::
    "'r rng \<Rightarrow> 'r \<Rightarrow> playlist_entry_id list \<Rightarrow> playlist_entry_id list \<Rightarrow>
     playlist_entry_id list \<times> 'r" where
  "merge_loop R r [] [] = ([], r)"
| "merge_loop R r [] (n # ns) = (let (m, r') = merge_loop R r [] ns in (n # m, r'))"
| "merge_loop R r (p # ps) [] = (let (m, r') = merge_loop R r ps [] in (p # m, r'))"
| "merge_loop R r (p # ps) (n # ns) =
     (let old_remaining = Suc (length ps);
          new_remaining = Suc (length ns);
          (drawn, r1) = rng_range R r 0 (old_remaining + new_remaining)
      in if drawn < old_remaining
         then (let (m, r') = merge_loop R r1 ps (n # ns) in (p # m, r'))
         else (let (m, r') = merge_loop R r1 (p # ps) ns in (n # m, r')))"

definition merge_new_entries ::
    "'r rng \<Rightarrow> 'r \<Rightarrow> shuffle_traversal \<Rightarrow> playlist_entry_id list \<Rightarrow> shuffle_traversal \<times> 'r" where
  "merge_new_entries R r t new_ids =
     (if new_ids = [] then (t, r)
      else let (shuffled, r1) = rng_shuffle R r new_ids;
               (merged, r2) = merge_loop R r1 (upcoming t) shuffled
           in (t\<lparr>upcoming := merged\<rparr>, r2))"

text \<open>\<open>cursor - removed\<close> is a \<open>usize\<close> subtraction: an underflow is a panic.\<close>

definition remove_entries_and_items ::
    "shuffle_traversal \<Rightarrow> playlist_entry_id set \<Rightarrow> playlist_item_id set \<Rightarrow>
     playlist_entry_id list \<Rightarrow> bool \<Rightarrow> shuffle_traversal run" where
  "remove_entries_and_items t removed_entries removed_items remaining current_was_removed =
     (let kept = filter (\<lambda>e. e \<notin> removed_entries) (upcoming t)
      in if current_was_removed then
           Some \<lparr>history = [], history_cursor = None,
                 upcoming = kept @ filter (\<lambda>e. e \<notin> set kept) remaining\<rparr>
         else
           let kept_history = filter (\<lambda>i. i \<notin> removed_items) (history t)
           in (case history_cursor t of
                 None \<Rightarrow> Some \<lparr>history = kept_history, history_cursor = None, upcoming = kept\<rparr>
               | Some cursor \<Rightarrow>
                   (let removed =
                      length (filter (\<lambda>i. i \<in> removed_items) (take (cursor + 1) (history t)))
                    in if removed \<le> cursor
                       then Some \<lparr>history = kept_history, history_cursor = Some (cursor - removed),
                                  upcoming = kept\<rparr>
                       else None)))"

definition make_idle :: "shuffle_traversal \<Rightarrow> playlist_entry_id list \<Rightarrow> shuffle_traversal" where
  "make_idle t canonical =
     (let kept = filter (\<lambda>e. e \<in> set canonical) (upcoming t)
      in \<lparr>history = [], history_cursor = None,
          upcoming = kept @ filter (\<lambda>e. e \<notin> set kept) canonical\<rparr>)"

definition swap_elements :: "nat \<Rightarrow> nat \<Rightarrow> 'a list \<Rightarrow> 'a list" where
  "swap_elements i j xs = xs[i := xs ! j, j := xs ! i]"

definition new_cycle ::
    "'r rng \<Rightarrow> 'r \<Rightarrow> playlist_entry_id list \<Rightarrow> playlist_entry_id option \<Rightarrow>
     playlist_entry_id list \<times> 'r" where
  "new_cycle R r canonical last_entry =
     (let (cycle, r1) = rng_shuffle R r canonical
      in if length cycle > 1 \<and> Some (cycle ! 0) = last_entry
         then (let (swap_index, r2) = rng_range R r1 1 (length cycle)
               in (swap_elements 0 swap_index cycle, r2))
         else (cycle, r1))"

definition shuffle_visit_identity_of ::
    "playlist_entry list \<Rightarrow> playlist_item_id \<Rightarrow> shuffle_visit_identity option" where
  "shuffle_visit_identity_of es i =
     map_option (\<lambda>e. \<lparr>visit_item_id = i, visit_entry_id = e\<rparr>) (structural_entry_id_for_item es i)"

subsection \<open>Strict restore of a persisted traversal\<close>

record shuffle_traversal_snapshot =
  snap_history :: "playlist_item_id list"
  snap_history_cursor :: "nat option"
  snap_upcoming :: "playlist_entry_id list"

datatype shuffle_traversal_restore_error =
    HistoryLimitExceeded nat nat
  | HistoryItemNotCommitted playlist_item_id
  | UpcomingEntryNotCommitted playlist_entry_id
  | DuplicateUpcomingEntry playlist_entry_id
  | InvalidHistoryCursor
  | CurrentDoesNotMatchHistory playlist_item_id
  | CurrentEntryPresentInUpcoming playlist_item_id playlist_entry_id
  | IdleUpcomingDoesNotCoverCanonicalQueue

definition shuffle_snapshot :: "shuffle_traversal \<Rightarrow> shuffle_traversal_snapshot" where
  "shuffle_snapshot t =
     \<lparr>snap_history = history t, snap_history_cursor = history_cursor t, snap_upcoming = upcoming t\<rparr>"

fun check_upcoming ::
    "playlist_entry_id set \<Rightarrow> playlist_entry_id set \<Rightarrow> playlist_entry_id list \<Rightarrow>
     shuffle_traversal_restore_error option" where
  "check_upcoming canonical seen [] = None"
| "check_upcoming canonical seen (e # es) =
     (if e \<notin> canonical then Some (UpcomingEntryNotCommitted e)
      else if e \<in> seen then Some (DuplicateUpcomingEntry e)
      else check_upcoming canonical (insert e seen) es)"

definition shuffle_restore ::
    "shuffle_traversal_snapshot \<Rightarrow> playlist_item_id list \<Rightarrow> playlist_entry_id list \<Rightarrow>
     playlist_item_id option \<Rightarrow> playlist_entry_id option \<Rightarrow>
     (shuffle_traversal_restore_error + shuffle_traversal) run" where
  "shuffle_restore s canonical_items canonical_entries current current_entry =
     (if length (snap_history s) > MAX_SHUFFLE_HISTORY_ENTRIES then
        Some (Inl (HistoryLimitExceeded (length (snap_history s)) MAX_SHUFFLE_HISTORY_ENTRIES))
      else (case List.find (\<lambda>i. i \<notin> set canonical_items) (snap_history s) of
        Some i \<Rightarrow> Some (Inl (HistoryItemNotCommitted i))
      | None \<Rightarrow>
     (case check_upcoming (set canonical_entries) {} (snap_upcoming s) of
        Some e \<Rightarrow> Some (Inl e)
      | None \<Rightarrow>
     (let restored = \<lparr>history = snap_history s, history_cursor = snap_history_cursor s,
                      upcoming = snap_upcoming s\<rparr>
      in case current of
        Some c \<Rightarrow>
          (case snap_history_cursor s of
             None \<Rightarrow> Some (Inl InvalidHistoryCursor)
           | Some cursor \<Rightarrow>
               if slice_get (snap_history s) cursor \<noteq> Some c
               then Some (Inl (CurrentDoesNotMatchHistory c))
               else (case current_entry of
                       None \<Rightarrow> None
                     | Some e \<Rightarrow>
                         if e \<in> set (snap_upcoming s)
                         then Some (Inl (CurrentEntryPresentInUpcoming c e))
                         else Some (Inr restored)))
      | None \<Rightarrow>
          if snap_history s \<noteq> [] \<or> snap_history_cursor s \<noteq> None
          then Some (Inl InvalidHistoryCursor)
          else if set (snap_upcoming s) \<noteq> set canonical_entries
          then Some (Inl IdleUpcomingDoesNotCoverCanonicalQueue)
          else Some (Inr restored)))))"

subsection \<open>The speculative preview\<close>

definition preview_new :: "shuffle_traversal \<Rightarrow> shuffle_manual_preview" where
  "preview_new t =
     \<lparr>base_history = history t, base_history_cursor = history_cursor t,
      logical_history_cursor = history_cursor t, working_upcoming = upcoming t,
      upcoming_steps = []\<rparr>"

definition last_step_item :: "shuffle_manual_preview \<Rightarrow> playlist_item_id option" where
  "last_step_item sp =
     (if upcoming_steps sp = [] then None else Some (step_item_id (last (upcoming_steps sp))))"

definition history_item_at_logical :: "shuffle_manual_preview \<Rightarrow> playlist_item_id option" where
  "history_item_at_logical sp =
     Option.bind (logical_history_cursor sp) (slice_get (base_history sp))"

definition option_or :: "'a option \<Rightarrow> 'a option \<Rightarrow> 'a option" where
  "option_or a b = (case a of Some x \<Rightarrow> Some x | None \<Rightarrow> b)"

definition latest_speculative_item ::
    "shuffle_manual_preview \<Rightarrow> playlist_item_id option \<Rightarrow> playlist_item_id option" where
  "latest_speculative_item sp committed =
     option_or (option_or (last_step_item sp) (history_item_at_logical sp)) committed"

definition push_step ::
    "shuffle_manual_preview \<Rightarrow> playlist_item_id \<Rightarrow> playlist_entry_id option \<Rightarrow> bool \<Rightarrow>
     shuffle_manual_preview" where
  "push_step sp i consumed started =
     sp\<lparr>upcoming_steps := upcoming_steps sp @
         [\<lparr>step_item_id = i, consumed_entry_id = consumed, started_new_cycle = started\<rparr>]\<rparr>"

fun pop_playable ::
    "playlist_entry list \<Rightarrow> playlist_entry_id list \<Rightarrow>
     (playlist_item_id \<times> playlist_entry_id \<times> playlist_entry_id list) option" where
  "pop_playable es [] = None"
| "pop_playable es (e # rest) =
     (case first_playable_item_id es e of
        None \<Rightarrow> pop_playable es rest
      | Some i \<Rightarrow> Some (i, e, rest))"

definition consume_upcoming ::
    "playlist_entry list \<Rightarrow> shuffle_manual_preview \<Rightarrow> bool \<Rightarrow>
     shuffle_preview_step \<times> shuffle_manual_preview" where
  "consume_upcoming es sp started =
     (case pop_playable es (working_upcoming sp) of
        Some (i, e, rest) \<Rightarrow>
          (StepTarget i, push_step (sp\<lparr>working_upcoming := rest\<rparr>) i (Some e) started)
      | None \<Rightarrow> (StepBoundary, sp\<lparr>working_upcoming := []\<rparr>))"

definition step_next ::
    "'r rng \<Rightarrow> 'r \<Rightarrow> shuffle_manual_preview \<Rightarrow> repeat_mode \<Rightarrow> playlist_entry list \<Rightarrow>
     playlist_entry_id list \<Rightarrow> playlist_item_id option \<Rightarrow>
     shuffle_preview_step \<times> shuffle_manual_preview \<times> 'r" where
  "step_next R r sp mode es canonical committed =
     (case (if upcoming_steps sp = [] then
              (case logical_history_cursor sp of
                 None \<Rightarrow> None
               | Some cursor \<Rightarrow>
                   map_option (\<lambda>i. (cursor + 1, i)) (slice_get (base_history sp) (cursor + 1)))
            else None) of
        Some (next_cursor, i) \<Rightarrow>
          (if Some next_cursor = base_history_cursor sp
           then StepReturnedToCommittedOrigin i else StepTarget i,
           sp\<lparr>logical_history_cursor := Some next_cursor\<rparr>, r)
      | None \<Rightarrow>
     (case Option.bind (latest_speculative_item sp committed)
             (next_playable_item_id_in_entry es) of
        Some part \<Rightarrow> (StepTarget part, push_step sp part None False, r)
      | None \<Rightarrow>
          if working_upcoming sp = [] then
            if mode \<noteq> RepeatQueue then (StepBoundary, sp, r)
            else (case latest_speculative_item sp committed of
                    None \<Rightarrow> (StepBoundary, sp, r)
                  | Some last_item \<Rightarrow>
                      (let (cycle, r') =
                         new_cycle R r canonical (structural_entry_id_for_item es last_item);
                           (step, sp') = consume_upcoming es (sp\<lparr>working_upcoming := cycle\<rparr>) True
                       in (step, sp', r')))
          else (let (step, sp') = consume_upcoming es sp False in (step, sp', r))))"

definition target_at_logical_history_cursor_or_origin ::
    "shuffle_manual_preview \<Rightarrow> shuffle_preview_step run" where
  "target_at_logical_history_cursor_or_origin sp =
     (case logical_history_cursor sp of
        None \<Rightarrow> Some StepPreviousFromPersistedIdle
      | Some cursor \<Rightarrow>
          map_option
            (if Some cursor = base_history_cursor sp
             then StepReturnedToCommittedOrigin else StepTarget)
            (slice_get (base_history sp) cursor))"

definition undo_last_step :: "shuffle_manual_preview \<Rightarrow> shuffle_manual_preview" where
  "undo_last_step sp =
     (let step = last (upcoming_steps sp);
          sp' = sp\<lparr>upcoming_steps := butlast (upcoming_steps sp)\<rparr>
      in if started_new_cycle step then sp'\<lparr>working_upcoming := []\<rparr>
         else (case consumed_entry_id step of
                 Some e \<Rightarrow> sp'\<lparr>working_upcoming := e # working_upcoming sp\<rparr>
               | None \<Rightarrow> sp'))"

definition step_previous ::
    "shuffle_manual_preview \<Rightarrow> (shuffle_preview_step \<times> shuffle_manual_preview) run" where
  "step_previous sp =
     (if upcoming_steps sp \<noteq> [] then
        let sp' = undo_last_step sp
        in if upcoming_steps sp' \<noteq> []
           then Some (StepTarget (step_item_id (last (upcoming_steps sp'))), sp')
           else map_option (\<lambda>step. (step, sp')) (target_at_logical_history_cursor_or_origin sp')
      else (case logical_history_cursor sp of
              None \<Rightarrow> Some (StepPreviousFromPersistedIdle, sp)
            | Some cursor \<Rightarrow>
                if cursor = 0 then Some (StepBoundary, sp)
                else let sp' = sp\<lparr>logical_history_cursor := Some (cursor - 1)\<rparr>
                     in map_option
                          (\<lambda>i. (if Some (cursor - 1) = base_history_cursor sp
                                 then StepReturnedToCommittedOrigin i else StepTarget i, sp'))
                          (slice_get (base_history sp) (cursor - 1))))"

definition preview_step ::
    "'r rng \<Rightarrow> 'r \<Rightarrow> shuffle_manual_preview \<Rightarrow> manual_navigation_direction \<Rightarrow> repeat_mode \<Rightarrow>
     playlist_entry list \<Rightarrow> playlist_entry_id list \<Rightarrow> playlist_item_id option \<Rightarrow>
     (shuffle_preview_step \<times> shuffle_manual_preview \<times> 'r) run" where
  "preview_step R r sp direction mode es canonical committed =
     (case direction of
        NavNext \<Rightarrow> Some (step_next R r sp mode es canonical committed)
      | NavPrevious \<Rightarrow> map_option (\<lambda>(step, sp'). (step, sp', r)) (step_previous sp))"

definition select_source_order_target ::
    "playlist_entry list \<Rightarrow> shuffle_manual_preview \<Rightarrow> playlist_item_id \<Rightarrow>
     shuffle_manual_preview run" where
  "select_source_order_target es sp target =
     map_option
       (\<lambda>e. push_step (sp\<lparr>working_upcoming := filter (\<lambda>x. x \<noteq> e) (working_upcoming sp)\<rparr>)
              target (Some e) False)
       (structural_entry_id_for_item es target)"

definition commit_into ::
    "shuffle_manual_preview \<Rightarrow> playlist_item_id \<Rightarrow> shuffle_traversal run" where
  "commit_into sp target =
     (let t = \<lparr>history = base_history sp, history_cursor = base_history_cursor sp,
               upcoming = working_upcoming sp\<rparr>
      in if upcoming_steps sp = []
         then map_option (commit_history_cursor t) (logical_history_cursor sp)
         else Some (append_factual_visit t target))"

definition retained_cursor_after_filter ::
    "playlist_item_id list \<Rightarrow> nat option \<Rightarrow> playlist_item_id set \<Rightarrow> nat option" where
  "retained_cursor_after_filter hist cursor kept =
     (case cursor of
        None \<Rightarrow> None
      | Some c \<Rightarrow>
          (let n = length (filter (\<lambda>i. i \<in> kept) (take (usize_saturating_add c 1) hist))
           in if n = 0 then None else Some (n - 1)))"

definition retain_automatic_snapshot ::
    "shuffle_manual_preview \<Rightarrow> playlist_item_id set \<Rightarrow> playlist_entry_id set \<Rightarrow>
     shuffle_manual_preview" where
  "retain_automatic_snapshot sp kept_items kept_entries =
     \<lparr>base_history = filter (\<lambda>i. i \<in> kept_items) (base_history sp),
      base_history_cursor =
        retained_cursor_after_filter (base_history sp) (base_history_cursor sp) kept_items,
      logical_history_cursor =
        retained_cursor_after_filter (base_history sp) (logical_history_cursor sp) kept_items,
      working_upcoming = filter (\<lambda>e. e \<in> kept_entries) (working_upcoming sp),
      upcoming_steps = filter (\<lambda>s. step_item_id s \<in> kept_items) (upcoming_steps sp)\<rparr>"


section \<open>The invariant of a committed traversal\<close>

text \<open>
  Relative to the playable items \<open>I\<close> and the top-level entries \<open>E\<close> of the queue: the history is
  bounded and only names playable items, the upcoming entries are distinct committed entries, the
  cursor points at the current item, and an idle traversal has no history and still has every entry
  to come. The current item's entry may be among the upcoming ones: a manual Previous across a
  cycle boundary leaves it there.
\<close>

definition shuffle_wf ::
    "playlist_item_id set \<Rightarrow> playlist_entry_id set \<Rightarrow> playlist_item_id option \<Rightarrow>
     shuffle_traversal \<Rightarrow> bool" where
  "shuffle_wf I E current t \<longleftrightarrow>
     length (history t) \<le> MAX_SHUFFLE_HISTORY_ENTRIES
     \<and> set (history t) \<subseteq> I \<and> distinct (upcoming t) \<and> set (upcoming t) \<subseteq> E
     \<and> (case current of
          Some c \<Rightarrow> Option.bind (history_cursor t) (slice_get (history t)) = Some c
        | None \<Rightarrow> history t = [] \<and> history_cursor t = None \<and> set (upcoming t) = E)"

lemma bind_slice_get_Some [simp]:
  "Option.bind c (slice_get xs) = Some x \<longleftrightarrow> (\<exists>k < length xs. c = Some k \<and> xs ! k = x)"
  by (cases c) auto

lemma rng_shuffle_set:
  assumes "rng_ok R" and "rng_shuffle R r xs = (ys, r')"
  shows "mset ys = mset xs" and "set ys = set xs" and "distinct ys \<longleftrightarrow> distinct xs"
    and "length ys = length xs"
proof -
  show m: "mset ys = mset xs" using assms unfolding rng_ok_def by (metis fst_conv)
  show "set ys = set xs" "distinct ys \<longleftrightarrow> distinct xs" "length ys = length xs"
    using m mset_eq_setD mset_eq_imp_distinct_iff mset_eq_length by blast+
qed

lemma rng_range_bounds:
  "rng_ok R \<Longrightarrow> rng_range R r lo hi = (k, r') \<Longrightarrow> lo < hi \<Longrightarrow> lo \<le> k \<and> k < hi"
  unfolding rng_ok_def by (metis fst_conv)

lemma empty_idle_wf: "shuffle_wf {} {} None empty_idle"
  by (simp add: shuffle_wf_def empty_idle_def)

lemma fresh_wf:
  assumes "rng_ok R" and "distinct canonical"
    and "\<And>v. current = Some v \<Longrightarrow> visit_item_id v \<in> I"
    and "fresh R r canonical current = (t, r')"
  shows "shuffle_wf I (set canonical) (map_option visit_item_id current) t"
proof -
  obtain ys s where s: "rng_shuffle R r
      (filter (\<lambda>e. Some e \<noteq> map_option visit_entry_id current) canonical) = (ys, s)"
    by (cases "rng_shuffle R r (filter (\<lambda>e. Some e \<noteq> map_option visit_entry_id current) canonical)")
  note sh = rng_shuffle_set [OF assms(1) s]
  have t: "t = \<lparr>history = (case current of None \<Rightarrow> [] | Some c \<Rightarrow> [visit_item_id c]),
      history_cursor = map_option (\<lambda>_. 0) current, upcoming = ys\<rparr>"
    using assms(4) s by (simp add: fresh_def)
  have "distinct ys" and "set ys \<subseteq> set canonical" and "current = None \<Longrightarrow> set ys = set canonical"
    using sh(2,3) assms(2) by auto
  then show ?thesis
    using assms(3) by (cases current) (simp_all add: t shuffle_wf_def MAX_SHUFFLE_HISTORY_ENTRIES_def)
qed

lemma append_factual_visit_spec:
  shows "length (history (append_factual_visit t i)) \<le> MAX_SHUFFLE_HISTORY_ENTRIES"
    and "set (history (append_factual_visit t i)) \<subseteq> insert i (set (history t))"
    and "upcoming (append_factual_visit t i) = upcoming t"
    and "Option.bind (history_cursor (append_factual_visit t i))
           (slice_get (history (append_factual_visit t i))) = Some i"
  by (auto simp: append_factual_visit_def Let_def MAX_SHUFFLE_HISTORY_ENTRIES_def
      last_conv_nth [symmetric] nth_append dest: in_set_dropD in_set_takeD)

lemma commit_direct_transition_wf:
  assumes "shuffle_wf I E current t" and "visit_item_id v \<in> I"
  shows "shuffle_wf I E (Some (visit_item_id v)) (commit_direct_transition t v)"
  using assms append_factual_visit_spec [of "remove_from_upcoming t (visit_entry_id v)" "visit_item_id v"]
  by (auto simp: shuffle_wf_def commit_direct_transition_def remove_from_upcoming_def
      simp del: bind_slice_get_Some)

lemma merge_loop_spec:
  "merge_loop R r xs ys = (zs, r') \<Longrightarrow>
   mset zs = mset xs + mset ys \<and> subseq xs zs \<and> subseq ys zs"
  by (induction R r xs ys arbitrary: zs r' rule: merge_loop.induct)
    (fastforce split: prod.splits if_splits)+

lemma merge_new_entries_spec:
  assumes "rng_ok R" and "merge_new_entries R r t new = (t', r')"
  shows "mset (upcoming t') = mset (upcoming t) + mset new" and "subseq (upcoming t) (upcoming t')"
    and "history t' = history t" and "history_cursor t' = history_cursor t"
proof -
  obtain ys s where s: "rng_shuffle R r new = (ys, s)" by (cases "rng_shuffle R r new")
  obtain zs s' where z: "merge_loop R s (upcoming t) ys = (zs, s')"
    by (cases "merge_loop R s (upcoming t) ys")
  have t': "t' = (if new = [] then t else t\<lparr>upcoming := zs\<rparr>)"
    using assms(2) s z by (auto simp: merge_new_entries_def)
  note spec = merge_loop_spec [OF z] rng_shuffle_set(1) [OF assms(1) s]
  from spec show "mset (upcoming t') = mset (upcoming t) + mset new"
    by (auto simp: t')
  from spec show "subseq (upcoming t) (upcoming t')"
    by (auto simp: t')
  show "history t' = history t" and "history_cursor t' = history_cursor t"
    by (auto simp: t')
qed

lemma merge_new_entries_wf:
  assumes "rng_ok R" and "merge_new_entries R r t new = (t', r')" and "shuffle_wf I E current t"
    and "distinct new" and "set new \<inter> E = {}" and "I \<subseteq> J"
  shows "shuffle_wf J (E \<union> set new) current t'"
proof -
  note sp = merge_new_entries_spec [OF assms(1,2)]
  have "mset (upcoming t') = mset (upcoming t @ new)" using sp(1) by simp
  then have "set (upcoming t') = set (upcoming t) \<union> set new" and "distinct (upcoming t')"
    using mset_eq_set_distinct [of "upcoming t'" "upcoming t @ new"] assms(3-5)
    by (auto simp: shuffle_wf_def dest: mset_eq_setD)
  then show ?thesis
    using sp(3,4) assms(3,6) by (auto simp: shuffle_wf_def split: option.splits)
qed

text \<open>An element that a filter keeps is found at the number of kept elements before it.\<close>

lemma filter_nth_kept:
  assumes "k < length xs" and "P (xs ! k)"
  shows "length (filter P (take k xs)) < length (filter P xs)"
    and "filter P xs ! length (filter P (take k xs)) = xs ! k"
    and "length (filter P (take (Suc k) xs)) = Suc (length (filter P (take k xs)))"
proof -
  have xs: "xs = take k xs @ xs ! k # drop (Suc k) xs"
    using assms(1) by (rule id_take_nth_drop)
  have f: "filter P xs = filter P (take k xs) @ xs ! k # filter P (drop (Suc k) xs)"
    using assms(2) by (subst xs) simp
  show "length (filter P (take k xs)) < length (filter P xs)"
    and "filter P xs ! length (filter P (take k xs)) = xs ! k"
    by (simp_all add: f)
  show "length (filter P (take (Suc k) xs)) = Suc (length (filter P (take k xs)))"
    using assms by (simp add: take_Suc_conv_app_nth)
qed

lemma remove_entries_and_items_wf:
  assumes wf: "shuffle_wf I E current t"
    and removed: "removed \<longleftrightarrow> (\<exists>c. current = Some c \<and> c \<in> RI)"
    and remaining: "distinct remaining" "set remaining = E - RE"
  shows "\<exists>t'. remove_entries_and_items t RE RI remaining removed = Some t'
    \<and> shuffle_wf (I - RI) (E - RE) (if removed then None else current) t'"
proof (cases "removed \<or> history_cursor t = None")
  case True
  then show ?thesis
    using wf remaining removed
    by (auto simp: remove_entries_and_items_def shuffle_wf_def Let_def intro: le_trans [OF length_filter_le]
        split: option.splits)
next
  case False
  then obtain c k where c: "current = Some c" "c \<notin> RI" and k: "history_cursor t = Some k"
      "k < length (history t)" "history t ! k = c"
    using wf removed by (auto simp: shuffle_wf_def split: option.splits)
  let ?kept = "\<lambda>i. i \<notin> RI"
  note f = filter_nth_kept [OF k(2), of ?kept, unfolded k(3), OF c(2)]
  have "length (filter ?kept (take (Suc k) (history t)))
      + length (filter (\<lambda>i. i \<in> RI) (take (Suc k) (history t))) = Suc k"
    using sum_length_filter_compl [of ?kept "take (Suc k) (history t)"] k(2) by simp
  then have "length (filter (\<lambda>i. i \<in> RI) (take (Suc k) (history t))) \<le> k"
    and "k - length (filter (\<lambda>i. i \<in> RI) (take (Suc k) (history t)))
      = length (filter ?kept (take k (history t)))"
    using f(3) by linarith+
  moreover have "length (filter ?kept (history t)) \<le> MAX_SHUFFLE_HISTORY_ENTRIES"
    using wf le_trans [OF length_filter_le] by (auto simp: shuffle_wf_def)
  ultimately show ?thesis
    using False k f wf c by (auto simp: remove_entries_and_items_def shuffle_wf_def)
qed

lemma make_idle_wf:
  assumes "shuffle_wf I E current t" and "distinct canonical" and "set canonical = F"
  shows "shuffle_wf J F None (make_idle t canonical)"
  using assms by (auto simp: make_idle_def shuffle_wf_def Let_def)

lemma swap_elements_mset:
  "i < length xs \<Longrightarrow> j < length xs \<Longrightarrow> mset (swap_elements i j xs) = mset xs"
  by (simp add: swap_elements_def mset_swap)

lemma new_cycle_spec:
  assumes "rng_ok R" and "distinct canonical" and "new_cycle R r canonical last_entry = (c, r')"
  shows "mset c = mset canonical"
    and "1 < length canonical \<Longrightarrow> Some (c ! 0) \<noteq> last_entry"
proof -
  obtain ys s where s: "rng_shuffle R r canonical = (ys, s)"
    by (cases "rng_shuffle R r canonical")
  note sh = rng_shuffle_set [OF assms(1) s]
  have "mset c = mset canonical \<and> (1 < length canonical \<longrightarrow> Some (c ! 0) \<noteq> last_entry)"
  proof (cases "length ys > 1 \<and> Some (ys ! 0) = last_entry")
    case True
    obtain k s' where k: "rng_range R s 1 (length ys) = (k, s')"
      by (cases "rng_range R s 1 (length ys)")
    with rng_range_bounds [OF assms(1) k] True have kb: "1 \<le> k" "k < length ys" by auto
    then have pos: "0 < length ys" "k \<noteq> 0" by linarith+
    then have "ys ! k \<noteq> ys ! 0"
      using sh(3) assms(2) kb(2) nth_eq_iff_index_eq by blast
    then have "swap_elements 0 k ys ! 0 \<noteq> ys ! 0"
      using kb pos by (simp add: swap_elements_def)
    moreover have "c = swap_elements 0 k ys"
      using assms(3) s k True by (simp add: new_cycle_def)
    ultimately show ?thesis
      using swap_elements_mset [of 0 ys k] kb pos sh(1) True by auto
  next
    case False
    then have "c = ys" using assms(3) s unfolding new_cycle_def by (auto simp: Let_def)
    with False sh show ?thesis by auto
  qed
  then show "mset c = mset canonical"
    and "1 < length canonical \<Longrightarrow> Some (c ! 0) \<noteq> last_entry" by auto
qed


section \<open>Strict restore\<close>

lemma check_upcoming_None:
  "check_upcoming C seen es = None \<longleftrightarrow> distinct es \<and> set es \<subseteq> C \<and> set es \<inter> seen = {}"
  by (induction C seen es rule: check_upcoming.induct) auto

lemma shuffle_restore_Inr_iff:
  "shuffle_restore s items entries current entry = Some (Inr t) \<longleftrightarrow>
     length (snap_history s) \<le> MAX_SHUFFLE_HISTORY_ENTRIES
     \<and> List.find (\<lambda>i. i \<notin> set items) (snap_history s) = None
     \<and> check_upcoming (set entries) {} (snap_upcoming s) = None
     \<and> t = \<lparr>history = snap_history s, history_cursor = snap_history_cursor s,
            upcoming = snap_upcoming s\<rparr>
     \<and> (case current of
          Some c \<Rightarrow> (\<exists>k e. snap_history_cursor s = Some k \<and> slice_get (snap_history s) k = Some c
            \<and> entry = Some e \<and> e \<notin> set (snap_upcoming s))
        | None \<Rightarrow> snap_history s = [] \<and> snap_history_cursor s = None
            \<and> set (snap_upcoming s) = set entries)"
proof (cases "length (snap_history s) \<le> MAX_SHUFFLE_HISTORY_ENTRIES
    \<and> List.find (\<lambda>i. i \<notin> set items) (snap_history s) = None
    \<and> check_upcoming (set entries) {} (snap_upcoming s) = None")
  case True
  then show ?thesis
    by (cases current; cases entry; cases "snap_history_cursor s")
      (auto simp: shuffle_restore_def simp del: slice_get_Some)
next
  case False
  then have "\<not> (\<exists>t. shuffle_restore s items entries current entry = Some (Inr t))"
    unfolding shuffle_restore_def by (cases "length (snap_history s) \<le> MAX_SHUFFLE_HISTORY_ENTRIES")
      (auto split: option.split)
  with False show ?thesis by blast
qed

lemma shuffle_restore_Inr:
  assumes "shuffle_restore s items entries current entry = Some (Inr t)"
  shows "shuffle_wf (set items) (set entries) current t" and "shuffle_snapshot t = s"
    and "\<And>c. current = Some c \<Longrightarrow> \<exists>e. entry = Some e \<and> e \<notin> set (upcoming t)"
proof -
  note r = assms [unfolded shuffle_restore_Inr_iff check_upcoming_None find_None_iff]
  then show "shuffle_wf (set items) (set entries) current t"
    by (cases current) (auto simp: shuffle_wf_def)
  from r show "shuffle_snapshot t = s" by (simp add: shuffle_snapshot_def)
  from r show "\<exists>e. entry = Some e \<and> e \<notin> set (upcoming t)" if "current = Some c" for c
    using that by auto
qed

lemma shuffle_restore_total:
  "(current = None \<or> entry \<noteq> None) \<Longrightarrow> shuffle_restore s items entries current entry \<noteq> None"
  unfolding shuffle_restore_def Let_def by (auto split: option.split)

text \<open>A well-formed traversal whose current entry is not upcoming survives the round trip.\<close>

lemma shuffle_snapshot_restore:
  assumes "shuffle_wf (set items) (set entries) current t"
    and "\<And>c. current = Some c \<Longrightarrow> \<exists>e. entry = Some e \<and> e \<notin> set (upcoming t)"
  shows "shuffle_restore (shuffle_snapshot t) items entries current entry = Some (Inr t)"
  using assms unfolding shuffle_restore_Inr_iff check_upcoming_None find_None_iff
  by (cases current) (auto simp: shuffle_snapshot_def shuffle_wf_def)

section \<open>The invariant of a preview\<close>

text \<open>
  Steps are undone from the most recent one. \<open>unwind_ok\<close> says that every list of upcoming entries
  met while undoing is duplicate-free and made of committed entries.
\<close>

fun unwind_ok ::
    "playlist_entry_id set \<Rightarrow> speculative_upcoming_step list \<Rightarrow> playlist_entry_id list \<Rightarrow> bool" where
  "unwind_ok E [] up \<longleftrightarrow> distinct up \<and> set up \<subseteq> E"
| "unwind_ok E (s # ss) up \<longleftrightarrow> distinct up \<and> set up \<subseteq> E
     \<and> unwind_ok E ss (if started_new_cycle s then []
          else case consumed_entry_id s of None \<Rightarrow> up | Some e \<Rightarrow> e # up)"

definition sp_base ::
    "playlist_item_id set \<Rightarrow> playlist_entry_id set \<Rightarrow> shuffle_manual_preview \<Rightarrow> bool" where
  "sp_base I E sp \<longleftrightarrow>
     length (base_history sp) \<le> MAX_SHUFFLE_HISTORY_ENTRIES \<and> set (base_history sp) \<subseteq> I
     \<and> (\<forall>k. logical_history_cursor sp = Some k \<longrightarrow> k < length (base_history sp))
     \<and> distinct (working_upcoming sp) \<and> set (working_upcoming sp) \<subseteq> E
     \<and> (\<forall>s \<in> set (upcoming_steps sp). step_item_id s \<in> I)"

definition sp_wf ::
    "playlist_item_id set \<Rightarrow> playlist_entry_id set \<Rightarrow> shuffle_manual_preview \<Rightarrow> bool" where
  "sp_wf I E sp \<longleftrightarrow>
     sp_base I E sp \<and> unwind_ok E (rev (upcoming_steps sp)) (working_upcoming sp)"

text \<open>The item a preview would commit: its last step, or its history position.\<close>

definition latest_ok :: "shuffle_manual_preview \<Rightarrow> playlist_item_id \<Rightarrow> bool" where
  "latest_ok sp i \<longleftrightarrow>
     (if upcoming_steps sp = []
      then Option.bind (logical_history_cursor sp) (slice_get (base_history sp)) = Some i
      else step_item_id (last (upcoming_steps sp)) = i)"

lemma sp_base_mono: "sp_base I E sp \<Longrightarrow> I \<subseteq> J \<Longrightarrow> E \<subseteq> F \<Longrightarrow> sp_base J F sp"
  by (auto simp: sp_base_def)

lemma unwind_ok_weaken: "unwind_ok E ss up \<Longrightarrow> distinct up \<and> set up \<subseteq> E"
  by (cases ss) auto

lemma subseq_facts: "subseq xs ys \<Longrightarrow> distinct ys \<Longrightarrow> distinct xs"
  "subseq xs ys \<Longrightarrow> set xs \<subseteq> set ys"
  by (auto simp: subseq_conv_nths dest: in_set_nthsD)

lemma unwind_ok_subseq: "unwind_ok E ss up \<Longrightarrow> subseq vp up \<Longrightarrow> unwind_ok E ss vp"
proof (induction E ss up arbitrary: vp rule: unwind_ok.induct)
  case (1 E up)
  then show ?case by (auto dest: subseq_facts)
next
  case (2 E s ss up)
  then have "distinct vp" and "set vp \<subseteq> E"
    by (auto dest: subseq_facts)
  with 2 show ?case by (auto split: option.splits)
qed

lemma preview_new_wf:
  assumes "shuffle_wf I E current t"
  shows "sp_wf I E (preview_new t)" and "\<And>c. current = Some c \<Longrightarrow> latest_ok (preview_new t) c"
  using assms by (auto simp: sp_wf_def sp_base_def shuffle_wf_def preview_new_def latest_ok_def
      split: option.splits)

lemma latest_ok_in: "sp_base I E sp \<Longrightarrow> latest_ok sp i \<Longrightarrow> i \<in> I"
  by (auto simp: sp_base_def latest_ok_def split: if_splits)

lemma commit_into_wf:
  assumes "sp_base I E sp" and "latest_ok sp i"
  shows "\<exists>t. commit_into sp i = Some t \<and> shuffle_wf I E (Some i) t"
proof (cases "upcoming_steps sp = []")
  case True
  with assms show ?thesis
    by (auto simp: commit_into_def commit_history_cursor_def latest_ok_def sp_base_def shuffle_wf_def)
next
  case False
  let ?t = "\<lparr>history = base_history sp, history_cursor = base_history_cursor sp,
             upcoming = working_upcoming sp\<rparr>"
  have "i \<in> I" using latest_ok_in [OF assms] .
  with False assms(1) append_factual_visit_spec [of ?t i] show ?thesis
    by (auto simp: commit_into_def sp_base_def shuffle_wf_def Let_def simp del: bind_slice_get_Some)
qed

subsection \<open>Steps\<close>

lemma pop_playable_Some:
  "pop_playable es up = Some (i, e, rest) \<Longrightarrow>
   first_playable_item_id es e = Some i \<and> subseq (e # rest) up"
  by (induction es up rule: pop_playable.induct) (auto split: option.splits)

lemma consume_upcoming_wf:
  assumes base: "sp_base I E sp"
    and items: "set (iter_playable_ids es) \<subseteq> I"
    and step: "consume_upcoming es sp started = (step, sp')"
  shows "sp_base I E sp'"
    and "\<And>i. step = StepTarget i \<Longrightarrow> latest_ok sp' i"
    and "\<And>i. step \<noteq> StepReturnedToCommittedOrigin i"
    and "started \<Longrightarrow> unwind_ok E (rev (upcoming_steps sp)) [] \<Longrightarrow>
         unwind_ok E (rev (upcoming_steps sp')) (working_upcoming sp')"
    and "\<not> started \<Longrightarrow> unwind_ok E (rev (upcoming_steps sp)) (working_upcoming sp) \<Longrightarrow>
         unwind_ok E (rev (upcoming_steps sp')) (working_upcoming sp')"
proof -
  consider (none) "pop_playable es (working_upcoming sp) = None"
    | (some) i e rest where "pop_playable es (working_upcoming sp) = Some (i, e, rest)"
    by (cases "pop_playable es (working_upcoming sp)") auto
  then have "sp_base I E sp'
    \<and> (\<forall>i. step = StepTarget i \<longrightarrow> latest_ok sp' i) \<and> (\<forall>i. step \<noteq> StepReturnedToCommittedOrigin i)
    \<and> (started \<longrightarrow> unwind_ok E (rev (upcoming_steps sp)) [] \<longrightarrow>
         unwind_ok E (rev (upcoming_steps sp')) (working_upcoming sp'))
    \<and> (\<not> started \<longrightarrow> unwind_ok E (rev (upcoming_steps sp)) (working_upcoming sp) \<longrightarrow>
         unwind_ok E (rev (upcoming_steps sp')) (working_upcoming sp'))"
  proof cases
    case none
    with step have sp': "sp' = sp\<lparr>working_upcoming := []\<rparr>" "step = StepBoundary"
      by (auto simp: consume_upcoming_def)
    with base show ?thesis
      by (auto simp: sp_base_def intro: unwind_ok_subseq)
  next
    case some
    note pop = pop_playable_Some [OF some]
    have rest: "subseq rest (working_upcoming sp)"
      using pop by (meson subseq_Cons')
    have sp': "sp' = push_step (sp\<lparr>working_upcoming := rest\<rparr>) i (Some e) started" "step = StepTarget i"
      using step some by (auto simp: consume_upcoming_def)
    have i: "i \<in> I"
      using pop items first_playable_item_id_Some iter_playable_ids_mem by blast
    have sub: "distinct rest" "set rest \<subseteq> E"
      using base subseq_facts [OF rest] by (auto simp: sp_base_def)
    show ?thesis
      using base i sub pop unfolding sp'
      by (auto simp: sp_base_def push_step_def latest_ok_def intro: unwind_ok_subseq)
  qed
  then show "sp_base I E sp'"
    and "\<And>i. step = StepTarget i \<Longrightarrow> latest_ok sp' i"
    and "\<And>i. step \<noteq> StepReturnedToCommittedOrigin i"
    and "started \<Longrightarrow> unwind_ok E (rev (upcoming_steps sp)) [] \<Longrightarrow>
         unwind_ok E (rev (upcoming_steps sp')) (working_upcoming sp')"
    and "\<not> started \<Longrightarrow> unwind_ok E (rev (upcoming_steps sp)) (working_upcoming sp) \<Longrightarrow>
         unwind_ok E (rev (upcoming_steps sp')) (working_upcoming sp')"
    by blast+
qed

text \<open>The four ways a Next step goes: along the factual history, inside a compound entry, to a
  boundary, or into the upcoming entries (of a new cycle).\<close>

lemma step_next_cases:
  assumes "step_next R r sp mode es canonical committed = (step, sp', r')"
  obtains
    (history) k i where "upcoming_steps sp = []" "Suc k < length (base_history sp)"
      "logical_history_cursor sp = Some k" "i = base_history sp ! Suc k"
      "sp' = sp\<lparr>logical_history_cursor := Some (Suc k)\<rparr>"
      "step = StepTarget i \<or> step = StepReturnedToCommittedOrigin i"
  | (part) i j where "latest_speculative_item sp committed = Some i"
      "next_playable_item_id_in_entry es i = Some j" "step = StepTarget j"
      "sp' = push_step sp j None False"
  | (boundary) "step = StepBoundary" "sp' = sp" "working_upcoming sp = []"
  | (cycle) c where "mode = RepeatQueue" "working_upcoming sp = []"
      "fst (new_cycle R r canonical
        (structural_entry_id_for_item es (the (latest_speculative_item sp committed)))) = c"
      "consume_upcoming es (sp\<lparr>working_upcoming := c\<rparr>) True = (step, sp')"
  | (upcoming) "working_upcoming sp \<noteq> []" "consume_upcoming es sp False = (step, sp')"
proof -
  let ?hist = "if upcoming_steps sp = [] then
              (case logical_history_cursor sp of
                 None \<Rightarrow> None
               | Some cursor \<Rightarrow>
                   map_option (\<lambda>i. (cursor + 1, i)) (slice_get (base_history sp) (cursor + 1)))
            else None"
  let ?part = "Option.bind (latest_speculative_item sp committed) (next_playable_item_id_in_entry es)"
  show thesis
  proof (cases ?hist)
    case (Some ki)
    then obtain k where k: "upcoming_steps sp = []" "logical_history_cursor sp = Some k"
      "Suc k < length (base_history sp)" "ki = (Suc k, base_history sp ! Suc k)"
      by (auto split: if_splits option.splits)
    moreover have "sp' = sp\<lparr>logical_history_cursor := Some (Suc k)\<rparr>
        \<and> (step = StepTarget (base_history sp ! Suc k)
          \<or> step = StepReturnedToCommittedOrigin (base_history sp ! Suc k))"
      using assms unfolding step_next_def Some k(4) by (auto split: if_splits)
    ultimately show thesis using history by blast
  next
    case noh: None
    show thesis
    proof (cases ?part)
      case (Some j)
      then obtain i where "latest_speculative_item sp committed = Some i"
        "next_playable_item_id_in_entry es i = Some j"
        by (auto split: bind_splits)
      moreover have "step = StepTarget j \<and> sp' = push_step sp j None False"
        using assms unfolding step_next_def noh Some by simp
      ultimately show thesis using part by blast
    next
      case None
      then show thesis
        using assms boundary cycle upcoming unfolding step_next_def noh None
        by (auto split: if_splits option.splits prod.splits)
    qed
  qed
qed

lemma push_step_simps [simp]:
  "base_history (push_step sp i c b) = base_history sp"
  "base_history_cursor (push_step sp i c b) = base_history_cursor sp"
  "logical_history_cursor (push_step sp i c b) = logical_history_cursor sp"
  "working_upcoming (push_step sp i c b) = working_upcoming sp"
  "upcoming_steps (push_step sp i c b) = upcoming_steps sp @
     [\<lparr>step_item_id = i, consumed_entry_id = c, started_new_cycle = b\<rparr>]"
  by (simp_all add: push_step_def)

text \<open>A Next step keeps both invariants: the base one (which is all an automatic plan needs) and the
  one that allows to step back.\<close>

lemma step_next_wf:
  assumes rng: "rng_ok R" and canonical: "distinct canonical" "set canonical \<subseteq> E"
    and items: "set (iter_playable_ids es) \<subseteq> I" and base: "sp_base I E sp"
    and step: "step_next R r sp mode es canonical committed = (step, sp', r')"
  shows "sp_base I E sp'
    \<and> (\<forall>i. step = StepTarget i \<or> step = StepReturnedToCommittedOrigin i \<longrightarrow> latest_ok sp' i)
    \<and> (sp_wf I E sp \<longrightarrow> sp_wf I E sp')"
  using step
proof (cases rule: step_next_cases)
  case (history k i)
  with base show ?thesis by (auto simp: sp_base_def sp_wf_def latest_ok_def)
next
  case (part i j)
  from next_playable_item_id_in_entry_Some [OF part(2)]
  have "j \<in> I" using items iter_playable_ids_mem by blast
  with part base show ?thesis by (auto simp: sp_base_def sp_wf_def latest_ok_def)
next
  case boundary
  with base show ?thesis by simp
next
  case (cycle c)
  have "mset c = mset canonical"
    using new_cycle_spec(1) [OF rng canonical(1)] cycle(3) by (metis prod.collapse)
  then have c: "distinct c" "set c \<subseteq> E"
    using canonical mset_eq_set_distinct by (blast, metis mset_eq_setD)
  then have base': "sp_base I E (sp\<lparr>working_upcoming := c\<rparr>)"
    using base by (simp add: sp_base_def)
  note wf = consume_upcoming_wf [OF base' items cycle(4)]
  from wf(1-3) wf(4) cycle(2) show ?thesis by (auto simp: sp_wf_def)
next
  case upcoming
  note wf = consume_upcoming_wf [OF base items upcoming(2)]
  from wf(1-3) wf(5) show ?thesis by (auto simp: sp_wf_def)
qed

lemma undo_last_step_wf:
  assumes "sp_wf I E sp" and "upcoming_steps sp \<noteq> []"
  shows "sp_wf I E (undo_last_step sp)"
proof -
  let ?s = "last (upcoming_steps sp)"
  let ?up = "if started_new_cycle ?s then []
          else case consumed_entry_id ?s of None \<Rightarrow> working_upcoming sp | Some e \<Rightarrow> e # working_upcoming sp"
  have "rev (upcoming_steps sp) = ?s # rev (butlast (upcoming_steps sp))"
    using assms(2) by (metis append_butlast_last_id rev.simps(2) rev_append rev_rev_ident append.simps)
  then have u: "unwind_ok E (rev (butlast (upcoming_steps sp))) ?up"
    using assms(1) unfolding sp_wf_def by (metis unwind_ok.simps(2))
  have undo: "undo_last_step sp =
      sp\<lparr>upcoming_steps := butlast (upcoming_steps sp), working_upcoming := ?up\<rparr>"
    by (auto simp: undo_last_step_def Let_def split: option.splits)
  show ?thesis
    using assms(1) u unwind_ok_weaken [OF u] unfolding undo sp_wf_def sp_base_def
    by (auto dest: in_set_butlastD)
qed

lemma step_previous_wf:
  assumes "sp_wf I E sp"
  shows "\<exists>step sp'. step_previous sp = Some (step, sp') \<and> sp_wf I E sp'
    \<and> (\<forall>i. step = StepTarget i \<or> step = StepReturnedToCommittedOrigin i \<longrightarrow> latest_ok sp' i)"
proof (cases "upcoming_steps sp = []")
  case True
  show ?thesis
  proof (cases "logical_history_cursor sp")
    case (Some k)
    then have "k < length (base_history sp)" using assms by (simp add: sp_wf_def sp_base_def)
    then show ?thesis
      using True Some assms by (auto simp: step_previous_def Let_def slice_get_def sp_wf_def sp_base_def latest_ok_def)
  qed (use True assms in \<open>simp add: step_previous_def\<close>)
next
  case False
  let ?u = "undo_last_step sp"
  note u = undo_last_step_wf [OF assms False]
  show ?thesis
  proof (cases "upcoming_steps ?u = []")
    case True
    then show ?thesis
      using False u by (auto simp: step_previous_def Let_def target_at_logical_history_cursor_or_origin_def
          slice_get_def sp_wf_def sp_base_def latest_ok_def split: option.splits)
  qed (use False u in \<open>simp add: step_previous_def Let_def latest_ok_def\<close>)
qed

lemma preview_step_wf:
  assumes "rng_ok R" and "entries_wf es"
    and "sp_wf (set (iter_playable_ids es)) (set (iter_top_level_entry_ids es)) sp"
  shows "\<exists>step sp' r'. preview_step R r sp direction mode es (iter_top_level_entry_ids es) committed
      = Some (step, sp', r')
    \<and> sp_wf (set (iter_playable_ids es)) (set (iter_top_level_entry_ids es)) sp'
    \<and> (\<forall>i. step = StepTarget i \<or> step = StepReturnedToCommittedOrigin i \<longrightarrow> latest_ok sp' i)"
proof (cases direction)
  case NavNext
  obtain step sp' r' where "step_next R r sp mode es (iter_top_level_entry_ids es) committed = (step, sp', r')"
    by (metis prod_cases3)
  with NavNext step_next_wf [OF assms(1) distinct_entry_ids [OF assms(2)] order_refl order_refl _ this] assms(3)
  show ?thesis by (auto simp: preview_step_def sp_wf_def)
next
  case NavPrevious
  with step_previous_wf [OF assms(3)] show ?thesis by (auto simp: preview_step_def)
qed

lemma select_source_order_target_wf:
  assumes "entries_wf es" and "target \<in> set (iter_playable_ids es)"
    and "sp_wf (set (iter_playable_ids es)) (set (iter_top_level_entry_ids es)) sp"
    and "upcoming_steps sp = []"
  shows "\<exists>sp'. select_source_order_target es sp target = Some sp'
    \<and> sp_wf (set (iter_playable_ids es)) (set (iter_top_level_entry_ids es)) sp'
    \<and> latest_ok sp' target"
proof -
  obtain e where e: "structural_entry_id_for_item es target = Some e"
    using structural_entry_id_for_item_ex [OF assms(2)] by blast
  then have "e \<in> set (iter_top_level_entry_ids es)"
    using structural_entry_id_for_item_Some by (fastforce simp: iter_top_level_entry_ids_def)
  with e assms(2-4) show ?thesis
    by (auto simp: select_source_order_target_def sp_wf_def sp_base_def latest_ok_def)
qed

section \<open>Snapshot filtering of an automatic plan\<close>

lemma length_filter_take_le: "length (filter P (take n xs)) \<le> length (filter P xs)"
  by (metis append_take_drop_id filter_append le_add1 length_append)

lemma retained_cursor_after_filter_lt:
  assumes "retained_cursor_after_filter hist c kept = Some k"
  shows "k < length (filter (\<lambda>i. i \<in> kept) hist)"
proof -
  obtain n where "c = Some n" using assms by (cases c) (auto simp: retained_cursor_after_filter_def)
  then have "Suc k = length (filter (\<lambda>i. i \<in> kept) (take (usize_saturating_add n 1) hist))"
    using assms by (auto simp: retained_cursor_after_filter_def Let_def split: if_splits)
  then show ?thesis using length_filter_take_le [of "\<lambda>i. i \<in> kept" "usize_saturating_add n 1" hist]
    by linarith
qed

lemma retain_automatic_snapshot_base:
  assumes "sp_base I E sp"
  shows "sp_base (I \<inter> K) (E \<inter> F) (retain_automatic_snapshot sp K F)"
proof -
  have "length (filter (\<lambda>i. i \<in> K) (base_history sp)) \<le> MAX_SHUFFLE_HISTORY_ENTRIES"
    using assms length_filter_le [of "\<lambda>i. i \<in> K" "base_history sp"]
    unfolding sp_base_def by linarith
  with assms show ?thesis
    by (auto simp: sp_base_def retain_automatic_snapshot_def retained_cursor_after_filter_lt)
qed

text \<open>The target of a plan survives the filter, so the filtered preview still commits it.\<close>

lemma retain_automatic_snapshot_latest:
  assumes base: "sp_base I E sp" and latest: "latest_ok sp i" and kept: "i \<in> K"
  shows "latest_ok (retain_automatic_snapshot sp K F) i"
proof (cases "upcoming_steps sp = []")
  case True
  then obtain c where c: "logical_history_cursor sp = Some c" "c < length (base_history sp)"
      "base_history sp ! c = i"
    using latest by (auto simp: latest_ok_def)
  have "c + 1 \<le> MAX_SHUFFLE_HISTORY_ENTRIES" using c(2) base by (simp add: sp_base_def)
  then have sat: "usize_saturating_add c 1 = Suc c"
    by (simp add: usize_saturating_add_def usize_max_def MAX_SHUFFLE_HISTORY_ENTRIES_def)
  note kept_at = filter_nth_kept [where P = "\<lambda>x. x \<in> K", OF c(2)]
  have "i \<in> K" using kept .
  then show ?thesis
    using True c sat kept_at by (simp add: latest_ok_def retain_automatic_snapshot_def retained_cursor_after_filter_def)
next
  case False
  then obtain ss s where ss: "upcoming_steps sp = ss @ [s]" using rev_exhaust by blast
  then have "step_item_id s = i" using latest by (simp add: latest_ok_def)
  then show ?thesis using kept ss by (simp add: latest_ok_def retain_automatic_snapshot_def)
qed

end
