(* ===== verification/Queue.thy ===== *)
theory Queue
  imports Shuffle
begin

text \<open>
  The canonical queue owner (playlist-core \<open>queue/mod.rs\<close>, \<open>queue/entries.rs\<close>, the queue part of
  \<open>queue/shuffle/runtime.rs\<close>): its state, appending and replacing entries, clearing, the
  traversal current and the shuffle toggle. Every operation returns its outcome with the queue
  after it; one that draws random numbers also returns the generator state; one with a reachable
  \<open>expect\<close>, index or \<open>unreachable!\<close> in its body is a \<open>run\<close>.
\<close>

section \<open>State\<close>

definition MAX_PLAYLIST_ITEMS :: nat where
  "MAX_PLAYLIST_ITEMS = 50000"

definition checked_next :: "u64 \<Rightarrow> u64 option" where
  "checked_next revision = u64_checked_add revision 1"

record queue_revision_snapshot =
  rev_structural :: u64
  rev_traversal :: u64
  rev_metadata :: u64

definition same_reservation_preconditions ::
    "queue_revision_snapshot \<Rightarrow> queue_revision_snapshot \<Rightarrow> bool" where
  "same_reservation_preconditions a b \<longleftrightarrow>
     rev_structural a = rev_structural b \<and> rev_traversal a = rev_traversal b"

text \<open>A reservation key is the address of the boxed prepared mutation.\<close>

type_synonym reservation_key = nat

record playlist_queue =
  entries :: "playlist_entry list"
  item_allocator :: item_id_allocator
  group_allocator :: group_id_allocator
  traversal_current :: "playlist_item_id option"
  structural_revision :: u64
  traversal_revision :: u64
  metadata_revision :: u64
  active_reservation :: "reservation_key option"
  shuffle_traversal :: "shuffle_traversal option"

definition queue_new :: playlist_queue where
  "queue_new =
     \<lparr>entries = [], item_allocator = item_allocator_initial, group_allocator = group_allocator_initial,
      traversal_current = None, structural_revision = 0, traversal_revision = 0,
      metadata_revision = 0, active_reservation = None, shuffle_traversal = None\<rparr>"

definition revision_snapshot :: "playlist_queue \<Rightarrow> queue_revision_snapshot" where
  "revision_snapshot q =
     \<lparr>rev_structural = structural_revision q, rev_traversal = traversal_revision q,
      rev_metadata = metadata_revision q\<rparr>"

datatype traversal_current_validation_error = ItemNotCommitted playlist_item_id

definition validate_traversal_current ::
    "playlist_queue \<Rightarrow> playlist_item_id \<Rightarrow>
     traversal_current_validation_error + playlist_item_id" where
  "validate_traversal_current q i =
     (case item_lookup (entries q) i of
        Some _ \<Rightarrow> Inr i
      | None \<Rightarrow> Inl (ItemNotCommitted i))"

section \<open>Outcomes\<close>

datatype traversal_current_effect = Preserved | Cleared

datatype removal_current_outcome =
    CurrentPreserved "playlist_item_id option"
  | Detached playlist_item_id

record allocated_playlist_entries =
  entry_ids :: "playlist_entry_id list"
  playable_item_ids :: "playlist_item_id list"

datatype add_playlist_entries_outcome =
    NoEntriesProvided
  | Added allocated_playlist_entries

datatype replace_playlist_entries_outcome =
    AlreadyEmpty
  | Cleared nat traversal_current_effect
  | Replaced allocated_playlist_entries traversal_current_effect

datatype playlist_entries_mutation_error =
    InstallCommitLinearizing
  | CapacityExceeded nat nat nat
  | ItemIdArithmeticExhausted
  | ItemIdCollision playlist_item_id
  | CompoundGroupIdArithmeticExhausted
  | CompoundGroupIdCollision playlist_compound_group_id
  | StructuralRevisionExhausted
  | TraversalRevisionExhausted

record capped_playlist_entries_append_outcome =
  allocated_entries :: allocated_playlist_entries
  capacity_rejected_entries :: nat
  capacity_rejected_items :: nat

datatype add_items_outcome = NoItemsProvided | Added "playlist_item_id list"

datatype add_items_error =
    InstallCommitLinearizing
  | CapacityExceeded nat nat nat
  | ItemIdExhausted
  | ItemIdCollision playlist_item_id
  | StructuralRevisionExhausted

record capped_tail_append_outcome =
  allocated_item_ids_of_tail :: "playlist_item_id list"
  capacity_rejected :: nat

datatype replace_queue_outcome =
    Replaced "playlist_item_id list" traversal_current_effect
  | Cleared nat traversal_current_effect
  | AlreadyEmpty

datatype replace_queue_error =
    InstallCommitLinearizing
  | CapacityExceeded nat nat
  | ItemIdExhausted
  | ItemIdCollision playlist_item_id
  | StructuralRevisionExhausted
  | TraversalRevisionExhausted

datatype clear_queue_outcome =
    Cleared nat traversal_current_effect removal_current_outcome
  | AlreadyEmpty
  | InstallCommitLinearizing
  | StructuralRevisionExhausted
  | TraversalRevisionExhausted

datatype traversal_current_mutation_outcome =
    Set playlist_item_id
  | Cleared
  | AlreadyCurrent playlist_item_id
  | AlreadyAbsent

datatype traversal_current_mutation_error =
    InstallCommitLinearizing
  | ItemNotCommitted playlist_item_id
  | TraversalRevisionExhausted

datatype shuffle_toggle_outcome = Enabled | Disabled | AlreadyEnabled | AlreadyDisabled

datatype shuffle_toggle_error = InstallCommitLinearizing | TraversalRevisionExhausted

section \<open>Appending and replacing entries\<close>

fun retained_draft_count ::
    "nat \<Rightarrow> playlist_entry_draft list \<Rightarrow> playlist_entries_mutation_error + nat" where
  "retained_draft_count n [] = Inr n"
| "retained_draft_count n (d # ds) =
     (case usize_checked_add n (draft_retained_item_count d) of
        None \<Rightarrow> Inl (playlist_entries_mutation_error.CapacityExceeded 0 usize_max MAX_PLAYLIST_ITEMS)
      | Some m \<Rightarrow> retained_draft_count m ds)"

fun allocation_receipt_loop ::
    "playlist_item_id list \<Rightarrow> playlist_compound_group_id list \<Rightarrow> nat \<Rightarrow> nat \<Rightarrow>
     playlist_entry_draft list \<Rightarrow> playlist_entry_id list run" where
  "allocation_receipt_loop items groups item_offset group_offset [] = Some []"
| "allocation_receipt_loop items groups item_offset group_offset (DraftSingle d # ds) =
     (case slice_get items item_offset of
        None \<Rightarrow> None
      | Some i \<Rightarrow>
          map_option (Cons (EntrySingle i))
            (allocation_receipt_loop items groups (item_offset + 1) group_offset ds))"
| "allocation_receipt_loop items groups item_offset group_offset (DraftCompound g # ds) =
     (case slice_get groups group_offset of
        None \<Rightarrow> None
      | Some i \<Rightarrow>
          map_option (Cons (EntryCompound i))
            (allocation_receipt_loop items groups (item_offset + length (gdraft_parts g))
              (group_offset + 1) ds))"

definition allocation_receipt ::
    "playlist_entry_draft list \<Rightarrow> item_id_allocation_plan \<Rightarrow> group_id_allocation_plan \<Rightarrow>
     allocated_playlist_entries run" where
  "allocation_receipt drafts item_plan group_plan =
     map_option (\<lambda>ids. \<lparr>entry_ids = ids, playable_item_ids = allocated_item_ids item_plan\<rparr>)
       (allocation_receipt_loop (allocated_item_ids item_plan) (allocated_group_ids group_plan) 0 0 drafts)"

fun entries_from_drafts_loop ::
    "playlist_item_id list \<Rightarrow> playlist_compound_group_id list \<Rightarrow> nat \<Rightarrow> nat \<Rightarrow>
     playlist_entry_draft list \<Rightarrow> playlist_entry list run" where
  "entries_from_drafts_loop items groups item_offset group_offset [] = Some []"
| "entries_from_drafts_loop items groups item_offset group_offset (DraftSingle d # ds) =
     (case slice_get items item_offset of
        None \<Rightarrow> None
      | Some i \<Rightarrow>
          map_option (Cons (Single (into_item d i)))
            (entries_from_drafts_loop items groups (item_offset + 1) group_offset ds))"
| "entries_from_drafts_loop items groups item_offset group_offset (DraftCompound g # ds) =
     (let part_count = length (gdraft_parts g)
      in if item_offset + part_count \<le> length items then
           (case slice_get groups group_offset of
              None \<Rightarrow> None
            | Some i \<Rightarrow>
                (case group_from_draft g i (take part_count (drop item_offset items)) of
                   None \<Rightarrow> None
                 | Some grp \<Rightarrow>
                     map_option (Cons (Compound grp))
                       (entries_from_drafts_loop items groups (item_offset + part_count)
                         (group_offset + 1) ds)))
         else None)"

definition entries_from_drafts ::
    "playlist_entry_draft list \<Rightarrow> item_id_allocation_plan \<Rightarrow> group_id_allocation_plan \<Rightarrow>
     playlist_entry list run" where
  "entries_from_drafts drafts item_plan group_plan =
     entries_from_drafts_loop (allocated_item_ids item_plan) (allocated_group_ids group_plan) 0 0 drafts"

fun map_item_allocation_error :: "item_id_allocation_error \<Rightarrow> playlist_entries_mutation_error" where
  "map_item_allocation_error ItemArithmeticExhausted =
     playlist_entries_mutation_error.ItemIdArithmeticExhausted"
| "map_item_allocation_error (ItemCollision i) = playlist_entries_mutation_error.ItemIdCollision i"

fun map_group_allocation_error :: "group_id_allocation_error \<Rightarrow> playlist_entries_mutation_error" where
  "map_group_allocation_error GroupArithmeticExhausted =
     playlist_entries_mutation_error.CompoundGroupIdArithmeticExhausted"
| "map_group_allocation_error (GroupCollision g) =
     playlist_entries_mutation_error.CompoundGroupIdCollision g"

record prepared_playlist_entries =
  prepared_entries :: "playlist_entry list"
  prepared_allocated :: allocated_playlist_entries
  prepared_item_plan :: item_id_allocation_plan
  prepared_group_plan :: group_id_allocation_plan

definition existing_item_ids :: "playlist_queue \<Rightarrow> playlist_item_id set" where
  "existing_item_ids q = set (iter_playable_ids (entries q))"

definition existing_compound_group_ids :: "playlist_queue \<Rightarrow> playlist_compound_group_id set" where
  "existing_compound_group_ids q = set (compound_ids (entries q))"

definition preflight_entry_allocation ::
    "playlist_queue \<Rightarrow> playlist_entry_draft list \<Rightarrow>
     (playlist_entries_mutation_error + prepared_playlist_entries) run" where
  "preflight_entry_allocation q drafts =
     (case retained_draft_count 0 drafts of
        Inl e \<Rightarrow> Some (Inl e)
      | Inr item_count \<Rightarrow>
     (case item_preflight_allocation (item_allocator q) item_count (existing_item_ids q) of
        Inl e \<Rightarrow> Some (Inl (map_item_allocation_error e))
      | Inr item_plan \<Rightarrow>
     (case group_preflight_allocation (group_allocator q)
             (length (filter draft_is_compound drafts)) (existing_compound_group_ids q) of
        Inl e \<Rightarrow> Some (Inl (map_group_allocation_error e))
      | Inr group_plan \<Rightarrow>
     (case allocation_receipt drafts item_plan group_plan of
        None \<Rightarrow> None
      | Some allocated \<Rightarrow>
     (case entries_from_drafts drafts item_plan group_plan of
        None \<Rightarrow> None
      | Some es \<Rightarrow>
          Some (Inr \<lparr>prepared_entries = es, prepared_allocated = allocated,
                     prepared_item_plan = item_plan, prepared_group_plan = group_plan\<rparr>))))))"

definition commit_allocations :: "playlist_queue \<Rightarrow> prepared_playlist_entries \<Rightarrow> playlist_queue" where
  "commit_allocations q p =
     q\<lparr>item_allocator := item_commit_allocation (item_allocator q) (prepared_item_plan p),
       group_allocator := group_commit_allocation (group_allocator q) (prepared_group_plan p)\<rparr>"

definition merge_into_shuffle ::
    "'r rng \<Rightarrow> 'r \<Rightarrow> shuffle_traversal option \<Rightarrow> playlist_entry_id list \<Rightarrow>
     shuffle_traversal option \<times> 'r" where
  "merge_into_shuffle R r shuffle new_ids =
     (case shuffle of
        None \<Rightarrow> (None, r)
      | Some t \<Rightarrow> (let (t', r') = merge_new_entries R r t new_ids in (Some t', r')))"

definition append_entries ::
    "'r rng \<Rightarrow> 'r \<Rightarrow> playlist_queue \<Rightarrow> playlist_entry_draft list \<Rightarrow>
     ((playlist_entries_mutation_error + add_playlist_entries_outcome) \<times> playlist_queue \<times> 'r) run" where
  "append_entries R r q drafts =
     (if active_reservation q \<noteq> None
      then Some (Inl playlist_entries_mutation_error.InstallCommitLinearizing, q, r)
      else if drafts = [] then Some (Inr NoEntriesProvided, q, r)
      else case retained_draft_count 0 drafts of
        Inl e \<Rightarrow> Some (Inl e, q, r)
      | Inr requested \<Rightarrow>
     (let current = retained_item_count (entries q)
      in if (case usize_checked_add current requested of
               None \<Rightarrow> True | Some resulting \<Rightarrow> resulting > MAX_PLAYLIST_ITEMS)
         then Some (Inl (playlist_entries_mutation_error.CapacityExceeded current requested
                           MAX_PLAYLIST_ITEMS), q, r)
         else case checked_next (structural_revision q) of
           None \<Rightarrow> Some (Inl playlist_entries_mutation_error.StructuralRevisionExhausted, q, r)
         | Some next_structural \<Rightarrow>
     (case preflight_entry_allocation q drafts of
        None \<Rightarrow> None
      | Some (Inl e) \<Rightarrow> Some (Inl e, q, r)
      | Some (Inr p) \<Rightarrow>
          (let (shuffle', r') =
             merge_into_shuffle R r (shuffle_traversal q) (entry_ids (prepared_allocated p))
           in Some (Inr (add_playlist_entries_outcome.Added (prepared_allocated p)),
                    (commit_allocations q p)\<lparr>shuffle_traversal := shuffle',
                      entries := entries q @ prepared_entries p,
                      structural_revision := next_structural\<rparr>, r')))))"

text \<open>The whole top-level prefix that fits into the remaining capacity.\<close>

fun capped_prefix :: "nat \<Rightarrow> nat \<Rightarrow> playlist_entry_draft list \<Rightarrow> nat" where
  "capped_prefix remaining accepted_items [] = 0"
| "capped_prefix remaining accepted_items (d # ds) =
     (case usize_checked_add accepted_items (draft_retained_item_count d) of
        None \<Rightarrow> 0
      | Some next_accepted \<Rightarrow>
          if next_accepted > remaining then 0
          else Suc (capped_prefix remaining next_accepted ds))"

fun checked_item_sum :: "nat \<Rightarrow> playlist_entry_draft list \<Rightarrow> nat option" where
  "checked_item_sum n [] = Some n"
| "checked_item_sum n (d # ds) =
     Option.bind (usize_checked_add n (draft_retained_item_count d)) (\<lambda>m. checked_item_sum m ds)"

definition append_capped_entries ::
    "'r rng \<Rightarrow> 'r \<Rightarrow> playlist_queue \<Rightarrow> playlist_entry_draft list \<Rightarrow>
     ((playlist_entries_mutation_error + capped_playlist_entries_append_outcome)
       \<times> playlist_queue \<times> 'r) run" where
  "append_capped_entries R r q drafts =
     (let accepted = capped_prefix (MAX_PLAYLIST_ITEMS - retained_item_count (entries q)) 0 drafts
      in case checked_item_sum 0 (drop accepted drafts) of
           None \<Rightarrow> None
         | Some rejected_items \<Rightarrow>
     (case append_entries R r q (take accepted drafts) of
        None \<Rightarrow> None
      | Some (Inl e, q', r') \<Rightarrow> Some (Inl e, q', r')
      | Some (Inr outcome, q', r') \<Rightarrow>
          Some (Inr \<lparr>allocated_entries =
                       (case outcome of
                          NoEntriesProvided \<Rightarrow> \<lparr>entry_ids = [], playable_item_ids = []\<rparr>
                        | add_playlist_entries_outcome.Added a \<Rightarrow> a),
                     capacity_rejected_entries = length drafts - accepted,
                     capacity_rejected_items = rejected_items\<rparr>, q', r')))"

definition fresh_if_enabled ::
    "'r rng \<Rightarrow> 'r \<Rightarrow> shuffle_traversal option \<Rightarrow> playlist_entry_id list \<Rightarrow>
     shuffle_visit_identity option \<Rightarrow> shuffle_traversal option \<times> 'r" where
  "fresh_if_enabled R r shuffle canonical current =
     (case shuffle of
        None \<Rightarrow> (None, r)
      | Some _ \<Rightarrow> (let (t, r') = fresh R r canonical current in (Some t, r')))"

definition current_effect :: "playlist_queue \<Rightarrow> traversal_current_effect" where
  "current_effect q =
     (if traversal_current q \<noteq> None then traversal_current_effect.Cleared
      else traversal_current_effect.Preserved)"

text \<open>The traversal revision a commit publishes when it clears the current, \<open>None\<close> when it is
  exhausted; without a current it stays.\<close>

definition next_traversal_if_current :: "playlist_queue \<Rightarrow> u64 option" where
  "next_traversal_if_current q =
     (if traversal_current q \<noteq> None then checked_next (traversal_revision q)
      else Some (traversal_revision q))"

definition replace_entries ::
    "'r rng \<Rightarrow> 'r \<Rightarrow> playlist_queue \<Rightarrow> playlist_entry_draft list \<Rightarrow>
     ((playlist_entries_mutation_error + replace_playlist_entries_outcome) \<times> playlist_queue \<times> 'r) run" where
  "replace_entries R r q drafts =
     (if active_reservation q \<noteq> None
      then Some (Inl playlist_entries_mutation_error.InstallCommitLinearizing, q, r)
      else case retained_draft_count 0 drafts of
        Inl e \<Rightarrow> Some (Inl e, q, r)
      | Inr requested \<Rightarrow>
      if requested > MAX_PLAYLIST_ITEMS
      then Some (Inl (playlist_entries_mutation_error.CapacityExceeded 0 requested
                        MAX_PLAYLIST_ITEMS), q, r)
      else if drafts = [] \<and> entries q = [] \<and> traversal_current q = None
      then Some (Inr replace_playlist_entries_outcome.AlreadyEmpty, q, r)
      else case checked_next (structural_revision q) of
        None \<Rightarrow> Some (Inl playlist_entries_mutation_error.StructuralRevisionExhausted, q, r)
      | Some next_structural \<Rightarrow>
     (case next_traversal_if_current q of
        None \<Rightarrow> Some (Inl playlist_entries_mutation_error.TraversalRevisionExhausted, q, r)
      | Some next_traversal \<Rightarrow>
      if drafts = [] then
        (let (shuffle', r') = fresh_if_enabled R r (shuffle_traversal q) [] None
         in Some (Inr (replace_playlist_entries_outcome.Cleared
                         (retained_item_count (entries q)) (current_effect q)),
                  q\<lparr>entries := [], traversal_current := None, shuffle_traversal := shuffle',
                    structural_revision := next_structural,
                    traversal_revision := next_traversal\<rparr>, r'))
      else case preflight_entry_allocation q drafts of
        None \<Rightarrow> None
      | Some (Inl e) \<Rightarrow> Some (Inl e, q, r)
      | Some (Inr p) \<Rightarrow>
          (let (shuffle', r') =
             fresh_if_enabled R r (shuffle_traversal q) (entry_ids (prepared_allocated p)) None
           in Some (Inr (replace_playlist_entries_outcome.Replaced (prepared_allocated p)
                           (current_effect q)),
                    (commit_allocations q p)\<lparr>entries := prepared_entries p,
                      traversal_current := None, shuffle_traversal := shuffle',
                      structural_revision := next_structural,
                      traversal_revision := next_traversal\<rparr>, r'))))"

subsection \<open>The single-only facade\<close>

fun map_add_entries_error :: "playlist_entries_mutation_error \<Rightarrow> add_items_error run" where
  "map_add_entries_error playlist_entries_mutation_error.InstallCommitLinearizing =
     Some add_items_error.InstallCommitLinearizing"
| "map_add_entries_error (playlist_entries_mutation_error.CapacityExceeded c r m) =
     Some (add_items_error.CapacityExceeded c r m)"
| "map_add_entries_error playlist_entries_mutation_error.ItemIdArithmeticExhausted =
     Some add_items_error.ItemIdExhausted"
| "map_add_entries_error (playlist_entries_mutation_error.ItemIdCollision i) =
     Some (add_items_error.ItemIdCollision i)"
| "map_add_entries_error playlist_entries_mutation_error.StructuralRevisionExhausted =
     Some add_items_error.StructuralRevisionExhausted"
| "map_add_entries_error playlist_entries_mutation_error.CompoundGroupIdArithmeticExhausted = None"
| "map_add_entries_error (playlist_entries_mutation_error.CompoundGroupIdCollision g) = None"
| "map_add_entries_error playlist_entries_mutation_error.TraversalRevisionExhausted = None"

definition append_batch ::
    "'r rng \<Rightarrow> 'r \<Rightarrow> playlist_queue \<Rightarrow> playlist_item_draft list \<Rightarrow>
     ((add_items_error + add_items_outcome) \<times> playlist_queue \<times> 'r) run" where
  "append_batch R r q drafts =
     (case append_entries R r q (map DraftSingle drafts) of
        None \<Rightarrow> None
      | Some (Inl e, q', r') \<Rightarrow> map_option (\<lambda>e'. (Inl e', q', r')) (map_add_entries_error e)
      | Some (Inr NoEntriesProvided, q', r') \<Rightarrow> Some (Inr NoItemsProvided, q', r')
      | Some (Inr (add_playlist_entries_outcome.Added a), q', r') \<Rightarrow>
          Some (Inr (add_items_outcome.Added (playable_item_ids a)), q', r'))"

definition append_capped_tail ::
    "'r rng \<Rightarrow> 'r \<Rightarrow> playlist_queue \<Rightarrow> playlist_item_draft list \<Rightarrow>
     ((add_items_error + capped_tail_append_outcome) \<times> playlist_queue \<times> 'r) run" where
  "append_capped_tail R r q drafts =
     (let requested = length drafts;
          remaining_capacity = MAX_PLAYLIST_ITEMS - retained_item_count (entries q);
          accepted = min requested remaining_capacity
      in case append_batch R r q (take accepted drafts) of
           None \<Rightarrow> None
         | Some (Inl e, q', r') \<Rightarrow> Some (Inl e, q', r')
         | Some (Inr outcome, q', r') \<Rightarrow>
             Some (Inr \<lparr>allocated_item_ids_of_tail =
                          (case outcome of NoItemsProvided \<Rightarrow> []
                           | add_items_outcome.Added ids \<Rightarrow> ids),
                        capacity_rejected = requested - accepted\<rparr>, q', r'))"

fun map_replace_entries_error :: "playlist_entries_mutation_error \<Rightarrow> replace_queue_error run" where
  "map_replace_entries_error playlist_entries_mutation_error.InstallCommitLinearizing =
     Some replace_queue_error.InstallCommitLinearizing"
| "map_replace_entries_error (playlist_entries_mutation_error.CapacityExceeded c r m) =
     Some (replace_queue_error.CapacityExceeded r m)"
| "map_replace_entries_error playlist_entries_mutation_error.ItemIdArithmeticExhausted =
     Some replace_queue_error.ItemIdExhausted"
| "map_replace_entries_error (playlist_entries_mutation_error.ItemIdCollision i) =
     Some (replace_queue_error.ItemIdCollision i)"
| "map_replace_entries_error playlist_entries_mutation_error.StructuralRevisionExhausted =
     Some replace_queue_error.StructuralRevisionExhausted"
| "map_replace_entries_error playlist_entries_mutation_error.TraversalRevisionExhausted =
     Some replace_queue_error.TraversalRevisionExhausted"
| "map_replace_entries_error playlist_entries_mutation_error.CompoundGroupIdArithmeticExhausted = None"
| "map_replace_entries_error (playlist_entries_mutation_error.CompoundGroupIdCollision g) = None"

definition replace_all ::
    "'r rng \<Rightarrow> 'r \<Rightarrow> playlist_queue \<Rightarrow> playlist_item_draft list \<Rightarrow>
     ((replace_queue_error + replace_queue_outcome) \<times> playlist_queue \<times> 'r) run" where
  "replace_all R r q drafts =
     (case replace_entries R r q (map DraftSingle drafts) of
        None \<Rightarrow> None
      | Some (Inl e, q', r') \<Rightarrow> map_option (\<lambda>e'. (Inl e', q', r')) (map_replace_entries_error e)
      | Some (Inr replace_playlist_entries_outcome.AlreadyEmpty, q', r') \<Rightarrow>
          Some (Inr replace_queue_outcome.AlreadyEmpty, q', r')
      | Some (Inr (replace_playlist_entries_outcome.Cleared n eff), q', r') \<Rightarrow>
          Some (Inr (replace_queue_outcome.Cleared n eff), q', r')
      | Some (Inr (replace_playlist_entries_outcome.Replaced a eff), q', r') \<Rightarrow>
          Some (Inr (replace_queue_outcome.Replaced (playable_item_ids a) eff), q', r'))"

section \<open>Clearing, the traversal current and the shuffle toggle\<close>

definition clear :: "playlist_queue \<Rightarrow> clear_queue_outcome \<times> playlist_queue" where
  "clear q =
     (if active_reservation q \<noteq> None then (clear_queue_outcome.InstallCommitLinearizing, q)
      else if entries q = [] \<and> traversal_current q = None
      then (clear_queue_outcome.AlreadyEmpty, q)
      else case checked_next (structural_revision q) of
        None \<Rightarrow> (clear_queue_outcome.StructuralRevisionExhausted, q)
      | Some next_structural \<Rightarrow>
     (case next_traversal_if_current q of
        None \<Rightarrow> (clear_queue_outcome.TraversalRevisionExhausted, q)
      | Some next_traversal \<Rightarrow>
          (clear_queue_outcome.Cleared (retained_item_count (entries q)) (current_effect q)
             (case traversal_current q of
                Some c \<Rightarrow> Detached c | None \<Rightarrow> CurrentPreserved None),
           q\<lparr>entries := [], traversal_current := None,
             shuffle_traversal := map_option (\<lambda>_. empty_idle) (shuffle_traversal q),
             structural_revision := next_structural, traversal_revision := next_traversal\<rparr>)))"

text \<open>The committed transition shared by the direct selections: the target's owner is looked up
  even when shuffle is off.\<close>

definition direct_transition :: "playlist_queue \<Rightarrow> playlist_item_id \<Rightarrow> playlist_queue run" where
  "direct_transition q i =
     map_option
       (\<lambda>identity. q\<lparr>shuffle_traversal :=
          map_option (\<lambda>t. commit_direct_transition t identity) (shuffle_traversal q)\<rparr>)
       (shuffle_visit_identity_of (entries q) i)"

definition set_traversal_current ::
    "playlist_queue \<Rightarrow> playlist_item_id \<Rightarrow>
     ((traversal_current_mutation_error + traversal_current_mutation_outcome) \<times> playlist_queue) run" where
  "set_traversal_current q i =
     (if active_reservation q \<noteq> None
      then Some (Inl traversal_current_mutation_error.InstallCommitLinearizing, q)
      else case validate_traversal_current q i of
        Inl _ \<Rightarrow> Some (Inl (traversal_current_mutation_error.ItemNotCommitted i), q)
      | Inr validated \<Rightarrow>
      if traversal_current q = Some validated
      then Some (Inr (AlreadyCurrent validated), q)
      else case checked_next (traversal_revision q) of
        None \<Rightarrow> Some (Inl traversal_current_mutation_error.TraversalRevisionExhausted, q)
      | Some next_revision \<Rightarrow>
          map_option
            (\<lambda>q'. (Inr (Set validated),
                   q'\<lparr>traversal_current := Some validated, traversal_revision := next_revision\<rparr>))
            (direct_transition q i))"

definition clear_traversal_current ::
    "playlist_queue \<Rightarrow>
     (traversal_current_mutation_error + traversal_current_mutation_outcome) \<times> playlist_queue" where
  "clear_traversal_current q =
     (if active_reservation q \<noteq> None
      then (Inl traversal_current_mutation_error.InstallCommitLinearizing, q)
      else if traversal_current q = None then (Inr AlreadyAbsent, q)
      else case checked_next (traversal_revision q) of
        None \<Rightarrow> (Inl traversal_current_mutation_error.TraversalRevisionExhausted, q)
      | Some next_revision \<Rightarrow>
          (Inr traversal_current_mutation_outcome.Cleared,
           q\<lparr>shuffle_traversal :=
               map_option (\<lambda>t. make_idle t (iter_top_level_entry_ids (entries q))) (shuffle_traversal q),
             traversal_current := None, traversal_revision := next_revision\<rparr>))"

definition commit_manual_play ::
    "playlist_queue \<Rightarrow> playlist_item_id \<Rightarrow>
     ((traversal_current_mutation_error + traversal_current_mutation_outcome) \<times> playlist_queue) run" where
  "commit_manual_play q i =
     (if shuffle_traversal q = None \<or> traversal_current q \<noteq> Some i then set_traversal_current q i
      else if active_reservation q \<noteq> None
      then Some (Inl traversal_current_mutation_error.InstallCommitLinearizing, q)
      else case validate_traversal_current q i of
        Inl _ \<Rightarrow> Some (Inl (traversal_current_mutation_error.ItemNotCommitted i), q)
      | Inr validated \<Rightarrow>
     (case checked_next (traversal_revision q) of
        None \<Rightarrow> Some (Inl traversal_current_mutation_error.TraversalRevisionExhausted, q)
      | Some next_revision \<Rightarrow>
          map_option
            (\<lambda>q'. (Inr (Set validated), q'\<lparr>traversal_revision := next_revision\<rparr>))
            (direct_transition q i)))"

definition enable_shuffle ::
    "'r rng \<Rightarrow> 'r \<Rightarrow> playlist_queue \<Rightarrow>
     (shuffle_toggle_error + shuffle_toggle_outcome) \<times> playlist_queue \<times> 'r" where
  "enable_shuffle R r q =
     (if active_reservation q \<noteq> None then (Inl shuffle_toggle_error.InstallCommitLinearizing, q, r)
      else if shuffle_traversal q \<noteq> None then (Inr AlreadyEnabled, q, r)
      else case checked_next (traversal_revision q) of
        None \<Rightarrow> (Inl shuffle_toggle_error.TraversalRevisionExhausted, q, r)
      | Some next_revision \<Rightarrow>
          (let (t, r') = fresh R r (iter_top_level_entry_ids (entries q))
                 (Option.bind (traversal_current q) (shuffle_visit_identity_of (entries q)))
           in (Inr Enabled,
               q\<lparr>shuffle_traversal := Some t, traversal_revision := next_revision\<rparr>, r')))"

definition disable_shuffle ::
    "playlist_queue \<Rightarrow> (shuffle_toggle_error + shuffle_toggle_outcome) \<times> playlist_queue" where
  "disable_shuffle q =
     (if active_reservation q \<noteq> None then (Inl shuffle_toggle_error.InstallCommitLinearizing, q)
      else if shuffle_traversal q = None then (Inr AlreadyDisabled, q)
      else case checked_next (traversal_revision q) of
        None \<Rightarrow> (Inl shuffle_toggle_error.TraversalRevisionExhausted, q)
      | Some next_revision \<Rightarrow>
          (Inr Disabled, q\<lparr>shuffle_traversal := None, traversal_revision := next_revision\<rparr>))"

section \<open>The invariant and the revision discipline\<close>

definition shape :: "playlist_entry \<Rightarrow> playlist_entry_id \<times> playlist_item_id list" where
  "shape e = (entry_id e, map item_id (entry_playable_items e))"

definition shapes :: "playlist_queue \<Rightarrow> (playlist_entry_id \<times> playlist_item_id list) list" where
  "shapes q = map shape (entries q)"

definition queue_inv :: "playlist_queue \<Rightarrow> bool" where
  "queue_inv q \<longleftrightarrow>
     entries_wf (entries q)
     \<and> items.below (item_allocator q) (set (iter_playable_ids (entries q)))
     \<and> groups.below (group_allocator q) (set (compound_ids (entries q)))
     \<and> retained_item_count (entries q) \<le> MAX_PLAYLIST_ITEMS
     \<and> (\<forall>c. traversal_current q = Some c \<longrightarrow> c \<in> set (iter_playable_ids (entries q)))
     \<and> (\<forall>t. shuffle_traversal q = Some t \<longrightarrow>
          shuffle_wf (set (iter_playable_ids (entries q))) (set (iter_top_level_entry_ids (entries q)))
            (traversal_current q) t)"

text \<open>
  The revision discipline: revisions and watermarks never go back; two queue states of one lineage
  with the same structural revision have the same rows, and with the same traversal revision too
  they have the same current and shuffle state. This is what makes a prepared token, preview or
  plan that carries a revision snapshot safe to apply when the snapshot still matches.
\<close>

definition advances :: "playlist_queue \<Rightarrow> playlist_queue \<Rightarrow> bool" where
  "advances q q' \<longleftrightarrow>
     structural_revision q \<le> structural_revision q'
     \<and> traversal_revision q \<le> traversal_revision q'
     \<and> metadata_revision q \<le> metadata_revision q'
     \<and> next_item_id (item_allocator q) \<le> next_item_id (item_allocator q')
     \<and> next_group_id (group_allocator q) \<le> next_group_id (group_allocator q')
     \<and> (structural_revision q = structural_revision q' \<longrightarrow> shapes q = shapes q')
     \<and> (structural_revision q = structural_revision q' \<longrightarrow>
          traversal_revision q = traversal_revision q' \<longrightarrow>
          traversal_current q = traversal_current q' \<and> shuffle_traversal q = shuffle_traversal q')"

text \<open>What a reservation freezes: everything but cached metadata.\<close>

definition same_core :: "playlist_queue \<Rightarrow> playlist_queue \<Rightarrow> bool" where
  "same_core q q' \<longleftrightarrow>
     shapes q' = shapes q \<and> item_allocator q' = item_allocator q
     \<and> group_allocator q' = group_allocator q \<and> traversal_current q' = traversal_current q
     \<and> structural_revision q' = structural_revision q
     \<and> traversal_revision q' = traversal_revision q
     \<and> shuffle_traversal q' = shuffle_traversal q"

text \<open>Rows only come from the old queue or from fresh identities.\<close>

definition grown :: "playlist_queue \<Rightarrow> playlist_queue \<Rightarrow> bool" where
  "grown q q' \<longleftrightarrow>
     (\<forall>e \<in> set (entries q'). shape e \<in> set (shapes q)
       \<or> (case entry_id e of
            EntrySingle i \<Rightarrow> next_item_id (item_allocator q) \<le> item_raw i
          | EntryCompound g \<Rightarrow> next_group_id (group_allocator q) \<le> group_raw g))"

definition op_ok :: "playlist_queue \<Rightarrow> playlist_queue \<Rightarrow> bool" where
  "op_ok q q' \<longleftrightarrow> queue_inv q' \<and> advances q q' \<and> grown q q'
     \<and> active_reservation q' = active_reservation q
     \<and> (active_reservation q \<noteq> None \<longrightarrow> same_core q q')"

lemma checked_next_Some:
  assumes "checked_next r = Some s"
  shows "r < s" and "r \<le> s" and "r \<noteq> s" and "s \<noteq> r" and "s = r + 1"
proof -
  have "unat s = unat r + 1"
    using assms u64_checked_add_Some [of r 1 s] by (simp add: checked_next_def)
  then show lt: "r < s" by (simp add: word_less_nat_alt)
  then show "r \<le> s" "r \<noteq> s" "s \<noteq> r" by auto
  show "s = r + 1" using assms u64_checked_add_SomeD by (auto simp: checked_next_def)
qed

lemma next_traversal_if_current_Some:
  assumes "next_traversal_if_current q = Some s"
  shows "traversal_revision q \<le> s" and "s = traversal_revision q \<longleftrightarrow> traversal_current q = None"
  using assms checked_next_Some [of "traversal_revision q" s]
  by (auto simp: next_traversal_if_current_def split: if_splits)

lemma grown_subset: "set (shapes q') \<subseteq> set (shapes q) \<Longrightarrow> grown q q'"
  by (auto simp: grown_def shapes_def)

lemma op_ok_refl: "queue_inv q \<Longrightarrow> op_ok q q"
  by (auto simp: op_ok_def advances_def same_core_def grown_def shapes_def)

lemma op_okI:
  assumes "queue_inv q'" and "active_reservation q = None" and "active_reservation q' = None"
    and "structural_revision q \<le> structural_revision q'"
    and "traversal_revision q \<le> traversal_revision q'"
    and "metadata_revision q \<le> metadata_revision q'"
    and "next_item_id (item_allocator q) \<le> next_item_id (item_allocator q')"
    and "next_group_id (group_allocator q) \<le> next_group_id (group_allocator q')"
    and "structural_revision q \<noteq> structural_revision q' \<or> shapes q = shapes q'
      \<and> (traversal_revision q \<noteq> traversal_revision q'
          \<or> traversal_current q = traversal_current q' \<and> shuffle_traversal q = shuffle_traversal q')"
    and "grown q q'"
  shows "op_ok q q'"
  using assms by (auto simp: op_ok_def advances_def)

text \<open>The projections only see the shapes of the entries.\<close>

lemma shape_projections:
  "map shape es = map shape fs \<Longrightarrow> iter_top_level_entry_ids es = iter_top_level_entry_ids fs"
  "map shape es = map shape fs \<Longrightarrow> iter_playable_ids es = iter_playable_ids fs"
  "map shape es = map shape fs \<Longrightarrow> compound_ids es = compound_ids fs"
  "map shape es = map shape fs \<Longrightarrow> retained_item_count es = retained_item_count fs"
proof -
  have top: "iter_top_level_entry_ids es = map fst (map shape es)" for es
    by (simp add: iter_top_level_entry_ids_def shape_def)
  have flat: "iter_playable_ids es = concat (map snd (map shape es))" for es
    by (induction es) (auto simp: shape_def)
  have groups: "compound_ids es
      = concat (map (\<lambda>s. case fst s of EntrySingle _ \<Rightarrow> [] | EntryCompound g \<Rightarrow> [g]) (map shape es))" for es
    by (induction es rule: compound_ids.induct) (auto simp: shape_def)
  show "map shape es = map shape fs \<Longrightarrow> iter_top_level_entry_ids es = iter_top_level_entry_ids fs"
    unfolding top by (erule arg_cong [where f = "map fst"])
  show ids: "map shape es = map shape fs \<Longrightarrow> iter_playable_ids es = iter_playable_ids fs"
    unfolding flat by (erule arg_cong [where f = "\<lambda>ss. concat (map snd ss)"])
  show "map shape es = map shape fs \<Longrightarrow> compound_ids es = compound_ids fs"
    unfolding groups by (erule arg_cong [where f = "\<lambda>ss. concat (map entry_group ss)" for entry_group])
  show "map shape es = map shape fs \<Longrightarrow> retained_item_count es = retained_item_count fs"
    using ids by (metis length_iter_playable_ids)
qed

lemma queue_inv_new: "queue_inv queue_new"
  by (simp add: queue_inv_def queue_new_def items.below_def groups.below_def
      item_allocator_initial_def group_allocator_initial_def)

lemma queue_inv_distinct: "queue_inv q \<Longrightarrow> distinct (iter_top_level_entry_ids (entries q))"
  by (simp add: queue_inv_def distinct_entry_ids)

section \<open>Building entries from drafts\<close>

lemma retained_draft_count_Inr:
  "retained_draft_count n ds = Inr m \<Longrightarrow> m = n + sum_list (map draft_retained_item_count ds)"
  by (induction n ds rule: retained_draft_count.induct) (auto split: option.splits)

lemma retained_draft_count_Inl:
  "retained_draft_count n ds = Inl e \<Longrightarrow>
   e = playlist_entries_mutation_error.CapacityExceeded 0 usize_max MAX_PLAYLIST_ITEMS
   \<and> usize_max < n + sum_list (map draft_retained_item_count ds)"
  by (induction n ds rule: retained_draft_count.induct)
    (auto simp: usize_checked_add_def split: option.splits if_splits)

lemma entries_from_drafts_loop_ok:
  assumes "\<forall>d \<in> set ds. draft_wf d"
    and "io + sum_list (map draft_retained_item_count ds) = length is"
    and "go + length (filter draft_is_compound ds) = length gs"
    and "length is < 2 ^ 32"
  shows "\<exists>es. entries_from_drafts_loop is gs io go ds = Some es
    \<and> allocation_receipt_loop is gs io go ds = Some (map entry_id es)
    \<and> (\<forall>e \<in> set es. entry_wf e) \<and> iter_playable_ids es = drop io is \<and> compound_ids es = drop go gs
    \<and> length es = length ds"
  using assms
proof (induction "is" gs io go ds rule: entries_from_drafts_loop.induct)
  case (1 "is" gs io go)
  then show ?case by simp
next
  case (2 "is" gs io go d ds)
  then have io: "io < length is" by simp
  from 2 io obtain es where
    "entries_from_drafts_loop is gs (io + 1) go ds = Some es"
    "allocation_receipt_loop is gs (io + 1) go ds = Some (map entry_id es)"
    "\<forall>e \<in> set es. entry_wf e" "iter_playable_ids es = drop (io + 1) is" "compound_ids es = drop go gs"
    "length es = length ds"
    by (auto simp: slice_get_def)
  with io show ?case
    by (auto simp: slice_get_def into_item_def Cons_nth_drop_Suc)
next
  case (3 "is" gs io go g ds)
  let ?n = "length (gdraft_parts g)"
  from 3 have fit: "io + ?n \<le> length is" "go < length gs" "gdraft_parts g \<noteq> []" by auto
  let ?ids = "take ?n (drop io is)"
  have ids: "length (gdraft_parts g) = length ?ids" "length ?ids < 2 ^ 32" using fit "3.prems"(4) by auto
  from group_from_draft_ex [OF ids fit(3)] obtain grp where
    grp: "group_from_draft g (gs ! go) ?ids = Some grp" "group_id grp = gs ! go" "entry_wf (Compound grp)"
    "map (\<lambda>p. item_id (part_item p)) (group_parts grp) = ?ids" by blast
  from "3.IH" [OF refl fit(1) _ grp(1)] "3.prems" fit(2) obtain es where
    es: "entries_from_drafts_loop is gs (io + ?n) (go + 1) ds = Some es"
    "allocation_receipt_loop is gs (io + ?n) (go + 1) ds = Some (map entry_id es)"
    "\<forall>e \<in> set es. entry_wf e" "iter_playable_ids es = drop (io + ?n) is"
    "compound_ids es = drop (go + 1) gs" "length es = length ds"
    by (auto simp: add.assoc)
  have "?ids @ drop (io + ?n) is = drop io is"
    by (metis add.commute append_take_drop_id drop_drop)
  with es grp fit show ?case
    by (auto simp: slice_get_def Cons_nth_drop_Suc comp_def simp del: entry_wf.simps)
qed

lemma prepared_entries_ok:
  assumes inv: "queue_inv q" and wf: "\<forall>d \<in> set drafts. draft_wf d"
    and n: "retained_draft_count 0 drafts = Inr n" "n \<le> MAX_PLAYLIST_ITEMS"
  shows "preflight_entry_allocation q drafts = Some (Inl playlist_entries_mutation_error.ItemIdArithmeticExhausted)
      \<or> (preflight_entry_allocation q drafts = Some (Inl playlist_entries_mutation_error.CompoundGroupIdArithmeticExhausted)
          \<and> (\<exists>d \<in> set drafts. draft_is_compound d))
      \<or> (\<exists>p. preflight_entry_allocation q drafts = Some (Inr p)
          \<and> entries_wf (prepared_entries p) \<and> length (prepared_entries p) = length drafts
          \<and> iter_top_level_entry_ids (prepared_entries p) = entry_ids (prepared_allocated p)
          \<and> iter_playable_ids (prepared_entries p) = playable_item_ids (prepared_allocated p)
          \<and> retained_item_count (prepared_entries p) = n
          \<and> item_preflight_allocation (item_allocator q) n (existing_item_ids q) = Inr (prepared_item_plan p)
          \<and> allocated_item_ids (prepared_item_plan p) = iter_playable_ids (prepared_entries p)
          \<and> group_preflight_allocation (group_allocator q) (length (filter draft_is_compound drafts))
              (existing_compound_group_ids q) = Inr (prepared_group_plan p)
          \<and> allocated_group_ids (prepared_group_plan p) = compound_ids (prepared_entries p))"
proof -
  have bi: "items.below (item_allocator q) (existing_item_ids q)"
    and bg: "groups.below (group_allocator q) (existing_compound_group_ids q)"
    using inv by (auto simp: queue_inv_def existing_item_ids_def existing_compound_group_ids_def)
  let ?g = "length (filter draft_is_compound drafts)"
  show ?thesis
  proof (cases "item_preflight_allocation (item_allocator q) n (existing_item_ids q)")
    case (Inl e)
    with items.below_fail [OF Inl bi] show ?thesis
      by (simp add: preflight_entry_allocation_def n)
  next
    case ip: (Inr ip)
    show ?thesis
    proof (cases "group_preflight_allocation (group_allocator q) ?g (existing_compound_group_ids q)")
      case (Inl e)
      have "?g \<noteq> 0"
      proof
        assume "?g = 0"
        with Inl show False by (simp add: group_preflight_allocation_def)
      qed
      then have "\<exists>d \<in> set drafts. draft_is_compound d" by (auto simp: filter_empty_conv)
      with groups.below_fail [OF Inl bg] ip Inl show ?thesis
        by (simp add: preflight_entry_allocation_def n)
    next
      case gp: (Inr gp)
      have "sum_list (map draft_retained_item_count drafts) = length (allocated_item_ids ip)"
        using retained_draft_count_Inr [OF n(1)] items.plan_length [OF ip] by simp
      moreover have "length (allocated_item_ids ip) < 2 ^ 32"
        using items.plan_length [OF ip] n(2) by (simp add: MAX_PLAYLIST_ITEMS_def)
      ultimately obtain es where es:
        "entries_from_drafts drafts ip gp = Some es"
        "allocation_receipt drafts ip gp = Some \<lparr>entry_ids = map entry_id es, playable_item_ids = allocated_item_ids ip\<rparr>"
        "\<forall>e \<in> set es. entry_wf e" "iter_playable_ids es = allocated_item_ids ip"
        "compound_ids es = allocated_group_ids gp" "length es = length drafts"
        using entries_from_drafts_loop_ok [OF wf, of 0 "allocated_item_ids ip" 0 "allocated_group_ids gp"]
          groups.plan_length [OF gp]
        by (auto simp: entries_from_drafts_def allocation_receipt_def)
      have "entries_wf es"
        using es items.plan_distinct [OF ip] groups.plan_distinct [OF gp] by (simp add: entries_wf_def)
      with es ip gp items.plan_length [OF ip] show ?thesis
        by (simp add: preflight_entry_allocation_def n iter_top_level_entry_ids_def
            length_iter_playable_ids [symmetric])
    qed
  qed
qed


text \<open>The identities a prepared batch commits are fresh and stay below the new watermarks.\<close>

lemma commit_allocations_ok:
  assumes inv: "queue_inv q"
    and i: "item_preflight_allocation (item_allocator q) n (existing_item_ids q) = Inr (prepared_item_plan p)"
      "allocated_item_ids (prepared_item_plan p) = iter_playable_ids (prepared_entries p)"
    and g: "group_preflight_allocation (group_allocator q) m (existing_compound_group_ids q) = Inr (prepared_group_plan p)"
      "allocated_group_ids (prepared_group_plan p) = compound_ids (prepared_entries p)"
  shows "items.below (item_allocator (commit_allocations q p))
      (set (iter_playable_ids (entries q)) \<union> set (iter_playable_ids (prepared_entries p)))"
    and "groups.below (group_allocator (commit_allocations q p))
      (set (compound_ids (entries q)) \<union> set (compound_ids (prepared_entries p)))"
    and "set (iter_playable_ids (entries q)) \<inter> set (iter_playable_ids (prepared_entries p)) = {}"
    and "set (compound_ids (entries q)) \<inter> set (compound_ids (prepared_entries p)) = {}"
    and "next_item_id (item_allocator q) \<le> next_item_id (item_allocator (commit_allocations q p))"
    and "next_group_id (group_allocator q) \<le> next_group_id (group_allocator (commit_allocations q p))"
    and "\<And>e. e \<in> set (prepared_entries p) \<Longrightarrow> (case entry_id e of
            EntrySingle i \<Rightarrow> next_item_id (item_allocator q) \<le> item_raw i
          | EntryCompound g \<Rightarrow> next_group_id (group_allocator q) \<le> group_raw g)"
proof -
  have bi: "items.below (item_allocator q) (set (iter_playable_ids (entries q)))"
    and bg: "groups.below (group_allocator q) (set (compound_ids (entries q)))"
    using inv by (auto simp: queue_inv_def)
  show "items.below (item_allocator (commit_allocations q p))
      (set (iter_playable_ids (entries q)) \<union> set (iter_playable_ids (prepared_entries p)))"
    using items.below_commit [OF i(1) bi] by (simp add: commit_allocations_def i(2))
  show "groups.below (group_allocator (commit_allocations q p))
      (set (compound_ids (entries q)) \<union> set (compound_ids (prepared_entries p)))"
    using groups.below_commit [OF g(1) bg] by (simp add: commit_allocations_def g(2))
  show "set (iter_playable_ids (entries q)) \<inter> set (iter_playable_ids (prepared_entries p)) = {}"
    using items.plan_fresh [OF i(1) bi] i(2) by auto
  show "set (compound_ids (entries q)) \<inter> set (compound_ids (prepared_entries p)) = {}"
    using groups.plan_fresh [OF g(1) bg] g(2) by auto
  show "next_item_id (item_allocator q) \<le> next_item_id (item_allocator (commit_allocations q p))"
    using items.plan_watermark [OF i(1)] by (simp add: commit_allocations_def word_le_nat_alt)
  show "next_group_id (group_allocator q) \<le> next_group_id (group_allocator (commit_allocations q p))"
    using groups.plan_watermark [OF g(1)] by (simp add: commit_allocations_def word_le_nat_alt)
  fix e assume e: "e \<in> set (prepared_entries p)"
  show "case entry_id e of
            EntrySingle i \<Rightarrow> next_item_id (item_allocator q) \<le> item_raw i
          | EntryCompound g \<Rightarrow> next_group_id (group_allocator q) \<le> group_raw g"
  proof (cases e)
    case (Single it)
    with e have "item_id it \<in> set (allocated_item_ids (prepared_item_plan p))"
      using i(2) iter_playable_ids_mem [OF e, of "item_id it"] by simp
    with items.plan_range [OF i(1)] Single show ?thesis by (simp add: word_le_nat_alt)
  next
    case (Compound grp)
    with e have "group_id grp \<in> set (allocated_group_ids (prepared_group_plan p))"
      by (auto simp: g(2) set_compound_ids intro: rev_image_eqI)
    with groups.plan_range [OF g(1)] Compound show ?thesis by (simp add: word_le_nat_alt)
  qed
qed

text \<open>New top-level identities are disjoint from the old ones.\<close>

lemma entry_ids_disjoint:
  assumes "set (iter_playable_ids es) \<inter> set (iter_playable_ids fs) = {}"
    and "set (compound_ids es) \<inter> set (compound_ids fs) = {}"
  shows "set (iter_top_level_entry_ids es) \<inter> set (iter_top_level_entry_ids fs) = {}"
proof (rule ccontr)
  assume "\<not> ?thesis"
  then obtain e f where ef: "e \<in> set es" "f \<in> set fs" "entry_id e = entry_id f"
    by (auto simp: iter_top_level_entry_ids_def)
  show False
  proof (cases e)
    case (Single it)
    with ef(3) entry_id_eq_Single [of f "item_id it"] obtain jt where "f = Single jt" "item_id jt = item_id it"
      by auto
    with Single ef iter_playable_ids_mem [of e es "item_id it"] iter_playable_ids_mem [of f fs "item_id it"]
      assms(1) show False by auto
  next
    case (Compound g)
    with ef(3) entry_id_eq_Compound [of f "group_id g"] obtain h where "f = Compound h" "group_id h = group_id g"
      by auto
    with Compound ef have "group_id g \<in> set (compound_ids es)" "group_id g \<in> set (compound_ids fs)"
      unfolding set_compound_ids by (auto intro: rev_image_eqI)
    with assms(2) show False by auto
  qed
qed

section \<open>Every operation keeps the invariant and the revision discipline\<close>

lemma merge_into_shuffle_wf:
  assumes "rng_ok R" and "merge_into_shuffle R r s new = (s', r')"
    and "\<And>t. s = Some t \<Longrightarrow> shuffle_wf I E current t"
    and "distinct new" and "set new \<inter> E = {}" and "I \<subseteq> J"
  shows "\<And>t. s' = Some t \<Longrightarrow> shuffle_wf J (E \<union> set new) current t"
  using assms(2) merge_new_entries_wf [OF assms(1) _ assms(3) assms(4-6)]
  by (auto simp: merge_into_shuffle_def split: option.splits prod.splits)

lemma append_entries_ok:
  assumes rng: "rng_ok R" and inv: "queue_inv q" and wf: "\<forall>d \<in> set drafts. draft_wf d"
  shows "\<exists>res q' r'. append_entries R r q drafts = Some (res, q', r') \<and> op_ok q q'
    \<and> (case res of
         Inl e \<Rightarrow> q' = q
           \<and> (e = playlist_entries_mutation_error.CompoundGroupIdArithmeticExhausted \<longrightarrow>
               (\<exists>d \<in> set drafts. draft_is_compound d))
           \<and> (\<forall>g. e \<noteq> playlist_entries_mutation_error.CompoundGroupIdCollision g)
           \<and> e \<noteq> playlist_entries_mutation_error.TraversalRevisionExhausted
           \<and> (\<forall>c m x. e = playlist_entries_mutation_error.CapacityExceeded c m x \<longrightarrow>
               MAX_PLAYLIST_ITEMS < retained_item_count (entries q)
                 + sum_list (map draft_retained_item_count drafts))
       | Inr NoEntriesProvided \<Rightarrow> q' = q \<and> drafts = []
       | Inr (add_playlist_entries_outcome.Added a) \<Rightarrow>
           (\<exists>es. entries q' = entries q @ es \<and> length es = length drafts
             \<and> iter_top_level_entry_ids es = entry_ids a \<and> iter_playable_ids es = playable_item_ids a
             \<and> retained_item_count es = sum_list (map draft_retained_item_count drafts)
             \<and> set (iter_playable_ids es) \<inter> set (iter_playable_ids (entries q)) = {}
             \<and> traversal_current q' = traversal_current q))"
proof -
  let ?n = "sum_list (map draft_retained_item_count drafts)"
  consider (blocked) "active_reservation q \<noteq> None" | (empty) "active_reservation q = None" "drafts = []"
    | (count) e where "active_reservation q = None" "drafts \<noteq> []" "retained_draft_count 0 drafts = Inl e"
    | (ok) n where "active_reservation q = None" "drafts \<noteq> []" "retained_draft_count 0 drafts = Inr n"
    by (cases "retained_draft_count 0 drafts") auto
  then show ?thesis
  proof cases
    case (count e)
    then have "e = playlist_entries_mutation_error.CapacityExceeded 0 usize_max MAX_PLAYLIST_ITEMS"
      and "usize_max < ?n"
      using retained_draft_count_Inl [OF count(3)] by auto
    moreover have "MAX_PLAYLIST_ITEMS < usize_max" by (simp add: MAX_PLAYLIST_ITEMS_def usize_max_def)
    ultimately show ?thesis using count by (simp add: append_entries_def op_ok_refl inv)
  next
    case (ok n)
    show ?thesis
    proof (cases "retained_item_count (entries q) + n \<le> MAX_PLAYLIST_ITEMS
        \<and> checked_next (structural_revision q) \<noteq> None")
      case False
      then show ?thesis using ok retained_draft_count_Inr [OF ok(3)]
        by (auto simp: append_entries_def op_ok_refl inv usize_checked_add_def Let_def
            not_le MAX_PLAYLIST_ITEMS_def usize_max_def split: option.splits)
    next
      case True
      then obtain s where s: "checked_next (structural_revision q) = Some s" by auto
      have cap: "retained_item_count (entries q) + n \<le> MAX_PLAYLIST_ITEMS"
        and cap': "n \<le> MAX_PLAYLIST_ITEMS" using True by auto
      then have add: "usize_checked_add (retained_item_count (entries q)) n = Some (retained_item_count (entries q) + n)"
        by (simp add: usize_max_def MAX_PLAYLIST_ITEMS_def)
      note app = append_entries_def [of R r q drafts] ok s add cap
      from prepared_entries_ok [OF inv wf ok(3) cap']
      consider (fail) e where "preflight_entry_allocation q drafts = Some (Inl e)"
          "e = playlist_entries_mutation_error.ItemIdArithmeticExhausted
           \<or> e = playlist_entries_mutation_error.CompoundGroupIdArithmeticExhausted
               \<and> (\<exists>d \<in> set drafts. draft_is_compound d)"
        | (prep) p where "preflight_entry_allocation q drafts = Some (Inr p)"
          "entries_wf (prepared_entries p)" "length (prepared_entries p) = length drafts"
          "iter_top_level_entry_ids (prepared_entries p) = entry_ids (prepared_allocated p)"
          "iter_playable_ids (prepared_entries p) = playable_item_ids (prepared_allocated p)"
          "retained_item_count (prepared_entries p) = n"
          "item_preflight_allocation (item_allocator q) n (existing_item_ids q) = Inr (prepared_item_plan p)"
          "allocated_item_ids (prepared_item_plan p) = iter_playable_ids (prepared_entries p)"
          "group_preflight_allocation (group_allocator q) (length (filter draft_is_compound drafts))
              (existing_compound_group_ids q) = Inr (prepared_group_plan p)"
          "allocated_group_ids (prepared_group_plan p) = compound_ids (prepared_entries p)"
        by blast
      then show ?thesis
      proof cases
        case (fail e)
        then show ?thesis using app by (auto simp: op_ok_refl inv)
      next
        case (prep p)
        obtain s' r' where m: "merge_into_shuffle R r (shuffle_traversal q) (entry_ids (prepared_allocated p)) = (s', r')"
          by (cases "merge_into_shuffle R r (shuffle_traversal q) (entry_ids (prepared_allocated p))")
        let ?q = "(commit_allocations q p)\<lparr>shuffle_traversal := s', entries := entries q @ prepared_entries p,
            structural_revision := s\<rparr>"
        have run: "append_entries R r q drafts
            = Some (Inr (add_playlist_entries_outcome.Added (prepared_allocated p)), ?q, r')"
          using app prep(1) m by simp
        note com = commit_allocations_ok [OF inv prep(7-10)]
        have disj: "set (entry_ids (prepared_allocated p)) \<inter> set (iter_top_level_entry_ids (entries q)) = {}"
          using entry_ids_disjoint [OF com(3,4)] prep(4) by auto
        have sh: "shuffle_wf (set (iter_playable_ids (entries q @ prepared_entries p)))
            (set (iter_top_level_entry_ids (entries q @ prepared_entries p))) (traversal_current q) t"
          if "s' = Some t" for t
        proof -
          have "shuffle_wf (set (iter_playable_ids (entries q @ prepared_entries p)))
            (set (iter_top_level_entry_ids (entries q)) \<union> set (entry_ids (prepared_allocated p))) (traversal_current q) t"
            by (rule merge_into_shuffle_wf [OF rng m _ _ disj _ that])
              (use inv distinct_entry_ids [OF prep(2)] prep(4) in \<open>auto simp: queue_inv_def\<close>)
          then show ?thesis by (simp add: prep(4) [symmetric] iter_top_level_entry_ids_def)
        qed
        have "queue_inv ?q"
          using inv com prep(2,6) cap sh
          by (auto simp: queue_inv_def entries_wf_append commit_allocations_def)
        moreover have "grown q ?q"
          using com(7) by (auto simp: grown_def shapes_def)
        ultimately have "op_ok q ?q"
          using com(5,6) ok(1) checked_next_Some [OF s] by (intro op_okI) (auto simp: commit_allocations_def)
        with run prep com(3) retained_draft_count_Inr [OF ok(3)] show ?thesis
          by (auto simp: commit_allocations_def)
      qed
    qed
  qed (simp_all add: append_entries_def op_ok_refl inv)
qed


lemma fresh_if_enabled_wf:
  assumes "rng_ok R" and "distinct canonical"
    and "\<And>v. current = Some v \<Longrightarrow> visit_item_id v \<in> I"
    and "fresh_if_enabled R r s canonical current = (s', r')"
  shows "\<And>t. s' = Some t \<Longrightarrow> shuffle_wf I (set canonical) (map_option visit_item_id current) t"
  using assms(4) fresh_wf [OF assms(1-3)]
  by (auto simp: fresh_if_enabled_def split: option.splits prod.splits)

lemma replace_entries_ok:
  assumes rng: "rng_ok R" and inv: "queue_inv q" and wf: "\<forall>d \<in> set drafts. draft_wf d"
  shows "\<exists>res q' r'. replace_entries R r q drafts = Some (res, q', r') \<and> op_ok q q'
    \<and> (case res of
         Inl e \<Rightarrow> q' = q
           \<and> (e = playlist_entries_mutation_error.CompoundGroupIdArithmeticExhausted \<longrightarrow>
               (\<exists>d \<in> set drafts. draft_is_compound d))
           \<and> (\<forall>g. e \<noteq> playlist_entries_mutation_error.CompoundGroupIdCollision g)
       | Inr replace_playlist_entries_outcome.AlreadyEmpty \<Rightarrow> q' = q
       | Inr (replace_playlist_entries_outcome.Cleared n eff) \<Rightarrow>
           drafts = [] \<and> entries q' = [] \<and> traversal_current q' = None
       | Inr (replace_playlist_entries_outcome.Replaced a eff) \<Rightarrow>
           length (entries q') = length drafts \<and> traversal_current q' = None
             \<and> iter_top_level_entry_ids (entries q') = entry_ids a
             \<and> iter_playable_ids (entries q') = playable_item_ids a
             \<and> set (playable_item_ids a) \<inter> set (iter_playable_ids (entries q)) = {})"
proof -
  consider (blocked) "active_reservation q \<noteq> None"
    | (count) e where "active_reservation q = None" "retained_draft_count 0 drafts = Inl e"
    | (large) n where "active_reservation q = None" "retained_draft_count 0 drafts = Inr n" "n > MAX_PLAYLIST_ITEMS"
    | (noop) n where "active_reservation q = None" "retained_draft_count 0 drafts = Inr n" "n \<le> MAX_PLAYLIST_ITEMS"
        "drafts = []" "entries q = []" "traversal_current q = None"
    | (rev) n where "active_reservation q = None" "retained_draft_count 0 drafts = Inr n" "n \<le> MAX_PLAYLIST_ITEMS"
        "\<not> (drafts = [] \<and> entries q = [] \<and> traversal_current q = None)"
        "checked_next (structural_revision q) = None \<or> next_traversal_if_current q = None"
    | (ok) n s v where "active_reservation q = None" "retained_draft_count 0 drafts = Inr n" "n \<le> MAX_PLAYLIST_ITEMS"
        "\<not> (drafts = [] \<and> entries q = [] \<and> traversal_current q = None)"
        "checked_next (structural_revision q) = Some s" "next_traversal_if_current q = Some v"
    by (cases "retained_draft_count 0 drafts"; cases "checked_next (structural_revision q)";
        cases "next_traversal_if_current q") (metis not_le)+
  then show ?thesis
  proof cases
    case (count e)
    then have "e = playlist_entries_mutation_error.CapacityExceeded 0 usize_max MAX_PLAYLIST_ITEMS"
      by (simp add: retained_draft_count_Inl)
    with count show ?thesis by (simp add: replace_entries_def op_ok_refl inv)
  next
    case rev
    then show ?thesis by (auto simp: replace_entries_def op_ok_refl inv split: option.splits)
  next
    case (ok n s v)
    note rep = replace_entries_def [of R r q drafts] ok
    show ?thesis
    proof (cases "drafts = []")
      case True
      obtain s' r' where f: "fresh_if_enabled R r (shuffle_traversal q) [] None = (s', r')"
        by (cases "fresh_if_enabled R r (shuffle_traversal q) [] None")
      let ?q = "q\<lparr>entries := [], traversal_current := None, shuffle_traversal := s',
                    structural_revision := s, traversal_revision := v\<rparr>"
      have "queue_inv ?q"
        using inv fresh_if_enabled_wf [OF rng _ _ f, of "{}"]
        by (auto simp: queue_inv_def iter_top_level_entry_ids_def intro: items.below_mono groups.below_mono)
      then have "op_ok q ?q"
        using ok(1) checked_next_Some [OF ok(5)] next_traversal_if_current_Some(1) [OF ok(6)]
        by (intro op_okI) (auto simp: grown_def)
      then show ?thesis using rep True f by auto
    next
      case False
      from prepared_entries_ok [OF inv wf ok(2,3)]
      consider (fail) e where "preflight_entry_allocation q drafts = Some (Inl e)"
          "e = playlist_entries_mutation_error.ItemIdArithmeticExhausted
           \<or> e = playlist_entries_mutation_error.CompoundGroupIdArithmeticExhausted
               \<and> (\<exists>d \<in> set drafts. draft_is_compound d)"
        | (prep) p where "preflight_entry_allocation q drafts = Some (Inr p)"
          "entries_wf (prepared_entries p)" "length (prepared_entries p) = length drafts"
          "iter_top_level_entry_ids (prepared_entries p) = entry_ids (prepared_allocated p)"
          "iter_playable_ids (prepared_entries p) = playable_item_ids (prepared_allocated p)"
          "retained_item_count (prepared_entries p) = n"
          "item_preflight_allocation (item_allocator q) n (existing_item_ids q) = Inr (prepared_item_plan p)"
          "allocated_item_ids (prepared_item_plan p) = iter_playable_ids (prepared_entries p)"
          "group_preflight_allocation (group_allocator q) (length (filter draft_is_compound drafts))
              (existing_compound_group_ids q) = Inr (prepared_group_plan p)"
          "allocated_group_ids (prepared_group_plan p) = compound_ids (prepared_entries p)"
        by blast
      then show ?thesis
      proof cases
        case (fail e)
        then show ?thesis using rep False by (auto simp: op_ok_refl inv)
      next
        case (prep p)
        obtain s' r' where f: "fresh_if_enabled R r (shuffle_traversal q) (entry_ids (prepared_allocated p)) None = (s', r')"
          by (cases "fresh_if_enabled R r (shuffle_traversal q) (entry_ids (prepared_allocated p)) None")
        let ?q = "(commit_allocations q p)\<lparr>entries := prepared_entries p, traversal_current := None,
            shuffle_traversal := s', structural_revision := s, traversal_revision := v\<rparr>"
        have run: "replace_entries R r q drafts
            = Some (Inr (replace_playlist_entries_outcome.Replaced (prepared_allocated p) (current_effect q)), ?q, r')"
          using rep prep(1) f False by simp
        note com = commit_allocations_ok [OF inv prep(7-10)]
        have d: "distinct (entry_ids (prepared_allocated p))"
          using distinct_entry_ids [OF prep(2)] prep(4) by simp
        have "queue_inv ?q"
          using fresh_if_enabled_wf [OF rng d _ f, of "set (iter_playable_ids (prepared_entries p))"]
            items.below_mono [OF com(1)] groups.below_mono [OF com(2)] prep(2,4,6) ok(3)
          by (auto simp: queue_inv_def commit_allocations_def)
        moreover have "grown q ?q" using com(7) by (auto simp: grown_def)
        ultimately have "op_ok q ?q"
          using com(5,6) ok(1) checked_next_Some [OF ok(5)] next_traversal_if_current_Some(1) [OF ok(6)]
          by (intro op_okI) (auto simp: commit_allocations_def)
        with run prep com(3) show ?thesis by (auto simp: commit_allocations_def)
      qed
    qed
  qed (simp_all add: replace_entries_def op_ok_refl inv)
qed


lemma append_batch_ok:
  assumes "rng_ok R" and "queue_inv q"
  shows "\<exists>res q' r'. append_batch R r q drafts = Some (res, q', r') \<and> op_ok q q'
    \<and> (case res of
         Inl e \<Rightarrow> q' = q \<and> (\<forall>c m x. e = add_items_error.CapacityExceeded c m x \<longrightarrow>
             MAX_PLAYLIST_ITEMS < retained_item_count (entries q) + length drafts)
       | Inr NoItemsProvided \<Rightarrow> q' = q \<and> drafts = []
       | Inr (add_items_outcome.Added ids) \<Rightarrow>
           iter_playable_ids (entries q') = iter_playable_ids (entries q) @ ids
             \<and> length ids = length drafts \<and> set ids \<inter> set (iter_playable_ids (entries q)) = {})"
proof -
  have single: "\<forall>d \<in> set (map DraftSingle drafts). draft_wf d" by auto
  have not_compound: "\<not> (\<exists>d \<in> set (map DraftSingle drafts). draft_is_compound d)" by auto
  have len: "sum_list (map draft_retained_item_count (map DraftSingle drafts)) = length drafts"
    by (induction drafts) auto
  obtain res q' r' where run: "append_entries R r q (map DraftSingle drafts) = Some (res, q', r')" "op_ok q q'"
    and res: "case res of
         Inl e \<Rightarrow> q' = q
           \<and> (e = playlist_entries_mutation_error.CompoundGroupIdArithmeticExhausted \<longrightarrow> False)
           \<and> (\<forall>g. e \<noteq> playlist_entries_mutation_error.CompoundGroupIdCollision g)
           \<and> e \<noteq> playlist_entries_mutation_error.TraversalRevisionExhausted
           \<and> (\<forall>c m x. e = playlist_entries_mutation_error.CapacityExceeded c m x \<longrightarrow>
               MAX_PLAYLIST_ITEMS < retained_item_count (entries q) + length drafts)
       | Inr NoEntriesProvided \<Rightarrow> q' = q \<and> map DraftSingle drafts = []
       | Inr (add_playlist_entries_outcome.Added a) \<Rightarrow>
           (\<exists>es. entries q' = entries q @ es \<and> iter_playable_ids es = playable_item_ids a
             \<and> retained_item_count es = length drafts
             \<and> set (iter_playable_ids es) \<inter> set (iter_playable_ids (entries q)) = {})"
    using append_entries_ok [OF assms single, of r, unfolded len] not_compound
    by (fastforce split: sum.splits add_playlist_entries_outcome.splits)
  show ?thesis
  proof (cases res)
    case (Inl e)
    then show ?thesis using run res by (cases e) (auto simp: append_batch_def)
  next
    case (Inr out)
    then show ?thesis
      using run res by (cases out) (auto simp: append_batch_def length_iter_playable_ids [symmetric])
  qed
qed

lemma checked_item_sum_Some:
  "n + sum_list (map draft_retained_item_count ds) \<le> usize_max \<Longrightarrow>
   checked_item_sum n ds = Some (n + sum_list (map draft_retained_item_count ds))"
  by (induction n ds rule: checked_item_sum.induct) (auto simp: usize_checked_add_def add.assoc)

lemma capped_prefix_fits:
  "acc \<le> remaining \<Longrightarrow>
   acc + sum_list (map draft_retained_item_count (take (capped_prefix remaining acc ds) ds)) \<le> remaining"
  by (induction remaining acc ds rule: capped_prefix.induct) (auto simp: usize_checked_add_def add.assoc)

text \<open>Capping accepts the longest whole-entry prefix that fits, so it cannot fail on capacity.\<close>

lemma capped_prefix_maximal:
  assumes "capped_prefix remaining acc ds < length ds" and "remaining \<le> usize_max"
  shows "remaining < acc + sum_list (map draft_retained_item_count (take (Suc (capped_prefix remaining acc ds)) ds))"
  using assms
  by (induction remaining acc ds rule: capped_prefix.induct)
    (auto simp: usize_checked_add_def add.assoc split: if_splits)

lemma append_capped_entries_ok:
  assumes "rng_ok R" and "queue_inv q" and "\<forall>d \<in> set drafts. draft_wf d"
    and "sum_list (map draft_retained_item_count drafts) \<le> usize_max"
  shows "\<exists>res q' r'. append_capped_entries R r q drafts = Some (res, q', r') \<and> op_ok q q'
     \<and> (\<forall>e. res = Inl e \<longrightarrow> q' = q
          \<and> (\<forall>c m x. e \<noteq> playlist_entries_mutation_error.CapacityExceeded c m x))"
proof -
  let ?k = "capped_prefix (MAX_PLAYLIST_ITEMS - retained_item_count (entries q)) 0 drafts"
  have "sum_list (map draft_retained_item_count (drop ?k drafts))
      \<le> sum_list (map draft_retained_item_count drafts)"
    by (subst append_take_drop_id [of ?k drafts, symmetric]) (simp only: map_append sum_list_append le_add2)
  with assms(4) have "checked_item_sum 0 (drop ?k drafts)
      = Some (sum_list (map draft_retained_item_count (drop ?k drafts)))"
    using checked_item_sum_Some [of 0 "drop ?k drafts"] by simp
  note d = append_capped_entries_def [of R r q drafts] this
  have cap: "retained_item_count (entries q) \<le> MAX_PLAYLIST_ITEMS" using assms(2) by (simp add: queue_inv_def)
  have fits: "retained_item_count (entries q) + sum_list (map draft_retained_item_count (take ?k drafts))
      \<le> MAX_PLAYLIST_ITEMS"
    using capped_prefix_fits [of 0 "MAX_PLAYLIST_ITEMS - retained_item_count (entries q)" drafts] cap
    by simp
  have "\<forall>x \<in> set (take ?k drafts). draft_wf x" using assms(3) by (auto dest: in_set_takeD)
  from append_entries_ok [OF assms(1,2) this, of r] obtain res q' r' where
    run: "append_entries R r q (take ?k drafts) = Some (res, q', r')" "op_ok q q'"
    "\<And>e. res = Inl e \<Longrightarrow> q' = q \<and> (\<forall>c m x. e = playlist_entries_mutation_error.CapacityExceeded c m x \<longrightarrow>
        MAX_PLAYLIST_ITEMS < retained_item_count (entries q)
          + sum_list (map draft_retained_item_count (take ?k drafts)))"
    by (fastforce split: sum.splits)
  then show ?thesis
    using fits by (cases res) (auto simp: d Let_def)
qed

lemma append_capped_tail_ok:
  assumes "rng_ok R" and "queue_inv q"
  shows "\<exists>res q' r'. append_capped_tail R r q drafts = Some (res, q', r') \<and> op_ok q q'
     \<and> (case res of
          Inl e \<Rightarrow> q' = q \<and> (\<forall>c m x. e \<noteq> add_items_error.CapacityExceeded c m x)
        | Inr out \<Rightarrow>
            length (allocated_item_ids_of_tail out) + capacity_rejected out = length drafts
            \<and> (capacity_rejected out \<noteq> 0 \<longrightarrow> retained_item_count (entries q') = MAX_PLAYLIST_ITEMS))"
proof -
  let ?room = "MAX_PLAYLIST_ITEMS - retained_item_count (entries q)"
  let ?k = "min (length drafts) ?room"
  have cap: "retained_item_count (entries q) \<le> MAX_PLAYLIST_ITEMS" using assms(2) by (simp add: queue_inv_def)
  obtain res q' r' where run: "append_batch R r q (take ?k drafts) = Some (res, q', r')" "op_ok q q'"
    and res: "case res of
         Inl e \<Rightarrow> q' = q \<and> (\<forall>c m x. e = add_items_error.CapacityExceeded c m x \<longrightarrow>
             MAX_PLAYLIST_ITEMS < retained_item_count (entries q) + length (take ?k drafts))
       | Inr NoItemsProvided \<Rightarrow> q' = q \<and> take ?k drafts = []
       | Inr (add_items_outcome.Added ids) \<Rightarrow>
           iter_playable_ids (entries q') = iter_playable_ids (entries q) @ ids
             \<and> length ids = length (take ?k drafts) \<and> set ids \<inter> set (iter_playable_ids (entries q)) = {}"
    using append_batch_ok [OF assms, of r "take ?k drafts"] by blast
  show ?thesis
  proof (cases res)
    case (Inl e)
    then show ?thesis using run res cap by (auto simp: append_capped_tail_def Let_def)
  next
    case (Inr out)
    then show ?thesis using run res cap
      by (cases out) (auto simp: append_capped_tail_def Let_def length_iter_playable_ids [symmetric] min_def
          split: if_splits)
  qed
qed

lemma replace_all_ok:
  assumes "rng_ok R" and "queue_inv q"
  shows "\<exists>res q' r'. replace_all R r q drafts = Some (res, q', r') \<and> op_ok q q'
    \<and> (\<forall>e. res = Inl e \<longrightarrow> q' = q)"
proof -
  have single: "\<forall>d \<in> set (map DraftSingle drafts). draft_wf d" by auto
  have not_compound: "\<not> (\<exists>d \<in> set (map DraftSingle drafts). draft_is_compound d)" by auto
  obtain res q' r' where run: "replace_entries R r q (map DraftSingle drafts) = Some (res, q', r')" "op_ok q q'"
    and res: "\<And>e. res = Inl e \<Longrightarrow> q' = q
           \<and> e \<noteq> playlist_entries_mutation_error.CompoundGroupIdArithmeticExhausted
           \<and> (\<forall>g. e \<noteq> playlist_entries_mutation_error.CompoundGroupIdCollision g)"
    using replace_entries_ok [OF assms single, of r] not_compound by (fastforce split: sum.splits)
  show ?thesis
  proof (cases res)
    case (Inl e)
    then show ?thesis using run res [OF Inl] by (cases e) (auto simp: replace_all_def)
  next
    case (Inr out)
    then show ?thesis using run by (cases out) (auto simp: replace_all_def)
  qed
qed

lemma clear_ok:
  assumes "queue_inv q"
  shows "op_ok q (snd (clear q))"
    and "fst (clear q) = clear_queue_outcome.Cleared n eff out \<Longrightarrow>
      entries (snd (clear q)) = [] \<and> traversal_current (snd (clear q)) = None
      \<and> item_allocator (snd (clear q)) = item_allocator q
      \<and> group_allocator (snd (clear q)) = group_allocator q"
proof -
  have inv': "queue_inv (q\<lparr>entries := [], traversal_current := None,
             shuffle_traversal := map_option (\<lambda>_. empty_idle) (shuffle_traversal q),
             structural_revision := s, traversal_revision := v\<rparr>)" for s v
    using assms empty_idle_wf
    by (auto simp: queue_inv_def iter_top_level_entry_ids_def intro: items.below_mono groups.below_mono)
  show "op_ok q (snd (clear q))"
    using op_ok_refl [OF assms] inv' checked_next_Some [of "structural_revision q"]
      next_traversal_if_current_Some(1) [of q]
    by (auto simp: clear_def grown_def intro!: op_okI split: option.splits)
  show "fst (clear q) = clear_queue_outcome.Cleared n eff out \<Longrightarrow>
      entries (snd (clear q)) = [] \<and> traversal_current (snd (clear q)) = None
      \<and> item_allocator (snd (clear q)) = item_allocator q
      \<and> group_allocator (snd (clear q)) = group_allocator q"
    by (auto simp: clear_def split: option.splits if_splits)
qed

lemma direct_transition_ok:
  assumes "queue_inv q" and "i \<in> set (iter_playable_ids (entries q))"
  shows "\<exists>q'. direct_transition q i = Some q'
    \<and> (\<exists>s. q' = q\<lparr>shuffle_traversal := s\<rparr> \<and> (s = None \<longleftrightarrow> shuffle_traversal q = None))
    \<and> (\<forall>v. queue_inv (q'\<lparr>traversal_current := Some i, traversal_revision := v\<rparr>))"
proof -
  obtain k where k: "structural_entry_id_for_item (entries q) i = Some k"
    using structural_entry_id_for_item_ex [OF assms(2)] by blast
  let ?v = "\<lparr>visit_item_id = i, visit_entry_id = k\<rparr>"
  let ?s = "map_option (\<lambda>t. commit_direct_transition t ?v) (shuffle_traversal q)"
  have "queue_inv (q\<lparr>shuffle_traversal := ?s, traversal_current := Some i, traversal_revision := v\<rparr>)" for v
    using assms commit_direct_transition_wf [of _ _ _ _ ?v] by (auto simp: queue_inv_def)
  then show ?thesis
    by (auto simp: direct_transition_def shuffle_visit_identity_of_def k)
qed

lemma validate_Inr: "validate_traversal_current q i = Inr j \<longleftrightarrow> j = i \<and> i \<in> set (iter_playable_ids (entries q))"
  using item_lookup_None [of "entries q" i]
  by (auto simp: validate_traversal_current_def split: option.splits)

lemma validate_mem: "i \<in> set (iter_playable_ids (entries q)) \<Longrightarrow> validate_traversal_current q i = Inr i"
  by (simp add: validate_Inr)

lemma validate_Inl: "validate_traversal_current q i = Inl e \<Longrightarrow> i \<notin> set (iter_playable_ids (entries q))"
  using validate_Inr [of q i i] by auto

lemma set_traversal_current_ok:
  assumes inv: "queue_inv q"
  shows "\<exists>res q'. set_traversal_current q i = Some (res, q') \<and> op_ok q q'
    \<and> (case res of
         Inl e \<Rightarrow> q' = q
       | Inr out \<Rightarrow> traversal_current q' = Some i \<and> entries q' = entries q)"
proof (cases "active_reservation q = None \<and> i \<in> set (iter_playable_ids (entries q))
    \<and> traversal_current q \<noteq> Some i \<and> checked_next (traversal_revision q) \<noteq> None")
  case True
  then obtain v where v: "checked_next (traversal_revision q) = Some v" by auto
  from direct_transition_ok [OF inv, of i] True obtain q' s where
    q': "direct_transition q i = Some q'" "q' = q\<lparr>shuffle_traversal := s\<rparr>"
      "queue_inv (q'\<lparr>traversal_current := Some i, traversal_revision := v\<rparr>)" by auto
  then have "op_ok q (q'\<lparr>traversal_current := Some i, traversal_revision := v\<rparr>)"
    using True checked_next_Some [OF v] by (intro op_okI) (auto simp: shapes_def intro!: grown_subset)
  with True q' v show ?thesis by (auto simp: set_traversal_current_def validate_mem)
next
  case False
  then show ?thesis using op_ok_refl [OF inv] validate_Inl [of q i]
    by (auto simp: set_traversal_current_def validate_Inr split: sum.splits option.splits)
qed

lemma commit_manual_play_ok:
  assumes inv: "queue_inv q"
  shows "\<exists>res q'. commit_manual_play q i = Some (res, q') \<and> op_ok q q'
    \<and> (case res of
         Inl e \<Rightarrow> q' = q
       | Inr out \<Rightarrow> traversal_current q' = Some i \<and> entries q' = entries q)"
proof (cases "shuffle_traversal q = None \<or> traversal_current q \<noteq> Some i")
  case True
  then show ?thesis using set_traversal_current_ok [OF inv, of i] by (simp add: commit_manual_play_def)
next
  case cur: False
  then have i: "i \<in> set (iter_playable_ids (entries q))" using inv by (auto simp: queue_inv_def)
  show ?thesis
  proof (cases "active_reservation q = None \<and> checked_next (traversal_revision q) \<noteq> None")
    case True
    then obtain v where v: "checked_next (traversal_revision q) = Some v" by auto
    from direct_transition_ok [OF inv i] obtain q' s where
      q': "direct_transition q i = Some q'" "q' = q\<lparr>shuffle_traversal := s\<rparr>"
        "queue_inv (q'\<lparr>traversal_current := Some i, traversal_revision := v\<rparr>)" by auto
    have "q'\<lparr>traversal_current := Some i, traversal_revision := v\<rparr> = q'\<lparr>traversal_revision := v\<rparr>"
      using cur q'(2) by simp
    moreover have "op_ok q (q'\<lparr>traversal_current := Some i, traversal_revision := v\<rparr>)"
      using True checked_next_Some [OF v] q' by (intro op_okI) (auto simp: shapes_def intro!: grown_subset)
    ultimately show ?thesis
      using True cur q' v i by (auto simp: commit_manual_play_def validate_Inr
          split: sum.splits dest: validate_Inl)
  next
    case False
    then show ?thesis using cur op_ok_refl [OF inv]
      by (auto simp: commit_manual_play_def split: sum.splits option.splits)
  qed
qed

lemma clear_traversal_current_ok:
  assumes "queue_inv q"
  shows "op_ok q (snd (clear_traversal_current q))"
proof -
  have "queue_inv (q\<lparr>shuffle_traversal :=
               map_option (\<lambda>t. make_idle t (iter_top_level_entry_ids (entries q))) (shuffle_traversal q),
             traversal_current := None, traversal_revision := v\<rparr>)" for v
    using assms make_idle_wf [OF _ queue_inv_distinct [OF assms] refl]
    by (auto simp: queue_inv_def)
  then show ?thesis
    using op_ok_refl [OF assms] checked_next_Some [of "traversal_revision q"]
    by (auto simp: clear_traversal_current_def shapes_def intro!: op_okI grown_subset split: option.splits)
qed

lemma enable_shuffle_ok:
  assumes rng: "rng_ok R" and inv: "queue_inv q" and run: "enable_shuffle R r q = (res, q', r')"
  shows "op_ok q q'"
proof (cases "active_reservation q = None \<and> shuffle_traversal q = None
    \<and> checked_next (traversal_revision q) \<noteq> None")
  case True
  then obtain v where v: "checked_next (traversal_revision q) = Some v" by auto
  let ?cur = "Option.bind (traversal_current q) (shuffle_visit_identity_of (entries q))"
  obtain t s where f: "fresh R r (iter_top_level_entry_ids (entries q)) ?cur = (t, s)"
    by (cases "fresh R r (iter_top_level_entry_ids (entries q)) ?cur")
  have cur: "map_option visit_item_id ?cur = traversal_current q"
    using inv structural_entry_id_for_item_ex [of _ "entries q"]
    by (cases "traversal_current q") (fastforce simp: queue_inv_def shuffle_visit_identity_of_def)+
  have "visit_item_id v \<in> set (iter_playable_ids (entries q))" if "?cur = Some v" for v
    using cur inv by (simp add: that queue_inv_def)
  from fresh_wf [OF rng queue_inv_distinct [OF inv] this f]
  have "shuffle_wf (set (iter_playable_ids (entries q))) (set (iter_top_level_entry_ids (entries q)))
      (traversal_current q) t"
    by (simp add: cur)
  then have "queue_inv (q\<lparr>shuffle_traversal := Some t, traversal_revision := v\<rparr>)"
    using inv by (simp add: queue_inv_def)
  then have "op_ok q (q\<lparr>shuffle_traversal := Some t, traversal_revision := v\<rparr>)"
    using True checked_next_Some [OF v] by (intro op_okI) (auto simp: shapes_def intro!: grown_subset)
  then show ?thesis using run True v f by (simp add: enable_shuffle_def)
next
  case False
  then show ?thesis using run op_ok_refl [OF inv]
    by (auto simp: enable_shuffle_def split: if_splits option.splits)
qed

lemma disable_shuffle_ok:
  assumes "queue_inv q"
  shows "op_ok q (snd (disable_shuffle q))"
proof -
  have "queue_inv (q\<lparr>shuffle_traversal := None, traversal_revision := v\<rparr>)" for v
    using assms by (simp add: queue_inv_def)
  then show ?thesis
    using op_ok_refl [OF assms] checked_next_Some [of "traversal_revision q"]
    by (auto simp: disable_shuffle_def shapes_def intro!: op_okI grown_subset split: option.splits)
qed

section \<open>Sequences of operations\<close>

lemma shape_entry_id: "shape e = shape f \<Longrightarrow> entry_id e = entry_id f"
  by (auto simp: shape_def)

lemma between_eq: "a \<le> b \<Longrightarrow> b \<le> c \<Longrightarrow> a = c \<Longrightarrow> a = b \<and> b = (c :: 'a :: order)"
  by (simp add: order_antisym)

lemma advances_trans:
  assumes ab: "advances a b" and bc: "advances b c"
  shows "advances a c"
proof -
  note ab' = ab [unfolded advances_def] and bc' = bc [unfolded advances_def]
  have s: "structural_revision a = structural_revision b \<and> structural_revision b = structural_revision c"
    if "structural_revision a = structural_revision c"
    using between_eq [OF _ _ that, of "structural_revision b"] ab' bc' by blast
  have t: "traversal_revision a = traversal_revision b \<and> traversal_revision b = traversal_revision c"
    if "traversal_revision a = traversal_revision c"
    using between_eq [OF _ _ that, of "traversal_revision b"] ab' bc' by blast
  show ?thesis unfolding advances_def
  proof (intro conjI impI)
    show "structural_revision a \<le> structural_revision c" "traversal_revision a \<le> traversal_revision c"
      "metadata_revision a \<le> metadata_revision c"
      "next_item_id (item_allocator a) \<le> next_item_id (item_allocator c)"
      "next_group_id (group_allocator a) \<le> next_group_id (group_allocator c)"
      using ab' bc' by (blast intro: order_trans)+
    assume sc: "structural_revision a = structural_revision c"
    show "shapes a = shapes c" using s [OF sc] ab' bc' by simp
    assume tc: "traversal_revision a = traversal_revision c"
    show "traversal_current a = traversal_current c" "shuffle_traversal a = shuffle_traversal c"
      using s [OF sc] t [OF tc] ab' bc' by simp_all
  qed
qed

lemma grown_trans:
  assumes "grown a b" "advances a b" "grown b c"
  shows "grown a c"
  unfolding grown_def
proof
  fix e
  assume e: "e \<in> set (entries c)"
  have mono: "next_item_id (item_allocator a) \<le> next_item_id (item_allocator b)"
    "next_group_id (group_allocator a) \<le> next_group_id (group_allocator b)"
    using assms(2) by (simp_all add: advances_def)
  show "shape e \<in> set (shapes a) \<or> (case entry_id e of
      EntrySingle i \<Rightarrow> next_item_id (item_allocator a) \<le> item_raw i
    | EntryCompound g \<Rightarrow> next_group_id (group_allocator a) \<le> group_raw g)"
  proof (cases "shape e \<in> set (shapes b)")
    case True
    then obtain f where f: "f \<in> set (entries b)" "shape e = shape f" by (auto simp: shapes_def)
    then show ?thesis using assms(1) shape_entry_id [OF f(2)] by (auto simp: grown_def)
  next
    case False
    then show ?thesis using assms(3) e mono
      by (cases "entry_id e") (auto simp: grown_def intro: order_trans)
  qed
qed

lemma same_core_trans: "same_core a b \<Longrightarrow> same_core b c \<Longrightarrow> same_core a c"
  unfolding same_core_def by simp

lemma op_ok_trans:
  assumes ab: "op_ok a b" and bc: "op_ok b c"
  shows "op_ok a c"
proof -
  note ab' = ab [unfolded op_ok_def] and bc' = bc [unfolded op_ok_def]
  have "advances a c" using advances_trans ab' bc' by blast
  moreover have "grown a c" using grown_trans ab' bc' by blast
  moreover have "active_reservation a \<noteq> None \<longrightarrow> same_core a c" using same_core_trans ab' bc' by metis
  ultimately show ?thesis unfolding op_ok_def using ab' bc' by simp
qed

section \<open>Appending succeeds\<close>

lemma checked_next_below_max:
  fixes v :: u64
  assumes "v \<noteq> -1"
  shows "checked_next v = Some (v + 1)"
proof -
  have "unat v \<noteq> unat (-1 :: u64)" using assms by (simp add: word_unat_eq_iff)
  moreover have "unat (-1 :: u64) = 2 ^ 64 - 1" by (simp add: unsigned_minus_1_eq_mask mask_eq_exp_minus_1)
  ultimately have "unat v + 1 < 2 ^ 64" using unsigned_less [of v, where ?'a = nat] by simp
  then show ?thesis by (simp add: checked_next_def u64_checked_add_def)
qed

lemma append_entries_succeeds:
  assumes rng: "rng_ok R" and inv: "queue_inv q" and wf: "\<forall>d \<in> set drafts. draft_wf d"
    and free: "active_reservation q = None" and some: "drafts \<noteq> []"
    and cap: "retained_item_count (entries q) + sum_list (map draft_retained_item_count drafts) \<le> MAX_PLAYLIST_ITEMS"
    and rev: "structural_revision q \<noteq> -1"
    and ids: "unat (next_item_id (item_allocator q)) + sum_list (map draft_retained_item_count drafts) < 2 ^ 64"
      "unat (next_group_id (group_allocator q)) + length (filter draft_is_compound drafts) < 2 ^ 64"
  shows "\<exists>a q' r'. append_entries R r q drafts = Some (Inr (add_playlist_entries_outcome.Added a), q', r')"
proof -
  let ?n = "sum_list (map draft_retained_item_count drafts)"
  have n: "retained_draft_count 0 drafts = Inr ?n"
    using retained_draft_count_Inl [of 0 drafts] retained_draft_count_Inr [of 0 drafts] cap
    by (cases "retained_draft_count 0 drafts") (auto simp: MAX_PLAYLIST_ITEMS_def usize_max_def)
  obtain ip where ip: "item_preflight_allocation (item_allocator q) ?n (existing_item_ids q) = Inr ip"
    using item_preflight_Inl [of "item_allocator q" ?n "existing_item_ids q"] inv ids(1)
    by (cases "item_preflight_allocation (item_allocator q) ?n (existing_item_ids q)")
      (auto simp: queue_inv_def items.below_def existing_item_ids_def)
  obtain gp where gp: "group_preflight_allocation (group_allocator q) (length (filter draft_is_compound drafts))
      (existing_compound_group_ids q) = Inr gp"
    using group_preflight_Inl [of "group_allocator q" "length (filter draft_is_compound drafts)" "existing_compound_group_ids q"]
      inv ids(2)
    by (cases "group_preflight_allocation (group_allocator q) (length (filter draft_is_compound drafts))
        (existing_compound_group_ids q)")
      (auto simp: queue_inv_def groups.below_def existing_compound_group_ids_def)
  have not_Inl: "preflight_entry_allocation q drafts \<noteq> Some (Inl e)" for e
    using n ip gp by (auto simp: preflight_entry_allocation_def split: option.splits)
  obtain p where "preflight_entry_allocation q drafts = Some (Inr p)"
    using prepared_entries_ok [OF inv wf n] cap not_Inl by auto
  moreover have "\<not> (case usize_checked_add (retained_item_count (entries q)) ?n of
      None \<Rightarrow> True | Some resulting \<Rightarrow> resulting > MAX_PLAYLIST_ITEMS)"
    using cap by (simp add: usize_checked_add_def MAX_PLAYLIST_ITEMS_def usize_max_def)
  ultimately show ?thesis
    using n cap free some checked_next_below_max [OF rev]
    by (auto simp: append_entries_def Let_def split: prod.splits)
qed

end
