(* ===== verification/Queue_Removal.thy ===== *)
theory Queue_Removal
  imports Queue
begin

text \<open>
  Removal of top-level entries and its Undo (playlist-core \<open>queue/removal.rs\<close> and
  \<open>queue/shuffle/removal.rs\<close>). A Rust \<open>HashSet\<close> is iterated in an unspecified order:
  \<open>remove_batch\<close> takes that order as an argument, a list of the requested entries.
\<close>

section \<open>Definitions\<close>

datatype remove_item_outcome =
    Removed playlist_entry_id traversal_current_effect removal_current_outcome
  | NotFound playlist_entry_id
  | CompoundPartTarget playlist_item_id playlist_entry_id
  | InstallCommitLinearizing
  | StructuralRevisionExhausted
  | TraversalRevisionExhausted

datatype bulk_remove_outcome =
    Removed nat traversal_current_effect removal_current_outcome
  | NoItemsRequested
  | NoMatchingItems

datatype bulk_remove_error =
    InstallCommitLinearizing
  | CompoundPartTarget playlist_item_id playlist_entry_id
  | StructuralRevisionExhausted
  | TraversalRevisionExhausted

definition removed_current :: "playlist_queue \<Rightarrow> playlist_item_id set \<Rightarrow> playlist_item_id option" where
  "removed_current q removed_items =
     (case traversal_current q of
        Some c \<Rightarrow> if c \<in> removed_items then Some c else None
      | None \<Rightarrow> None)"

text \<open>The shuffle cleanup and the publication shared by both removals, after their preflights.\<close>

definition publish_removal ::
    "playlist_queue \<Rightarrow> playlist_entry_id set \<Rightarrow> playlist_item_id set \<Rightarrow> playlist_entry list \<Rightarrow>
     u64 \<Rightarrow> u64 \<Rightarrow> playlist_queue run" where
  "publish_removal q removed_entries removed_items remaining next_structural next_traversal =
     (let clears_current = removed_current q removed_items \<noteq> None;
          q' = q\<lparr>entries := remaining, structural_revision := next_structural,
                 traversal_current := (if clears_current then None else traversal_current q),
                 traversal_revision := next_traversal\<rparr>
      in case shuffle_traversal q of
           None \<Rightarrow> Some q'
         | Some t \<Rightarrow>
             map_option (\<lambda>t'. q'\<lparr>shuffle_traversal := Some t'\<rparr>)
               (remove_entries_and_items t removed_entries removed_items
                  (filter (\<lambda>e. e \<notin> removed_entries) (iter_top_level_entry_ids (entries q)))
                  clears_current))"

definition removal_effect :: "playlist_item_id option \<Rightarrow> traversal_current_effect" where
  "removal_effect removed =
     (if removed \<noteq> None then traversal_current_effect.Cleared else traversal_current_effect.Preserved)"

definition removal_outcome_of ::
    "playlist_queue \<Rightarrow> playlist_item_id option \<Rightarrow> removal_current_outcome" where
  "removal_outcome_of q removed =
     (case removed of Some c \<Rightarrow> Detached c | None \<Rightarrow> CurrentPreserved (traversal_current q))"

text \<open>The traversal revision is only advanced when the current is removed.\<close>

definition next_traversal_if_removed ::
    "playlist_queue \<Rightarrow> playlist_item_id option \<Rightarrow> u64 option" where
  "next_traversal_if_removed q removed =
     (if removed \<noteq> None then checked_next (traversal_revision q) else Some (traversal_revision q))"

definition remove_entry ::
    "playlist_queue \<Rightarrow> playlist_entry_id \<Rightarrow> (remove_item_outcome \<times> playlist_queue) run" where
  "remove_entry q k =
     (if active_reservation q \<noteq> None
      then Some (remove_item_outcome.InstallCommitLinearizing, q)
      else case resolve_top_level_entry_index (entries q) k of
        Inl LookupNotFound \<Rightarrow> Some (remove_item_outcome.NotFound k, q)
      | Inl (LookupCompoundPart part owner) \<Rightarrow>
          Some (remove_item_outcome.CompoundPartTarget part owner, q)
      | Inr index \<Rightarrow>
     (case checked_next (structural_revision q) of
        None \<Rightarrow> Some (remove_item_outcome.StructuralRevisionExhausted, q)
      | Some next_structural \<Rightarrow>
     (let removed_items = set (map item_id (entry_playable_items (entries q ! index)));
          removed = removed_current q removed_items
      in case next_traversal_if_removed q removed of
           None \<Rightarrow> Some (remove_item_outcome.TraversalRevisionExhausted, q)
         | Some next_traversal \<Rightarrow>
             map_option
               (\<lambda>q'. (remove_item_outcome.Removed k (removal_effect removed)
                       (removal_outcome_of q' removed), q'))
               (publish_removal q {k} removed_items (remove_at index (entries q))
                  next_structural next_traversal))))"

definition commit_bulk_remove ::
    "playlist_queue \<Rightarrow> playlist_entry_id set \<Rightarrow>
     ((bulk_remove_error + bulk_remove_outcome) \<times> playlist_queue) run" where
  "commit_bulk_remove q to_remove =
     (let removed_items = set (iter_playable_ids (filter (\<lambda>e. entry_id e \<in> to_remove) (entries q)))
      in case checked_next (structural_revision q) of
           None \<Rightarrow> Some (Inl bulk_remove_error.StructuralRevisionExhausted, q)
         | Some next_structural \<Rightarrow>
     (let removed = removed_current q removed_items
      in case next_traversal_if_removed q removed of
           None \<Rightarrow> Some (Inl bulk_remove_error.TraversalRevisionExhausted, q)
         | Some next_traversal \<Rightarrow>
             map_option
               (\<lambda>q'. (Inr (bulk_remove_outcome.Removed (card removed_items) (removal_effect removed)
                             (removal_outcome_of q' removed)), q'))
               (publish_removal q to_remove removed_items
                  (filter (\<lambda>e. entry_id e \<notin> to_remove) (entries q)) next_structural next_traversal)))"

text \<open>\<open>collect::<HashMap<_, _>>()\<close>: a later pair replaces an earlier one.\<close>

definition compound_entry_by_part ::
    "playlist_entry list \<Rightarrow> playlist_item_id \<Rightarrow> playlist_entry_id option" where
  "compound_entry_by_part es =
     map_of (rev (concat (map
       (\<lambda>g. map (\<lambda>p. (item_id (part_item p), EntryCompound (group_id g))) (group_parts g))
       (List.map_filter as_compound es))))"

fun select_committed ::
    "playlist_entry list \<Rightarrow> playlist_entry_id list \<Rightarrow>
     bulk_remove_error + playlist_entry_id list" where
  "select_committed es [] = Inr []"
| "select_committed es (k # ks) =
     (if k \<in> set (iter_top_level_entry_ids es) then
        (case select_committed es ks of Inl e \<Rightarrow> Inl e | Inr selected \<Rightarrow> Inr (k # selected))
      else
        (case k of
           EntryCompound _ \<Rightarrow> select_committed es ks
         | EntrySingle part \<Rightarrow>
             (case compound_entry_by_part es part of
                Some owner \<Rightarrow> Inl (bulk_remove_error.CompoundPartTarget part owner)
              | None \<Rightarrow> select_committed es ks)))"

definition remove_batch ::
    "playlist_queue \<Rightarrow> playlist_entry_id list \<Rightarrow> playlist_entry_id list \<Rightarrow>
     ((bulk_remove_error + bulk_remove_outcome) \<times> playlist_queue) run" where
  "remove_batch q requested hash_order =
     (if active_reservation q \<noteq> None
      then Some (Inl bulk_remove_error.InstallCommitLinearizing, q)
      else if requested = [] then Some (Inr bulk_remove_outcome.NoItemsRequested, q)
      else case select_committed (entries q) hash_order of
        Inl e \<Rightarrow> Some (Inl e, q)
      | Inr selected \<Rightarrow>
          if selected = [] then Some (Inr NoMatchingItems, q)
          else commit_bulk_remove q (set selected))"

definition remove_others ::
    "playlist_queue \<Rightarrow> playlist_entry_id \<Rightarrow>
     ((bulk_remove_error + bulk_remove_outcome) \<times> playlist_queue) run" where
  "remove_others q retained =
     (if active_reservation q \<noteq> None
      then Some (Inl bulk_remove_error.InstallCommitLinearizing, q)
      else case resolve_top_level_entry_index (entries q) retained of
        Inl LookupNotFound \<Rightarrow> Some (Inr NoMatchingItems, q)
      | Inl (LookupCompoundPart part owner) \<Rightarrow>
          Some (Inl (bulk_remove_error.CompoundPartTarget part owner), q)
      | Inr _ \<Rightarrow>
          (let to_remove = filter (\<lambda>k. k \<noteq> retained) (iter_top_level_entry_ids (entries q))
           in if to_remove = [] then Some (Inr NoMatchingItems, q)
              else commit_bulk_remove q (set to_remove)))"

subsection \<open>Undo\<close>

record playlist_removal_snapshot =
  rs_entries :: "playlist_entry list"
  rs_item_allocator :: item_id_allocator
  rs_group_allocator :: group_id_allocator
  rs_traversal_current :: "playlist_item_id option"
  rs_structural_revision :: u64
  rs_traversal_revision :: u64
  rs_shuffle_traversal :: "shuffle_traversal option"

datatype removal_snapshot_restore_error =
    InstallCommitLinearizing
  | StaleStructuralRevision
  | StalePersistentState
  | NotRemovalResult
  | RevisionExhausted
  | ShuffleActive

datatype restored_current_source = FromSnapshot | FromCurrentQueue

definition capture_removal_snapshot :: "playlist_queue \<Rightarrow> playlist_removal_snapshot" where
  "capture_removal_snapshot q =
     \<lparr>rs_entries = entries q, rs_item_allocator = item_allocator q,
      rs_group_allocator = group_allocator q, rs_traversal_current = traversal_current q,
      rs_structural_revision = structural_revision q, rs_traversal_revision = traversal_revision q,
      rs_shuffle_traversal = shuffle_traversal q\<rparr>"

text \<open>Rows that are still in the queue keep their current content, the removed ones come back from
  the snapshot, all in the order of the snapshot.\<close>

definition merged_entries :: "playlist_entry list \<Rightarrow> playlist_entry list \<Rightarrow> playlist_entry list" where
  "merged_entries current_entries snapshot_entries =
     map (\<lambda>s. case map_of (rev (map (\<lambda>e. (entry_id e, e)) current_entries)) (entry_id s) of
                Some e \<Rightarrow> e | None \<Rightarrow> s) snapshot_entries"

text \<open>All checks come before the mutation and end with the revisions to publish.\<close>

definition restore_removal_preflight ::
    "playlist_queue \<Rightarrow> playlist_removal_snapshot \<Rightarrow> restored_current_source \<Rightarrow>
     removal_snapshot_restore_error + u64 \<times> u64" where
  "restore_removal_preflight q s source =
     (let current_ids = iter_top_level_entry_ids (entries q);
          traversal_changed = (source = FromSnapshot \<and> traversal_current q \<noteq> rs_traversal_current s);
          next_traversal = (if traversal_changed then checked_next (traversal_revision q)
                            else Some (traversal_revision q))
      in if active_reservation q \<noteq> None
         then Inl removal_snapshot_restore_error.InstallCommitLinearizing
         else if checked_next (rs_structural_revision s) = None then Inl RevisionExhausted
         else if checked_next (rs_structural_revision s) \<noteq> Some (structural_revision q)
         then Inl StaleStructuralRevision
         else if item_allocator q \<noteq> rs_item_allocator s \<or> group_allocator q \<noteq> rs_group_allocator s
         then Inl StalePersistentState
         else if length (entries q) \<ge> length (rs_entries s)
                 \<or> filter (\<lambda>k. k \<in> set current_ids) (iter_top_level_entry_ids (rs_entries s)) \<noteq> current_ids
                 \<or> card (set current_ids) \<noteq> length (entries q)
         then Inl NotRemovalResult
         else if source = FromSnapshot \<and> traversal_revision q \<noteq> rs_traversal_revision s
                 \<and> checked_next (rs_traversal_revision s) \<noteq> Some (traversal_revision q)
         then Inl StalePersistentState
         else (case (checked_next (structural_revision q), next_traversal) of
                 (Some n, Some v) \<Rightarrow> Inr (n, v)
               | _ \<Rightarrow> Inl RevisionExhausted))"

definition restore_removal_snapshot_from ::
    "playlist_queue \<Rightarrow> playlist_removal_snapshot \<Rightarrow> restored_current_source \<Rightarrow>
     (removal_snapshot_restore_error + playlist_item_id option) \<times> playlist_queue" where
  "restore_removal_snapshot_from q s source =
     (case restore_removal_preflight q s source of
        Inl e \<Rightarrow> (Inl e, q)
      | Inr (next_structural, next_traversal) \<Rightarrow>
          (let q' = q\<lparr>entries := merged_entries (entries q) (rs_entries s),
                      traversal_current :=
                        (if source = FromSnapshot then rs_traversal_current s
                         else traversal_current q),
                      shuffle_traversal :=
                        (if source = FromSnapshot then rs_shuffle_traversal s
                         else shuffle_traversal q),
                      structural_revision := next_structural,
                      traversal_revision := next_traversal\<rparr>
           in (Inr (traversal_current q'), q')))"

definition restore_removal_snapshot ::
    "playlist_queue \<Rightarrow> playlist_removal_snapshot \<Rightarrow>
     (removal_snapshot_restore_error + playlist_item_id option) \<times> playlist_queue" where
  "restore_removal_snapshot q s = restore_removal_snapshot_from q s FromSnapshot"

definition restore_removed_rows_keeping_current ::
    "playlist_queue \<Rightarrow> playlist_removal_snapshot \<Rightarrow>
     (removal_snapshot_restore_error + playlist_item_id option) \<times> playlist_queue" where
  "restore_removed_rows_keeping_current q s =
     (if shuffle_traversal q \<noteq> None \<or> rs_shuffle_traversal s \<noteq> None then (Inl ShuffleActive, q)
      else restore_removal_snapshot_from q s FromCurrentQueue)"

section \<open>Removal keeps the invariant\<close>

lemma playable_ids_filter:
  assumes "entries_wf es"
  shows "set (iter_playable_ids (filter P es))
    = set (iter_playable_ids es) - set (iter_playable_ids (filter (\<lambda>e. \<not> P e) es))"
proof -
  let ?a = "iter_playable_ids (filter P es)" and ?b = "iter_playable_ids (filter (\<lambda>e. \<not> P e) es)"
  have "mset (?a @ ?b) = mset (iter_playable_ids es)"
    using mset_iter_playable_ids [OF distinct_filter_partition [of P es]] by simp
  then have "distinct (?a @ ?b)" and "set (?a @ ?b) = set (iter_playable_ids es)"
    using mset_eq_set_distinct assms unfolding entries_wf_def by blast+
  then show ?thesis by auto
qed

lemma filter_subset_projections:
  "set (compound_ids (filter P es)) \<subseteq> set (compound_ids es)"
  "retained_item_count (filter P es) \<le> retained_item_count es"
  by (induction es rule: compound_ids.induct) (auto split: if_splits)

lemma remove_at_filter:
  assumes "distinct (map f xs)" and "n < length xs"
  shows "remove_at n xs = filter (\<lambda>x. f x \<noteq> f (xs ! n)) xs"
proof -
  have xs: "xs = take n xs @ xs ! n # drop (Suc n) xs" using assms(2) by (rule id_take_nth_drop)
  have d: "distinct (map f (take n xs @ xs ! n # drop (Suc n) xs))" using assms(1) xs by simp
  have "filter (\<lambda>x. f x \<noteq> f (xs ! n)) (take n xs) = take n xs"
    and "filter (\<lambda>x. f x \<noteq> f (xs ! n)) (drop (Suc n) xs) = drop (Suc n) xs"
    using d unfolding filter_id_conv by (simp_all, metis image_eqI, metis image_eqI)
  then have "filter (\<lambda>x. f x \<noteq> f (xs ! n)) (take n xs @ xs ! n # drop (Suc n) xs)
      = take n xs @ drop (Suc n) xs"
    by simp
  with xs show ?thesis by (metis remove_at_def)
qed

text \<open>The common step: the rows outside \<open>RE\<close> stay, the shuffle references to them are cleaned, and
  a removed current is detached.\<close>

lemma publish_removal_ok:
  assumes inv: "queue_inv q" and free: "active_reservation q = None"
    and s: "checked_next (structural_revision q) = Some s"
    and items: "RI = set (iter_playable_ids (filter (\<lambda>e. entry_id e \<in> RE) (entries q)))"
    and v: "next_traversal_if_removed q (removed_current q RI) = Some v"
  shows "\<exists>q'. publish_removal q RE RI (filter (\<lambda>e. entry_id e \<notin> RE) (entries q)) s v = Some q'
    \<and> op_ok q q' \<and> entries q' = filter (\<lambda>e. entry_id e \<notin> RE) (entries q)
    \<and> traversal_current q' = (if removed_current q RI \<noteq> None then None else traversal_current q)
    \<and> item_allocator q' = item_allocator q \<and> group_allocator q' = group_allocator q
    \<and> structural_revision q' = s \<and> traversal_revision q' = v \<and> active_reservation q' = None
    \<and> (shuffle_traversal q' = None \<longleftrightarrow> shuffle_traversal q = None)"
proof -
  let ?es = "filter (\<lambda>e. entry_id e \<notin> RE) (entries q)"
  let ?removed = "removed_current q RI \<noteq> None"
  let ?rest = "filter (\<lambda>k. k \<notin> RE) (iter_top_level_entry_ids (entries q))"
  let ?cur = "if ?removed then None else traversal_current q"
  have wf: "entries_wf (entries q)" using inv by (simp add: queue_inv_def)
  have I: "set (iter_playable_ids ?es) = set (iter_playable_ids (entries q)) - RI"
    using playable_ids_filter [OF wf, of "\<lambda>e. entry_id e \<notin> RE"] items by simp
  have E: "iter_top_level_entry_ids ?es = ?rest"
    by (simp add: iter_top_level_entry_ids_def filter_map comp_def)
  have removed: "?removed \<longleftrightarrow> (\<exists>c. traversal_current q = Some c \<and> c \<in> RI)"
    by (auto simp: removed_current_def split: option.splits)
  have traversal: "traversal_revision q \<le> v \<and> (?removed \<longrightarrow> traversal_revision q \<noteq> v)
      \<and> (\<not> ?removed \<longrightarrow> v = traversal_revision q)"
    using v checked_next_Some [of "traversal_revision q" v]
    by (auto simp: next_traversal_if_removed_def split: if_splits)
  have base: "entries_wf ?es" "items.below (item_allocator q) (set (iter_playable_ids ?es))"
    "groups.below (group_allocator q) (set (compound_ids ?es))"
    "retained_item_count ?es \<le> MAX_PLAYLIST_ITEMS"
    "\<forall>c. ?cur = Some c \<longrightarrow> c \<in> set (iter_playable_ids ?es)"
    using inv entries_wf_filter [OF wf] filter_subset_projections [of "\<lambda>e. entry_id e \<notin> RE" "entries q"] I removed
    by (auto simp: queue_inv_def intro: items.below_mono groups.below_mono le_trans)
  define q0 where "q0 = q\<lparr>entries := ?es, structural_revision := s,
                 traversal_current := ?cur, traversal_revision := v\<rparr>"
  have ok: "op_ok q (q0\<lparr>shuffle_traversal := sh\<rparr>)"
    if "\<And>t. sh = Some t \<Longrightarrow> shuffle_wf (set (iter_playable_ids ?es)) (set (iter_top_level_entry_ids ?es)) ?cur t"
    for sh
  proof (rule op_okI)
    show "queue_inv (q0\<lparr>shuffle_traversal := sh\<rparr>)"
      using base that by (simp add: queue_inv_def q0_def)
    show "grown q (q0\<lparr>shuffle_traversal := sh\<rparr>)"
      by (rule grown_subset) (auto simp: shapes_def q0_def)
  qed (use free traversal checked_next_Some [OF s] in \<open>auto simp: q0_def\<close>)
  show ?thesis
  proof (cases "shuffle_traversal q")
    case None
    then have "q0\<lparr>shuffle_traversal := None\<rparr> = q0" by (simp add: q0_def)
    then have "op_ok q q0" using ok [of None] by simp
    then show ?thesis
      using None free by (auto simp: publish_removal_def Let_def q0_def)
  next
    case (Some t)
    then have "shuffle_wf (set (iter_playable_ids (entries q))) (set (iter_top_level_entry_ids (entries q)))
        (traversal_current q) t"
      using inv by (simp add: queue_inv_def)
    from remove_entries_and_items_wf [OF this removed, of ?rest RE] queue_inv_distinct [OF inv]
    obtain t' where t': "remove_entries_and_items t RE RI ?rest ?removed = Some t'"
      "shuffle_wf (set (iter_playable_ids ?es)) (set (iter_top_level_entry_ids ?es)) ?cur t'"
      by (auto simp: I E set_diff_eq)
    with ok [of "Some t'"] Some show ?thesis
      using free by (auto simp: publish_removal_def Let_def q0_def)
  qed
qed


lemma commit_bulk_remove_ok:
  assumes inv: "queue_inv q" and free: "active_reservation q = None"
  shows "\<exists>res q'. commit_bulk_remove q RE = Some (res, q') \<and> op_ok q q'
    \<and> (\<forall>e. res = Inl e \<longrightarrow> q' = q)
    \<and> (\<forall>out. res = Inr out \<longrightarrow> (\<exists>n eff cur. out = bulk_remove_outcome.Removed n eff cur)
         \<and> entries q' = filter (\<lambda>e. entry_id e \<notin> RE) (entries q)
         \<and> item_allocator q' = item_allocator q \<and> group_allocator q' = group_allocator q)"
proof -
  let ?RI = "set (iter_playable_ids (filter (\<lambda>e. entry_id e \<in> RE) (entries q)))"
  show ?thesis
  proof (cases "checked_next (structural_revision q) = None
      \<or> next_traversal_if_removed q (removed_current q ?RI) = None")
    case True
    then show ?thesis
      using op_ok_refl [OF inv] by (auto simp: commit_bulk_remove_def Let_def split: option.splits)
  next
    case False
    then obtain s v where s: "checked_next (structural_revision q) = Some s"
      and v: "next_traversal_if_removed q (removed_current q ?RI) = Some v" by auto
    from publish_removal_ok [OF inv free s refl v] s v show ?thesis
      by (auto simp: commit_bulk_remove_def Let_def)
  qed
qed

text \<open>A single removal is the bulk step on one entry.\<close>

lemma remove_entry_index:
  assumes wf: "entries_wf es" and n: "resolve_top_level_entry_index es k = Inr n"
  shows "remove_at n es = filter (\<lambda>e. entry_id e \<notin> {k}) es"
    and "item_id ` set (entry_playable_items (es ! n))
       = set (iter_playable_ids (filter (\<lambda>e. entry_id e = k) es))"
proof -
  from resolve_Inr [OF n] have lt: "n < length es" and k: "entry_id (es ! n) = k" by auto
  from distinct_entry_ids [OF wf] have d: "distinct (map entry_id es)"
    by (simp add: iter_top_level_entry_ids_def)
  from remove_at_filter [OF d lt] k show "remove_at n es = filter (\<lambda>e. entry_id e \<notin> {k}) es" by simp
  have "set (filter (\<lambda>e. entry_id e = k) es) = {es ! n}"
    using lt k entry_id_inj [OF wf] by (auto simp: nth_mem)
  then show "item_id ` set (entry_playable_items (es ! n))
      = set (iter_playable_ids (filter (\<lambda>e. entry_id e = k) es))"
    unfolding set_iter_playable_ids by simp
qed

lemma remove_entry_ok:
  assumes inv: "queue_inv q"
  shows "\<exists>res q'. remove_entry q k = Some (res, q') \<and> op_ok q q'
    \<and> (case res of
         remove_item_outcome.Removed j eff out \<Rightarrow>
           k \<in> set (iter_top_level_entry_ids (entries q))
           \<and> entries q' = filter (\<lambda>e. entry_id e \<noteq> k) (entries q)
           \<and> item_allocator q' = item_allocator q \<and> group_allocator q' = group_allocator q
           \<and> checked_next (structural_revision q) = Some (structural_revision q')
           \<and> (traversal_revision q' = traversal_revision q
               \<or> Some (traversal_revision q') = checked_next (traversal_revision q))
           \<and> active_reservation q' = None
       | _ \<Rightarrow> q' = q)"
proof (cases "active_reservation q = None")
  case free: True
  show ?thesis
  proof (cases "resolve_top_level_entry_index (entries q) k")
    case (Inl e)
    then show ?thesis using free op_ok_refl [OF inv] by (cases e) (auto simp: remove_entry_def)
  next
    case (Inr n)
    have wf: "entries_wf (entries q)" using inv by (simp add: queue_inv_def)
    let ?RI = "set (iter_playable_ids (filter (\<lambda>e. entry_id e = k) (entries q)))"
    note idx = remove_entry_index [OF wf Inr]
    have RI: "?RI = set (iter_playable_ids (filter (\<lambda>e. entry_id e \<in> {k}) (entries q)))" by simp
    have k: "k \<in> set (iter_top_level_entry_ids (entries q))"
      using resolve_Inr [OF Inr] by (auto simp: iter_top_level_entry_ids_def)
    show ?thesis
    proof (cases "checked_next (structural_revision q) = None
        \<or> next_traversal_if_removed q (removed_current q ?RI) = None")
      case True
      then show ?thesis
        using free op_ok_refl [OF inv] by (auto simp: Inr idx Let_def remove_entry_def split: option.splits)
    next
      case False
      then obtain s v where s: "checked_next (structural_revision q) = Some s"
        and v: "next_traversal_if_removed q (removed_current q ?RI) = Some v" by auto
      then have v': "v = traversal_revision q \<or> Some v = checked_next (traversal_revision q)"
        by (auto simp: next_traversal_if_removed_def split: if_splits)
      from publish_removal_ok [OF inv free s RI v] s v v' k show ?thesis
        by (auto simp: remove_entry_def free Inr idx Let_def)
    qed
  qed
qed (use op_ok_refl [OF inv] in \<open>auto simp: remove_entry_def\<close>)

lemma select_committed_Inr:
  "select_committed es ks = Inr sel \<Longrightarrow> set sel = set ks \<inter> set (iter_top_level_entry_ids es)"
proof (induction ks arbitrary: sel)
  case (Cons k ks)
  consider (committed) sel' where "k \<in> set (iter_top_level_entry_ids es)"
      "select_committed es ks = Inr sel'" "sel = k # sel'"
    | (absent) "k \<notin> set (iter_top_level_entry_ids es)" "select_committed es ks = Inr sel"
    using Cons.prems by (auto split: if_splits sum.splits playlist_entry_id.splits option.splits)
  then show ?case using Cons.IH by cases auto
qed simp

lemma remove_batch_ok:
  assumes inv: "queue_inv q"
  shows "\<exists>res q'. remove_batch q requested order = Some (res, q') \<and> op_ok q q'
    \<and> ((\<exists>n eff cur. res = Inr (bulk_remove_outcome.Removed n eff cur))
           \<and> entries q' = filter (\<lambda>e. entry_id e \<notin> set order) (entries q)
           \<and> item_allocator q' = item_allocator q \<and> group_allocator q' = group_allocator q
         \<or> (\<forall>n eff cur. res \<noteq> Inr (bulk_remove_outcome.Removed n eff cur)) \<and> q' = q)"
proof (cases "active_reservation q = None \<and> requested \<noteq> []")
  case True
  show ?thesis
  proof (cases "select_committed (entries q) order")
    case (Inl e)
    then show ?thesis using True op_ok_refl [OF inv] by (auto simp: remove_batch_def)
  next
    case (Inr sel)
    note sel = select_committed_Inr [OF Inr]
    have "filter (\<lambda>e. entry_id e \<notin> set sel) (entries q) = filter (\<lambda>e. entry_id e \<notin> set order) (entries q)"
      by (rule filter_cong) (auto simp: sel iter_top_level_entry_ids_def)
    moreover obtain res q' where "commit_bulk_remove q (set sel) = Some (res, q')" "op_ok q q'"
      "(\<forall>e. res = Inl e \<longrightarrow> q' = q)"
      "(\<forall>out. res = Inr out \<longrightarrow> (\<exists>n eff cur. out = bulk_remove_outcome.Removed n eff cur)
         \<and> entries q' = filter (\<lambda>e. entry_id e \<notin> set sel) (entries q)
         \<and> item_allocator q' = item_allocator q \<and> group_allocator q' = group_allocator q)"
      using commit_bulk_remove_ok [OF inv] True by blast
    ultimately show ?thesis
      using True Inr op_ok_refl [OF inv] by (cases res; cases "sel = []") (auto simp: remove_batch_def)
  qed
qed (use op_ok_refl [OF inv] in \<open>auto simp: remove_batch_def\<close>)

lemma remove_others_ok:
  assumes inv: "queue_inv q"
  shows "\<exists>res q'. remove_others q k = Some (res, q') \<and> op_ok q q'
    \<and> ((\<exists>n eff cur. res = Inr (bulk_remove_outcome.Removed n eff cur))
           \<and> entries q' = filter (\<lambda>e. entry_id e = k) (entries q)
         \<or> (\<forall>n eff cur. res \<noteq> Inr (bulk_remove_outcome.Removed n eff cur)) \<and> q' = q)"
proof (cases "active_reservation q = None")
  case free: True
  show ?thesis
  proof (cases "resolve_top_level_entry_index (entries q) k")
    case (Inl e)
    then show ?thesis using free op_ok_refl [OF inv] by (cases e) (auto simp: remove_others_def)
  next
    case (Inr n)
    let ?rm = "filter (\<lambda>j. j \<noteq> k) (iter_top_level_entry_ids (entries q))"
    have "filter (\<lambda>e. entry_id e \<notin> set ?rm) (entries q) = filter (\<lambda>e. entry_id e = k) (entries q)"
      by (rule filter_cong) (auto simp: iter_top_level_entry_ids_def)
    moreover obtain res q' where "commit_bulk_remove q (set ?rm) = Some (res, q')" "op_ok q q'"
      "(\<forall>e. res = Inl e \<longrightarrow> q' = q)"
      "(\<forall>out. res = Inr out \<longrightarrow> (\<exists>n eff cur. out = bulk_remove_outcome.Removed n eff cur)
         \<and> entries q' = filter (\<lambda>e. entry_id e \<notin> set ?rm) (entries q))"
      using commit_bulk_remove_ok [OF inv free] by blast
    ultimately show ?thesis
      using free Inr op_ok_refl [OF inv] unfolding remove_others_def
      by (cases res; cases "?rm = []") (simp_all add: Let_def)
  qed
qed (use op_ok_refl [OF inv] in \<open>auto simp: remove_others_def\<close>)

section \<open>Undo\<close>

text \<open>The queue a snapshot was taken from, up to what a snapshot does not record.\<close>

definition snapshot_queue :: "playlist_removal_snapshot \<Rightarrow> playlist_queue" where
  "snapshot_queue s =
     \<lparr>entries = rs_entries s, item_allocator = rs_item_allocator s,
      group_allocator = rs_group_allocator s, traversal_current = rs_traversal_current s,
      structural_revision = rs_structural_revision s, traversal_revision = rs_traversal_revision s,
      metadata_revision = 0, active_reservation = None, shuffle_traversal = rs_shuffle_traversal s\<rparr>"

text \<open>A snapshot fits a queue of the same lineage: an entry identity names the same rows in both.\<close>

definition snapshot_fits :: "playlist_queue \<Rightarrow> playlist_removal_snapshot \<Rightarrow> bool" where
  "snapshot_fits q s \<longleftrightarrow>
     queue_inv (snapshot_queue s)
     \<and> (\<forall>e \<in> set (entries q). \<forall>f \<in> set (rs_entries s). entry_id e = entry_id f \<longrightarrow> shape e = shape f)"

text \<open>What an Undo keeps: everything an operation keeps, except that rows come back.\<close>

definition op_inv :: "playlist_queue \<Rightarrow> playlist_queue \<Rightarrow> bool" where
  "op_inv q q' \<longleftrightarrow> queue_inv q' \<and> advances q q' \<and> active_reservation q' = active_reservation q
     \<and> (active_reservation q \<noteq> None \<longrightarrow> same_core q q')"

lemma op_ok_op_inv: "op_ok q q' \<Longrightarrow> op_inv q q'"
  by (simp add: op_ok_def op_inv_def)

lemma capture_fits: "queue_inv q \<Longrightarrow> snapshot_fits q (capture_removal_snapshot q)"
  using entry_id_inj [of "entries q"]
  by (auto simp: snapshot_fits_def snapshot_queue_def capture_removal_snapshot_def queue_inv_def
      cong: conj_cong)

lemmas find_entry_Some = top_level_entry_Some [unfolded top_level_entry_def]

lemma map_of_entries:
  assumes "distinct (map entry_id es)"
  shows "map_of (rev (map (\<lambda>e. (entry_id e, e)) es)) k = List.find (\<lambda>e. entry_id e = k) es"
proof (cases "List.find (\<lambda>e. entry_id e = k) es")
  case None
  then have "map_of (rev (map (\<lambda>e. (entry_id e, e)) es)) k = None"
    by (auto simp: map_of_eq_None_iff find_None_iff)
  with None show ?thesis by simp
next
  case (Some e)
  then have "(k, e) \<in> set (rev (map (\<lambda>e. (entry_id e, e)) es))"
    using find_entry_Some [OF Some] by auto
  moreover have "distinct (map fst (rev (map (\<lambda>e. (entry_id e, e)) es)))"
    using assms by (simp add: rev_map [symmetric] comp_def)
  ultimately show ?thesis using Some by (simp only: map_of_is_SomeI)
qed

lemma merged_entries_find:
  "distinct (map entry_id es) \<Longrightarrow> merged_entries es fs
     = map (\<lambda>f. case List.find (\<lambda>e. entry_id e = entry_id f) es of Some e \<Rightarrow> e | None \<Rightarrow> f) fs"
  by (simp add: merged_entries_def map_of_entries)

lemma merged_entries_facts:
  assumes d: "distinct (map entry_id es)"
    and fit: "\<forall>e \<in> set es. \<forall>f \<in> set fs. entry_id e = entry_id f \<longrightarrow> shape e = shape f"
  shows "map shape (merged_entries es fs) = map shape fs"
    and "set (merged_entries es fs) \<subseteq> set es \<union> set fs"
proof -
  let ?pick = "\<lambda>f. case List.find (\<lambda>e. entry_id e = entry_id f) es of Some e \<Rightarrow> e | None \<Rightarrow> f"
  have pick: "shape (?pick f) = shape f \<and> ?pick f \<in> set es \<union> set fs" if "f \<in> set fs" for f
  proof (cases "List.find (\<lambda>e. entry_id e = entry_id f) es")
    case (Some e)
    with find_entry_Some [OF Some] fit that show ?thesis by simp
  qed (simp add: that)
  from pick show "map shape (merged_entries es fs) = map shape fs"
    and "set (merged_entries es fs) \<subseteq> set es \<union> set fs"
    unfolding merged_entries_find [OF d] by (auto simp del: Un_iff)
qed

lemma restore_removal_preflight_Inr:
  "restore_removal_preflight q s src = Inr (n, v) \<longleftrightarrow>
     active_reservation q = None
     \<and> checked_next (rs_structural_revision s) = Some (structural_revision q)
     \<and> item_allocator q = rs_item_allocator s \<and> group_allocator q = rs_group_allocator s
     \<and> length (entries q) < length (rs_entries s)
     \<and> filter (\<lambda>k. k \<in> set (iter_top_level_entry_ids (entries q))) (iter_top_level_entry_ids (rs_entries s))
        = iter_top_level_entry_ids (entries q)
     \<and> card (set (iter_top_level_entry_ids (entries q))) = length (entries q)
     \<and> (src = FromSnapshot \<longrightarrow> traversal_revision q = rs_traversal_revision s
          \<or> checked_next (rs_traversal_revision s) = Some (traversal_revision q))
     \<and> checked_next (structural_revision q) = Some n
     \<and> (if src = FromSnapshot \<and> traversal_current q \<noteq> rs_traversal_current s
        then checked_next (traversal_revision q) else Some (traversal_revision q)) = Some v"
  unfolding restore_removal_preflight_def Let_def
  by (cases "checked_next (structural_revision q)"; cases "checked_next (rs_structural_revision s)";
      cases "checked_next (traversal_revision q)") (auto simp: not_le split: if_splits)

lemma restore_removal_snapshot_from_cases:
  assumes "restore_removal_snapshot_from q s src = (res, q')"
  obtains (failed) e where "res = Inl e" "q' = q"
  | (restored) n v where "restore_removal_preflight q s src = Inr (n, v)"
      "q' = q\<lparr>entries := merged_entries (entries q) (rs_entries s),
              traversal_current := (if src = FromSnapshot then rs_traversal_current s else traversal_current q),
              shuffle_traversal := (if src = FromSnapshot then rs_shuffle_traversal s else shuffle_traversal q),
              structural_revision := n, traversal_revision := v\<rparr>"
      "res = Inr (traversal_current q')"
proof (cases "restore_removal_preflight q s src")
  case (Inl e)
  with assms show thesis by (intro failed) (auto simp: restore_removal_snapshot_from_def)
next
  case (Inr nv)
  obtain n v where "nv = (n, v)" by (cases nv)
  with assms Inr show thesis by (intro restored) (auto simp: restore_removal_snapshot_from_def)
qed

lemma restore_removal_snapshot_from_ok:
  assumes inv: "queue_inv q" and fits: "snapshot_fits q s"
    and plain: "src = FromCurrentQueue \<Longrightarrow> shuffle_traversal q = None"
    and run: "restore_removal_snapshot_from q s src = (res, q')"
  shows "op_inv q q'" and "\<And>e. res = Inl e \<Longrightarrow> q' = q"
    and "\<And>c. res = Inr c \<Longrightarrow> shapes q' = map shape (rs_entries s)
      \<and> (\<forall>e \<in> set (entries q). e \<in> set (entries q'))"
proof -
  have inv_s: "queue_inv (snapshot_queue s)" using fits by (simp add: snapshot_fits_def)
  have d: "distinct (map entry_id (entries q))"
    using queue_inv_distinct [OF inv] by (simp add: iter_top_level_entry_ids_def)
  note m = merged_entries_facts [OF d, of "rs_entries s"]
  let ?m = "merged_entries (entries q) (rs_entries s)"
  have shape: "map shape ?m = map shape (rs_entries s)" and sub: "set ?m \<subseteq> set (entries q) \<union> set (rs_entries s)"
    using m fits by (auto simp: snapshot_fits_def)
  note proj = shape_projections [OF shape]
  have wf: "entries_wf ?m"
    using inv inv_s sub by (auto simp: entries_wf_def queue_inv_def snapshot_queue_def proj)
  have "op_inv q q' \<and> (\<forall>e. res = Inl e \<longrightarrow> q' = q) \<and> (\<forall>c. res = Inr c \<longrightarrow> shapes q' = map shape (rs_entries s)
      \<and> (\<forall>e \<in> set (entries q). e \<in> set (entries q')))"
    using run
  proof (cases rule: restore_removal_snapshot_from_cases)
    case (failed e)
    then show ?thesis using op_ok_op_inv [OF op_ok_refl [OF inv]] by simp
  next
    case (restored n v)
    note pre = restored(1) [unfolded restore_removal_preflight_Inr]
    have kept: "e \<in> set ?m" if "e \<in> set (entries q)" for e
    proof -
      have "entry_id e \<in> set (iter_top_level_entry_ids (rs_entries s))"
        using that pre by (metis (no_types, lifting) filter_is_subset image_eqI image_set
            iter_top_level_entry_ids_def subsetD)
      then obtain f where f: "f \<in> set (rs_entries s)" "entry_id f = entry_id e"
        by (auto simp: iter_top_level_entry_ids_def)
      have "top_level_entry (entries q) (entry_id e) = Some e"
        using top_level_entry_mem [OF _ that] inv by (simp add: queue_inv_def)
      then have "List.find (\<lambda>x. entry_id x = entry_id f) (entries q) = Some e"
        using f(2) by (simp add: top_level_entry_def)
      with f(1) show ?thesis
        by (force simp: merged_entries_find [OF d] image_iff)
    qed
    then have I: "set (iter_playable_ids (entries q)) \<subseteq> set (iter_playable_ids ?m)"
      by (fastforce simp: set_iter_playable_ids)
    have "queue_inv q'"
    proof (cases src)
      case FromSnapshot
      then show ?thesis
        using pre restored(2) inv_s wf by (simp add: queue_inv_def snapshot_queue_def proj)
    next
      case FromCurrentQueue
      then show ?thesis
        using pre restored(2) inv inv_s wf I plain
        by (auto simp: queue_inv_def snapshot_queue_def proj)
    qed
    moreover have "advances q q'"
      using pre restored(2) checked_next_Some [of "structural_revision q" n] checked_next_Some [of "traversal_revision q" v]
      by (auto simp: advances_def split: if_splits)
    ultimately have "op_inv q q'" using pre restored(2) by (simp add: op_inv_def)
    then show ?thesis using restored(2,3) kept shape by (simp add: shapes_def)
  qed
  then show "op_inv q q'" and "\<And>e. res = Inl e \<Longrightarrow> q' = q"
    and "\<And>c. res = Inr c \<Longrightarrow> shapes q' = map shape (rs_entries s)
      \<and> (\<forall>e \<in> set (entries q). e \<in> set (entries q'))" by blast+
qed

text \<open>Removing and undoing is the identity on rows, current and shuffle state.\<close>

lemma merged_entries_id:
  assumes wf: "entries_wf es" and sub: "set fs \<subseteq> set es" and d: "distinct (map entry_id fs)"
  shows "merged_entries fs es = es"
proof -
  have "(case List.find (\<lambda>e. entry_id e = entry_id x) fs of Some e \<Rightarrow> e | None \<Rightarrow> x) = x"
    if "x \<in> set es" for x
  proof (cases "List.find (\<lambda>e. entry_id e = entry_id x) fs")
    case (Some e)
    with find_entry_Some [OF Some] sub that entry_id_inj [OF wf, of e x] show ?thesis by auto
  qed simp
  then show ?thesis unfolding merged_entries_find [OF d] by (simp add: map_idI)
qed

lemma remove_restore_round_trip:
  assumes inv: "queue_inv q" and run: "remove_entry q k = Some (remove_item_outcome.Removed j eff out, q')"
    and n: "checked_next (structural_revision q') = Some n"
    and v: "traversal_current q' \<noteq> traversal_current q \<Longrightarrow> checked_next (traversal_revision q') \<noteq> None"
  shows "\<exists>q''. restore_removal_snapshot q' (capture_removal_snapshot q) = (Inr (traversal_current q), q'')
    \<and> entries q'' = entries q \<and> traversal_current q'' = traversal_current q
    \<and> shuffle_traversal q'' = shuffle_traversal q \<and> structural_revision q'' = n"
proof -
  let ?s = "capture_removal_snapshot q"
  have wf: "entries_wf (entries q)" using inv by (simp add: queue_inv_def)
  have r: "op_ok q q'" "k \<in> set (iter_top_level_entry_ids (entries q))"
    "entries q' = filter (\<lambda>e. entry_id e \<noteq> k) (entries q)"
    "item_allocator q' = item_allocator q" "group_allocator q' = group_allocator q"
    "checked_next (structural_revision q) = Some (structural_revision q')"
    "traversal_revision q' = traversal_revision q \<or> Some (traversal_revision q') = checked_next (traversal_revision q)"
    "active_reservation q' = None"
    using remove_entry_ok [OF inv, of k] run by auto
  obtain w where w: "(if traversal_current q' \<noteq> traversal_current q
      then checked_next (traversal_revision q') else Some (traversal_revision q')) = Some w"
    using v by (cases "traversal_current q' = traversal_current q") auto
  have ids: "iter_top_level_entry_ids (entries q') = filter (\<lambda>j. j \<noteq> k) (iter_top_level_entry_ids (entries q))"
    by (simp add: r(3) iter_top_level_entry_ids_def filter_map comp_def)
  then have f: "filter (\<lambda>j. j \<in> set (iter_top_level_entry_ids (entries q'))) (iter_top_level_entry_ids (entries q))
      = iter_top_level_entry_ids (entries q')"
    by (auto intro: filter_cong)
  have "length (iter_top_level_entry_ids (entries q')) < length (iter_top_level_entry_ids (entries q))"
    unfolding ids using r(2) length_filter_less [of k _ "\<lambda>j. j \<noteq> k"] by blast
  then have len: "length (entries q') < length (entries q)"
    by (simp add: iter_top_level_entry_ids_def)
  have d: "distinct (iter_top_level_entry_ids (entries q'))"
    using r(1) queue_inv_distinct by (auto simp: op_ok_def)
  then have card: "card (set (iter_top_level_entry_ids (entries q'))) = length (entries q')"
    using distinct_card by (fastforce simp: iter_top_level_entry_ids_def)
  have "restore_removal_preflight q' ?s FromSnapshot = Inr (n, w)"
    unfolding restore_removal_preflight_Inr
    using r(4-8) f len card n w by (auto simp: capture_removal_snapshot_def)
  moreover have "merged_entries (entries q') (entries q) = entries q"
    using d by (intro merged_entries_id [OF wf]) (auto simp: r(3) iter_top_level_entry_ids_def)
  ultimately show ?thesis
    by (simp add: restore_removal_snapshot_def restore_removal_snapshot_from_def capture_removal_snapshot_def)
qed

end
