(* ===== verification/Queue_Reorder.thy ===== *)
theory Queue_Reorder
  imports Queue_Removal
begin

text \<open>
  Moving rows and inserting a discovery batch (playlist-core \<open>queue/reordering.rs\<close>,
  \<open>queue/discovery.rs\<close>). Moves permute the entries and change nothing else; an insertion puts new
  single entries before a stable anchor.
\<close>

section \<open>Definitions\<close>

datatype move_item_intent =
    ToFront
  | ToBack
  | Before playlist_entry_id
  | After playlist_entry_id

fun move_anchor :: "move_item_intent \<Rightarrow> playlist_entry_id option" where
  "move_anchor ToFront = None"
| "move_anchor ToBack = None"
| "move_anchor (Before k) = Some k"
| "move_anchor (After k) = Some k"

datatype move_item_outcome =
    Moved playlist_entry_id
  | AlreadyInPlace playlist_entry_id
  | EntryNotFound playlist_entry_id
  | CompoundPartTarget playlist_item_id playlist_entry_id
  | AnchorNotFound playlist_entry_id
  | CompoundPartAnchor playlist_item_id playlist_entry_id
  | InstallCommitLinearizing
  | StructuralRevisionExhausted

datatype move_items_outcome =
    NoItemsRequested
  | DuplicateEntryId playlist_entry_id
  | EntryNotFound playlist_entry_id
  | CompoundPartTarget playlist_item_id playlist_entry_id
  | AnchorNotFound playlist_entry_id
  | CompoundPartAnchor playlist_item_id playlist_entry_id
  | AnchorSelected playlist_entry_id
  | AlreadyInPlace nat
  | Moved nat
  | InstallCommitLinearizing
  | StructuralRevisionExhausted

fun move_target_index ::
    "playlist_entry list \<Rightarrow> nat \<Rightarrow> move_item_intent \<Rightarrow> structural_entry_lookup_error + nat" where
  "move_target_index es source ToFront = Inr 0"
| "move_target_index es source ToBack = Inr (length es - 1)"
| "move_target_index es source (Before anchor) =
     (case resolve_top_level_entry_index es anchor of
        Inl e \<Rightarrow> Inl e
      | Inr a \<Rightarrow> Inr (if a = source then source else if source < a then a - 1 else a))"
| "move_target_index es source (After anchor) =
     (case resolve_top_level_entry_index es anchor of
        Inl e \<Rightarrow> Inl e
      | Inr a \<Rightarrow> Inr (if a = source then source else (if source < a then a - 1 else a) + 1))"

definition move_item ::
    "playlist_queue \<Rightarrow> playlist_entry_id \<Rightarrow> move_item_intent \<Rightarrow>
     (move_item_outcome \<times> playlist_queue) run" where
  "move_item q k intent =
     (if active_reservation q \<noteq> None then Some (move_item_outcome.InstallCommitLinearizing, q)
      else case resolve_top_level_entry_index (entries q) k of
        Inl LookupNotFound \<Rightarrow> Some (move_item_outcome.EntryNotFound k, q)
      | Inl (LookupCompoundPart part owner) \<Rightarrow>
          Some (move_item_outcome.CompoundPartTarget part owner, q)
      | Inr source \<Rightarrow>
     (case move_target_index (entries q) source intent of
        Inl LookupNotFound \<Rightarrow>
          map_option (\<lambda>anchor. (move_item_outcome.AnchorNotFound anchor, q)) (move_anchor intent)
      | Inl (LookupCompoundPart part owner) \<Rightarrow>
          Some (move_item_outcome.CompoundPartAnchor part owner, q)
      | Inr target \<Rightarrow>
      if source = target then Some (move_item_outcome.AlreadyInPlace k, q)
      else case checked_next (structural_revision q) of
        None \<Rightarrow> Some (move_item_outcome.StructuralRevisionExhausted, q)
      | Some next_structural \<Rightarrow>
          (let moved = entries q ! source;
               rest = remove_at source (entries q)
           in if target \<le> length rest
              then Some (move_item_outcome.Moved k,
                         q\<lparr>entries := splice_at target [moved] rest,
                           structural_revision := next_structural\<rparr>)
              else None)))"

fun check_move_targets ::
    "playlist_entry list \<Rightarrow> playlist_entry_id list \<Rightarrow> move_items_outcome option" where
  "check_move_targets es [] = None"
| "check_move_targets es (k # ks) =
     (if k \<in> set (iter_top_level_entry_ids es) then check_move_targets es ks
      else (case k of
              EntryCompound _ \<Rightarrow> Some (move_items_outcome.EntryNotFound k)
            | EntrySingle part \<Rightarrow>
                (case compound_entry_by_part es part of
                   Some owner \<Rightarrow> Some (move_items_outcome.CompoundPartTarget part owner)
                 | None \<Rightarrow> Some (move_items_outcome.EntryNotFound k))))"

definition check_move_anchor ::
    "playlist_entry list \<Rightarrow> playlist_entry_id list \<Rightarrow> move_item_intent \<Rightarrow>
     move_items_outcome option" where
  "check_move_anchor es requested intent =
     (case move_anchor intent of
        None \<Rightarrow> None
      | Some anchor \<Rightarrow>
          if anchor \<notin> set (iter_top_level_entry_ids es) then
            (case anchor of
               EntryCompound _ \<Rightarrow> Some (move_items_outcome.AnchorNotFound anchor)
             | EntrySingle part \<Rightarrow>
                 (case compound_entry_by_part es part of
                    Some owner \<Rightarrow> Some (move_items_outcome.CompoundPartAnchor part owner)
                  | None \<Rightarrow> Some (move_items_outcome.AnchorNotFound anchor)))
          else if anchor \<in> set requested then Some (AnchorSelected anchor)
          else None)"

fun block_insertion_index :: "playlist_entry list \<Rightarrow> move_item_intent \<Rightarrow> nat run" where
  "block_insertion_index retained ToFront = Some 0"
| "block_insertion_index retained ToBack = Some (length retained)"
| "block_insertion_index retained (Before anchor) = position (\<lambda>e. entry_id e = anchor) retained"
| "block_insertion_index retained (After anchor) =
     map_option Suc (position (\<lambda>e. entry_id e = anchor) retained)"

definition move_items ::
    "playlist_queue \<Rightarrow> playlist_entry_id list \<Rightarrow> move_item_intent \<Rightarrow>
     (move_items_outcome \<times> playlist_queue) run" where
  "move_items q requested intent =
     (if requested = [] then Some (move_items_outcome.NoItemsRequested, q)
      else case first_duplicate {} requested of
        Some k \<Rightarrow> Some (DuplicateEntryId k, q)
      | None \<Rightarrow>
     (case check_move_targets (entries q) requested of
        Some out \<Rightarrow> Some (out, q)
      | None \<Rightarrow>
     (case check_move_anchor (entries q) requested intent of
        Some out \<Rightarrow> Some (out, q)
      | None \<Rightarrow>
      if active_reservation q \<noteq> None then Some (move_items_outcome.InstallCommitLinearizing, q)
      else
     (let selected = filter (\<lambda>e. entry_id e \<in> set requested) (entries q);
          retained = filter (\<lambda>e. entry_id e \<notin> set requested) (entries q)
      in case block_insertion_index retained intent of
           None \<Rightarrow> None
         | Some index \<Rightarrow>
     (let reordered = splice_at index selected retained
      in if reordered = entries q
         then Some (move_items_outcome.AlreadyInPlace (card (set requested)), q)
         else case checked_next (structural_revision q) of
           None \<Rightarrow> Some (move_items_outcome.StructuralRevisionExhausted, q)
         | Some next_structural \<Rightarrow>
             Some (move_items_outcome.Moved (card (set requested)),
                   q\<lparr>entries := reordered, structural_revision := next_structural\<rparr>))))))"

subsection \<open>Discovery batches\<close>

record discovery_batch_insert_outcome =
  discovery_item_ids :: "playlist_item_id list"
  discovery_anchor :: "playlist_entry_id option"

datatype discovery_batch_insert_error =
    RevisionMismatch queue_revision_snapshot queue_revision_snapshot
  | AnchorNotCommitted playlist_entry_id
  | CompoundPartAnchor playlist_item_id playlist_entry_id
  | Add add_items_error

fun map_add_allocation_error :: "item_id_allocation_error \<Rightarrow> add_items_error" where
  "map_add_allocation_error ItemArithmeticExhausted = add_items_error.ItemIdExhausted"
| "map_add_allocation_error (ItemCollision i) = add_items_error.ItemIdCollision i"

definition resolve_insertion_index ::
    "playlist_entry list \<Rightarrow> playlist_entry_id option \<Rightarrow> discovery_batch_insert_error + nat" where
  "resolve_insertion_index es anchor =
     (case anchor of
        None \<Rightarrow> Inr (length es)
      | Some k \<Rightarrow>
          (case resolve_top_level_entry_index es k of
             Inr index \<Rightarrow> Inr index
           | Inl LookupNotFound \<Rightarrow> Inl (AnchorNotCommitted k)
           | Inl (LookupCompoundPart part owner) \<Rightarrow>
               Inl (discovery_batch_insert_error.CompoundPartAnchor part owner)))"

definition items_from_drafts ::
    "playlist_item_draft list \<Rightarrow> playlist_item_id list \<Rightarrow> playlist_item list" where
  "items_from_drafts drafts ids = map (\<lambda>(d, i). into_item d i) (zip drafts ids)"

definition insert_discovery_batch ::
    "'r rng \<Rightarrow> 'r \<Rightarrow> playlist_queue \<Rightarrow> queue_revision_snapshot \<Rightarrow> playlist_entry_id option \<Rightarrow>
     playlist_item_draft list \<Rightarrow>
     (discovery_batch_insert_error + discovery_batch_insert_outcome) \<times> playlist_queue \<times> 'r" where
  "insert_discovery_batch R r q expected anchor drafts =
     (if active_reservation q \<noteq> None
      then (Inl (Add add_items_error.InstallCommitLinearizing), q, r)
      else if structural_revision q \<noteq> rev_structural expected
      then (Inl (RevisionMismatch expected (revision_snapshot q)), q, r)
      else if drafts = []
      then (Inr \<lparr>discovery_item_ids = [], discovery_anchor = anchor\<rparr>, q, r)
      else case resolve_insertion_index (entries q) anchor of
        Inl e \<Rightarrow> (Inl e, q, r)
      | Inr index \<Rightarrow>
     (let current = retained_item_count (entries q); requested = length drafts
      in if (case usize_checked_add current requested of
               None \<Rightarrow> True | Some resulting \<Rightarrow> resulting > MAX_PLAYLIST_ITEMS)
         then (Inl (Add (add_items_error.CapacityExceeded current requested MAX_PLAYLIST_ITEMS)), q, r)
         else case checked_next (structural_revision q) of
           None \<Rightarrow> (Inl (Add add_items_error.StructuralRevisionExhausted), q, r)
         | Some next_structural \<Rightarrow>
     (case item_preflight_allocation (item_allocator q) requested (existing_item_ids q) of
        Inl e \<Rightarrow> (Inl (Add (map_add_allocation_error e)), q, r)
      | Inr plan \<Rightarrow>
          (let ids = allocated_item_ids plan;
               (shuffle', r') = merge_into_shuffle R r (shuffle_traversal q) (map EntrySingle ids)
           in (Inr \<lparr>discovery_item_ids = ids, discovery_anchor = anchor\<rparr>,
               q\<lparr>shuffle_traversal := shuffle',
                 item_allocator := item_commit_allocation (item_allocator q) plan,
                 entries := splice_at index (map Single (items_from_drafts drafts ids)) (entries q),
                 structural_revision := next_structural\<rparr>, r')))))"

section \<open>Reordering keeps the invariant\<close>

lemma permuted_entries_ok:
  assumes inv: "queue_inv q" and free: "active_reservation q = None"
    and s: "checked_next (structural_revision q) = Some s" and perm: "mset es = mset (entries q)"
  shows "op_ok q (q\<lparr>entries := es, structural_revision := s\<rparr>)"
proof (rule op_okI)
  have ids: "set (iter_playable_ids es) = set (iter_playable_ids (entries q))"
    "set (compound_ids es) = set (compound_ids (entries q))"
    "set (iter_top_level_entry_ids es) = set (iter_top_level_entry_ids (entries q))"
    using mset_eq_setD [OF mset_iter_playable_ids [OF perm]] mset_eq_setD [OF mset_compound_ids [OF perm]]
      mset_eq_setD [OF perm] by (simp_all add: iter_top_level_entry_ids_def)
  show "queue_inv (q\<lparr>entries := es, structural_revision := s\<rparr>)"
    using inv by (simp add: queue_inv_def ids entries_wf_mset [OF perm] mset_retained_item_count [OF perm])
  show "grown q (q\<lparr>entries := es, structural_revision := s\<rparr>)"
    by (rule grown_subset) (use mset_eq_setD [OF perm] in \<open>auto simp: shapes_def\<close>)
qed (use free checked_next_Some [OF s] in auto)

lemma move_target_index_bound:
  "move_target_index es source intent = Inr t \<Longrightarrow> source < length es \<Longrightarrow> t < length es"
  by (cases intent) (auto split: sum.splits if_splits dest!: resolve_Inr)

lemma move_target_index_not_found:
  "move_target_index es source intent = Inl LookupNotFound \<Longrightarrow> move_anchor intent \<noteq> None"
  by (cases intent) (auto split: sum.splits)

lemma move_item_ok:
  assumes inv: "queue_inv q"
  shows "\<exists>res q'. move_item q k intent = Some (res, q') \<and> op_ok q q'
    \<and> mset (entries q') = mset (entries q)
    \<and> ((\<exists>j. res = move_item_outcome.Moved j) \<or> q' = q)"
proof (cases "active_reservation q = None")
  case free: True
  show ?thesis
  proof (cases "resolve_top_level_entry_index (entries q) k")
    case (Inl e)
    then show ?thesis using free op_ok_refl [OF inv] by (cases e) (auto simp: move_item_def)
  next
    case src: (Inr n)
    show ?thesis
    proof (cases "move_target_index (entries q) n intent")
      case (Inl e)
      then show ?thesis
        using free src op_ok_refl [OF inv] move_target_index_not_found [of "entries q" n intent]
        by (cases e) (auto simp: move_item_def)
    next
      case tgt: (Inr t)
      have n: "n < length (entries q)" using resolve_Inr [OF src] by simp
      have t: "t \<le> length (remove_at n (entries q))"
        using move_target_index_bound [OF tgt n] n by (simp add: remove_at_def)
      show ?thesis
      proof (cases "n = t \<or> checked_next (structural_revision q) = None")
        case True
        then show ?thesis using free src tgt op_ok_refl [OF inv] by (auto simp: move_item_def)
      next
        case False
        then obtain s where s: "checked_next (structural_revision q) = Some s" by auto
        have perm: "mset (splice_at t [entries q ! n] (remove_at n (entries q))) = mset (entries q)"
          by (rule remove_at_insert_mset [OF n])
        from permuted_entries_ok [OF inv free s perm] False free src tgt s t perm show ?thesis
          by (auto simp: move_item_def Let_def)
      qed
    qed
  qed
qed (use op_ok_refl [OF inv] in \<open>auto simp: move_item_def\<close>)

section \<open>Where a moved block lands\<close>

text \<open>The specification of both moves on the list of structural identities: the block is taken out
  in canonical order and put back at the front, at the end, or next to the anchor.\<close>

fun place_block ::
    "move_item_intent \<Rightarrow> playlist_entry_id list \<Rightarrow> playlist_entry_id list \<Rightarrow> playlist_entry_id list" where
  "place_block ToFront block rest = block @ rest"
| "place_block ToBack block rest = rest @ block"
| "place_block (Before a) block rest =
     takeWhile (\<lambda>k. k \<noteq> a) rest @ block @ dropWhile (\<lambda>k. k \<noteq> a) rest"
| "place_block (After a) block rest =
     takeWhile (\<lambda>k. k \<noteq> a) rest @ a # block @ tl (dropWhile (\<lambda>k. k \<noteq> a) rest)"

lemma remove_at_nth:
  "n < length xs \<Longrightarrow> i < length xs - 1 \<Longrightarrow> remove_at n xs ! i = (if i < n then xs ! i else xs ! Suc i)"
  by (auto simp: remove_at_def nth_append min_def)

lemma length_remove_at: "n < length xs \<Longrightarrow> length (remove_at n xs) = length xs - 1"
  by (simp add: remove_at_def)

lemma while_at_index:
  assumes "distinct xs" and "i < length xs" and "xs ! i = a"
  shows "takeWhile (\<lambda>k. k \<noteq> a) xs = take i xs" and "dropWhile (\<lambda>k. k \<noteq> a) xs = drop i xs"
proof -
  show t: "takeWhile (\<lambda>k. k \<noteq> a) xs = take i xs"
    using assms by (intro takeWhile_eq_take_P_nth) (auto simp: nth_eq_iff_index_eq)
  show "dropWhile (\<lambda>k. k \<noteq> a) xs = drop i xs"
    using assms(2) by (simp add: dropWhile_eq_drop t)
qed

lemma place_block_at:
  assumes "distinct rest" and "i < length rest" and "rest ! i = a"
  shows "place_block (Before a) block rest = splice_at i block rest"
    and "place_block (After a) block rest = splice_at (Suc i) block rest"
  using while_at_index [OF assms] assms(2,3)
  by (simp_all add: splice_at_def take_Suc_conv_app_nth drop_Suc tl_drop)

lemma remove_at_map: "remove_at n (map f xs) = map f (remove_at n xs)"
  by (simp add: remove_at_def take_map drop_map)

lemma move_target_places:
  assumes wf: "entries_wf es" and n: "n < length es" "entry_id (es ! n) = k"
    and t: "move_target_index es n intent = Inr t" and anchor: "move_anchor intent \<noteq> Some k"
  shows "iter_top_level_entry_ids (splice_at t [es ! n] (remove_at n es))
    = place_block intent [k] (filter (\<lambda>j. j \<noteq> k) (iter_top_level_entry_ids es))"
proof -
  let ?ids = "map entry_id es"
  have d: "distinct ?ids" using distinct_entry_ids [OF wf] by (simp add: iter_top_level_entry_ids_def)
  have rest: "filter (\<lambda>j. j \<noteq> k) ?ids = remove_at n ?ids"
    using remove_at_filter [of id ?ids n] d n by simp
  have dr: "distinct (remove_at n ?ids)" using d by (simp flip: rest)
  have lr: "length (remove_at n ?ids) = length es - 1" using n by (simp add: length_remove_at)
  have at: "(if n < a then a - 1 else a) < length (remove_at n ?ids)
      \<and> remove_at n ?ids ! (if n < a then a - 1 else a) = entry_id (es ! a)"
    if "a < length es" "a \<noteq> n" for a
    using that n remove_at_nth [of n ?ids "if n < a then a - 1 else a"] by (auto simp: lr)
  have "place_block intent [k] (remove_at n ?ids) = splice_at t [k] (remove_at n ?ids)"
  proof (cases intent)
    case ToFront
    with t show ?thesis by (simp add: splice_at_def)
  next
    case ToBack
    with t show ?thesis by (simp add: splice_at_def lr)
  next
    case (Before x)
    with t obtain a where a: "resolve_top_level_entry_index es x = Inr a"
      "t = (if a = n then n else if n < a then a - 1 else a)" by (auto split: sum.splits)
    with resolve_Inr [OF a(1)] anchor n Before have "a \<noteq> n" "a < length es" "entry_id (es ! a) = x" by auto
    with at [of a] place_block_at(1) [OF dr, of "if n < a then a - 1 else a" x "[k]"] a(2) Before
    show ?thesis by (simp del: place_block.simps)
  next
    case (After x)
    with t obtain a where a: "resolve_top_level_entry_index es x = Inr a"
      "t = (if a = n then n else (if n < a then a - 1 else a) + 1)" by (auto split: sum.splits)
    with resolve_Inr [OF a(1)] anchor n After have "a \<noteq> n" "a < length es" "entry_id (es ! a) = x" by auto
    with at [of a] place_block_at(2) [OF dr, of "if n < a then a - 1 else a" x "[k]"] a(2) After
    show ?thesis by (simp del: place_block.simps)
  qed
  then show ?thesis
    using n by (simp add: iter_top_level_entry_ids_def splice_at_map rest remove_at_map)
qed

lemma move_item_places:
  assumes inv: "queue_inv q" and run: "move_item q k intent = Some (move_item_outcome.Moved j, q')"
  shows "iter_top_level_entry_ids (entries q')
    = place_block intent [k] (filter (\<lambda>j. j \<noteq> k) (iter_top_level_entry_ids (entries q)))"
proof -
  have wf: "entries_wf (entries q)" using inv by (simp add: queue_inv_def)
  from run obtain n t where
    n: "resolve_top_level_entry_index (entries q) k = Inr n" and
    t: "move_target_index (entries q) n intent = Inr t" "n \<noteq> t" and
    q': "entries q' = splice_at t [entries q ! n] (remove_at n (entries q))"
    by (auto simp: move_item_def Let_def split: if_splits sum.splits structural_entry_lookup_error.splits option.splits)
  have "move_anchor intent \<noteq> Some k"
    using t n by (cases intent) (auto split: sum.splits if_splits)
  with move_target_places [OF wf _ _ t(1)] resolve_Inr [OF n] q' show ?thesis by simp
qed

lemma check_move_targets_None:
  "check_move_targets es ks = None \<Longrightarrow> set ks \<subseteq> set (iter_top_level_entry_ids es)"
proof (induction ks)
  case (Cons k ks)
  then have "k \<in> set (iter_top_level_entry_ids es) \<and> check_move_targets es ks = None"
    by (auto split: if_splits playlist_entry_id.splits option.splits)
  with Cons.IH show ?case by auto
qed simp

lemma check_move_anchor_None:
  "check_move_anchor es ks intent = None \<Longrightarrow> move_anchor intent = Some a \<Longrightarrow>
   a \<in> set (iter_top_level_entry_ids es) - set ks"
  by (auto simp: check_move_anchor_def split: if_splits playlist_entry_id.splits option.splits)

text \<open>A validated anchor is always found among the retained rows.\<close>

lemma block_insertion_index_ok:
  assumes wf: "entries_wf es" and ok: "check_move_anchor es ks intent = None"
    and r: "retained = filter (\<lambda>e. entry_id e \<notin> set ks) es"
  shows "\<exists>n. block_insertion_index retained intent = Some n
    \<and> splice_at n block (iter_top_level_entry_ids retained)
      = place_block intent block (iter_top_level_entry_ids retained)"
proof -
  have d: "distinct (iter_top_level_entry_ids retained)"
    using distinct_entry_ids [OF entries_wf_filter [OF wf]] by (simp add: r)
  have found: "\<exists>n. position (\<lambda>e. entry_id e = a) retained = Some n \<and> n < length retained
      \<and> iter_top_level_entry_ids retained ! n = a" if "move_anchor intent = Some a" for a
  proof -
    have "\<exists>e \<in> set retained. entry_id e = a"
      using check_move_anchor_None [OF ok that] by (auto simp: r iter_top_level_entry_ids_def)
    then obtain n where "position (\<lambda>e. entry_id e = a) retained = Some n"
      using position_Some_iff_ex [of "\<lambda>e. entry_id e = a" retained] by blast
    with position_SomeD [OF this] show ?thesis by (auto simp: iter_top_level_entry_ids_def)
  qed
  have len: "length (iter_top_level_entry_ids retained) = length retained"
    by (simp add: iter_top_level_entry_ids_def)
  show ?thesis
  proof (cases intent)
    case (Before a)
    with found [of a] place_block_at(1) [OF d] show ?thesis by (auto simp: len)
  next
    case (After a)
    with found [of a] place_block_at(2) [OF d] show ?thesis by (auto simp: len)
  next
    case ToBack
    then show ?thesis by (simp add: splice_at_def len)
  next
    case ToFront
    then show ?thesis by (simp add: splice_at_def)
  qed
qed

lemma move_items_ok:
  assumes inv: "queue_inv q"
  shows "\<exists>res q'. move_items q ks intent = Some (res, q') \<and> op_ok q q'
    \<and> mset (entries q') = mset (entries q)
    \<and> (if \<exists>n. res = move_items_outcome.Moved n \<or> res = move_items_outcome.AlreadyInPlace n
       then iter_top_level_entry_ids (entries q') =
         place_block intent (filter (\<lambda>k. k \<in> set ks) (iter_top_level_entry_ids (entries q)))
           (filter (\<lambda>k. k \<notin> set ks) (iter_top_level_entry_ids (entries q)))
       else q' = q)"
proof (cases "ks \<noteq> [] \<and> first_duplicate {} ks = None \<and> check_move_targets (entries q) ks = None
    \<and> check_move_anchor (entries q) ks intent = None \<and> active_reservation q = None")
  case True
  have wf: "entries_wf (entries q)" using inv by (simp add: queue_inv_def)
  let ?sel = "filter (\<lambda>e. entry_id e \<in> set ks) (entries q)"
  let ?ret = "filter (\<lambda>e. entry_id e \<notin> set ks) (entries q)"
  have ids: "iter_top_level_entry_ids ?sel = filter (\<lambda>k. k \<in> set ks) (iter_top_level_entry_ids (entries q))"
    "iter_top_level_entry_ids ?ret = filter (\<lambda>k. k \<notin> set ks) (iter_top_level_entry_ids (entries q))"
    by (simp_all add: iter_top_level_entry_ids_def filter_map comp_def)
  obtain n where n: "block_insertion_index ?ret intent = Some n"
    "splice_at n (iter_top_level_entry_ids ?sel) (iter_top_level_entry_ids ?ret)
      = place_block intent (iter_top_level_entry_ids ?sel) (iter_top_level_entry_ids ?ret)"
    using block_insertion_index_ok [OF wf _ refl, of ks intent] True by blast
  let ?new = "splice_at n ?sel ?ret"
  have places: "iter_top_level_entry_ids ?new
      = place_block intent (iter_top_level_entry_ids ?sel) (iter_top_level_entry_ids ?ret)"
    using n(2) by (simp add: iter_top_level_entry_ids_def splice_at_map)
  have perm: "mset ?new = mset (entries q)"
    using distinct_filter_partition [of "\<lambda>e. entry_id e \<in> set ks" "entries q"] by simp
  consider (same) "?new = entries q"
    | (exhausted) "?new \<noteq> entries q" "checked_next (structural_revision q) = None"
    | (moved) s where "?new \<noteq> entries q" "checked_next (structural_revision q) = Some s" by auto
  then show ?thesis
  proof cases
    case same
    then have "move_items q ks intent = Some (move_items_outcome.AlreadyInPlace (card (set ks)), q)"
      using True n(1) by (simp add: move_items_def Let_def)
    then show ?thesis using same places op_ok_refl [OF inv] by (simp add: ids)
  next
    case exhausted
    then have "move_items q ks intent = Some (move_items_outcome.StructuralRevisionExhausted, q)"
      using True n(1) by (simp add: move_items_def Let_def)
    then show ?thesis using op_ok_refl [OF inv] by simp
  next
    case (moved s)
    then have "move_items q ks intent = Some (move_items_outcome.Moved (card (set ks)),
        q\<lparr>entries := ?new, structural_revision := s\<rparr>)"
      using True n(1) by (simp add: move_items_def Let_def)
    then show ?thesis using True permuted_entries_ok [OF inv _ moved(2) perm] places perm
      by (simp add: ids)
  qed
next
  case False
  have "\<exists>res. move_items q ks intent = Some (res, q)
      \<and> \<not> (\<exists>n. res = move_items_outcome.Moved n \<or> res = move_items_outcome.AlreadyInPlace n)"
  proof -
    have t: "check_move_targets es xs = Some out \<Longrightarrow>
        \<not> (\<exists>n. out = move_items_outcome.Moved n \<or> out = move_items_outcome.AlreadyInPlace n)" for es xs out
      by (induction es xs rule: check_move_targets.induct)
        (auto split: if_splits playlist_entry_id.splits option.splits)
    have a: "check_move_anchor es xs intent = Some out \<Longrightarrow>
        \<not> (\<exists>n. out = move_items_outcome.Moved n \<or> out = move_items_outcome.AlreadyInPlace n)" for es xs out
      by (auto simp: check_move_anchor_def split: if_splits playlist_entry_id.splits option.splits)
    consider "ks = []" | x where "ks \<noteq> []" "first_duplicate {} ks = Some x"
      | out where "ks \<noteq> []" "first_duplicate {} ks = None" "check_move_targets (entries q) ks = Some out"
      | out where "ks \<noteq> []" "first_duplicate {} ks = None" "check_move_targets (entries q) ks = None"
          "check_move_anchor (entries q) ks intent = Some out"
      | "ks \<noteq> []" "first_duplicate {} ks = None" "check_move_targets (entries q) ks = None"
          "check_move_anchor (entries q) ks intent = None" "active_reservation q \<noteq> None"
      using False by (metis option.exhaust)
    then show ?thesis by cases (use t a in \<open>auto simp: move_items_def\<close>)
  qed
  with op_ok_refl [OF inv] show ?thesis by auto
qed

section \<open>Discovery batches\<close>

lemma items_from_drafts_ids:
  "length drafts = length ids \<Longrightarrow> iter_playable_ids (map Single (items_from_drafts drafts ids)) = ids"
  "length drafts = length ids \<Longrightarrow>
     iter_top_level_entry_ids (map Single (items_from_drafts drafts ids)) = map EntrySingle ids"
  "compound_ids (map Single (items_from_drafts drafts ids)) = []"
  by (induction drafts ids rule: list_induct2')
    (auto simp: items_from_drafts_def into_item_def iter_top_level_entry_ids_def)

lemma insert_discovery_batch_ok:
  assumes rng: "rng_ok R" and inv: "queue_inv q"
    and run: "insert_discovery_batch R r q expected anchor drafts = (res, q', r')"
  shows "op_ok q q'" and "\<And>e. res = Inl e \<Longrightarrow> q' = q"
    and "\<And>out. res = Inr out \<Longrightarrow> drafts \<noteq> [] \<Longrightarrow>
      \<exists>n. resolve_insertion_index (entries q) anchor = Inr n
        \<and> iter_top_level_entry_ids (entries q')
          = splice_at n (map EntrySingle (discovery_item_ids out)) (iter_top_level_entry_ids (entries q))
        \<and> length (discovery_item_ids out) = length drafts
        \<and> set (discovery_item_ids out) \<inter> set (iter_playable_ids (entries q)) = {}"
proof -
  have "op_ok q q' \<and> (\<forall>e. res = Inl e \<longrightarrow> q' = q) \<and> (\<forall>out. res = Inr out \<longrightarrow> drafts \<noteq> [] \<longrightarrow>
      (\<exists>n. resolve_insertion_index (entries q) anchor = Inr n
        \<and> iter_top_level_entry_ids (entries q')
          = splice_at n (map EntrySingle (discovery_item_ids out)) (iter_top_level_entry_ids (entries q))
        \<and> length (discovery_item_ids out) = length drafts
        \<and> set (discovery_item_ids out) \<inter> set (iter_playable_ids (entries q)) = {}))"
  proof (cases "active_reservation q = None \<and> structural_revision q = rev_structural expected \<and> drafts \<noteq> []
      \<and> retained_item_count (entries q) + length drafts \<le> MAX_PLAYLIST_ITEMS
      \<and> (\<exists>n. resolve_insertion_index (entries q) anchor = Inr n)
      \<and> (\<exists>s. checked_next (structural_revision q) = Some s)
      \<and> (\<exists>p. item_preflight_allocation (item_allocator q) (length drafts) (existing_item_ids q) = Inr p)")
    case False
    then show ?thesis
      using run op_ok_refl [OF inv] unfolding insert_discovery_batch_def Let_def
      by (auto simp: usize_checked_add_def split: if_splits sum.splits option.splits prod.splits)
  next
    case True
    then obtain n s p where n: "resolve_insertion_index (entries q) anchor = Inr n"
      and s: "checked_next (structural_revision q) = Some s"
      and p: "item_preflight_allocation (item_allocator q) (length drafts) (existing_item_ids q) = Inr p"
      by auto
    let ?ids = "allocated_item_ids p"
    let ?new = "map Single (items_from_drafts drafts ?ids)"
    obtain sh r1 where m: "merge_into_shuffle R r (shuffle_traversal q) (map EntrySingle ?ids) = (sh, r1)"
      by (cases "merge_into_shuffle R r (shuffle_traversal q) (map EntrySingle ?ids)")
    have cap: "retained_item_count (entries q) + length drafts \<le> MAX_PLAYLIST_ITEMS" using True by simp
    then have add: "usize_checked_add (retained_item_count (entries q)) (length drafts)
        = Some (retained_item_count (entries q) + length drafts)"
      by (simp add: usize_max_def MAX_PLAYLIST_ITEMS_def)
    let ?q = "q\<lparr>shuffle_traversal := sh, item_allocator := item_commit_allocation (item_allocator q) p,
        entries := splice_at n ?new (entries q), structural_revision := s\<rparr>"
    have q': "q' = ?q" "res = Inr \<lparr>discovery_item_ids = ?ids, discovery_anchor = anchor\<rparr>"
      using run True n s p m add cap unfolding insert_discovery_batch_def Let_def by auto
    have len: "length drafts = length ?ids" using items.plan_length [OF p] by simp
    note new = items_from_drafts_ids(1,2) [OF len] items_from_drafts_ids(3) [of drafts ?ids]
    have below: "items.below (item_allocator q) (existing_item_ids q)"
      using inv by (simp add: queue_inv_def existing_item_ids_def)
    have fresh: "set ?ids \<inter> set (iter_playable_ids (entries q)) = {}"
      using items.plan_fresh [OF p below] by (simp add: existing_item_ids_def)
    have perm: "mset (splice_at n ?new (entries q)) = mset (entries q @ ?new)" by simp
    have wf_new: "entries_wf ?new"
      using items.plan_distinct [OF p] by (simp add: entries_wf_def new)
    have wf: "entries_wf (splice_at n ?new (entries q))"
      unfolding entries_wf_mset [OF perm] entries_wf_append
      using inv wf_new fresh new by (auto simp: queue_inv_def)
    have ids: "set (iter_playable_ids (splice_at n ?new (entries q))) = set (iter_playable_ids (entries q)) \<union> set ?ids"
      "set (compound_ids (splice_at n ?new (entries q))) = set (compound_ids (entries q))"
      "set (iter_top_level_entry_ids (splice_at n ?new (entries q)))
        = set (iter_top_level_entry_ids (entries q)) \<union> set (map EntrySingle ?ids)"
      using mset_eq_setD [OF mset_iter_playable_ids [OF perm]] mset_eq_setD [OF mset_compound_ids [OF perm]] new
      by (auto simp: iter_top_level_entry_ids_def splice_at_map)
    have count: "retained_item_count (splice_at n ?new (entries q)) = retained_item_count (entries q) + length drafts"
      using mset_retained_item_count [OF perm] new(1) len
      by (simp flip: length_iter_playable_ids)
    have disj: "set (map EntrySingle ?ids) \<inter> set (iter_top_level_entry_ids (entries q)) = {}"
      using entry_ids_disjoint [of ?new "entries q"] fresh new by auto
    have sh: "shuffle_wf (set (iter_playable_ids (entries q)) \<union> set ?ids)
        (set (iter_top_level_entry_ids (entries q)) \<union> set (map EntrySingle ?ids)) (traversal_current q) t"
      if "sh = Some t" for t
      by (rule merge_into_shuffle_wf [OF rng m _ _ disj _ that])
        (use inv items.plan_distinct [OF p] in \<open>auto simp: queue_inv_def distinct_map inj_on_def\<close>)
    have "queue_inv ?q"
      using inv wf count cap sh items.below_commit [OF p below]
      by (auto simp: queue_inv_def ids existing_item_ids_def)
    moreover have "next_item_id (item_allocator q) \<le> next_item_id (item_commit_allocation (item_allocator q) p)"
      using items.plan_watermark [OF p] by (simp add: word_le_nat_alt)
    moreover have "grown q ?q"
      using items.plan_range [OF p] len
      by (fastforce simp: grown_def shapes_def items_from_drafts_def into_item_def word_le_nat_alt
          dest: set_zip_rightD)
    ultimately have "op_ok q ?q"
      using True checked_next_Some [OF s] by (intro op_okI) auto
    with q' n len fresh new show ?thesis
      by (auto simp: iter_top_level_entry_ids_def splice_at_map)
  qed
  then show "op_ok q q'" and "\<And>e. res = Inl e \<Longrightarrow> q' = q"
    and "\<And>out. res = Inr out \<Longrightarrow> drafts \<noteq> [] \<Longrightarrow>
      \<exists>n. resolve_insertion_index (entries q) anchor = Inr n
        \<and> iter_top_level_entry_ids (entries q')
          = splice_at n (map EntrySingle (discovery_item_ids out)) (iter_top_level_entry_ids (entries q))
        \<and> length (discovery_item_ids out) = length drafts
        \<and> set (discovery_item_ids out) \<inter> set (iter_playable_ids (entries q)) = {}" by blast+
qed

section \<open>Moving succeeds\<close>

lemma check_move_targets_ok:
  "set ks \<subseteq> set (iter_top_level_entry_ids es) \<Longrightarrow> check_move_targets es ks = None"
  by (induction ks) auto

lemma check_move_anchor_ok:
  "(\<And>a. move_anchor intent = Some a \<Longrightarrow> a \<in> set (iter_top_level_entry_ids es) - set ks) \<Longrightarrow>
   check_move_anchor es ks intent = None"
  by (cases "move_anchor intent") (auto simp: check_move_anchor_def)

lemma move_items_succeeds:
  assumes inv: "queue_inv q" and free: "active_reservation q = None" and rev: "structural_revision q \<noteq> -1"
    and ks: "ks \<noteq> []" "distinct ks" "set ks \<subseteq> set (iter_top_level_entry_ids (entries q))"
    and anchor: "\<And>a. move_anchor intent = Some a \<Longrightarrow> a \<in> set (iter_top_level_entry_ids (entries q)) - set ks"
  shows "\<exists>n q'. move_items q ks intent = Some (move_items_outcome.Moved n, q')
    \<or> move_items q ks intent = Some (move_items_outcome.AlreadyInPlace n, q')"
proof -
  have none: "check_move_anchor (entries q) ks intent = None" by (rule check_move_anchor_ok [OF anchor])
  have wf: "entries_wf (entries q)" using inv by (simp add: queue_inv_def)
  obtain n where "block_insertion_index (filter (\<lambda>e. entry_id e \<notin> set ks) (entries q)) intent = Some n"
    using block_insertion_index_ok [OF wf none refl] by blast
  moreover have "first_duplicate {} ks = None" using ks(2) by (simp add: first_duplicate_None_iff)
  ultimately show ?thesis
    using none free ks(1) check_move_targets_ok [OF ks(3)] checked_next_below_max [OF rev]
    by (simp add: move_items_def Let_def)
qed

end
