(* ===== verification/Queue_Reservation.thy ===== *)
theory Queue_Reservation
  imports Queue_Reorder
begin

text \<open>
  The reservation protocol around a media install (playlist-core \<open>queue/reservation.rs\<close>): all
  checks are made when a mutation is prepared, the queue is locked, and the exact token later
  commits or aborts it. The address of the boxed mutation, which is the key of the lock, is an
  argument; the box of a live token is not reused, so two live tokens have different keys.
\<close>

section \<open>Definitions\<close>

datatype reserved_queue_mutation =
    SelectCommitted playlist_item_id
  | ReplaceWithCurrent "playlist_item_draft list" playlist_item_draft "playlist_item_draft list"

datatype prepared_mutation =
    PreparedSelect playlist_item_id "u64 option"
  | PreparedReplace "playlist_item list" item_id_allocation_plan playlist_item_id u64 u64

record prepared_queue_mutation_token =
  token_key :: reservation_key
  token_mutation :: prepared_mutation

datatype prepare_reserved_mutation_error =
    InstallCommitLinearizing
  | RevisionMismatch queue_revision_snapshot queue_revision_snapshot
  | ItemNotCommitted playlist_item_id
  | CapacityExceeded nat nat
  | ItemIdExhausted
  | ItemIdCollision playlist_item_id
  | StructuralRevisionExhausted
  | TraversalRevisionExhausted

record reserved_mutation_commit =
  commit_allocated_item_ids :: "playlist_item_id list"
  commit_traversal_current :: playlist_item_id

fun map_reservation_allocation_error ::
    "item_id_allocation_error \<Rightarrow> prepare_reserved_mutation_error" where
  "map_reservation_allocation_error ItemArithmeticExhausted =
     prepare_reserved_mutation_error.ItemIdExhausted"
| "map_reservation_allocation_error (ItemCollision i) =
     prepare_reserved_mutation_error.ItemIdCollision i"

definition prepare_replacement_reservation ::
    "playlist_queue \<Rightarrow> playlist_item_draft list \<Rightarrow> playlist_item_draft \<Rightarrow> playlist_item_draft list \<Rightarrow>
     (prepare_reserved_mutation_error + prepared_mutation) run" where
  "prepare_replacement_reservation q earlier current later =
     (case Option.bind (usize_checked_add (length earlier) 1)
             (\<lambda>n. usize_checked_add n (length later)) of
        candidate \<Rightarrow>
      if (case candidate of None \<Rightarrow> True | Some n \<Rightarrow> n > MAX_PLAYLIST_ITEMS)
      then Some (Inl (prepare_reserved_mutation_error.CapacityExceeded
             (usize_saturating_add (usize_saturating_add (length earlier) 1) (length later))
             MAX_PLAYLIST_ITEMS))
      else case checked_next (structural_revision q) of
        None \<Rightarrow> Some (Inl prepare_reserved_mutation_error.StructuralRevisionExhausted)
      | Some s \<Rightarrow>
     (case checked_next (traversal_revision q) of
        None \<Rightarrow> Some (Inl prepare_reserved_mutation_error.TraversalRevisionExhausted)
      | Some v \<Rightarrow>
     (case item_preflight_allocation (item_allocator q) (the candidate) (existing_item_ids q) of
        Inl e \<Rightarrow> Some (Inl (map_reservation_allocation_error e))
      | Inr plan \<Rightarrow>
          map_option
            (\<lambda>c. Inr (PreparedReplace
                    (items_from_drafts (earlier @ current # later) (allocated_item_ids plan)) plan c s v))
            (slice_get (allocated_item_ids plan) (length earlier)))))"

definition prepare_select ::
    "playlist_queue \<Rightarrow> playlist_item_id \<Rightarrow> prepare_reserved_mutation_error + prepared_mutation" where
  "prepare_select q i =
     (case validate_traversal_current q i of
        Inl _ \<Rightarrow> Inl (prepare_reserved_mutation_error.ItemNotCommitted i)
      | Inr c \<Rightarrow>
     (let records_same_item_shuffle_visit =
        shuffle_traversal q \<noteq> None \<and> traversal_current q = Some c
      in if traversal_current q = Some c \<and> \<not> records_same_item_shuffle_visit
         then Inr (PreparedSelect c None)
         else (case checked_next (traversal_revision q) of
                 None \<Rightarrow> Inl prepare_reserved_mutation_error.TraversalRevisionExhausted
               | Some v \<Rightarrow> Inr (PreparedSelect c (Some v)))))"

definition prepare_reserved_mutation ::
    "playlist_queue \<Rightarrow> queue_revision_snapshot \<Rightarrow> reserved_queue_mutation \<Rightarrow> nat \<Rightarrow>
     ((prepare_reserved_mutation_error + prepared_queue_mutation_token) \<times> playlist_queue) run" where
  "prepare_reserved_mutation q expected mutation address =
     (if active_reservation q \<noteq> None
      then Some (Inl prepare_reserved_mutation_error.InstallCommitLinearizing, q)
      else if \<not> same_reservation_preconditions expected (revision_snapshot q)
      then Some (Inl (prepare_reserved_mutation_error.RevisionMismatch expected (revision_snapshot q)), q)
      else case (case mutation of
                   SelectCommitted i \<Rightarrow> Some (prepare_select q i)
                 | ReplaceWithCurrent earlier current later \<Rightarrow>
                     prepare_replacement_reservation q earlier current later) of
        None \<Rightarrow> None
      | Some (Inl e) \<Rightarrow> Some (Inl e, q)
      | Some (Inr prepared) \<Rightarrow>
          if address = 0 then None
          else Some (Inr \<lparr>token_key = address, token_mutation = prepared\<rparr>,
                     q\<lparr>active_reservation := Some address\<rparr>))"

definition abort_reserved ::
    "playlist_queue \<Rightarrow> prepared_queue_mutation_token \<Rightarrow> playlist_queue run" where
  "abort_reserved q token =
     (if active_reservation q = Some (token_key token)
      then Some (q\<lparr>active_reservation := None\<rparr>) else None)"

definition commit_reserved ::
    "'r rng \<Rightarrow> 'r \<Rightarrow> playlist_queue \<Rightarrow> prepared_queue_mutation_token \<Rightarrow>
     (reserved_mutation_commit \<times> playlist_queue \<times> 'r) run" where
  "commit_reserved R r q token =
     (if active_reservation q \<noteq> Some (token_key token) then None
      else
     (let q1 = q\<lparr>active_reservation := None\<rparr>
      in case token_mutation token of
           PreparedSelect c next_traversal \<Rightarrow>
             map_option
               (\<lambda>q2. (\<lparr>commit_allocated_item_ids = [], commit_traversal_current = c\<rparr>,
                      q2\<lparr>traversal_current := Some c,
                         traversal_revision :=
                           (case next_traversal of Some v \<Rightarrow> v | None \<Rightarrow> traversal_revision q2)\<rparr>, r))
               (direct_transition q1 c)
         | PreparedReplace items plan c s v \<Rightarrow>
             (let q2 = q1\<lparr>item_allocator := item_commit_allocation (item_allocator q1) plan,
                          entries := map Single items, traversal_current := Some c,
                          structural_revision := s, traversal_revision := v\<rparr>;
                  out = \<lparr>commit_allocated_item_ids = allocated_item_ids plan,
                         commit_traversal_current = c\<rparr>
              in if shuffle_traversal q = None then Some (out, q2, r)
                 else (case shuffle_visit_identity_of (entries q2) c of
                         None \<Rightarrow> None
                       | Some identity \<Rightarrow>
                           (let (t, r') = fresh R r (iter_top_level_entry_ids (entries q2)) (Some identity)
                            in Some (out, q2\<lparr>shuffle_traversal := Some t\<rparr>, r'))))))"

section \<open>A prepared mutation stays committable\<close>

text \<open>What the preflight established, in terms of what the reservation freezes.\<close>

fun prepared_for :: "playlist_queue \<Rightarrow> prepared_mutation \<Rightarrow> bool" where
  "prepared_for q (PreparedSelect i next_traversal) \<longleftrightarrow>
     i \<in> set (iter_playable_ids (entries q))
     \<and> (case next_traversal of
          None \<Rightarrow> traversal_current q = Some i \<and> shuffle_traversal q = None
        | Some v \<Rightarrow> checked_next (traversal_revision q) = Some v)"
| "prepared_for q (PreparedReplace items plan c s v) \<longleftrightarrow>
     (\<exists>n \<le> MAX_PLAYLIST_ITEMS.
        item_preflight_allocation (item_allocator q) n (existing_item_ids q) = Inr plan)
     \<and> map item_id items = allocated_item_ids plan \<and> c \<in> set (allocated_item_ids plan)
     \<and> checked_next (structural_revision q) = Some s
     \<and> checked_next (traversal_revision q) = Some v"

lemma prepared_for_frozen:
  assumes "same_core q q'"
  shows "prepared_for q' m \<longleftrightarrow> prepared_for q m"
proof -
  have "map shape (entries q') = map shape (entries q)" using assms by (simp add: same_core_def shapes_def)
  note proj = shape_projections [OF this]
  show ?thesis
    using assms proj by (cases m) (auto simp: same_core_def existing_item_ids_def split: option.splits)
qed

lemma items_from_drafts_map:
  "length drafts = length ids \<Longrightarrow> map item_id (items_from_drafts drafts ids) = ids"
  by (induction drafts ids rule: list_induct2') (auto simp: items_from_drafts_def into_item_def)

lemma prepare_select_ok:
  "prepare_select q i = Inr m \<Longrightarrow> prepared_for q m"
  by (auto simp: prepare_select_def validate_Inr Let_def split: sum.splits option.splits if_splits)

lemma prepare_replacement_ok:
  assumes inv: "queue_inv q"
  shows "\<exists>res. prepare_replacement_reservation q earlier cur later = Some res
    \<and> (\<forall>m. res = Inr m \<longrightarrow> prepared_for q m)"
proof -
  let ?n = "length earlier + 1 + length later"
  let ?c = "Option.bind (usize_checked_add (length earlier) 1) (\<lambda>n. usize_checked_add n (length later))"
  show ?thesis
  proof (cases "?n \<le> MAX_PLAYLIST_ITEMS \<and> checked_next (structural_revision q) \<noteq> None
      \<and> checked_next (traversal_revision q) \<noteq> None")
    case False
    then show ?thesis
      by (auto simp: prepare_replacement_reservation_def usize_checked_add_def split: option.splits bind_splits)
  next
    case True
    then obtain s v where s: "checked_next (structural_revision q) = Some s"
      and v: "checked_next (traversal_revision q) = Some v" by auto
    have "?c = Some ?n"
      using True by (simp add: usize_checked_add_def usize_max_def MAX_PLAYLIST_ITEMS_def)
    note d = prepare_replacement_reservation_def [of q earlier cur later, unfolded this] s v True
    show ?thesis
    proof (cases "item_preflight_allocation (item_allocator q) ?n (existing_item_ids q)")
      case (Inl e)
      then show ?thesis using d by simp
    next
      case (Inr plan)
      have len: "length (allocated_item_ids plan) = ?n" using items.plan_length [OF Inr] by simp
      then have "slice_get (allocated_item_ids plan) (length earlier) = Some (allocated_item_ids plan ! length earlier)"
        by simp
      moreover have "map item_id (items_from_drafts (earlier @ cur # later) (allocated_item_ids plan)) = allocated_item_ids plan"
        by (rule items_from_drafts_map) (simp add: len)
      moreover have "allocated_item_ids plan ! length earlier \<in> set (allocated_item_ids plan)"
        by (rule nth_mem) (simp add: len)
      ultimately show ?thesis using d Inr by auto
    qed
  qed
qed

lemma prepare_reserved_ok:
  assumes inv: "queue_inv q" and key: "address \<noteq> 0"
  shows "\<exists>res q'. prepare_reserved_mutation q expected mutation address = Some (res, q')
    \<and> (\<forall>e. res = Inl e \<longrightarrow> q' = q)
    \<and> (\<forall>t. res = Inr t \<longrightarrow> active_reservation q = None \<and> q' = q\<lparr>active_reservation := Some address\<rparr>
         \<and> token_key t = address \<and> prepared_for q (token_mutation t)
         \<and> rev_structural expected = structural_revision q \<and> rev_traversal expected = traversal_revision q)"
proof -
  let ?prep = "case mutation of SelectCommitted i \<Rightarrow> Some (prepare_select q i)
                 | ReplaceWithCurrent earlier current later \<Rightarrow>
                     prepare_replacement_reservation q earlier current later"
  have "\<exists>res. ?prep = Some res \<and> (\<forall>m. res = Inr m \<longrightarrow> prepared_for q m)"
    using prepare_select_ok prepare_replacement_ok [OF inv]
    by (auto split: reserved_queue_mutation.splits)
  then obtain res where res: "?prep = Some res" "\<And>m. res = Inr m \<Longrightarrow> prepared_for q m" by blast
  show ?thesis
  proof (cases "active_reservation q \<noteq> None \<or> \<not> same_reservation_preconditions expected (revision_snapshot q)")
    case True
    then show ?thesis by (auto simp: prepare_reserved_mutation_def)
  next
    case False
    then show ?thesis
      using res key by (cases res)
        (auto simp: prepare_reserved_mutation_def same_reservation_preconditions_def revision_snapshot_def)
  qed
qed

lemma queue_inv_reservation [simp]: "queue_inv (q\<lparr>active_reservation := a\<rparr>) \<longleftrightarrow> queue_inv q"
  by (simp add: queue_inv_def)

text \<open>Advancing does not look at the lock.\<close>

lemma advances_refl_reservation:
  "advances q (q\<lparr>active_reservation := a\<rparr>)" "grown q (q\<lparr>active_reservation := a\<rparr>)"
  by (auto simp: advances_def grown_def shapes_def)

lemma abort_reserved_ok:
  assumes "queue_inv q" and "active_reservation q = Some (token_key t)"
  shows "abort_reserved q t = Some (q\<lparr>active_reservation := None\<rparr>)"
  using assms by (simp add: abort_reserved_def)

lemma commit_reserved_ok:
  assumes rng: "rng_ok R" and inv: "queue_inv q" and lock: "active_reservation q = Some (token_key t)"
    and prep: "prepared_for q (token_mutation t)"
  shows "\<exists>out q' r'. commit_reserved R r q t = Some (out, q', r') \<and> queue_inv q' \<and> advances q q' \<and> grown q q'
    \<and> active_reservation q' = None \<and> traversal_current q' = Some (commit_traversal_current out)
    \<and> (shuffle_traversal q' = None \<longleftrightarrow> shuffle_traversal q = None)
    \<and> (case token_mutation t of
         PreparedSelect i _ \<Rightarrow> commit_traversal_current out = i \<and> shapes q' = shapes q \<and> entries q' = entries q
           \<and> structural_revision q' = structural_revision q
           \<and> (traversal_revision q' = traversal_revision q \<longrightarrow> shuffle_traversal q = None)
       | PreparedReplace its _ c _ _ \<Rightarrow> commit_traversal_current out = c \<and> entries q' = map Single its
           \<and> set (iter_playable_ids (entries q')) \<inter> set (iter_playable_ids (entries q)) = {})"
proof (cases "token_mutation t")
  case (PreparedSelect i nv)
  let ?q1 = "q\<lparr>active_reservation := None\<rparr>"
  have i: "i \<in> set (iter_playable_ids (entries q))" using prep PreparedSelect by simp
  obtain q2 sh where q2: "direct_transition ?q1 i = Some q2" "q2 = ?q1\<lparr>shuffle_traversal := sh\<rparr>"
    "sh = None \<longleftrightarrow> shuffle_traversal q = None"
    "\<And>v. queue_inv (q2\<lparr>traversal_current := Some i, traversal_revision := v\<rparr>)"
    using direct_transition_ok [of ?q1 i] inv i by auto
  let ?v = "case nv of Some v \<Rightarrow> v | None \<Rightarrow> traversal_revision q2"
  let ?q3 = "q2\<lparr>traversal_current := Some i, traversal_revision := ?v\<rparr>"
  have run: "commit_reserved R r q t = Some (\<lparr>commit_allocated_item_ids = [], commit_traversal_current = i\<rparr>, ?q3, r)"
    using lock PreparedSelect q2(1) by (simp add: commit_reserved_def Let_def)
  have "advances q ?q3"
  proof (cases nv)
    case None
    then have "traversal_current q = Some i" "shuffle_traversal q = None" using prep PreparedSelect by auto
    then show ?thesis using None q2(2,3) by (simp add: advances_def shapes_def)
  next
    case (Some v)
    then have "checked_next (traversal_revision q) = Some v" using prep PreparedSelect by simp
    from checked_next_Some [OF this] show ?thesis using Some q2(2) by (auto simp: advances_def shapes_def)
  qed
  moreover have "?v = traversal_revision q \<Longrightarrow> shuffle_traversal q = None"
    using prep PreparedSelect checked_next_Some(3) [of "traversal_revision q"] q2(2)
    by (auto split: option.splits)
  ultimately show ?thesis
    using run q2 PreparedSelect by (auto simp: shapes_def grown_def)
next
  case (PreparedReplace its plan c s v)
  then obtain n where n: "n \<le> MAX_PLAYLIST_ITEMS"
    "item_preflight_allocation (item_allocator q) n (existing_item_ids q) = Inr plan"
    and its: "map item_id its = allocated_item_ids plan" and c: "c \<in> set (allocated_item_ids plan)"
    and s: "checked_next (structural_revision q) = Some s" and v: "checked_next (traversal_revision q) = Some v"
    using prep by auto
  let ?es = "map Single its"
  have ids: "iter_playable_ids ?es = allocated_item_ids plan"
    unfolding its [symmetric] by (induction its) auto
  have cids: "compound_ids ?es = []" by (induction its) auto
  have below: "items.below (item_allocator q) (existing_item_ids q)"
    using inv by (simp add: queue_inv_def existing_item_ids_def)
  have wf: "entries_wf ?es"
    using items.plan_distinct [OF n(2)] by (simp add: entries_wf_def ids cids)
  have count: "retained_item_count ?es = n"
    using items.plan_length [OF n(2)] ids by (simp add: length_iter_playable_ids [symmetric])
  have fresh_ids: "set (allocated_item_ids plan) \<inter> set (iter_playable_ids (entries q)) = {}"
    using items.plan_fresh [OF n(2) below] by (simp add: existing_item_ids_def)
  let ?q2 = "q\<lparr>active_reservation := None, item_allocator := item_commit_allocation (item_allocator q) plan,
                          entries := ?es, traversal_current := Some c,
                          structural_revision := s, traversal_revision := v\<rparr>"
  have inv2: "queue_inv (?q2\<lparr>shuffle_traversal := sh\<rparr>)"
    if "\<And>t. sh = Some t \<Longrightarrow> shuffle_wf (set (iter_playable_ids ?es)) (set (iter_top_level_entry_ids ?es)) (Some c) t"
    for sh
    using inv wf count n(1) c that items.below_mono [OF items.below_commit [OF n(2) below]]
    by (auto simp: queue_inv_def ids cids intro: groups.below_mono)
  have adv: "advances q (?q2\<lparr>shuffle_traversal := sh\<rparr>)" for sh
    using checked_next_Some [OF s] checked_next_Some [OF v] items.plan_watermark [OF n(2)]
    by (auto simp: advances_def word_le_nat_alt)
  have grow: "grown q (?q2\<lparr>shuffle_traversal := sh\<rparr>)" for sh
  proof -
    have "next_item_id (item_allocator q) \<le> item_raw (item_id it)" if "it \<in> set its" for it
    proof -
      have "item_id it \<in> set (map item_id its)" using that by simp
      then show ?thesis using items.plan_range [OF n(2)] unfolding its by (simp add: word_le_nat_alt)
    qed
    then show ?thesis by (auto simp: grown_def)
  qed
  show ?thesis
  proof (cases "shuffle_traversal q")
    case None
    have "?q2\<lparr>shuffle_traversal := None\<rparr> = ?q2" using None by simp
    then have "queue_inv ?q2" "advances q ?q2" "grown q ?q2"
      using inv2 [of None] adv [of None] grow [of None] by auto
    then show ?thesis
      using None lock PreparedReplace fresh_ids ids by (simp add: commit_reserved_def Let_def)
  next
    case (Some t0)
    obtain k where k: "structural_entry_id_for_item ?es c = Some k"
      using structural_entry_id_for_item_ex [of c ?es] c ids by auto
    let ?id = "\<lparr>visit_item_id = c, visit_entry_id = k\<rparr>"
    obtain t1 r1 where f: "fresh R r (iter_top_level_entry_ids ?es) (Some ?id) = (t1, r1)"
      by (cases "fresh R r (iter_top_level_entry_ids ?es) (Some ?id)")
    have "shuffle_wf (set (iter_playable_ids ?es)) (set (iter_top_level_entry_ids ?es)) (Some c) t1"
      using fresh_wf [OF rng distinct_entry_ids [OF wf] _ f, of "set (iter_playable_ids ?es)"] c ids by simp
    then have "queue_inv (?q2\<lparr>shuffle_traversal := Some t1\<rparr>)" using inv2 [of "Some t1"] by simp
    with adv [of "Some t1"] grow [of "Some t1"] show ?thesis
      using Some lock PreparedReplace f k fresh_ids ids
      by (simp add: commit_reserved_def Let_def shuffle_visit_identity_of_def)
  qed
qed

end
