(* ===== verification/Queue_Navigation.thy ===== *)
theory Queue_Navigation
  imports Queue_Reservation
begin

text \<open>
  Navigation from the committed current item (playlist-core \<open>queue/navigation.rs\<close>,
  \<open>navigation/manual_target.rs\<close>, \<open>navigation/failed_anchor.rs\<close> and the next-target query of
  \<open>queue/shuffle/runtime.rs\<close>): the pure automatic query, and manual previews that are walked
  step by step and only reach the queue through a reservation.
\<close>

section \<open>Definitions\<close>

datatype automatic_stop_reason =
    EmptyQueue
  | CurrentItemAbsent
  | EndOfQueue playlist_item_id

datatype automatic_navigation_outcome =
    OpenItem playlist_item_id
  | ReplayCurrent playlist_item_id
  | Stop automatic_stop_reason

record manual_navigation_intent =
  intent_direction :: manual_navigation_direction
  intent_repeat_mode :: repeat_mode

datatype manual_navigation_no_item =
    EmptyQueue
  | PreviousFromPersistedIdle
  | QueueBoundary playlist_item_id manual_navigation_direction
  | ReturnedToCommittedOrigin playlist_item_id

datatype manual_navigation_origin =
    PersistedIdle
  | CommittedItem playlist_item_id

text \<open>The failed-target marker only holds the target's identity.\<close>

datatype manual_navigation_preview_state =
    Ready
  | AwaitingUserAfterFailure playlist_item_id

record manual_navigation_preview =
  expected_revision :: queue_revision_snapshot
  preview_origin :: manual_navigation_origin
  latest_target_item_id :: playlist_item_id
  has_left_committed_origin :: bool
  preview_state :: manual_navigation_preview_state
  shuffle_preview :: "shuffle_manual_preview option"

datatype manual_navigation_outcome =
    OpenItem playlist_item_id manual_navigation_preview
  | NoItem manual_navigation_no_item

datatype manual_navigation_preview_error =
    QueueChanged queue_revision_snapshot queue_revision_snapshot
  | TargetNotCommitted playlist_item_id

record prepared_manual_navigation_token =
  token_preview :: manual_navigation_preview
  reservation_token :: prepared_queue_mutation_token

record prepare_manual_navigation_failure =
  failure_preview :: manual_navigation_preview
  failure_reason :: prepare_reserved_mutation_error

definition mark_latest_target_failed :: "manual_navigation_preview \<Rightarrow> manual_navigation_preview" where
  "mark_latest_target_failed p =
     p\<lparr>preview_state := AwaitingUserAfterFailure (latest_target_item_id p)\<rparr>"

subsection \<open>The automatic query\<close>

definition generated_cycle_first ::
    "'r rng \<Rightarrow> 'r \<Rightarrow> playlist_entry list \<Rightarrow> playlist_entry_id list \<Rightarrow> playlist_entry_id option \<Rightarrow>
     playlist_item_id option \<times> 'r" where
  "generated_cycle_first R r es canonical current_entry =
     (let (cycle, r') = new_cycle R r canonical current_entry
      in (Option.bind (slice_get cycle 0) (first_playable_item_id es), r'))"

definition shuffle_next_target ::
    "'r rng \<Rightarrow> 'r \<Rightarrow> playlist_queue \<Rightarrow> repeat_mode \<Rightarrow> playlist_item_id option \<times> 'r" where
  "shuffle_next_target R r q mode =
     (case shuffle_traversal q of
        None \<Rightarrow> (None, r)
      | Some t \<Rightarrow>
     (case Option.bind (history_cursor t) (\<lambda>cursor. slice_get (history t) (cursor + 1)) of
        Some i \<Rightarrow> (Some i, r)
      | None \<Rightarrow>
     (case traversal_current q of
        None \<Rightarrow> (None, r)
      | Some current \<Rightarrow>
     (case next_playable_item_id_in_entry (entries q) current of
        Some part \<Rightarrow> (Some part, r)
      | None \<Rightarrow>
     (case slice_get (upcoming t) 0 of
        Some e \<Rightarrow> (first_playable_item_id (entries q) e, r)
      | None \<Rightarrow>
          if mode \<noteq> RepeatQueue then (None, r)
          else generated_cycle_first R r (entries q) (iter_top_level_entry_ids (entries q))
                 (structural_entry_id_for_item (entries q) current))))))"

definition automatic_navigation ::
    "'r rng \<Rightarrow> 'r \<Rightarrow> playlist_queue \<Rightarrow> repeat_mode \<Rightarrow> (automatic_navigation_outcome \<times> 'r) run" where
  "automatic_navigation R r q mode =
     (if entries q = [] then Some (Stop automatic_stop_reason.EmptyQueue, r)
      else case traversal_current q of
        None \<Rightarrow> Some (Stop CurrentItemAbsent, r)
      | Some current \<Rightarrow>
      if mode = RepeatOne then Some (ReplayCurrent current, r)
      else if shuffle_traversal q \<noteq> None then
        (let (target, r') = shuffle_next_target R r q mode
         in Some (case target of
                    Some i \<Rightarrow> automatic_navigation_outcome.OpenItem i
                  | None \<Rightarrow> Stop (EndOfQueue current), r'))
      else (case canonical_index_of (entries q) current of
              None \<Rightarrow> None
            | Some index \<Rightarrow>
                (case slice_get (iter_playable_ids (entries q)) (index + 1) of
                   Some i \<Rightarrow> Some (automatic_navigation_outcome.OpenItem i, r)
                 | None \<Rightarrow>
                     if mode = RepeatQueue then
                       map_option (\<lambda>i. (automatic_navigation_outcome.OpenItem i, r))
                         (slice_get (iter_playable_ids (entries q)) 0)
                     else Some (Stop (EndOfQueue current), r))))"

subsection \<open>Manual previews\<close>

text \<open>\<open>item_count - 1\<close> is a \<open>usize\<close> subtraction; it is only evaluated with an index into the
  queue, which is then not empty.\<close>

definition manual_target_index ::
    "playlist_queue \<Rightarrow> nat option \<Rightarrow> manual_navigation_intent \<Rightarrow> nat option" where
  "manual_target_index q current_index intent =
     (let item_count = retained_item_count (entries q)
      in case (current_index, intent_direction intent) of
           (None, NavNext) \<Rightarrow> Some 0
         | (None, NavPrevious) \<Rightarrow> None
         | (Some index, direction) \<Rightarrow>
             if direction = NavNext \<and> index + 1 < item_count then Some (index + 1)
             else if direction = NavPrevious \<and> index > 0 then Some (index - 1)
             else if intent_repeat_mode intent = RepeatQueue
             then Some (case direction of NavNext \<Rightarrow> 0 | NavPrevious \<Rightarrow> item_count - 1)
             else None)"

definition validate_manual_preview ::
    "playlist_queue \<Rightarrow> manual_navigation_preview \<Rightarrow> manual_navigation_preview_error + unit" where
  "validate_manual_preview q p =
     (let actual = revision_snapshot q; expected = expected_revision p
      in if rev_structural expected = rev_structural actual
            \<and> rev_traversal expected = rev_traversal actual
         then Inr () else Inl (QueueChanged expected actual))"

definition origin_of :: "playlist_queue \<Rightarrow> manual_navigation_origin" where
  "origin_of q =
     (case traversal_current q of Some c \<Rightarrow> CommittedItem c | None \<Rightarrow> PersistedIdle)"

definition leaves_origin :: "manual_navigation_origin \<Rightarrow> playlist_item_id \<Rightarrow> bool" where
  "leaves_origin origin target =
     (case origin of PersistedIdle \<Rightarrow> True | CommittedItem i \<Rightarrow> i \<noteq> target)"

definition build_initial_shuffle_preview_outcome ::
    "playlist_queue \<Rightarrow> manual_navigation_origin \<Rightarrow> manual_navigation_direction \<Rightarrow>
     shuffle_manual_preview \<Rightarrow> shuffle_preview_step \<Rightarrow> manual_navigation_outcome" where
  "build_initial_shuffle_preview_outcome q origin direction sp step =
     (case step of
        StepTarget i \<Rightarrow>
          manual_navigation_outcome.OpenItem i
            \<lparr>expected_revision = revision_snapshot q, preview_origin = origin,
             latest_target_item_id = i, has_left_committed_origin = True,
             preview_state = Ready, shuffle_preview = Some sp\<rparr>
      | StepPreviousFromPersistedIdle \<Rightarrow> NoItem PreviousFromPersistedIdle
      | StepBoundary \<Rightarrow>
          (case origin of
             PersistedIdle \<Rightarrow> NoItem PreviousFromPersistedIdle
           | CommittedItem i \<Rightarrow> NoItem (QueueBoundary i direction))
      | StepReturnedToCommittedOrigin i \<Rightarrow> NoItem (ReturnedToCommittedOrigin i))"

definition build_continued_shuffle_preview_outcome ::
    "manual_navigation_preview \<Rightarrow> manual_navigation_direction \<Rightarrow> shuffle_manual_preview \<Rightarrow>
     shuffle_preview_step \<Rightarrow> manual_navigation_outcome" where
  "build_continued_shuffle_preview_outcome p direction sp step =
     (case step of
        StepTarget i \<Rightarrow>
          manual_navigation_outcome.OpenItem i
            (p\<lparr>latest_target_item_id := i, preview_state := Ready, shuffle_preview := Some sp\<rparr>)
      | StepPreviousFromPersistedIdle \<Rightarrow> NoItem PreviousFromPersistedIdle
      | StepBoundary \<Rightarrow> NoItem (QueueBoundary (latest_target_item_id p) direction)
      | StepReturnedToCommittedOrigin i \<Rightarrow> NoItem (ReturnedToCommittedOrigin i))"

text \<open>The shuffle preview of an exact source-order target; the \<open>expect\<close> on its owner is the
  \<open>None\<close> of the outer option.\<close>

definition source_order_preview ::
    "playlist_queue \<Rightarrow> playlist_item_id \<Rightarrow> shuffle_manual_preview option run" where
  "source_order_preview q target =
     (case shuffle_traversal q of
        None \<Rightarrow> Some None
      | Some t \<Rightarrow> map_option Some (select_source_order_target (entries q) (preview_new t) target))"

definition begin_replacement_detached_navigation ::
    "playlist_queue \<Rightarrow> manual_navigation_direction \<Rightarrow> manual_navigation_outcome run" where
  "begin_replacement_detached_navigation q direction =
     (let ids = iter_playable_ids (entries q)
      in if ids = [] then Some (NoItem manual_navigation_no_item.EmptyQueue)
         else let target = (case direction of NavNext \<Rightarrow> hd ids | NavPrevious \<Rightarrow> last ids)
              in map_option
                   (\<lambda>sp. manual_navigation_outcome.OpenItem target
                      \<lparr>expected_revision = revision_snapshot q, preview_origin = PersistedIdle,
                       latest_target_item_id = target, has_left_committed_origin = True,
                       preview_state = Ready, shuffle_preview = sp\<rparr>)
                   (source_order_preview q target))"

definition begin_failed_manual_navigation ::
    "playlist_queue \<Rightarrow> playlist_item_id \<Rightarrow>
     (manual_navigation_preview_error + manual_navigation_preview) run" where
  "begin_failed_manual_navigation q target =
     (if canonical_index_of (entries q) target = None
      then Some (Inl (TargetNotCommitted target))
      else map_option
             (\<lambda>sp. Inr
                \<lparr>expected_revision = revision_snapshot q, preview_origin = origin_of q,
                 latest_target_item_id = target,
                 has_left_committed_origin = leaves_origin (origin_of q) target,
                 preview_state = AwaitingUserAfterFailure target, shuffle_preview = sp\<rparr>)
             (source_order_preview q target))"

definition begin_manual_navigation ::
    "'r rng \<Rightarrow> 'r \<Rightarrow> playlist_queue \<Rightarrow> manual_navigation_intent \<Rightarrow>
     (manual_navigation_outcome \<times> 'r) run" where
  "begin_manual_navigation R r q intent =
     (if entries q = [] then Some (NoItem manual_navigation_no_item.EmptyQueue, r)
      else
     (case shuffle_traversal q of
        Some t \<Rightarrow>
          map_option
            (\<lambda>(step, sp, r').
               (build_initial_shuffle_preview_outcome q (origin_of q) (intent_direction intent) sp step, r'))
            (preview_step R r (preview_new t) (intent_direction intent) (intent_repeat_mode intent)
               (entries q) (iter_top_level_entry_ids (entries q)) (traversal_current q))
      | None \<Rightarrow>
          if origin_of q = PersistedIdle \<and> intent_direction intent = NavPrevious
          then Some (NoItem PreviousFromPersistedIdle, r)
          else
     (case (case origin_of q of
              PersistedIdle \<Rightarrow> Some None
            | CommittedItem i \<Rightarrow> map_option Some (canonical_index_of (entries q) i)) of
        None \<Rightarrow> None
      | Some current_index \<Rightarrow>
     (case manual_target_index q current_index intent of
        None \<Rightarrow>
          (case origin_of q of
             PersistedIdle \<Rightarrow> None
           | CommittedItem i \<Rightarrow> Some (NoItem (QueueBoundary i (intent_direction intent)), r))
      | Some target_index \<Rightarrow>
          map_option
            (\<lambda>target.
               (manual_navigation_outcome.OpenItem target
                  \<lparr>expected_revision = revision_snapshot q, preview_origin = origin_of q,
                   latest_target_item_id = target,
                   has_left_committed_origin = leaves_origin (origin_of q) target,
                   preview_state = Ready, shuffle_preview = None\<rparr>, r))
            (slice_get (iter_playable_ids (entries q)) target_index)))))"

definition continue_manual_navigation ::
    "'r rng \<Rightarrow> 'r \<Rightarrow> playlist_queue \<Rightarrow> manual_navigation_preview \<Rightarrow> manual_navigation_intent \<Rightarrow>
     ((manual_navigation_preview_error + manual_navigation_outcome) \<times> 'r) run" where
  "continue_manual_navigation R r q p intent =
     (case validate_manual_preview q p of
        Inl e \<Rightarrow> Some (Inl e, r)
      | Inr _ \<Rightarrow>
     (case shuffle_preview p of
        Some sp0 \<Rightarrow>
          map_option
            (\<lambda>(step, sp, r').
               (Inr (build_continued_shuffle_preview_outcome (p\<lparr>shuffle_preview := None\<rparr>)
                       (intent_direction intent) sp step), r'))
            (preview_step R r sp0 (intent_direction intent) (intent_repeat_mode intent)
               (entries q) (iter_top_level_entry_ids (entries q)) (traversal_current q))
      | None \<Rightarrow>
     (case canonical_index_of (entries q) (latest_target_item_id p) of
        None \<Rightarrow> Some (Inl (TargetNotCommitted (latest_target_item_id p)), r)
      | Some latest_index \<Rightarrow>
     (case manual_target_index q (Some latest_index) intent of
        None \<Rightarrow>
          Some (Inr (NoItem (QueueBoundary (latest_target_item_id p) (intent_direction intent))), r)
      | Some target_index \<Rightarrow>
     (case slice_get (iter_playable_ids (entries q)) target_index of
        None \<Rightarrow> None
      | Some target \<Rightarrow>
          if has_left_committed_origin p \<and> preview_origin p = CommittedItem target
          then Some (Inr (NoItem (ReturnedToCommittedOrigin target)), r)
          else Some (Inr (manual_navigation_outcome.OpenItem target
                 (p\<lparr>has_left_committed_origin :=
                       (case preview_origin p of
                          CommittedItem i \<Rightarrow> has_left_committed_origin p \<or> i \<noteq> target
                        | PersistedIdle \<Rightarrow> has_left_committed_origin p),
                    latest_target_item_id := target, preview_state := Ready\<rparr>)), r))))))"

subsection \<open>From a preview to the queue\<close>

definition prepare_manual_navigation ::
    "playlist_queue \<Rightarrow> manual_navigation_preview \<Rightarrow> nat \<Rightarrow>
     ((prepare_manual_navigation_failure + prepared_manual_navigation_token) \<times> playlist_queue) run" where
  "prepare_manual_navigation q p address =
     map_option
       (\<lambda>(res, q').
          (case res of
             Inr t \<Rightarrow> Inr \<lparr>token_preview = p, reservation_token = t\<rparr>
           | Inl e \<Rightarrow> Inl \<lparr>failure_preview = p, failure_reason = e\<rparr>, q'))
       (prepare_reserved_mutation q (expected_revision p) (SelectCommitted (latest_target_item_id p))
          address)"

definition abort_manual_navigation ::
    "playlist_queue \<Rightarrow> prepared_manual_navigation_token \<Rightarrow>
     (manual_navigation_preview \<times> playlist_queue) run" where
  "abort_manual_navigation q tok =
     map_option (\<lambda>q'. (token_preview tok, q')) (abort_reserved q (reservation_token tok))"

definition fail_manual_navigation ::
    "playlist_queue \<Rightarrow> prepared_manual_navigation_token \<Rightarrow>
     (manual_navigation_preview \<times> playlist_queue) run" where
  "fail_manual_navigation q tok =
     map_option (\<lambda>(p, q'). (mark_latest_target_failed p, q')) (abort_manual_navigation q tok)"

definition commit_manual_navigation ::
    "'r rng \<Rightarrow> 'r \<Rightarrow> playlist_queue \<Rightarrow> prepared_manual_navigation_token \<Rightarrow>
     (playlist_item_id \<times> playlist_queue \<times> 'r) run" where
  "commit_manual_navigation R r q tok =
     (case commit_reserved R r q (reservation_token tok) of
        None \<Rightarrow> None
      | Some (out, q', r') \<Rightarrow>
          if commit_traversal_current out \<noteq> latest_target_item_id (token_preview tok) then None
          else (case (shuffle_preview (token_preview tok), shuffle_traversal q') of
                  (Some sp, Some _) \<Rightarrow>
                    map_option
                      (\<lambda>t. (commit_traversal_current out, q'\<lparr>shuffle_traversal := Some t\<rparr>, r'))
                      (commit_into sp (latest_target_item_id (token_preview tok)))
                | _ \<Rightarrow> Some (commit_traversal_current out, q', r')))"

text \<open>An explicit cancel returns what was discarded; the queue is only read.\<close>

definition discard_manual_navigation ::
    "manual_navigation_preview \<Rightarrow> playlist_item_id \<times> manual_navigation_preview_state" where
  "discard_manual_navigation p = (latest_target_item_id p, preview_state p)"

section \<open>The automatic query\<close>

lemma shuffle_next_target_mem:
  assumes inv: "queue_inv q" and run: "shuffle_next_target R r q mode = (Some i, r')"
  shows "i \<in> set (iter_playable_ids (entries q))"
proof -
  have first: "first_playable_item_id (entries q) e = Some i \<Longrightarrow> ?thesis" for e
    using first_playable_item_id_Some iter_playable_ids_mem by blast
  obtain t where t: "shuffle_traversal q = Some t"
    using run by (auto simp: shuffle_next_target_def split: option.splits)
  have hist: "set (history t) \<subseteq> set (iter_playable_ids (entries q))"
    using inv t by (simp add: queue_inv_def shuffle_wf_def)
  show ?thesis
  proof (cases "Option.bind (history_cursor t) (\<lambda>c. slice_get (history t) (c + 1))")
    case (Some j)
    then have "j = i" using run t by (simp add: shuffle_next_target_def)
    then have "i \<in> set (history t)" using Some by (auto simp: bind_eq_Some_conv)
    then show ?thesis using hist by blast
  next
    case no_forward: None
    obtain c where c: "traversal_current q = Some c"
      using run t no_forward by (auto simp: shuffle_next_target_def split: option.splits)
    show ?thesis
    proof (cases "next_playable_item_id_in_entry (entries q) c")
      case (Some j)
      then have "j = i" using run t no_forward c by (simp add: shuffle_next_target_def)
      then show ?thesis
        using next_playable_item_id_in_entry_Some [OF Some] iter_playable_ids_mem by blast
    next
      case None
      then show ?thesis using run t no_forward c first
        by (auto simp: shuffle_next_target_def generated_cycle_first_def bind_eq_Some_conv
            split: option.splits if_splits prod.splits)
    qed
  qed
qed

text \<open>The query never panics, only names committed items, and without shuffle it is the successor
  in canonical order, wrapping under \<open>RepeatQueue\<close>.\<close>

lemma automatic_navigation_ok:
  assumes inv: "queue_inv q"
  shows "\<exists>out r'. automatic_navigation R r q mode = Some (out, r')
    \<and> (case out of
         automatic_navigation_outcome.OpenItem i \<Rightarrow> i \<in> set (iter_playable_ids (entries q))
       | ReplayCurrent i \<Rightarrow> mode = RepeatOne \<and> traversal_current q = Some i
       | Stop automatic_stop_reason.EmptyQueue \<Rightarrow> entries q = []
       | Stop CurrentItemAbsent \<Rightarrow> traversal_current q = None
       | Stop (EndOfQueue i) \<Rightarrow> traversal_current q = Some i)"
proof (cases "entries q = [] \<or> traversal_current q = None \<or> mode = RepeatOne")
  case True
  then show ?thesis by (auto simp: automatic_navigation_def split: option.splits)
next
  case False
  then obtain c where c: "traversal_current q = Some c" and ne: "entries q \<noteq> []" and m: "mode \<noteq> RepeatOne"
    by auto
  show ?thesis
  proof (cases "shuffle_traversal q")
    case None
    have mem: "c \<in> set (iter_playable_ids (entries q))" using inv c by (simp add: queue_inv_def)
    then obtain n where n: "canonical_index_of (entries q) c = Some n" using canonical_index_of_ex by blast
    have len: "0 < length (iter_playable_ids (entries q))" using mem by (metis length_pos_if_in_set)
    show ?thesis
      using c ne m None n len
      by (cases "Suc n < length (iter_playable_ids (entries q))"; cases "mode = RepeatQueue")
        (simp_all add: automatic_navigation_def slice_get_def)
  next
    case (Some t)
    obtain x r' where x: "shuffle_next_target R r q mode = (x, r')" by fastforce
    show ?thesis
    proof (cases x)
      case None
      then show ?thesis using c ne m Some x by (simp add: automatic_navigation_def)
    next
      case (Some i)
      then show ?thesis using c ne m \<open>shuffle_traversal q = Some t\<close> x
          shuffle_next_target_mem [OF inv, of R r mode i r'] by (simp add: automatic_navigation_def)
    qed
  qed
qed

lemma position_nth_distinct:
  "distinct xs \<Longrightarrow> n < length xs \<Longrightarrow> position (\<lambda>c. c = xs ! n) xs = Some n"
proof (induction xs arbitrary: n)
  case Nil
  then show ?case by simp
next
  case (Cons x xs)
  then show ?case by (cases n) auto
qed

lemma automatic_navigation_linear:
  assumes inv: "queue_inv q" and plain: "shuffle_traversal q = None" and mode: "mode \<noteq> RepeatOne"
    and n: "n < length (iter_playable_ids (entries q))"
    and c: "traversal_current q = Some (iter_playable_ids (entries q) ! n)"
  shows "automatic_navigation R r q mode = Some
    (if Suc n < length (iter_playable_ids (entries q))
     then automatic_navigation_outcome.OpenItem (iter_playable_ids (entries q) ! Suc n)
     else if mode = RepeatQueue then automatic_navigation_outcome.OpenItem (iter_playable_ids (entries q) ! 0)
     else Stop (EndOfQueue (iter_playable_ids (entries q) ! n)), r)"
proof -
  have ne: "entries q \<noteq> []" using n by auto
  have d: "distinct (iter_playable_ids (entries q))" using inv by (simp add: queue_inv_def entries_wf_def)
  have "canonical_index_of (entries q) (iter_playable_ids (entries q) ! n) = Some n"
    using position_nth_distinct [OF d n] by (simp add: canonical_index_of_def)
  then show ?thesis using plain mode n c ne
    by (cases "Suc n < length (iter_playable_ids (entries q))")
      (auto simp: automatic_navigation_def slice_get_def)
qed

section \<open>Manual previews\<close>

lemma manual_target_index_lt:
  assumes "manual_target_index q c intent = Some n" and "\<And>k. c = Some k \<Longrightarrow> k < retained_item_count (entries q)"
    and "0 < retained_item_count (entries q)"
  shows "n < retained_item_count (entries q)"
  using assms by (auto simp: manual_target_index_def Let_def
      split: option.splits manual_navigation_direction.splits if_splits)

text \<open>Under \<open>RepeatQueue\<close> the canonical order is a cycle and the two directions undo each other.\<close>

lemma manual_target_index_cycle:
  assumes k: "k < retained_item_count (entries q)"
  shows "manual_target_index q (Some k) \<lparr>intent_direction = NavNext, intent_repeat_mode = RepeatQueue\<rparr>
      = Some (Suc k mod retained_item_count (entries q))"
    and "manual_target_index q (Some k) \<lparr>intent_direction = NavPrevious, intent_repeat_mode = RepeatQueue\<rparr>
      = Some ((k + retained_item_count (entries q) - 1) mod retained_item_count (entries q))"
proof -
  show "manual_target_index q (Some k) \<lparr>intent_direction = NavNext, intent_repeat_mode = RepeatQueue\<rparr>
      = Some (Suc k mod retained_item_count (entries q))"
    using k by (auto simp: manual_target_index_def Let_def mod_Suc)
  have "(k + retained_item_count (entries q) - 1) mod retained_item_count (entries q)
      = (if k = 0 then retained_item_count (entries q) - 1 else k - 1)"
    using k by (simp add: mod_if)
  then show "manual_target_index q (Some k) \<lparr>intent_direction = NavPrevious, intent_repeat_mode = RepeatQueue\<rparr>
      = Some ((k + retained_item_count (entries q) - 1) mod retained_item_count (entries q))"
    using k by (auto simp: manual_target_index_def Let_def)
qed


text \<open>
  A preview fits the lineage of a queue: it is not from the future, and when its revisions still
  match, its target is committed and its shuffle cursor is the one that \<open>commit_into\<close> expects.
\<close>

definition revisions_match :: "playlist_queue \<Rightarrow> queue_revision_snapshot \<Rightarrow> bool" where
  "revisions_match q v \<longleftrightarrow>
     rev_structural v = structural_revision q \<and> rev_traversal v = traversal_revision q"

definition shuffle_preview_fits ::
    "playlist_queue \<Rightarrow> shuffle_manual_preview option \<Rightarrow> playlist_item_id \<Rightarrow> bool" where
  "shuffle_preview_fits q sp target \<longleftrightarrow>
     (case sp of
        None \<Rightarrow> shuffle_traversal q = None
      | Some s \<Rightarrow> shuffle_traversal q \<noteq> None \<and> latest_ok s target
          \<and> sp_wf (set (iter_playable_ids (entries q))) (set (iter_top_level_entry_ids (entries q))) s)"

definition preview_fits :: "playlist_queue \<Rightarrow> manual_navigation_preview \<Rightarrow> bool" where
  "preview_fits q p \<longleftrightarrow>
     rev_structural (expected_revision p) \<le> structural_revision q
     \<and> rev_traversal (expected_revision p) \<le> traversal_revision q
     \<and> (revisions_match q (expected_revision p) \<longrightarrow>
          latest_target_item_id p \<in> set (iter_playable_ids (entries q))
          \<and> shuffle_preview_fits q (shuffle_preview p) (latest_target_item_id p))"

lemma preview_fits_advances:
  assumes fits: "preview_fits q p" and adv: "advances q q'"
  shows "preview_fits q' p"
proof -
  have le: "rev_structural (expected_revision p) \<le> structural_revision q'"
      "rev_traversal (expected_revision p) \<le> traversal_revision q'"
    using fits adv unfolding preview_fits_def advances_def by (meson order_trans)+
  have "latest_target_item_id p \<in> set (iter_playable_ids (entries q'))
      \<and> shuffle_preview_fits q' (shuffle_preview p) (latest_target_item_id p)"
    if "revisions_match q' (expected_revision p)"
  proof -
    have eq: "structural_revision q = structural_revision q'" "traversal_revision q = traversal_revision q'"
      using fits adv that unfolding preview_fits_def advances_def revisions_match_def
      by (metis antisym)+
    then have same: "map shape (entries q) = map shape (entries q')" "shuffle_traversal q = shuffle_traversal q'"
      using adv by (auto simp: advances_def shapes_def)
    have "revisions_match q (expected_revision p)" using that eq by (simp add: revisions_match_def)
    then show ?thesis
      using fits same(2) shape_projections(1,2) [OF same(1)]
      by (cases "shuffle_preview p") (simp_all add: preview_fits_def shuffle_preview_fits_def)
  qed
  then show ?thesis using le by (simp add: preview_fits_def)
qed

lemma fresh_preview_fits:
  assumes "latest_target_item_id p \<in> set (iter_playable_ids (entries q))"
    and "shuffle_preview_fits q (shuffle_preview p) (latest_target_item_id p)"
    and "expected_revision p = revision_snapshot q"
  shows "preview_fits q p"
  using assms by (simp add: preview_fits_def revision_snapshot_def)

lemma new_preview_wf:
  assumes "queue_inv q" and "shuffle_traversal q = Some t"
  shows "sp_wf (set (iter_playable_ids (entries q))) (set (iter_top_level_entry_ids (entries q))) (preview_new t)"
  using assms preview_new_wf(1) by (auto simp: queue_inv_def)

lemma source_order_preview_ok:
  assumes inv: "queue_inv q" and target: "target \<in> set (iter_playable_ids (entries q))"
  shows "\<exists>sp. source_order_preview q target = Some sp \<and> shuffle_preview_fits q sp target"
proof (cases "shuffle_traversal q")
  case None
  then show ?thesis by (simp add: source_order_preview_def shuffle_preview_fits_def)
next
  case (Some t)
  have "entries_wf (entries q)" using inv by (simp add: queue_inv_def)
  then show ?thesis
    using select_source_order_target_wf [OF _ target new_preview_wf [OF inv Some]] Some
    by (auto simp: source_order_preview_def shuffle_preview_fits_def preview_new_def)
qed

lemma begin_replacement_detached_ok:
  assumes inv: "queue_inv q"
  shows "\<exists>out. begin_replacement_detached_navigation q direction = Some out
    \<and> (case out of
         manual_navigation_outcome.OpenItem i p \<Rightarrow> preview_fits q p \<and> latest_target_item_id p = i
           \<and> i = (case direction of NavNext \<Rightarrow> hd (iter_playable_ids (entries q))
                 | NavPrevious \<Rightarrow> last (iter_playable_ids (entries q)))
       | NoItem n \<Rightarrow> entries q = [] \<and> n = manual_navigation_no_item.EmptyQueue)"
proof (cases "iter_playable_ids (entries q) = []")
  case True
  then show ?thesis using inv iter_playable_ids_empty_iff [of "entries q"]
    by (simp add: begin_replacement_detached_navigation_def queue_inv_def)
next
  case False
  define target where "target = (case direction of NavNext \<Rightarrow> hd (iter_playable_ids (entries q))
                 | NavPrevious \<Rightarrow> last (iter_playable_ids (entries q)))"
  have "target \<in> set (iter_playable_ids (entries q))"
    using False by (cases direction) (auto simp: target_def)
  then obtain sp where "source_order_preview q target = Some sp" "shuffle_preview_fits q sp target"
    using source_order_preview_ok [OF inv] by blast
  then show ?thesis
    using False \<open>target \<in> _\<close>
    by (auto simp: begin_replacement_detached_navigation_def Let_def target_def [symmetric]
        intro!: fresh_preview_fits)
qed

lemma begin_failed_manual_ok:
  assumes inv: "queue_inv q"
  shows "\<exists>res. begin_failed_manual_navigation q target = Some res
    \<and> (case res of
         Inl e \<Rightarrow> target \<notin> set (iter_playable_ids (entries q)) \<and> e = TargetNotCommitted target
       | Inr p \<Rightarrow> preview_fits q p \<and> latest_target_item_id p = target
           \<and> preview_state p = AwaitingUserAfterFailure target)"
proof (cases "target \<in> set (iter_playable_ids (entries q))")
  case False
  then have "canonical_index_of (entries q) target = None"
    using canonical_index_of_ex by (metis option.exhaust)
  then show ?thesis using False by (simp add: begin_failed_manual_navigation_def)
next
  case True
  then have "canonical_index_of (entries q) target \<noteq> None" using canonical_index_of_ex by force
  moreover obtain sp where "source_order_preview q target = Some sp" "shuffle_preview_fits q sp target"
    using source_order_preview_ok [OF inv True] by blast
  ultimately show ?thesis
    using True by (auto simp: begin_failed_manual_navigation_def intro!: fresh_preview_fits)
qed


text \<open>What every step of a preview guarantees about the outcome it returns.\<close>

definition manual_outcome_ok :: "playlist_queue \<Rightarrow> manual_navigation_outcome \<Rightarrow> bool" where
  "manual_outcome_ok q out \<longleftrightarrow>
     (\<forall>i p. out = manual_navigation_outcome.OpenItem i p \<longrightarrow>
        preview_fits q p \<and> latest_target_item_id p = i \<and> revisions_match q (expected_revision p)
        \<and> i \<in> set (iter_playable_ids (entries q)))"

lemma manual_outcome_ok_NoItem [simp]: "manual_outcome_ok q (NoItem n)"
  by (simp add: manual_outcome_ok_def)

lemma manual_outcome_ok_OpenItem:
  assumes "latest_target_item_id p = i" and "i \<in> set (iter_playable_ids (entries q))"
    and "shuffle_preview_fits q (shuffle_preview p) i"
    and "revisions_match q (expected_revision p)"
  shows "manual_outcome_ok q (manual_navigation_outcome.OpenItem i p)"
  using assms by (auto simp: manual_outcome_ok_def preview_fits_def revisions_match_def)

lemma revisions_match_snapshot [simp]: "revisions_match q (revision_snapshot q)"
  by (simp add: revisions_match_def revision_snapshot_def)

text \<open>A shuffle step from a well-formed preview opens a committed item with a well-formed preview.\<close>

lemma shuffle_step_target:
  assumes rng: "rng_ok R" and inv: "queue_inv q" and on: "shuffle_traversal q \<noteq> None"
    and sp: "sp_wf (set (iter_playable_ids (entries q))) (set (iter_top_level_entry_ids (entries q))) sp"
  shows "\<exists>step sp' r'. preview_step R r sp d m (entries q) (iter_top_level_entry_ids (entries q)) c
      = Some (step, sp', r')
    \<and> (\<forall>i. step = StepTarget i \<longrightarrow> shuffle_preview_fits q (Some sp') i
         \<and> i \<in> set (iter_playable_ids (entries q)))"
proof -
  have wf: "entries_wf (entries q)" using inv by (simp add: queue_inv_def)
  obtain step sp' r' where run: "preview_step R r sp d m (entries q) (iter_top_level_entry_ids (entries q)) c
      = Some (step, sp', r')"
    and wf': "sp_wf (set (iter_playable_ids (entries q))) (set (iter_top_level_entry_ids (entries q))) sp'"
    and latest: "\<And>i. step = StepTarget i \<Longrightarrow> latest_ok sp' i"
    using preview_step_wf [OF rng wf sp] by blast
  have base: "sp_base (set (iter_playable_ids (entries q))) (set (iter_top_level_entry_ids (entries q))) sp'"
    using wf' by (simp add: sp_wf_def)
  show ?thesis
    using run wf' latest latest_ok_in [OF base] on by (auto simp: shuffle_preview_fits_def)
qed

lemma begin_manual_navigation_ok:
  assumes rng: "rng_ok R" and inv: "queue_inv q"
  shows "\<exists>out r'. begin_manual_navigation R r q intent = Some (out, r') \<and> manual_outcome_ok q out"
proof (cases "entries q = []")
  case True
  then show ?thesis by (simp add: begin_manual_navigation_def)
next
  case ne: False
  show ?thesis
  proof (cases "shuffle_traversal q")
    case (Some t)
    have on: "shuffle_traversal q \<noteq> None" using Some by simp
    obtain step sp r' where run: "preview_step R r (preview_new t) (intent_direction intent)
        (intent_repeat_mode intent) (entries q) (iter_top_level_entry_ids (entries q)) (traversal_current q)
        = Some (step, sp, r')"
      and target: "\<And>i. step = StepTarget i \<Longrightarrow>
        shuffle_preview_fits q (Some sp) i \<and> i \<in> set (iter_playable_ids (entries q))"
      using shuffle_step_target [OF rng inv on new_preview_wf [OF inv Some]] by blast
    have "manual_outcome_ok q (build_initial_shuffle_preview_outcome q (origin_of q)
        (intent_direction intent) sp step)"
      using target
      by (auto simp: build_initial_shuffle_preview_outcome_def intro!: manual_outcome_ok_OpenItem
          split: shuffle_preview_step.splits manual_navigation_origin.splits)
    then show ?thesis using ne Some run by (simp add: begin_manual_navigation_def)
  next
    case None
    have pos: "0 < retained_item_count (entries q)"
      using ne inv iter_playable_ids_empty_iff [of "entries q"]
      by (metis length_greater_0_conv length_iter_playable_ids queue_inv_def)
    show ?thesis
    proof (cases "origin_of q = PersistedIdle \<and> intent_direction intent = NavPrevious")
      case True
      then show ?thesis using ne None by (simp add: begin_manual_navigation_def)
    next
      case False
      obtain k where k: "(case origin_of q of PersistedIdle \<Rightarrow> Some None
          | CommittedItem i \<Rightarrow> map_option Some (canonical_index_of (entries q) i)) = Some k"
        and k_lt: "\<And>n. k = Some n \<Longrightarrow> n < retained_item_count (entries q)"
        and idle: "k = None \<Longrightarrow> origin_of q = PersistedIdle"
      proof (cases "traversal_current q")
        case None
        then show ?thesis using that [of None] by (simp add: origin_of_def)
      next
        case (Some c)
        then have "c \<in> set (iter_playable_ids (entries q))" using inv by (simp add: queue_inv_def)
        then obtain n where n: "canonical_index_of (entries q) c = Some n" using canonical_index_of_ex by blast
        show ?thesis using that [of "Some n"] Some n canonical_index_of_SomeD [OF n] by (simp add: origin_of_def)
      qed
      show ?thesis
      proof (cases "manual_target_index q k intent")
        case no_target: None
        then have "\<exists>n. k = Some n"
          using False idle by (cases k; cases "intent_direction intent")
            (auto simp: manual_target_index_def)
        then obtain c where "origin_of q = CommittedItem c"
          using k by (auto split: manual_navigation_origin.splits)
        then show ?thesis using ne None False k no_target by (auto simp: begin_manual_navigation_def)
      next
        case (Some n)
        have n: "n < length (iter_playable_ids (entries q))"
          using manual_target_index_lt [OF Some k_lt pos] by (simp add: length_iter_playable_ids)
        have "manual_outcome_ok q (manual_navigation_outcome.OpenItem (iter_playable_ids (entries q) ! n)
            \<lparr>expected_revision = revision_snapshot q, preview_origin = origin_of q,
             latest_target_item_id = iter_playable_ids (entries q) ! n,
             has_left_committed_origin = leaves_origin (origin_of q) (iter_playable_ids (entries q) ! n),
             preview_state = Ready, shuffle_preview = None\<rparr>)"
          using n None by (intro manual_outcome_ok_OpenItem) (simp_all add: shuffle_preview_fits_def)
        then show ?thesis using ne None False k Some n
          by (cases "origin_of q") (auto simp: begin_manual_navigation_def slice_get_def)
      qed
    qed
  qed
qed

lemma validate_manual_preview_cases:
  "validate_manual_preview q p =
     (if revisions_match q (expected_revision p) then Inr ()
      else Inl (QueueChanged (expected_revision p) (revision_snapshot q)))"
  by (simp add: validate_manual_preview_def revisions_match_def revision_snapshot_def Let_def)

lemma continue_manual_navigation_ok:
  assumes rng: "rng_ok R" and inv: "queue_inv q" and fits: "preview_fits q p"
  shows "\<exists>res r'. continue_manual_navigation R r q p intent = Some (res, r')
    \<and> (if revisions_match q (expected_revision p)
       then \<exists>out. res = Inr out \<and> manual_outcome_ok q out
       else res = Inl (QueueChanged (expected_revision p) (revision_snapshot q)))"
proof (cases "revisions_match q (expected_revision p)")
  case False
  then show ?thesis by (simp add: continue_manual_navigation_def validate_manual_preview_cases)
next
  case match: True
  have target: "latest_target_item_id p \<in> set (iter_playable_ids (entries q))"
    and sp: "shuffle_preview_fits q (shuffle_preview p) (latest_target_item_id p)"
    using fits match by (auto simp: preview_fits_def)
  show ?thesis
  proof (cases "shuffle_preview p")
    case (Some s)
    have on: "shuffle_traversal q \<noteq> None"
      and wf: "sp_wf (set (iter_playable_ids (entries q))) (set (iter_top_level_entry_ids (entries q))) s"
      using sp Some by (auto simp: shuffle_preview_fits_def)
    obtain step s' r' where run: "preview_step R r s (intent_direction intent)
        (intent_repeat_mode intent) (entries q) (iter_top_level_entry_ids (entries q)) (traversal_current q)
        = Some (step, s', r')"
      and step: "\<And>i. step = StepTarget i \<Longrightarrow>
        shuffle_preview_fits q (Some s') i \<and> i \<in> set (iter_playable_ids (entries q))"
      using shuffle_step_target [OF rng inv on wf] by blast
    have "manual_outcome_ok q (build_continued_shuffle_preview_outcome (p\<lparr>shuffle_preview := None\<rparr>)
        (intent_direction intent) s' step)"
      using step match
      by (auto simp: build_continued_shuffle_preview_outcome_def intro!: manual_outcome_ok_OpenItem
          split: shuffle_preview_step.splits)
    then show ?thesis using Some run match
      by (simp add: continue_manual_navigation_def validate_manual_preview_cases)
  next
    case None
    obtain k where k: "canonical_index_of (entries q) (latest_target_item_id p) = Some k"
      using target canonical_index_of_ex by blast
    have k_lt: "k < retained_item_count (entries q)" using canonical_index_of_SomeD [OF k] by simp
    show ?thesis
    proof (cases "manual_target_index q (Some k) intent")
      case no_target: None
      then show ?thesis using None k match
        by (simp add: continue_manual_navigation_def validate_manual_preview_cases)
    next
      case (Some n)
      have n: "n < length (iter_playable_ids (entries q))"
        using manual_target_index_lt [OF Some] k_lt by (simp add: length_iter_playable_ids)
      have "manual_outcome_ok q (manual_navigation_outcome.OpenItem (iter_playable_ids (entries q) ! n)
         (p\<lparr>has_left_committed_origin := b, latest_target_item_id := iter_playable_ids (entries q) ! n,
            preview_state := Ready\<rparr>))" for b
        using n None sp match
        by (intro manual_outcome_ok_OpenItem) (simp_all add: shuffle_preview_fits_def)
      then show ?thesis using None k Some n match
        by (simp add: continue_manual_navigation_def validate_manual_preview_cases slice_get_def)
    qed
  qed
qed


section \<open>Prepared manual navigation\<close>

text \<open>A live token holds the lock, a selection of the target of its preview that is still
  prepared for the queue, and a preview whose revisions match.\<close>

definition manual_token_ok :: "playlist_queue \<Rightarrow> prepared_manual_navigation_token \<Rightarrow> bool" where
  "manual_token_ok q tok \<longleftrightarrow>
     active_reservation q = Some (token_key (reservation_token tok))
     \<and> prepared_for q (token_mutation (reservation_token tok))
     \<and> (\<exists>v. token_mutation (reservation_token tok)
            = PreparedSelect (latest_target_item_id (token_preview tok)) v)
     \<and> preview_fits q (token_preview tok) \<and> revisions_match q (expected_revision (token_preview tok))"

lemma prepare_select_target: "prepare_select q i = Inr m \<Longrightarrow> \<exists>v. m = PreparedSelect i v"
  by (auto simp: prepare_select_def validate_Inr Let_def split: sum.splits if_splits option.splits)

lemma prepare_reserved_select:
  assumes "prepare_reserved_mutation q expected (SelectCommitted i) address = Some (Inr t, q')"
  shows "\<exists>v. token_mutation t = PreparedSelect i v"
proof -
  obtain m where "prepare_select q i = Inr m" "token_mutation t = m"
    using assms by (auto simp: prepare_reserved_mutation_def split: if_splits sum.splits)
  then show ?thesis using prepare_select_target by blast
qed

lemma shuffle_preview_fits_reservation [simp]:
  "shuffle_preview_fits (q\<lparr>active_reservation := a\<rparr>) sp i \<longleftrightarrow> shuffle_preview_fits q sp i"
  by (cases sp) (simp_all add: shuffle_preview_fits_def)

lemma preview_fits_marked [simp]: "preview_fits q (mark_latest_target_failed p) \<longleftrightarrow> preview_fits q p"
  by (simp add: preview_fits_def mark_latest_target_failed_def)

lemma preview_fits_reservation [simp]:
  "preview_fits (q\<lparr>active_reservation := a\<rparr>) p \<longleftrightarrow> preview_fits q p"
  "revisions_match (q\<lparr>active_reservation := a\<rparr>) v \<longleftrightarrow> revisions_match q v"
  by (simp_all add: preview_fits_def revisions_match_def)

lemma prepared_for_reservation [simp]:
  "prepared_for (q\<lparr>active_reservation := a\<rparr>) m \<longleftrightarrow> prepared_for q m"
  by (rule prepared_for_frozen) (simp add: same_core_def shapes_def)

lemma prepare_manual_navigation_ok:
  assumes inv: "queue_inv q" and fits: "preview_fits q p" and key: "address \<noteq> 0"
  shows "\<exists>res q'. prepare_manual_navigation q p address = Some (res, q')
    \<and> (case res of
         Inl f \<Rightarrow> q' = q \<and> failure_preview f = p
       | Inr tok \<Rightarrow> active_reservation q = None \<and> q' = q\<lparr>active_reservation := Some address\<rparr>
           \<and> manual_token_ok q' tok \<and> token_preview tok = p)"
proof -
  obtain res q' where run: "prepare_reserved_mutation q (expected_revision p)
      (SelectCommitted (latest_target_item_id p)) address = Some (res, q')"
    and err: "\<And>e. res = Inl e \<Longrightarrow> q' = q"
    and ok: "\<And>t. res = Inr t \<Longrightarrow> active_reservation q = None \<and> q' = q\<lparr>active_reservation := Some address\<rparr>
         \<and> token_key t = address \<and> prepared_for q (token_mutation t)
         \<and> rev_structural (expected_revision p) = structural_revision q
         \<and> rev_traversal (expected_revision p) = traversal_revision q"
    using prepare_reserved_ok [OF inv key] by metis
  show ?thesis
  proof (cases res)
    case (Inl e)
    then show ?thesis using run err by (simp add: prepare_manual_navigation_def)
  next
    case (Inr t)
    have "manual_token_ok (q\<lparr>active_reservation := Some address\<rparr>) \<lparr>token_preview = p, reservation_token = t\<rparr>"
      using ok [OF Inr] fits prepare_reserved_select [OF run [unfolded Inr]]
      by (simp add: manual_token_ok_def revisions_match_def)
    then show ?thesis using run Inr ok [OF Inr] by (simp add: prepare_manual_navigation_def)
  qed
qed

lemma abort_manual_navigation_ok:
  assumes "queue_inv q" and "manual_token_ok q tok"
  shows "abort_manual_navigation q tok = Some (token_preview tok, q\<lparr>active_reservation := None\<rparr>)"
    and "preview_fits (q\<lparr>active_reservation := None\<rparr>) (token_preview tok)"
    and "fail_manual_navigation q tok
      = Some (mark_latest_target_failed (token_preview tok), q\<lparr>active_reservation := None\<rparr>)"
    and "preview_fits (q\<lparr>active_reservation := None\<rparr>) (mark_latest_target_failed (token_preview tok))"
  using assms
  by (simp_all add: manual_token_ok_def abort_manual_navigation_def fail_manual_navigation_def
      abort_reserved_def)

text \<open>The commit of a live token never panics: it makes exactly the previewed target current, keeps
  the rows, and with shuffle enabled publishes the previewed traversal.\<close>

lemma commit_manual_navigation_ok:
  assumes rng: "rng_ok R" and inv: "queue_inv q" and tok: "manual_token_ok q tok"
  shows "\<exists>q' r'. commit_manual_navigation R r q tok
      = Some (latest_target_item_id (token_preview tok), q', r')
    \<and> queue_inv q' \<and> advances q q' \<and> grown q q' \<and> active_reservation q' = None
    \<and> traversal_current q' = Some (latest_target_item_id (token_preview tok)) \<and> entries q' = entries q
    \<and> (case shuffle_preview (token_preview tok) of
         None \<Rightarrow> shuffle_traversal q' = None
       | Some sp \<Rightarrow> shuffle_traversal q' = commit_into sp (latest_target_item_id (token_preview tok)))"
proof -
  define target where "target = latest_target_item_id (token_preview tok)"
  have fits: "shuffle_preview_fits q (shuffle_preview (token_preview tok)) target"
    using tok by (simp add: manual_token_ok_def preview_fits_def target_def)
  obtain v where sel: "token_mutation (reservation_token tok) = PreparedSelect target v"
    using tok by (auto simp: manual_token_ok_def target_def)
  have lock: "active_reservation q = Some (token_key (reservation_token tok))"
    and prep: "prepared_for q (token_mutation (reservation_token tok))"
    using tok by (simp_all add: manual_token_ok_def)
  obtain out q1 r1 where run: "commit_reserved R r q (reservation_token tok) = Some (out, q1, r1)"
    and inv1: "queue_inv q1" and adv: "advances q q1" and grown1: "grown q q1"
    and free: "active_reservation q1 = None" and cur: "traversal_current q1 = Some (commit_traversal_current out)"
    and sh: "shuffle_traversal q1 = None \<longleftrightarrow> shuffle_traversal q = None"
    and out: "commit_traversal_current out = target" and es: "entries q1 = entries q"
    and rev: "structural_revision q1 = structural_revision q"
    and vis: "traversal_revision q1 = traversal_revision q \<longrightarrow> shuffle_traversal q = None"
    using commit_reserved_ok [OF rng inv lock prep, of r] unfolding sel prepared_mutation.case
    by (elim exE conjE) (rule that)
  show ?thesis
  proof (cases "shuffle_preview (token_preview tok)")
    case None
    then have "shuffle_traversal q1 = None" using fits sh by (simp add: shuffle_preview_fits_def)
    then show ?thesis using None run inv1 adv grown1 free cur out es
      by (auto simp: commit_manual_navigation_def target_def [symmetric])
  next
    case (Some sp)
    let ?I = "set (iter_playable_ids (entries q))" and ?E = "set (iter_top_level_entry_ids (entries q))"
    have base: "sp_base ?I ?E sp" and latest: "latest_ok sp target" and on: "shuffle_traversal q \<noteq> None"
      using fits Some by (auto simp: shuffle_preview_fits_def sp_wf_def)
    obtain t where t: "commit_into sp target = Some t" "shuffle_wf ?I ?E (Some target) t"
      using commit_into_wf [OF base latest] by blast
    obtain t1 where t1: "shuffle_traversal q1 = Some t1" using on sh by (metis option.exhaust)
    have "queue_inv (q1\<lparr>shuffle_traversal := Some t\<rparr>)"
      using inv1 t(2) cur out es by (simp add: queue_inv_def)
    moreover have "advances q (q1\<lparr>shuffle_traversal := Some t\<rparr>)"
      using adv vis on by (auto simp: advances_def shapes_def)
    moreover have "grown q (q1\<lparr>shuffle_traversal := Some t\<rparr>)"
      using grown1 by (simp add: grown_def)
    ultimately show ?thesis using Some run t t1 free cur out es
      by (simp add: commit_manual_navigation_def target_def [symmetric])
  qed
qed

end
