(* ===== verification/Queue_Automatic.thy ===== *)
theory Queue_Automatic
  imports Queue_Navigation
begin

text \<open>
  Automatic traversal after the end or the failure of the current item (playlist-core
  \<open>queue/automatic.rs\<close>): a plan over a fixed membership that skips failed targets one by one, and
  the reservation that commits its target. The plan may outlive structural changes of the queue;
  its target is validated again when it is prepared.
\<close>

section \<open>Definitions\<close>

record automatic_traversal_plan =
  plan_expected_revision :: queue_revision_snapshot
  plan_repeat_mode :: repeat_mode
  eligible_item_ids :: "playlist_item_id set"
  attempted_item_ids :: "playlist_item_id set"
  canonical_candidates :: "playlist_item_id list"
  canonical_cursor :: nat
  plan_shuffle_preview :: "shuffle_manual_preview option"
  target_item_id :: playlist_item_id

datatype automatic_traversal_start =
    OpenItem playlist_item_id automatic_traversal_plan
  | ReplayCurrent playlist_item_id
  | Stop automatic_stop_reason

datatype automatic_traversal_advance =
    OpenItem playlist_item_id automatic_traversal_plan
  | AllFailed nat

record prepared_automatic_traversal_token =
  token_plan :: automatic_traversal_plan
  plan_reservation_token :: prepared_queue_mutation_token

record prepare_automatic_traversal_failure =
  failure_plan :: automatic_traversal_plan
  plan_failure_reason :: prepare_reserved_mutation_error

definition automatic_candidate_is_available ::
    "playlist_queue \<Rightarrow> automatic_traversal_plan \<Rightarrow> playlist_item_id \<Rightarrow> bool" where
  "automatic_candidate_is_available q plan i \<longleftrightarrow>
     i \<in> eligible_item_ids plan \<and> i \<notin> attempted_item_ids plan \<and> item_lookup (entries q) i \<noteq> None"

definition automatic_canonical_candidates ::
    "playlist_queue \<Rightarrow> playlist_item_id \<Rightarrow> repeat_mode \<Rightarrow> playlist_item_id list run" where
  "automatic_canonical_candidates q current mode =
     (let ids = iter_playable_ids (entries q)
      in map_option
           (\<lambda>index. drop (index + 1) ids @ (if mode = RepeatQueue then take (index + 1) ids else []))
           (position (\<lambda>i. i = current) ids))"

text \<open>The bounded loop over shuffle steps; the first argument is the number of turns left.\<close>

fun automatic_shuffle_loop ::
    "'r rng \<Rightarrow> playlist_queue \<Rightarrow> playlist_entry_id list \<Rightarrow> nat \<Rightarrow> automatic_traversal_plan \<Rightarrow> 'r \<Rightarrow>
     (playlist_item_id option \<times> automatic_traversal_plan \<times> 'r) run" where
  "automatic_shuffle_loop R q canonical 0 plan r = Some (None, plan, r)"
| "automatic_shuffle_loop R q canonical (Suc n) plan r =
     (case plan_shuffle_preview plan of
        None \<Rightarrow> None
      | Some sp \<Rightarrow>
     (case preview_step R r sp NavNext (plan_repeat_mode plan) (entries q) canonical
             (traversal_current q) of
        None \<Rightarrow> None
      | Some (step, sp', r') \<Rightarrow>
     (let plan' = plan\<lparr>plan_shuffle_preview := Some sp'\<rparr>
      in case step of
           StepTarget i \<Rightarrow>
             if automatic_candidate_is_available q plan' i then Some (Some i, plan', r')
             else
               (let plan'' = plan'\<lparr>attempted_item_ids := insert i (attempted_item_ids plan')\<rparr>
                in if card (attempted_item_ids plan'') = card (eligible_item_ids plan'')
                   then Some (None, plan'', r')
                   else automatic_shuffle_loop R q canonical n plan'' r')
         | _ \<Rightarrow> automatic_shuffle_loop R q canonical n plan' r')))"

text \<open>The loop over the canonical candidates that the cursor has not reached yet.\<close>

fun automatic_canonical_loop ::
    "playlist_queue \<Rightarrow> playlist_item_id list \<Rightarrow> automatic_traversal_plan \<Rightarrow>
     playlist_item_id option \<times> automatic_traversal_plan" where
  "automatic_canonical_loop q [] plan = (None, plan)"
| "automatic_canonical_loop q (i # rest) plan =
     (let plan' = plan\<lparr>canonical_cursor := canonical_cursor plan + 1\<rparr>
      in if automatic_candidate_is_available q plan' i then (Some i, plan')
         else automatic_canonical_loop q rest
                (plan'\<lparr>attempted_item_ids := insert i (attempted_item_ids plan')\<rparr>))"

definition maximum_steps :: "automatic_traversal_plan \<Rightarrow> nat" where
  "maximum_steps plan = max (usize_saturating_mul (card (eligible_item_ids plan)) 2) 1"

definition next_automatic_candidate ::
    "'r rng \<Rightarrow> 'r \<Rightarrow> playlist_queue \<Rightarrow> automatic_traversal_plan \<Rightarrow>
     (playlist_item_id option \<times> automatic_traversal_plan \<times> 'r) run" where
  "next_automatic_candidate R r q plan =
     (if plan_shuffle_preview plan \<noteq> None then
        (let eligible_entries = retained_entry_ids_for_items (entries q) (eligible_item_ids plan);
             canonical = filter (\<lambda>e. e \<in> eligible_entries) (iter_top_level_entry_ids (entries q))
         in automatic_shuffle_loop R q canonical (maximum_steps plan) plan r)
      else
        (let (found, plan') =
           automatic_canonical_loop q (drop (canonical_cursor plan) (canonical_candidates plan)) plan
         in Some (found, plan', r)))"

definition begin_automatic_traversal ::
    "'r rng \<Rightarrow> 'r \<Rightarrow> playlist_queue \<Rightarrow> repeat_mode \<Rightarrow> bool \<Rightarrow> (automatic_traversal_start \<times> 'r) run" where
  "begin_automatic_traversal R r q mode current_already_failed =
     (if entries q = [] then Some (automatic_traversal_start.Stop automatic_stop_reason.EmptyQueue, r)
      else case traversal_current q of
        None \<Rightarrow> Some (automatic_traversal_start.Stop CurrentItemAbsent, r)
      | Some current \<Rightarrow>
      if mode = RepeatOne then
        Some (if current_already_failed then automatic_traversal_start.Stop (EndOfQueue current)
              else automatic_traversal_start.ReplayCurrent current, r)
      else case automatic_canonical_candidates q current mode of
        None \<Rightarrow> None
      | Some candidates \<Rightarrow>
     (let plan =
        \<lparr>plan_expected_revision = revision_snapshot q, plan_repeat_mode = mode,
         eligible_item_ids = set (iter_playable_ids (entries q)),
         attempted_item_ids = (if current_already_failed then {current} else {}),
         canonical_candidates = candidates, canonical_cursor = 0,
         plan_shuffle_preview = map_option preview_new (shuffle_traversal q),
         target_item_id = current\<rparr>
      in map_option
           (\<lambda>(found, plan', r').
              (case found of
                 Some i \<Rightarrow> automatic_traversal_start.OpenItem i (plan'\<lparr>target_item_id := i\<rparr>)
               | None \<Rightarrow> automatic_traversal_start.Stop (EndOfQueue current), r'))
           (next_automatic_candidate R r q plan)))"

definition advance_automatic_traversal_after_failure ::
    "'r rng \<Rightarrow> 'r \<Rightarrow> playlist_queue \<Rightarrow> automatic_traversal_plan \<Rightarrow>
     (automatic_traversal_advance \<times> 'r) run" where
  "advance_automatic_traversal_after_failure R r q plan =
     (let plan' = plan\<lparr>attempted_item_ids := insert (target_item_id plan) (attempted_item_ids plan),
                       plan_expected_revision := revision_snapshot q\<rparr>
      in map_option
           (\<lambda>(found, plan'', r').
              (case found of
                 Some i \<Rightarrow> automatic_traversal_advance.OpenItem i (plan''\<lparr>target_item_id := i\<rparr>)
               | None \<Rightarrow> AllFailed (card (attempted_item_ids plan'')), r'))
           (next_automatic_candidate R r q plan'))"

definition revalidate_automatic_traversal ::
    "'r rng \<Rightarrow> 'r \<Rightarrow> playlist_queue \<Rightarrow> automatic_traversal_plan \<Rightarrow>
     (automatic_traversal_advance \<times> 'r) run" where
  "revalidate_automatic_traversal R r q plan =
     (let plan' = plan\<lparr>plan_expected_revision := revision_snapshot q\<rparr>
      in if automatic_candidate_is_available q plan' (target_item_id plan')
         then Some (automatic_traversal_advance.OpenItem (target_item_id plan') plan', r)
         else advance_automatic_traversal_after_failure R r q plan')"

definition prepare_automatic_traversal ::
    "playlist_queue \<Rightarrow> automatic_traversal_plan \<Rightarrow> nat \<Rightarrow>
     ((prepare_automatic_traversal_failure + prepared_automatic_traversal_token) \<times> playlist_queue) run" where
  "prepare_automatic_traversal q plan address =
     (let plan' = plan\<lparr>plan_expected_revision := revision_snapshot q\<rparr>
      in map_option
           (\<lambda>(res, q').
              (case res of
                 Inr t \<Rightarrow> Inr \<lparr>token_plan = plan', plan_reservation_token = t\<rparr>
               | Inl e \<Rightarrow> Inl \<lparr>failure_plan = plan', plan_failure_reason = e\<rparr>, q'))
           (prepare_reserved_mutation q (plan_expected_revision plan')
              (SelectCommitted (target_item_id plan)) address))"

definition abort_automatic_traversal ::
    "playlist_queue \<Rightarrow> prepared_automatic_traversal_token \<Rightarrow>
     (automatic_traversal_plan \<times> playlist_queue) run" where
  "abort_automatic_traversal q tok =
     map_option (\<lambda>q'. (token_plan tok, q')) (abort_reserved q (plan_reservation_token tok))"

definition commit_automatic_traversal ::
    "'r rng \<Rightarrow> 'r \<Rightarrow> playlist_queue \<Rightarrow> prepared_automatic_traversal_token \<Rightarrow>
     (playlist_item_id \<times> playlist_queue \<times> 'r) run" where
  "commit_automatic_traversal R r q tok =
     (let plan = token_plan tok
      in case commit_reserved R r q (plan_reservation_token tok) of
           None \<Rightarrow> None
         | Some (out, q', r') \<Rightarrow>
             if commit_traversal_current out \<noteq> target_item_id plan then None
             else (case plan_shuffle_preview plan of
                     None \<Rightarrow> Some (commit_traversal_current out, q', r')
                   | Some sp \<Rightarrow>
                       (let kept_items =
                              set (filter (\<lambda>i. i \<in> eligible_item_ids plan) (iter_playable_ids (entries q')));
                            kept_entries = retained_entry_ids_for_items (entries q') kept_items;
                            sp' = retain_automatic_snapshot sp kept_items kept_entries
                        in if shuffle_traversal q' = None then None
                           else map_option
                                  (\<lambda>t. (commit_traversal_current out,
                                         q'\<lparr>shuffle_traversal := Some t\<rparr>, r'))
                                  (commit_into sp' (target_item_id plan)))))"

section \<open>Plans\<close>

text \<open>
  The invariant of a plan does not mention a queue: a plan stays usable whatever happens to the
  queue. Its shuffle cursor is well-formed over all identities and points at the target.
\<close>

definition plan_base :: "automatic_traversal_plan \<Rightarrow> bool" where
  "plan_base plan \<longleftrightarrow>
     finite (eligible_item_ids plan) \<and> finite (attempted_item_ids plan)
     \<and> (\<forall>sp. plan_shuffle_preview plan = Some sp \<longrightarrow> sp_base UNIV UNIV sp)"

definition plan_wf :: "automatic_traversal_plan \<Rightarrow> bool" where
  "plan_wf plan \<longleftrightarrow>
     plan_base plan \<and> target_item_id plan \<in> eligible_item_ids plan
     \<and> target_item_id plan \<notin> attempted_item_ids plan
     \<and> (\<forall>sp. plan_shuffle_preview plan = Some sp \<longrightarrow> latest_ok sp (target_item_id plan))"

text \<open>How a search changes a plan: the fixed membership stays, attempts accumulate.\<close>

definition plan_grows :: "automatic_traversal_plan \<Rightarrow> automatic_traversal_plan \<Rightarrow> bool" where
  "plan_grows plan plan' \<longleftrightarrow>
     eligible_item_ids plan' = eligible_item_ids plan \<and> plan_repeat_mode plan' = plan_repeat_mode plan
     \<and> attempted_item_ids plan \<subseteq> attempted_item_ids plan'
     \<and> canonical_candidates plan' = canonical_candidates plan
     \<and> (plan_shuffle_preview plan' = None \<longleftrightarrow> plan_shuffle_preview plan = None)"

lemma plan_grows_refl: "plan_grows plan plan"
  by (simp add: plan_grows_def)

lemma plan_grows_trans: "plan_grows p1 p2 \<Longrightarrow> plan_grows p2 p3 \<Longrightarrow> plan_grows p1 p3"
  by (auto simp: plan_grows_def)

text \<open>What a search returns.\<close>

definition search_ok ::
    "playlist_queue \<Rightarrow> automatic_traversal_plan \<Rightarrow> playlist_item_id option \<Rightarrow>
     automatic_traversal_plan \<Rightarrow> bool" where
  "search_ok q plan found plan' \<longleftrightarrow>
     plan_base plan' \<and> plan_grows plan plan'
     \<and> (\<forall>i. found = Some i \<longrightarrow> automatic_candidate_is_available q plan' i
          \<and> plan_wf (plan'\<lparr>target_item_id := i\<rparr>))"

lemma search_ok_step:
  assumes "plan_grows plan p1" and "search_ok q p1 found plan'"
  shows "search_ok q plan found plan'"
  using assms plan_grows_trans unfolding search_ok_def by blast

lemma automatic_shuffle_loop_ok:
  assumes rng: "rng_ok R" and canonical: "distinct canonical"
  shows "plan_base plan \<Longrightarrow> plan_shuffle_preview plan \<noteq> None \<Longrightarrow>
    \<exists>found plan' r'. automatic_shuffle_loop R q canonical n plan r = Some (found, plan', r')
      \<and> search_ok q plan found plan'"
proof (induction n arbitrary: plan r)
  case 0
  then show ?case by (simp add: search_ok_def plan_grows_refl)
next
  case (Suc n)
  obtain sp where sp: "plan_shuffle_preview plan = Some sp" using Suc.prems(2) by blast
  obtain step sp' r' where step: "step_next R r sp (plan_repeat_mode plan) (entries q) canonical
      (traversal_current q) = (step, sp', r')" by (metis prod_cases3)
  have base: "sp_base UNIV UNIV sp" using Suc.prems(1) sp by (simp add: plan_base_def)
  note wf = step_next_wf [OF rng canonical subset_UNIV subset_UNIV base step]
  define p1 where "p1 = plan\<lparr>plan_shuffle_preview := Some sp'\<rparr>"
  have run: "automatic_shuffle_loop R q canonical (Suc n) plan r = (case step of
           StepTarget i \<Rightarrow>
             if automatic_candidate_is_available q p1 i then Some (Some i, p1, r')
             else
               (let p2 = p1\<lparr>attempted_item_ids := insert i (attempted_item_ids p1)\<rparr>
                in if card (attempted_item_ids p2) = card (eligible_item_ids p2)
                   then Some (None, p2, r')
                   else automatic_shuffle_loop R q canonical n p2 r')
         | _ \<Rightarrow> automatic_shuffle_loop R q canonical n p1 r')"
    by (cases step) (simp_all add: sp preview_step_def step p1_def Let_def)
  have p1: "plan_base p1" "plan_grows plan p1" "plan_shuffle_preview p1 \<noteq> None"
    using Suc.prems wf by (auto simp: p1_def plan_base_def plan_grows_def)
  have again: "\<exists>found plan' r''. automatic_shuffle_loop R q canonical n p1 r' = Some (found, plan', r'')
      \<and> search_ok q plan found plan'"
    using Suc.IH [OF p1(1,3)] search_ok_step [OF p1(2)] by blast
  show ?case
  proof (cases step)
    case (StepTarget i)
    define p2 where "p2 = p1\<lparr>attempted_item_ids := insert i (attempted_item_ids p1)\<rparr>"
    have p2: "plan_base p2" "plan_grows plan p2" "plan_shuffle_preview p2 \<noteq> None"
      using p1 by (auto simp: p2_def plan_base_def plan_grows_def)
    have found: "search_ok q plan (Some i) p1" if "automatic_candidate_is_available q p1 i"
      using that p1 wf StepTarget
      by (auto simp: search_ok_def plan_wf_def automatic_candidate_is_available_def plan_base_def p1_def)
    have stop: "search_ok q plan None p2" using p2 by (simp add: search_ok_def)
    have rest: "\<exists>found plan' r''. automatic_shuffle_loop R q canonical n p2 r' = Some (found, plan', r'')
        \<and> search_ok q plan found plan'"
      using Suc.IH [OF p2(1,3)] search_ok_step [OF p2(2)] by blast
    have eq: "automatic_shuffle_loop R q canonical (Suc n) plan r =
        (if automatic_candidate_is_available q p1 i then Some (Some i, p1, r')
         else if card (attempted_item_ids p2) = card (eligible_item_ids p2) then Some (None, p2, r')
         else automatic_shuffle_loop R q canonical n p2 r')"
      unfolding run StepTarget by (simp add: Let_def p2_def)
    show ?thesis unfolding eq using found stop rest
      by (cases "automatic_candidate_is_available q p1 i";
          cases "card (attempted_item_ids p2) = card (eligible_item_ids p2)") simp_all
  qed (use run again in simp_all)
qed

lemma automatic_canonical_loop_ok:
  assumes "automatic_canonical_loop q rest plan = (found, plan')" and "plan_base plan"
    and "plan_shuffle_preview plan = None" and "rest = drop (canonical_cursor plan) (canonical_candidates plan)"
  shows "search_ok q plan found plan'
    \<and> set rest \<subseteq> attempted_item_ids plan' \<union> set (drop (canonical_cursor plan') (canonical_candidates plan'))
        \<union> set_option found
    \<and> (found = None \<longrightarrow> set rest \<subseteq> attempted_item_ids plan')"
  using assms
proof (induction q rest plan rule: automatic_canonical_loop.induct)
  case (1 q plan)
  then show ?case by (auto simp: search_ok_def plan_grows_refl)
next
  case (2 q i rest plan)
  define p1 where "p1 = plan\<lparr>canonical_cursor := canonical_cursor plan + 1\<rparr>"
  have rest: "rest = drop (canonical_cursor p1) (canonical_candidates p1)"
    using 2(5) by (simp add: p1_def) (metis drop_Suc drop_tl list.sel(3))
  show ?case
  proof (cases "automatic_candidate_is_available q p1 i")
    case True
    then have "found = Some i" "plan' = p1" using 2(2) by (simp_all add: p1_def Let_def)
    then show ?thesis using True rest 2(3,4)
      by (auto simp: search_ok_def plan_wf_def plan_base_def plan_grows_def p1_def
          automatic_candidate_is_available_def)
  next
    case False
    define p2 where "p2 = p1\<lparr>attempted_item_ids := insert i (attempted_item_ids p1)\<rparr>"
    have run: "automatic_canonical_loop q rest p2 = (found, plan')"
      using 2(2) False by (simp add: p1_def p2_def Let_def)
    have p2: "plan_base p2" "plan_shuffle_preview p2 = None" "plan_grows plan p2"
      "rest = drop (canonical_cursor p2) (canonical_candidates p2)"
      using 2(3,4) rest by (auto simp: p2_def p1_def plan_base_def plan_grows_def)
    have IH: "search_ok q p2 found plan'
      \<and> set rest \<subseteq> attempted_item_ids plan' \<union> set (drop (canonical_cursor plan') (canonical_candidates plan'))
        \<union> set_option found
      \<and> (found = None \<longrightarrow> set rest \<subseteq> attempted_item_ids plan')"
      using 2(1) [OF p1_def False, folded p2_def, OF run p2(1,2,4)] .
    have "i \<in> attempted_item_ids plan'"
      using IH by (auto simp: search_ok_def plan_grows_def p2_def)
    then show ?thesis using IH search_ok_step [OF p2(3)] by auto
  qed
qed

lemma next_automatic_candidate_ok:
  assumes rng: "rng_ok R" and inv: "queue_inv q" and base: "plan_base plan"
  shows "\<exists>found plan' r'. next_automatic_candidate R r q plan = Some (found, plan', r')
    \<and> search_ok q plan found plan'"
proof (cases "plan_shuffle_preview plan")
  case None
  obtain found plan' where run: "automatic_canonical_loop q (drop (canonical_cursor plan) (canonical_candidates plan)) plan
      = (found, plan')" by fastforce
  then show ?thesis using automatic_canonical_loop_ok [OF run base None refl] None
    by (simp add: next_automatic_candidate_def)
next
  case (Some sp)
  have d: "distinct (filter (\<lambda>e. e \<in> retained_entry_ids_for_items (entries q) (eligible_item_ids plan))
      (iter_top_level_entry_ids (entries q)))"
    using queue_inv_distinct [OF inv] by simp
  show ?thesis using automatic_shuffle_loop_ok [OF rng d base] Some
    by (simp add: next_automatic_candidate_def Let_def)
qed


text \<open>Without shuffle and under \<open>RepeatQueue\<close> the candidates cover the membership: every eligible
  item is attempted, the target, or still ahead of the cursor.\<close>

definition plan_covers :: "automatic_traversal_plan \<Rightarrow> playlist_item_id set \<Rightarrow> bool" where
  "plan_covers plan extra \<longleftrightarrow>
     (plan_shuffle_preview plan = None \<longrightarrow> plan_repeat_mode plan = RepeatQueue \<longrightarrow>
        eligible_item_ids plan \<subseteq> attempted_item_ids plan \<union> extra
          \<union> set (drop (canonical_cursor plan) (canonical_candidates plan)))"

lemma next_automatic_candidate_covers:
  assumes run: "next_automatic_candidate R r q plan = Some (found, plan', r')"
    and base: "plan_base plan" and cover: "plan_covers plan {}"
    and linear: "plan_shuffle_preview plan = None" "plan_repeat_mode plan = RepeatQueue"
  shows "plan_covers plan' (set_option found)"
    and "found = None \<Longrightarrow> eligible_item_ids plan \<subseteq> attempted_item_ids plan'"
proof -
  let ?rest = "drop (canonical_cursor plan) (canonical_candidates plan)"
  have loop: "automatic_canonical_loop q ?rest plan = (found, plan')"
    using run linear by (auto simp: next_automatic_candidate_def split: prod.splits)
  note ok = automatic_canonical_loop_ok [OF loop base linear(1) refl]
  have sub: "eligible_item_ids plan \<subseteq> attempted_item_ids plan \<union> set ?rest"
    using cover linear by (simp add: plan_covers_def)
  have same: "eligible_item_ids plan' = eligible_item_ids plan" "attempted_item_ids plan \<subseteq> attempted_item_ids plan'"
    using ok by (auto simp: search_ok_def plan_grows_def)
  show "plan_covers plan' (set_option found)" using ok sub same unfolding plan_covers_def by blast
  show "found = None \<Longrightarrow> eligible_item_ids plan \<subseteq> attempted_item_ids plan'" using ok sub same by blast
qed

lemma automatic_canonical_candidates_ok:
  assumes "c \<in> set (iter_playable_ids (entries q))"
  shows "\<exists>cs. automatic_canonical_candidates q c mode = Some cs \<and> set cs \<subseteq> set (iter_playable_ids (entries q))
    \<and> (mode = RepeatQueue \<longrightarrow> set cs = set (iter_playable_ids (entries q)))"
proof -
  obtain n where n: "position (\<lambda>i. i = c) (iter_playable_ids (entries q)) = Some n"
    using assms position_Some_iff_ex [of "\<lambda>i. i = c" "iter_playable_ids (entries q)"] by blast
  let ?ids = "iter_playable_ids (entries q)"
  have "set (drop (Suc n) ?ids) \<union> set (take (Suc n) ?ids) = set ?ids"
    using set_append [of "take (Suc n) ?ids" "drop (Suc n) ?ids"] by (simp add: Un_commute)
  then show ?thesis using n set_drop_subset [of "Suc n" ?ids]
    by (auto simp: automatic_canonical_candidates_def Let_def dest: in_set_takeD)
qed

lemma begin_automatic_traversal_ok:
  assumes rng: "rng_ok R" and inv: "queue_inv q"
  shows "\<exists>out r'. begin_automatic_traversal R r q mode failed = Some (out, r')
    \<and> (case out of
         automatic_traversal_start.OpenItem i plan \<Rightarrow> plan_wf plan \<and> plan_covers plan {i} \<and> target_item_id plan = i
           \<and> i \<in> set (iter_playable_ids (entries q)) \<and> eligible_item_ids plan = set (iter_playable_ids (entries q))
           \<and> (failed \<longrightarrow> traversal_current q \<noteq> Some i) \<and> plan_repeat_mode plan = mode
           \<and> (plan_shuffle_preview plan = None \<longleftrightarrow> shuffle_traversal q = None)
       | automatic_traversal_start.ReplayCurrent i \<Rightarrow> mode = RepeatOne \<and> \<not> failed \<and> traversal_current q = Some i
       | automatic_traversal_start.Stop automatic_stop_reason.EmptyQueue \<Rightarrow> entries q = []
       | automatic_traversal_start.Stop CurrentItemAbsent \<Rightarrow> traversal_current q = None
       | automatic_traversal_start.Stop (EndOfQueue i) \<Rightarrow> traversal_current q = Some i)"
proof (cases "entries q = [] \<or> traversal_current q = None \<or> mode = RepeatOne")
  case True
  then show ?thesis by (auto simp: begin_automatic_traversal_def split: option.splits)
next
  case False
  then obtain c where c: "traversal_current q = Some c" and ne: "entries q \<noteq> []" and m: "mode \<noteq> RepeatOne"
    by auto
  have mem: "c \<in> set (iter_playable_ids (entries q))" using inv c by (simp add: queue_inv_def)
  obtain cs where cs: "automatic_canonical_candidates q c mode = Some cs"
      "mode = RepeatQueue \<Longrightarrow> set cs = set (iter_playable_ids (entries q))"
    using automatic_canonical_candidates_ok [OF mem] by blast
  define plan where "plan = \<lparr>plan_expected_revision = revision_snapshot q, plan_repeat_mode = mode,
         eligible_item_ids = set (iter_playable_ids (entries q)),
         attempted_item_ids = (if failed then {c} else {}),
         canonical_candidates = cs, canonical_cursor = 0,
         plan_shuffle_preview = map_option preview_new (shuffle_traversal q),
         target_item_id = c\<rparr>"
  have wf: "sp_wf (set (iter_playable_ids (entries q))) (set (iter_top_level_entry_ids (entries q))) (preview_new t)"
    if "shuffle_traversal q = Some t" for t using new_preview_wf [OF inv that] .
  have base: "plan_base plan"
    using wf sp_base_mono by (auto simp: plan_base_def plan_def sp_wf_def)
  have cover: "plan_covers plan {}" using cs(2) by (auto simp: plan_covers_def plan_def)
  obtain found plan' r' where run: "next_automatic_candidate R r q plan = Some (found, plan', r')"
    and ok: "search_ok q plan found plan'"
    using next_automatic_candidate_ok [OF rng inv base] by blast
  have start: "begin_automatic_traversal R r q mode failed
      = Some (case found of Some i \<Rightarrow> automatic_traversal_start.OpenItem i (plan'\<lparr>target_item_id := i\<rparr>)
               | None \<Rightarrow> automatic_traversal_start.Stop (EndOfQueue c), r')"
    using c ne m cs(1) run by (simp add: begin_automatic_traversal_def plan_def)
  show ?thesis
  proof (cases found)
    case None
    then show ?thesis using start c by simp
  next
    case (Some i)
    have "plan_covers (plan'\<lparr>target_item_id := i\<rparr>) {i}"
    proof (cases "plan_shuffle_preview plan = None \<and> mode = RepeatQueue")
      case True
      then have linear: "plan_shuffle_preview plan = None" "plan_repeat_mode plan = RepeatQueue"
        by (simp_all add: plan_def)
      show ?thesis using next_automatic_candidate_covers(1) [OF run base cover linear] Some
        by (simp add: plan_covers_def)
    next
      case False
      then show ?thesis using ok by (auto simp: plan_covers_def search_ok_def plan_grows_def plan_def)
    qed
    moreover have "i \<in> set (iter_playable_ids (entries q))" "failed \<Longrightarrow> i \<noteq> c"
      using ok Some item_lookup_None [of "entries q" i]
      by (auto simp: search_ok_def automatic_candidate_is_available_def plan_grows_def plan_def)
    ultimately show ?thesis using start ok Some c
      by (auto simp: search_ok_def plan_grows_def plan_def)
  qed
qed

text \<open>One failure: the chain goes on with an item it has not tried, and the number of untried items
  drops, so a chain over \<open>n\<close> items has at most \<open>n\<close> targets.\<close>

definition untried :: "automatic_traversal_plan \<Rightarrow> nat" where
  "untried plan = card (eligible_item_ids plan - attempted_item_ids plan)"

lemma advance_automatic_traversal_ok:
  assumes rng: "rng_ok R" and inv: "queue_inv q" and wf: "plan_wf plan"
  shows "\<exists>out r'. advance_automatic_traversal_after_failure R r q plan = Some (out, r')
    \<and> (case out of
         automatic_traversal_advance.OpenItem i plan' \<Rightarrow> plan_wf plan' \<and> target_item_id plan' = i
           \<and> i \<in> set (iter_playable_ids (entries q)) \<and> i \<in> eligible_item_ids plan
           \<and> i \<notin> insert (target_item_id plan) (attempted_item_ids plan)
           \<and> insert (target_item_id plan) (attempted_item_ids plan) \<subseteq> attempted_item_ids plan'
           \<and> eligible_item_ids plan' = eligible_item_ids plan \<and> untried plan' < untried plan
           \<and> plan_repeat_mode plan' = plan_repeat_mode plan
           \<and> (plan_shuffle_preview plan' = None \<longleftrightarrow> plan_shuffle_preview plan = None)
           \<and> (plan_covers plan {target_item_id plan} \<longrightarrow> plan_covers plan' {i})
       | AllFailed n \<Rightarrow>
           plan_covers plan {target_item_id plan} \<longrightarrow> plan_shuffle_preview plan = None \<longrightarrow>
           plan_repeat_mode plan = RepeatQueue \<longrightarrow> card (eligible_item_ids plan) \<le> n)"
proof -
  define p0 where "p0 = plan\<lparr>attempted_item_ids := insert (target_item_id plan) (attempted_item_ids plan),
                       plan_expected_revision := revision_snapshot q\<rparr>"
  have base: "plan_base p0" using wf by (simp add: plan_wf_def plan_base_def p0_def)
  have cover: "plan_covers plan {target_item_id plan} \<Longrightarrow> plan_covers p0 {}"
    by (auto simp: plan_covers_def p0_def)
  obtain found plan' r' where run: "next_automatic_candidate R r q p0 = Some (found, plan', r')"
    and ok: "search_ok q p0 found plan'"
    using next_automatic_candidate_ok [OF rng inv base] by blast
  have eq: "advance_automatic_traversal_after_failure R r q plan
      = Some (case found of Some i \<Rightarrow> automatic_traversal_advance.OpenItem i (plan'\<lparr>target_item_id := i\<rparr>)
               | None \<Rightarrow> AllFailed (card (attempted_item_ids plan')), r')"
    using run by (simp add: advance_automatic_traversal_after_failure_def p0_def)
  have fin: "finite (eligible_item_ids plan)" "finite (attempted_item_ids plan')"
    using wf ok by (simp_all add: plan_wf_def plan_base_def search_ok_def)
  show ?thesis
  proof (cases found)
    case None
    have "card (eligible_item_ids plan) \<le> card (attempted_item_ids plan')"
      if "plan_covers plan {target_item_id plan}" "plan_shuffle_preview plan = None" "plan_repeat_mode plan = RepeatQueue"
      using next_automatic_candidate_covers(2) [OF run base cover [OF that(1)]] that(2,3) None fin
      by (simp add: p0_def card_mono)
    then show ?thesis using eq None by simp
  next
    case (Some i)
    have grows: "eligible_item_ids plan' = eligible_item_ids plan"
      "insert (target_item_id plan) (attempted_item_ids plan) \<subseteq> attempted_item_ids plan'"
      "plan_shuffle_preview plan' = None \<longleftrightarrow> plan_shuffle_preview plan = None"
      "plan_repeat_mode plan' = plan_repeat_mode plan"
      using ok by (auto simp: search_ok_def plan_grows_def p0_def)
    have avail: "i \<in> eligible_item_ids plan" "i \<notin> attempted_item_ids plan'" "i \<in> set (iter_playable_ids (entries q))"
      using ok Some grows item_lookup_None [of "entries q" i]
      by (auto simp: search_ok_def automatic_candidate_is_available_def)
    have "eligible_item_ids plan - attempted_item_ids plan' \<subset> eligible_item_ids plan - attempted_item_ids plan"
      using wf grows(2) by (auto simp: plan_wf_def)
    then have less: "untried (plan'\<lparr>target_item_id := i\<rparr>) < untried plan"
      using fin grows(1) by (simp add: untried_def psubset_card_mono)
    have covers: "plan_covers (plan'\<lparr>target_item_id := i\<rparr>) {i}" if "plan_covers plan {target_item_id plan}"
      using next_automatic_candidate_covers(1) [OF run base cover [OF that]] Some grows
      by (simp add: plan_covers_def p0_def)
    show ?thesis using eq Some ok grows avail less covers by (auto simp: search_ok_def)
  qed
qed


text \<open>One failed candidate: the plan a client holds after it, on whatever queue it asks.\<close>

definition fails_to :: "'r rng \<Rightarrow> automatic_traversal_plan \<Rightarrow> automatic_traversal_plan \<Rightarrow> bool" where
  "fails_to R plan plan' \<longleftrightarrow>
     plan_wf plan \<and> (\<exists>q r i r'. queue_inv q
       \<and> advance_automatic_traversal_after_failure R r q plan = Some (automatic_traversal_advance.OpenItem i plan', r'))"

lemma fails_to_ok:
  assumes "rng_ok R" and "fails_to R plan plan'"
  shows "plan_wf plan'" "eligible_item_ids plan' = eligible_item_ids plan" "untried plan' < untried plan"
    "plan_repeat_mode plan' = plan_repeat_mode plan"
    "plan_shuffle_preview plan' = None \<longleftrightarrow> plan_shuffle_preview plan = None"
    "plan_covers plan {target_item_id plan} \<Longrightarrow> plan_covers plan' {target_item_id plan'}"
proof -
  obtain q r i r' where q: "queue_inv q" "plan_wf plan"
    and run: "advance_automatic_traversal_after_failure R r q plan = Some (automatic_traversal_advance.OpenItem i plan', r')"
    using assms(2) by (auto simp: fails_to_def)
  note ok = advance_automatic_traversal_ok [OF assms(1) q, of r]
  show "plan_wf plan'" "eligible_item_ids plan' = eligible_item_ids plan" "untried plan' < untried plan"
    "plan_repeat_mode plan' = plan_repeat_mode plan"
    "plan_shuffle_preview plan' = None \<longleftrightarrow> plan_shuffle_preview plan = None"
    "plan_covers plan {target_item_id plan} \<Longrightarrow> plan_covers plan' {target_item_id plan'}"
    using ok unfolding run by auto
qed

lemma plan_wf_revision [simp]: "plan_wf (plan\<lparr>plan_expected_revision := v\<rparr>) \<longleftrightarrow> plan_wf plan"
  by (simp add: plan_wf_def plan_base_def)

lemma revalidate_automatic_traversal_ok:
  assumes rng: "rng_ok R" and inv: "queue_inv q" and wf: "plan_wf plan"
  shows "\<exists>out r'. revalidate_automatic_traversal R r q plan = Some (out, r')
    \<and> (\<forall>i plan'. out = automatic_traversal_advance.OpenItem i plan' \<longrightarrow> plan_wf plan' \<and> target_item_id plan' = i
         \<and> i \<in> set (iter_playable_ids (entries q)) \<and> eligible_item_ids plan' = eligible_item_ids plan
         \<and> (target_item_id plan \<in> set (iter_playable_ids (entries q)) \<longrightarrow> i = target_item_id plan))"
proof -
  define p0 where "p0 = plan\<lparr>plan_expected_revision := revision_snapshot q\<rparr>"
  have wf0: "plan_wf p0" using wf by (simp add: p0_def)
  show ?thesis
  proof (cases "item_lookup (entries q) (target_item_id plan)")
    case None
    then have "\<not> automatic_candidate_is_available q p0 (target_item_id p0)"
      and "target_item_id plan \<notin> set (iter_playable_ids (entries q))"
      by (simp_all add: automatic_candidate_is_available_def p0_def item_lookup_None)
    moreover have "\<exists>out r'. advance_automatic_traversal_after_failure R r q p0 = Some (out, r')
      \<and> (\<forall>i plan'. out = automatic_traversal_advance.OpenItem i plan' \<longrightarrow> plan_wf plan' \<and> target_item_id plan' = i
         \<and> i \<in> set (iter_playable_ids (entries q)) \<and> eligible_item_ids plan' = eligible_item_ids p0)"
      using advance_automatic_traversal_ok [OF rng inv wf0, of r]
      apply (elim exE conjE)
      subgoal for out r' by (cases out) auto
      done
    ultimately show ?thesis by (auto simp: revalidate_automatic_traversal_def p0_def)
  next
    case (Some it)
    then have "automatic_candidate_is_available q p0 (target_item_id p0)"
      using wf0 by (simp add: automatic_candidate_is_available_def p0_def plan_wf_def)
    then show ?thesis using wf0 Some item_lookup_None [of "entries q" "target_item_id plan"]
      by (auto simp: revalidate_automatic_traversal_def p0_def)
  qed
qed

section \<open>Prepared automatic traversal\<close>

definition automatic_token_ok :: "playlist_queue \<Rightarrow> prepared_automatic_traversal_token \<Rightarrow> bool" where
  "automatic_token_ok q tok \<longleftrightarrow>
     active_reservation q = Some (token_key (plan_reservation_token tok))
     \<and> prepared_for q (token_mutation (plan_reservation_token tok))
     \<and> (\<exists>v. token_mutation (plan_reservation_token tok) = PreparedSelect (target_item_id (token_plan tok)) v)
     \<and> plan_wf (token_plan tok)"

lemma prepare_automatic_traversal_ok:
  assumes inv: "queue_inv q" and wf: "plan_wf plan" and key: "address \<noteq> 0"
  shows "\<exists>res q'. prepare_automatic_traversal q plan address = Some (res, q')
    \<and> (case res of
         Inl f \<Rightarrow> q' = q \<and> plan_wf (failure_plan f) \<and> target_item_id (failure_plan f) = target_item_id plan
       | Inr tok \<Rightarrow> active_reservation q = None \<and> q' = q\<lparr>active_reservation := Some address\<rparr>
           \<and> automatic_token_ok q' tok \<and> target_item_id (token_plan tok) = target_item_id plan
           \<and> plan_shuffle_preview (token_plan tok) = plan_shuffle_preview plan)"
proof -
  obtain res q' where run: "prepare_reserved_mutation q (revision_snapshot q)
      (SelectCommitted (target_item_id plan)) address = Some (res, q')"
    and err: "\<And>e. res = Inl e \<Longrightarrow> q' = q"
    and ok: "\<And>t. res = Inr t \<Longrightarrow> active_reservation q = None \<and> q' = q\<lparr>active_reservation := Some address\<rparr>
         \<and> token_key t = address \<and> prepared_for q (token_mutation t)"
    using prepare_reserved_ok [OF inv key] by metis
  show ?thesis
  proof (cases res)
    case (Inl e)
    then show ?thesis using run err wf by (simp add: prepare_automatic_traversal_def)
  next
    case (Inr t)
    have "automatic_token_ok (q\<lparr>active_reservation := Some address\<rparr>)
        \<lparr>token_plan = plan\<lparr>plan_expected_revision := revision_snapshot q\<rparr>, plan_reservation_token = t\<rparr>"
      using ok [OF Inr] wf prepare_reserved_select [OF run [unfolded Inr]]
      by (simp add: automatic_token_ok_def)
    then show ?thesis using run Inr ok [OF Inr] by (simp add: prepare_automatic_traversal_def)
  qed
qed

lemma abort_automatic_traversal_ok:
  assumes "queue_inv q" and "automatic_token_ok q tok"
  shows "abort_automatic_traversal q tok = Some (token_plan tok, q\<lparr>active_reservation := None\<rparr>)"
    and "plan_wf (token_plan tok)"
  using assms by (simp_all add: automatic_token_ok_def abort_automatic_traversal_def abort_reserved_def)

text \<open>The commit of a live token: with the shuffle state of the plan still in place it makes the
  target current and publishes a well-formed traversal restricted to the fixed membership. If the
  plan was made with shuffle on and shuffle has been disabled since, it panics.\<close>

lemma commit_automatic_traversal_ok:
  assumes rng: "rng_ok R" and inv: "queue_inv q" and tok: "automatic_token_ok q tok"
  shows "if plan_shuffle_preview (token_plan tok) \<noteq> None \<and> shuffle_traversal q = None
    then commit_automatic_traversal R r q tok = None
    else \<exists>q' r'. commit_automatic_traversal R r q tok = Some (target_item_id (token_plan tok), q', r')
      \<and> queue_inv q' \<and> advances q q' \<and> grown q q' \<and> active_reservation q' = None
      \<and> traversal_current q' = Some (target_item_id (token_plan tok)) \<and> entries q' = entries q"
proof -
  define plan where "plan = token_plan tok"
  define target where "target = target_item_id plan"
  have wf: "plan_wf plan" using tok by (simp add: automatic_token_ok_def plan_def)
  obtain v where sel: "token_mutation (plan_reservation_token tok) = PreparedSelect target v"
    using tok by (auto simp: automatic_token_ok_def target_def plan_def)
  have lock: "active_reservation q = Some (token_key (plan_reservation_token tok))"
    and prep: "prepared_for q (token_mutation (plan_reservation_token tok))"
    using tok by (simp_all add: automatic_token_ok_def)
  obtain out q1 r1 where run: "commit_reserved R r q (plan_reservation_token tok) = Some (out, q1, r1)"
    and inv1: "queue_inv q1" and adv: "advances q q1" and grown1: "grown q q1"
    and free: "active_reservation q1 = None" and cur: "traversal_current q1 = Some (commit_traversal_current out)"
    and sh: "shuffle_traversal q1 = None \<longleftrightarrow> shuffle_traversal q = None"
    and out: "commit_traversal_current out = target" and es: "entries q1 = entries q"
    and vis: "traversal_revision q1 = traversal_revision q \<longrightarrow> shuffle_traversal q = None"
    using commit_reserved_ok [OF rng inv lock prep, of r] unfolding sel prepared_mutation.case
    by (elim exE conjE) (rule that)
  show ?thesis
  proof (cases "plan_shuffle_preview plan")
    case None
    then show ?thesis using run inv1 adv grown1 free cur out es
      by (simp add: commit_automatic_traversal_def plan_def target_def)
  next
    case (Some sp)
    define K where "K = set (filter (\<lambda>i. i \<in> eligible_item_ids plan) (iter_playable_ids (entries q1)))"
    define F where "F = retained_entry_ids_for_items (entries q1) K"
    define sp' where "sp' = retain_automatic_snapshot sp K F"
    have eq: "commit_automatic_traversal R r q tok = (if shuffle_traversal q1 = None then None
        else map_option (\<lambda>t. (target, q1\<lparr>shuffle_traversal := Some t\<rparr>, r1)) (commit_into sp' target))"
      using run Some out
      by (simp add: commit_automatic_traversal_def plan_def target_def K_def F_def sp'_def Let_def)
    show ?thesis
    proof (cases "shuffle_traversal q = None")
      case True
      then show ?thesis using eq sh Some by (simp add: plan_def)
    next
      case on: False
      let ?I = "set (iter_playable_ids (entries q1))" and ?E = "set (iter_top_level_entry_ids (entries q1))"
      have base: "sp_base UNIV UNIV sp" and latest: "latest_ok sp target"
        using wf Some by (auto simp: plan_wf_def plan_base_def target_def)
      have "target \<in> ?I" using inv1 cur out by (simp add: queue_inv_def)
      then have kept: "target \<in> K" using wf by (simp add: K_def plan_wf_def target_def)
      have "sp_base (UNIV \<inter> K) (UNIV \<inter> F) sp'"
        unfolding sp'_def by (rule retain_automatic_snapshot_base [OF base])
      then have base': "sp_base ?I ?E sp'"
        using sp_base_mono [of "UNIV \<inter> K" "UNIV \<inter> F" sp' ?I ?E] retained_entry_ids_subset [of "entries q1" K]
        by (auto simp: K_def F_def)
      obtain t where t: "commit_into sp' target = Some t" "shuffle_wf ?I ?E (Some target) t"
        using commit_into_wf [OF base' retain_automatic_snapshot_latest [OF base latest kept, of F, folded sp'_def]]
        by blast
      have "queue_inv (q1\<lparr>shuffle_traversal := Some t\<rparr>)"
        using inv1 t(2) cur out by (simp add: queue_inv_def)
      moreover have "advances q (q1\<lparr>shuffle_traversal := Some t\<rparr>)"
        using adv vis on by (auto simp: advances_def shapes_def)
      moreover have "grown q (q1\<lparr>shuffle_traversal := Some t\<rparr>)"
        using grown1 by (simp add: grown_def)
      ultimately show ?thesis using eq t on sh free cur out es
        by (simp add: plan_def [symmetric] target_def [symmetric])
    qed
  qed
qed

end
