(* ===== verification/Queue_Restore.thy ===== *)
theory Queue_Restore
  imports Queue
begin

text \<open>
  Strict restore of a persisted queue (playlist-core \<open>queue/restore.rs\<close> and
  \<open>PlaylistQueue::restore_with_shuffle\<close>). A restore either rejects its input with a typed error or
  yields a queue that satisfies the invariant, and it accepts everything a well-formed queue can
  persist.
\<close>

section \<open>Definitions\<close>

record playlist_queue_restore =
  restored_entries :: "restored_playlist_entry list"
  restored_next_item_id :: u64
  restored_next_group_id :: u64
  restored_current :: "playlist_item_id option"

datatype queue_restore_error =
    CapacityExceeded nat nat
  | DuplicateItemId playlist_item_id
  | DuplicateCompoundGroupId playlist_compound_group_id
  | InvalidAllocator allocator_restore_error
  | InvalidCompoundGroupAllocator group_allocator_restore_error
  | CurrentItemNotCommitted playlist_item_id

datatype shuffle_queue_restore_error =
    QueueError queue_restore_error
  | TraversalError shuffle_traversal_restore_error

fun restored_count :: "nat \<Rightarrow> restored_playlist_entry list \<Rightarrow> nat option" where
  "restored_count n [] = Some n"
| "restored_count n (e # es) =
     (case usize_checked_add n (restored_retained_item_count e) of
        None \<Rightarrow> None
      | Some m \<Rightarrow> restored_count m es)"

fun restored_into_entries :: "restored_playlist_entry list \<Rightarrow> playlist_entry list run" where
  "restored_into_entries [] = Some []"
| "restored_into_entries (e # es) =
     (case restored_into_entry e of
        None \<Rightarrow> None
      | Some x \<Rightarrow> map_option (Cons x) (restored_into_entries es))"

definition restore :: "playlist_queue_restore \<Rightarrow> (queue_restore_error + playlist_queue) run" where
  "restore s =
     (case restored_count 0 (restored_entries s) of
        None \<Rightarrow> Some (Inl (queue_restore_error.CapacityExceeded usize_max MAX_PLAYLIST_ITEMS))
      | Some n \<Rightarrow>
      if n > MAX_PLAYLIST_ITEMS
      then Some (Inl (queue_restore_error.CapacityExceeded n MAX_PLAYLIST_ITEMS))
      else
     (let item_ids = concat (map restored_item_ids (restored_entries s));
          group_ids = List.map_filter restored_compound_group_id (restored_entries s)
      in case first_duplicate {} item_ids of
           Some i \<Rightarrow> Some (Inl (DuplicateItemId i))
         | None \<Rightarrow>
     (case item_allocator_restore (restored_next_item_id s) item_ids of
        Inl e \<Rightarrow> Some (Inl (InvalidAllocator e))
      | Inr items \<Rightarrow>
     (case first_duplicate {} group_ids of
        Some g \<Rightarrow> Some (Inl (DuplicateCompoundGroupId g))
      | None \<Rightarrow>
     (case group_allocator_restore (restored_next_group_id s) group_ids of
        Inl e \<Rightarrow> Some (Inl (InvalidCompoundGroupAllocator e))
      | Inr groups \<Rightarrow>
     (case (case restored_current s of Some c \<Rightarrow> c \<notin> set item_ids | None \<Rightarrow> False) of
        True \<Rightarrow> Some (Inl (CurrentItemNotCommitted (the (restored_current s))))
      | False \<Rightarrow>
          map_option
            (\<lambda>es. Inr \<lparr>entries = es, item_allocator = items, group_allocator = groups,
                       traversal_current = restored_current s, structural_revision = 0,
                       traversal_revision = 0, metadata_revision = 0,
                       active_reservation = None, shuffle_traversal = None\<rparr>)
            (restored_into_entries (restored_entries s))))))))"

definition restore_with_shuffle ::
    "playlist_queue_restore \<Rightarrow> shuffle_traversal_snapshot \<Rightarrow>
     (shuffle_queue_restore_error + playlist_queue) run" where
  "restore_with_shuffle s shuffle_s =
     (case restore s of
        None \<Rightarrow> None
      | Some (Inl e) \<Rightarrow> Some (Inl (QueueError e))
      | Some (Inr q) \<Rightarrow>
          (case shuffle_restore shuffle_s (iter_playable_ids (entries q))
                  (iter_top_level_entry_ids (entries q)) (traversal_current q)
                  (Option.bind (traversal_current q) (structural_entry_id_for_item (entries q))) of
             None \<Rightarrow> None
           | Some (Inl e) \<Rightarrow> Some (Inl (TraversalError e))
           | Some (Inr t) \<Rightarrow> Some (Inr (q\<lparr>shuffle_traversal := Some t\<rparr>))))"

text \<open>The input types only hold non-zero identities and watermarks.\<close>

definition restore_input_wf :: "playlist_queue_restore \<Rightarrow> bool" where
  "restore_input_wf s \<longleftrightarrow>
     (\<forall>e \<in> set (restored_entries s). restored_wf e)
     \<and> restored_next_item_id s \<noteq> 0 \<and> restored_next_group_id s \<noteq> 0"

section \<open>Soundness\<close>

lemma restored_count_Some:
  "restored_count n es = Some m \<Longrightarrow> m = n + sum_list (map restored_retained_item_count es)"
  by (induction n es rule: restored_count.induct) (auto split: option.splits)

lemma restored_count_exists:
  "n + sum_list (map restored_retained_item_count es) \<le> usize_max \<Longrightarrow>
   restored_count n es = Some (n + sum_list (map restored_retained_item_count es))"
  by (induction n es rule: restored_count.induct) (auto simp: usize_checked_add_def add.assoc)

lemma length_restored_item_ids: "length (restored_item_ids r) = restored_retained_item_count r"
  by (cases r) auto

lemma restored_into_entries_ex:
  assumes "\<forall>r \<in> set rs. restored_wf r" and "\<forall>r \<in> set rs. restored_retained_item_count r < 2 ^ 32"
  shows "\<exists>es. restored_into_entries rs = Some es \<and> (\<forall>e \<in> set es. entry_wf e)
    \<and> iter_playable_ids es = concat (map restored_item_ids rs)
    \<and> compound_ids es = List.map_filter restored_compound_group_id rs"
  using assms
proof (induction rs)
  case Nil
  then show ?case by (simp add: List.map_filter_simps)
next
  case (Cons r rs)
  obtain e where e: "restored_into_entry r = Some e" "entry_wf e"
    "map item_id (entry_playable_items e) = restored_item_ids r"
    "case restored_compound_group_id r of
         None \<Rightarrow> (\<exists>it. e = Single it)
       | Some g \<Rightarrow> (\<exists>grp. e = Compound grp \<and> group_id grp = g)"
    using restored_into_entry_ex [of r] Cons.prems by auto
  from Cons obtain es where "restored_into_entries rs = Some es" "\<forall>e \<in> set es. entry_wf e"
    "iter_playable_ids es = concat (map restored_item_ids rs)"
    "compound_ids es = List.map_filter restored_compound_group_id rs" by auto
  with e show ?case
    by (cases "restored_compound_group_id r") (auto simp: List.map_filter_simps simp del: entry_wf.simps)
qed

lemma restored_wf_nonzero:
  "restored_wf r \<Longrightarrow> i \<in> set (restored_item_ids r) \<Longrightarrow> item_raw i \<noteq> 0"
  "restored_wf r \<Longrightarrow> restored_compound_group_id r = Some g \<Longrightarrow> group_raw g \<noteq> 0"
  by (cases r; auto)+

lemma restore_ok:
  assumes wf: "restore_input_wf s"
  shows "\<exists>res. restore s = Some res
    \<and> (\<forall>q. res = Inr q \<longrightarrow> queue_inv q
         \<and> iter_playable_ids (entries q) = concat (map restored_item_ids (restored_entries s))
         \<and> traversal_current q = restored_current s \<and> active_reservation q = None
         \<and> next_item_id (item_allocator q) = restored_next_item_id s
         \<and> next_group_id (group_allocator q) = restored_next_group_id s)"
proof -
  let ?ids = "concat (map restored_item_ids (restored_entries s))"
  let ?gids = "List.map_filter restored_compound_group_id (restored_entries s)"
  consider (count) "restored_count 0 (restored_entries s) = None"
    | (cap) n where "restored_count 0 (restored_entries s) = Some n" "MAX_PLAYLIST_ITEMS < n"
    | (dup) n i where "restored_count 0 (restored_entries s) = Some n" "\<not> MAX_PLAYLIST_ITEMS < n"
        "first_duplicate {} ?ids = Some i"
    | (alloc) n e where "restored_count 0 (restored_entries s) = Some n" "\<not> MAX_PLAYLIST_ITEMS < n"
        "first_duplicate {} ?ids = None" "item_allocator_restore (restored_next_item_id s) ?ids = Inl e"
    | (gdup) n a g where "restored_count 0 (restored_entries s) = Some n" "\<not> MAX_PLAYLIST_ITEMS < n"
        "first_duplicate {} ?ids = None" "item_allocator_restore (restored_next_item_id s) ?ids = Inr a"
        "first_duplicate {} ?gids = Some g"
    | (galloc) n a e where "restored_count 0 (restored_entries s) = Some n" "\<not> MAX_PLAYLIST_ITEMS < n"
        "first_duplicate {} ?ids = None" "item_allocator_restore (restored_next_item_id s) ?ids = Inr a"
        "first_duplicate {} ?gids = None" "group_allocator_restore (restored_next_group_id s) ?gids = Inl e"
    | (rest) n a b where "restored_count 0 (restored_entries s) = Some n" "\<not> MAX_PLAYLIST_ITEMS < n"
        "first_duplicate {} ?ids = None" "item_allocator_restore (restored_next_item_id s) ?ids = Inr a"
        "first_duplicate {} ?gids = None" "group_allocator_restore (restored_next_group_id s) ?gids = Inr b"
    by (metis option.exhaust sum.exhaust)
  then show ?thesis
  proof cases
    case (rest n a b)
    have total: "sum_list (map restored_retained_item_count (restored_entries s)) = n"
      using restored_count_Some [OF rest(1)] by simp
    have "restored_retained_item_count r < 2 ^ 32" if "r \<in> set (restored_entries s)" for r
      using member_le_sum_list [of "restored_retained_item_count r"
          "map restored_retained_item_count (restored_entries s)"] that total rest(2)
      by (simp add: MAX_PLAYLIST_ITEMS_def)
    then obtain es where es: "restored_into_entries (restored_entries s) = Some es"
      "\<forall>e \<in> set es. entry_wf e" "iter_playable_ids es = ?ids" "compound_ids es = ?gids"
      using restored_into_entries_ex wf unfolding restore_input_wf_def by blast
    note d = restore_def [of s, unfolded Let_def] rest
    show ?thesis
    proof (cases "case restored_current s of Some c \<Rightarrow> c \<notin> set ?ids | None \<Rightarrow> False")
      case True
      then show ?thesis using d by simp
    next
      case False
      let ?q = "\<lparr>entries = es, item_allocator = a, group_allocator = b,
                       traversal_current = restored_current s, structural_revision = 0,
                       traversal_revision = 0, metadata_revision = 0,
                       active_reservation = None, shuffle_traversal = None\<rparr>"
      have run: "restore s = Some (Inr ?q)" using d es(1) False by simp
      note ia = item_allocator_restore_Inr [OF rest(4)] and ga = group_allocator_restore_Inr [OF rest(6)]
      have nz: "\<forall>i \<in> set ?ids. item_raw i \<noteq> 0"
        using wf restored_wf_nonzero(1) by (auto simp: restore_input_wf_def)
      have gnz: "\<forall>g \<in> set ?gids. group_raw g \<noteq> 0"
        using wf restored_wf_nonzero(2) by (fastforce simp: restore_input_wf_def map_filter_def)
      have "retained_item_count es = n"
        using es(3) total by (simp add: length_iter_playable_ids [symmetric] length_concat comp_def length_restored_item_ids)
      then have "queue_inv ?q"
        using es rest(2,3,5) ia ga nz gnz wf False
        by (auto simp: queue_inv_def entries_wf_def first_duplicate_None_iff items.below_def groups.below_def
            restore_input_wf_def split: option.splits)
      with run es(3) ia ga show ?thesis by simp
    qed
  qed (simp_all add: restore_def Let_def)
qed

lemma restore_with_shuffle_ok:
  assumes wf: "restore_input_wf s"
  shows "\<exists>res. restore_with_shuffle s t = Some res
    \<and> (\<forall>q. res = Inr q \<longrightarrow> queue_inv q \<and> active_reservation q = None
         \<and> map_option shuffle_snapshot (shuffle_traversal q) = Some t)"
proof -
  obtain r where r: "restore s = Some r" and ok: "\<And>q. r = Inr q \<Longrightarrow> queue_inv q \<and> active_reservation q = None"
    using restore_ok [OF wf] by blast
  show ?thesis
  proof (cases r)
    case (Inl e)
    then show ?thesis by (simp add: restore_with_shuffle_def r)
  next
    case (Inr q)
    let ?e = "Option.bind (traversal_current q) (structural_entry_id_for_item (entries q))"
    have inv: "queue_inv q" using ok Inr by simp
    have "traversal_current q = None \<or> ?e \<noteq> None"
      using inv structural_entry_id_for_item_ex [of _ "entries q"]
      by (cases "traversal_current q") (auto simp: queue_inv_def)
    from shuffle_restore_total [OF this] obtain res where
      res: "shuffle_restore t (iter_playable_ids (entries q)) (iter_top_level_entry_ids (entries q))
        (traversal_current q) ?e = Some res" by blast
    show ?thesis
    proof (cases res)
      case (Inl e)
      then show ?thesis using res by (simp add: restore_with_shuffle_def r Inr)
    next
      case inr: (Inr tr)
      note sh = shuffle_restore_Inr [OF res [unfolded inr]]
      have "queue_inv (q\<lparr>shuffle_traversal := Some tr\<rparr>)"
        using inv sh(1) by (simp add: queue_inv_def)
      with sh(2) ok Inr inr res show ?thesis by (simp add: restore_with_shuffle_def r)
    qed
  qed
qed

section \<open>Completeness\<close>

lemma max_item_id_mem: "max_item_id xs = Some m \<Longrightarrow> m \<in> set xs"
  by (induction xs arbitrary: m) (auto split: option.splits if_splits)

lemma max_group_id_mem: "max_group_id xs = Some m \<Longrightarrow> m \<in> set xs"
  by (induction xs arbitrary: m) (auto split: option.splits if_splits)

lemma item_allocator_restore_accepts:
  assumes "\<forall>i \<in> set ids. unat (item_raw i) < unat w"
  shows "item_allocator_restore w ids = Inr \<lparr>next_item_id = w\<rparr>"
proof (cases "max_item_id ids")
  case (Some m)
  with assms max_item_id_mem have "item_raw m < w" by (simp add: word_less_nat_alt)
  with Some show ?thesis by (simp add: item_allocator_restore_def not_le [symmetric])
qed (simp add: item_allocator_restore_def)

lemma group_allocator_restore_accepts:
  assumes "\<forall>g \<in> set ids. unat (group_raw g) < unat w"
  shows "group_allocator_restore w ids = Inr \<lparr>next_group_id = w\<rparr>"
proof (cases "max_group_id ids")
  case (Some m)
  with assms max_group_id_mem have "group_raw m < w" by (simp add: word_less_nat_alt)
  with Some show ?thesis by (simp add: group_allocator_restore_def not_le [symmetric])
qed (simp add: group_allocator_restore_def)

text \<open>The restore input that describes a queue: the inverse of materialisation.\<close>

definition draft_of_item :: "playlist_item \<Rightarrow> playlist_item_draft" where
  "draft_of_item it =
     \<lparr>draft_locator = locator (item_payload it), draft_fingerprint = local_fingerprint it,
      draft_metadata = cached_metadata (item_payload it),
      draft_payload = durable_payload (item_payload it)\<rparr>"

fun restored_of_entry :: "playlist_entry \<Rightarrow> restored_playlist_entry" where
  "restored_of_entry (Single it) =
     RestoredSingle \<lparr>restored_item_id = item_id it, restored_item_draft = draft_of_item it\<rparr>"
| "restored_of_entry (Compound g) =
     RestoredCompound
       \<lparr>restored_group_id = group_id g,
        restored_group_draft =
          \<lparr>gdraft_provenance_locator = provenance_locator g, gdraft_cached_summary = cached_summary g,
           gdraft_parts = map (\<lambda>p. draft_of_item (part_item p)) (group_parts g),
           gdraft_durable_payload = group_durable_payload g\<rparr>,
        restored_part_item_ids = map (\<lambda>p. item_id (part_item p)) (group_parts g)\<rparr>"

definition restore_input_of :: "playlist_queue \<Rightarrow> playlist_queue_restore" where
  "restore_input_of q =
     \<lparr>restored_entries = map restored_of_entry (entries q),
      restored_next_item_id = next_item_id (item_allocator q),
      restored_next_group_id = next_group_id (group_allocator q),
      restored_current = traversal_current q\<rparr>"

lemma into_item_draft_of_item: "into_item (draft_of_item it) (item_id it) = it"
  by (simp add: into_item_def draft_of_item_def)

lemma group_parts_from_parts:
  assumes "map part_group_id ps = replicate (length ps) g"
    and "map (\<lambda>p. unat (part_ordinal p)) ps = map Suc [k..<k + length ps]"
    and "k + length ps < 2 ^ 32"
  shows "group_parts_from g k (zip (map (\<lambda>p. draft_of_item (part_item p)) ps)
    (map (\<lambda>p. item_id (part_item p)) ps)) = Some ps"
  using assms
proof (induction ps arbitrary: k)
  case (Cons p ps)
  then have fit: "k < 2 ^ 32" "k + 1 < 2 ^ 32" by auto
  have up: "[k..<k + length (p # ps)] = k # [Suc k..<Suc k + length ps]"
    by (simp add: upt_conv_Cons del: upt_Suc)
  have ord: "unat (part_ordinal p) = Suc k" and gid: "part_group_id p = g"
    and tl: "map (\<lambda>p. unat (part_ordinal p)) ps = map Suc [Suc k..<Suc k + length ps]"
      "map part_group_id ps = replicate (length ps) g"
    using Cons.prems(1,2) unfolding up by auto
  have "of_nat (k + 1) = part_ordinal p"
    using ord by (metis Suc_eq_plus1 of_nat_unat ucast_id)
  then have "ordinal_from_zero_based k = Some (part_ordinal p)"
    using fit by (simp add: ordinal_from_zero_based_def)
  moreover have "group_parts_from g (Suc k) (zip (map (\<lambda>p. draft_of_item (part_item p)) ps)
      (map (\<lambda>p. item_id (part_item p)) ps)) = Some ps"
    using Cons.IH [OF tl(2,1)] Cons.prems(3) by simp
  ultimately show ?case using gid by (simp add: into_item_draft_of_item)
qed simp

lemma restored_of_entry_into:
  assumes "entry_wf e" and "entry_retained_item_count e < 2 ^ 32"
  shows "restored_into_entry (restored_of_entry e) = Some e"
proof (cases e)
  case (Single it)
  then show ?thesis by (simp add: into_item_draft_of_item)
next
  case (Compound g)
  with assms group_parts_from_parts [of "group_parts g" "group_id g" 0] show ?thesis
    by (simp add: group_from_draft_def)
qed

lemma restored_of_entry_facts:
  "restored_item_ids (restored_of_entry e) = map item_id (entry_playable_items e)"
  "restored_retained_item_count (restored_of_entry e) = entry_retained_item_count e"
  "restored_compound_group_id (restored_of_entry e) = map_option group_id (as_compound e)"
  by (cases e; simp)+

lemma restored_into_entries_of:
  "\<forall>e \<in> set es. entry_wf e \<and> entry_retained_item_count e < 2 ^ 32 \<Longrightarrow>
   restored_into_entries (map restored_of_entry es) = Some es"
  by (induction es) (auto simp: restored_of_entry_into simp del: entry_wf.simps)

lemma map_filter_groups:
  "List.map_filter restored_compound_group_id (map restored_of_entry es) = compound_ids es"
  by (induction es rule: compound_ids.induct) (auto simp: List.map_filter_simps)

text \<open>Every queue that satisfies the invariant is accepted, with the same rows, current and
  watermarks.\<close>

lemma restore_complete:
  assumes inv: "queue_inv q"
  shows "restore (restore_input_of q) = Some (Inr (q\<lparr>structural_revision := 0, traversal_revision := 0,
    metadata_revision := 0, active_reservation := None, shuffle_traversal := None\<rparr>))"
proof -
  let ?rs = "map restored_of_entry (entries q)"
  have ids: "concat (map restored_item_ids ?rs) = iter_playable_ids (entries q)"
    by (induction "entries q") (simp_all add: iter_playable_ids_concat comp_def restored_of_entry_facts)
  have count: "sum_list (map restored_retained_item_count ?rs) = retained_item_count (entries q)"
    by (simp add: retained_item_count_def comp_def restored_of_entry_facts)
  have cap: "retained_item_count (entries q) \<le> MAX_PLAYLIST_ITEMS"
    using inv by (simp add: queue_inv_def)
  have "restored_count 0 ?rs = Some (retained_item_count (entries q))"
    using restored_count_exists [of 0 ?rs, unfolded count] cap
    by (simp add: MAX_PLAYLIST_ITEMS_def usize_max_def)
  moreover have "entry_retained_item_count e < 2 ^ 32" if "e \<in> set (entries q)" for e
    using member_le_sum_list [of "entry_retained_item_count e" "map entry_retained_item_count (entries q)"] that cap
    by (simp add: retained_item_count_def MAX_PLAYLIST_ITEMS_def)
  then have "restored_into_entries ?rs = Some (entries q)"
    using inv by (intro restored_into_entries_of) (auto simp: queue_inv_def entries_wf_def)
  moreover have "first_duplicate {} (iter_playable_ids (entries q)) = None"
    "first_duplicate {} (compound_ids (entries q)) = None"
    using inv by (simp_all add: queue_inv_def entries_wf_def first_duplicate_None_iff)
  moreover have "item_allocator_restore (next_item_id (item_allocator q)) (iter_playable_ids (entries q)) = Inr (item_allocator q)"
    using inv item_allocator_restore_accepts by (simp add: queue_inv_def items.below_def)
  moreover have "group_allocator_restore (next_group_id (group_allocator q)) (compound_ids (entries q)) = Inr (group_allocator q)"
    using inv group_allocator_restore_accepts by (simp add: queue_inv_def groups.below_def)
  moreover have "\<not> (case traversal_current q of Some c \<Rightarrow> c \<notin> set (iter_playable_ids (entries q)) | None \<Rightarrow> False)"
    using inv by (auto simp: queue_inv_def split: option.splits)
  ultimately show ?thesis
    using cap by (simp add: restore_def restore_input_of_def ids map_filter_groups Let_def del: map_map)
qed

text \<open>The whole persisted state survives, shuffle included, as long as the current entry is not also
  upcoming.\<close>

lemma restore_with_shuffle_complete:
  assumes inv: "queue_inv q" and t: "shuffle_traversal q = Some t"
    and current: "\<And>c e. traversal_current q = Some c \<Longrightarrow> structural_entry_id_for_item (entries q) c = Some e \<Longrightarrow>
      e \<notin> set (upcoming t)"
  shows "restore_with_shuffle (restore_input_of q) (shuffle_snapshot t)
    = Some (Inr (q\<lparr>structural_revision := 0, traversal_revision := 0, metadata_revision := 0,
        active_reservation := None\<rparr>))"
proof -
  have "shuffle_restore (shuffle_snapshot t) (iter_playable_ids (entries q)) (iter_top_level_entry_ids (entries q))
      (traversal_current q) (Option.bind (traversal_current q) (structural_entry_id_for_item (entries q)))
      = Some (Inr t)"
  proof (rule shuffle_snapshot_restore)
    show "shuffle_wf (set (iter_playable_ids (entries q))) (set (iter_top_level_entry_ids (entries q))) (traversal_current q) t"
      using inv t by (simp add: queue_inv_def)
    fix c assume "traversal_current q = Some c"
    moreover from this have "c \<in> set (iter_playable_ids (entries q))" using inv by (simp add: queue_inv_def)
    ultimately show "\<exists>e. Option.bind (traversal_current q) (structural_entry_id_for_item (entries q)) = Some e
        \<and> e \<notin> set (upcoming t)"
      using structural_entry_id_for_item_ex current by fastforce
  qed
  then show ?thesis
    using t by (simp add: restore_with_shuffle_def restore_complete [OF inv])
qed

section \<open>What is accepted\<close>

lemma item_restore_iff:
  "(\<exists>a. item_allocator_restore w ids = Inr a) \<longleftrightarrow> (\<forall>i \<in> set ids. unat (item_raw i) < unat w)"
  using item_allocator_restore_accepts item_allocator_restore_Inr by blast

lemma group_restore_iff:
  "(\<exists>a. group_allocator_restore w ids = Inr a) \<longleftrightarrow> (\<forall>g \<in> set ids. unat (group_raw g) < unat w)"
  using group_allocator_restore_accepts group_allocator_restore_Inr by blast

text \<open>The checks of \<open>restore\<close>, as one condition on the input.\<close>

definition restorable :: "playlist_queue_restore \<Rightarrow> bool" where
  "restorable s \<longleftrightarrow>
     sum_list (map restored_retained_item_count (restored_entries s)) \<le> MAX_PLAYLIST_ITEMS
     \<and> distinct (concat (map restored_item_ids (restored_entries s)))
     \<and> distinct (List.map_filter restored_compound_group_id (restored_entries s))
     \<and> (\<forall>i \<in> set (concat (map restored_item_ids (restored_entries s))).
          unat (item_raw i) < unat (restored_next_item_id s))
     \<and> (\<forall>g \<in> set (List.map_filter restored_compound_group_id (restored_entries s)).
          unat (group_raw g) < unat (restored_next_group_id s))
     \<and> (\<forall>c. restored_current s = Some c \<longrightarrow> c \<in> set (concat (map restored_item_ids (restored_entries s))))"

lemma restore_accepts_restorable:
  assumes acc: "restore s = Some (Inr q)"
  shows "restorable s"
proof -
  let ?ids = "concat (map restored_item_ids (restored_entries s))"
  let ?gs = "List.map_filter restored_compound_group_id (restored_entries s)"
  obtain n where n: "restored_count 0 (restored_entries s) = Some n" "n \<le> MAX_PLAYLIST_ITEMS"
    using acc by (cases "restored_count 0 (restored_entries s)") (auto simp: restore_def split: if_splits)
  have d: "first_duplicate {} ?ids = None"
    using acc n by (cases "first_duplicate {} ?ids") (auto simp: restore_def)
  obtain a where a: "item_allocator_restore (restored_next_item_id s) ?ids = Inr a"
    using acc n d by (cases "item_allocator_restore (restored_next_item_id s) ?ids") (auto simp: restore_def)
  have e: "first_duplicate {} ?gs = None"
    using acc n d a by (cases "first_duplicate {} ?gs") (auto simp: restore_def)
  obtain b where b: "group_allocator_restore (restored_next_group_id s) ?gs = Inr b"
    using acc n d a e by (cases "group_allocator_restore (restored_next_group_id s) ?gs") (auto simp: restore_def)
  have c: "restored_current s = Some c \<Longrightarrow> c \<in> set ?ids" for c
    using acc n d a e b by (cases "c \<in> set ?ids") (simp_all add: restore_def)
  show ?thesis
    using restored_count_Some [OF n(1)] n(2) d e c item_allocator_restore_Inr [OF a] group_allocator_restore_Inr [OF b]
    unfolding restorable_def first_duplicate_None_iff by simp
qed

lemma restorable_accepted:
  assumes wf: "restore_input_wf s" and ok: "restorable s"
  shows "\<exists>q. restore s = Some (Inr q)"
proof -
  let ?ids = "concat (map restored_item_ids (restored_entries s))"
  let ?gs = "List.map_filter restored_compound_group_id (restored_entries s)"
  have n: "restored_count 0 (restored_entries s) = Some (sum_list (map restored_retained_item_count (restored_entries s)))"
    using restored_count_exists [of 0 "restored_entries s"] ok
    by (simp add: restorable_def usize_max_def MAX_PLAYLIST_ITEMS_def)
  have d: "first_duplicate {} ?ids = None" "first_duplicate {} ?gs = None"
    using ok unfolding restorable_def first_duplicate_None_iff by simp_all
  obtain a b where ab: "item_allocator_restore (restored_next_item_id s) ?ids = Inr a"
      "group_allocator_restore (restored_next_group_id s) ?gs = Inr b"
    using ok item_restore_iff group_restore_iff unfolding restorable_def by metis
  have c: "(case restored_current s of Some c \<Rightarrow> c \<notin> set ?ids | None \<Rightarrow> False) = False"
    using ok unfolding restorable_def by (cases "restored_current s") auto
  obtain res where res: "restore s = Some res" using restore_ok [OF wf] by blast
  then show ?thesis
    using n d ab c ok unfolding restore_def restorable_def
    by (cases "restored_into_entries (restored_entries s)") (auto simp: Let_def)
qed

end
