(* ===== verification/Comparator.thy ===== *)
theory Comparator
  imports Prelude
begin

text \<open>
  Rust's \<open>Ordering\<close> and comparators built from it: the interface of a total comparator, the ways
  the sort code combines comparators (reversal, \<open>then_with\<close>, lexicographic slices, inverse images),
  and a stable sort over a comparator.
\<close>

section \<open>Definitions\<close>

datatype ordering = Less | Equal | Greater

fun ordering_reverse :: "ordering \<Rightarrow> ordering" where
  "ordering_reverse Less = Greater"
| "ordering_reverse Equal = Equal"
| "ordering_reverse Greater = Less"

definition then_with :: "ordering \<Rightarrow> ordering \<Rightarrow> ordering" where
  "then_with a b = (if a = Equal then b else a)"

text \<open>\<open>Ord::cmp\<close> of a type with a linear order.\<close>

definition linear_cmp :: "'a :: linorder \<Rightarrow> 'a \<Rightarrow> ordering" where
  "linear_cmp x y = (if x < y then Less else if x = y then Equal else Greater)"

text \<open>\<open>Ord::cmp\<close> of slices, vectors and strings: lexicographic, a proper prefix is less.\<close>

fun list_cmp :: "('a \<Rightarrow> 'a \<Rightarrow> ordering) \<Rightarrow> 'a list \<Rightarrow> 'a list \<Rightarrow> ordering" where
  "list_cmp cmp [] [] = Equal"
| "list_cmp cmp [] (y # ys) = Less"
| "list_cmp cmp (x # xs) [] = Greater"
| "list_cmp cmp (x # xs) (y # ys) = then_with (cmp x y) (list_cmp cmp xs ys)"

definition lex_cmp ::
    "('a \<Rightarrow> 'a \<Rightarrow> ordering) \<Rightarrow> ('a \<Rightarrow> 'a \<Rightarrow> ordering) \<Rightarrow> 'a \<Rightarrow> 'a \<Rightarrow> ordering" where
  "lex_cmp f g x y = then_with (f x y) (g x y)"

definition string_cmp :: "string \<Rightarrow> string \<Rightarrow> ordering" where
  "string_cmp = list_cmp (\<lambda>x y. linear_cmp (of_char x :: nat) (of_char y))"

section \<open>Total comparators\<close>

lemma ordering_reverse_reverse [simp]: "ordering_reverse (ordering_reverse a) = a"
  by (cases a) auto

lemma ordering_reverse_eq [simp]:
  "ordering_reverse a = Equal \<longleftrightarrow> a = Equal"
  "ordering_reverse a = Less \<longleftrightarrow> a = Greater"
  "ordering_reverse a = Greater \<longleftrightarrow> a = Less"
  by (cases a; simp)+

lemma then_with_simps [simp]: "then_with Equal b = b" "then_with Less b = Less" "then_with Greater b = Greater"
  by (simp_all add: then_with_def)

lemma then_with_eq_Equal [simp]: "then_with a b = Equal \<longleftrightarrow> a = Equal \<and> b = Equal"
  by (auto simp: then_with_def)

lemma ordering_reverse_then_with:
  "ordering_reverse (then_with a b) = then_with (ordering_reverse a) (ordering_reverse b)"
  by (cases a) simp_all

locale total_comparator =
  fixes cmp :: "'a \<Rightarrow> 'a \<Rightarrow> ordering"
  assumes cmp_refl: "cmp x x = Equal"
    and cmp_reverse: "cmp y x = ordering_reverse (cmp x y)"
    and cmp_trans: "cmp x y \<noteq> Greater \<Longrightarrow> cmp y z \<noteq> Greater \<Longrightarrow> cmp x z \<noteq> Greater"
begin

lemma cmp_total: "cmp x y \<noteq> Greater \<or> cmp y x \<noteq> Greater"
  using cmp_reverse [of y x] by (cases "cmp x y") auto

lemma cmp_antisym: "cmp x y \<noteq> Greater \<Longrightarrow> cmp y x \<noteq> Greater \<Longrightarrow> cmp x y = Equal"
  using cmp_reverse [of y x] by (cases "cmp x y") auto

lemma cmp_equal_sym: "cmp x y = Equal \<Longrightarrow> cmp y x = Equal"
  using cmp_reverse [of y x] by simp

text \<open>Equal elements are interchangeable.\<close>

lemma cmp_equal_left:
  assumes "cmp x y = Equal"
  shows "cmp x z = cmp y z"
proof -
  have yx: "cmp y x = Equal" using cmp_equal_sym assms by blast
  have "cmp x z \<noteq> Greater \<longleftrightarrow> cmp y z \<noteq> Greater"
    using cmp_trans [of y x z] cmp_trans [of x y z] assms yx by auto
  moreover have "cmp z x \<noteq> Greater \<longleftrightarrow> cmp z y \<noteq> Greater"
    using cmp_trans [of z x y] cmp_trans [of z y x] assms yx by auto
  ultimately show ?thesis
    using cmp_reverse [of z x] cmp_reverse [of z y]
    by (cases "cmp x z"; cases "cmp y z") auto
qed

lemma cmp_equal_right: "cmp x y = Equal \<Longrightarrow> cmp z x = cmp z y"
  using cmp_equal_left [of x y z] cmp_reverse [of z x] cmp_reverse [of z y] by simp

lemma cmp_less_trans:
  assumes "cmp x y = Less" and "cmp y z \<noteq> Greater"
  shows "cmp x z = Less"
proof -
  have "cmp x z \<noteq> Equal"
  proof
    assume "cmp x z = Equal"
    then have "cmp y x \<noteq> Greater" using cmp_equal_right [of x z y] assms(2) by simp
    then show False using assms(1) cmp_reverse [of y x] by simp
  qed
  then show ?thesis using cmp_trans [of x y z] assms by (cases "cmp x z") auto
qed

end

lemma linear_cmp_eq [simp]:
  "linear_cmp x y = Equal \<longleftrightarrow> x = y" "linear_cmp x y = Less \<longleftrightarrow> x < y" "linear_cmp x y = Greater \<longleftrightarrow> y < x"
  by (auto simp: linear_cmp_def)

lemma linear_cmp_less: "x < y \<Longrightarrow> linear_cmp x y = Less"
  and linear_cmp_greater: "y < x \<Longrightarrow> linear_cmp x y = Greater"
  and linear_cmp_same [simp]: "linear_cmp x x = Equal"
  by simp_all

lemma linear_cmp_add [simp]: "linear_cmp (k + a) (k + b) = linear_cmp a (b :: nat)"
  by (simp add: linear_cmp_def)

interpretation linear: total_comparator linear_cmp
  by unfold_locales (auto simp: linear_cmp_def split: if_splits)

subsection \<open>Combinations\<close>

text \<open>A comparator that orders values through a key.\<close>

lemma total_comparator_key:
  assumes "total_comparator f"
  shows "total_comparator (\<lambda>x y. f (key x) (key y))"
proof -
  note f = total_comparator.cmp_refl [OF assms] total_comparator.cmp_reverse [OF assms]
    total_comparator.cmp_trans [OF assms]
  show ?thesis by unfold_locales (rule f(1), rule f(2), rule f(3))
qed

lemma total_comparator_reverse:
  assumes "total_comparator f"
  shows "total_comparator (\<lambda>x y. ordering_reverse (f x y))"
proof -
  have f: "f x x = Equal" "f y x = ordering_reverse (f x y)"
    "f x y \<noteq> Greater \<Longrightarrow> f y z \<noteq> Greater \<Longrightarrow> f x z \<noteq> Greater" for x y z
    using total_comparator.cmp_refl [OF assms] total_comparator.cmp_reverse [OF assms, of y x]
      total_comparator.cmp_trans [OF assms] by blast+
  show ?thesis
  proof
    fix x y z
    show "ordering_reverse (f x x) = Equal" using f(1) by simp
    show "ordering_reverse (f y x) = ordering_reverse (ordering_reverse (f x y))" using f(2) [of y x] by simp
    assume "ordering_reverse (f x y) \<noteq> Greater" "ordering_reverse (f y z) \<noteq> Greater"
    then have "f y x \<noteq> Greater" "f z y \<noteq> Greater" using f(2) [of x y] f(2) [of y z] by auto
    then have "f z x \<noteq> Greater" using f(3) by blast
    then show "ordering_reverse (f x z) \<noteq> Greater" using f(2) [of x z] by auto
  qed
qed

lemma total_comparator_lex:
  assumes "total_comparator f" and "total_comparator g"
  shows "total_comparator (lex_cmp f g)"
proof -
  note ff = total_comparator.cmp_equal_left [OF assms(1)] total_comparator.cmp_equal_right [OF assms(1)]
    total_comparator.cmp_less_trans [OF assms(1)]
    total_comparator.cmp_refl [OF assms(1)] total_comparator.cmp_reverse [OF assms(1)]
  note gg = total_comparator.cmp_refl [OF assms(2)] total_comparator.cmp_reverse [OF assms(2)]
    total_comparator.cmp_trans [OF assms(2)]
  show ?thesis
  proof
    fix x y z
    show "lex_cmp f g x x = Equal" by (simp add: lex_cmp_def ff(4) gg(1))
    show "lex_cmp f g y x = ordering_reverse (lex_cmp f g x y)"
      using ff(5) [of y x] gg(2) [of y x] by (simp add: lex_cmp_def ordering_reverse_then_with)
    assume xy: "lex_cmp f g x y \<noteq> Greater" and yz: "lex_cmp f g y z \<noteq> Greater"
    show "lex_cmp f g x z \<noteq> Greater"
    proof (cases "f x y")
      case Less
      moreover have "f y z \<noteq> Greater" using yz by (auto simp: lex_cmp_def)
      ultimately show ?thesis using ff(3) [of x y z] by (simp add: lex_cmp_def)
    next
      case Equal
      then have eq: "f x z = f y z" by (rule ff(1))
      show ?thesis
      proof (cases "f y z")
        case Equal
        then show ?thesis using gg(3) [of x y z] xy yz eq \<open>f x y = Equal\<close> by (simp add: lex_cmp_def)
      qed (use eq yz in \<open>simp_all add: lex_cmp_def\<close>)
    next
      case Greater
      then show ?thesis using xy by (simp add: lex_cmp_def)
    qed
  qed
qed

lemma list_cmp_refl: "(\<And>x. cmp x x = Equal) \<Longrightarrow> list_cmp cmp xs xs = Equal"
  by (induction xs) simp_all

lemma list_cmp_reverse:
  "(\<And>x y. cmp y x = ordering_reverse (cmp x y)) \<Longrightarrow> list_cmp cmp ys xs = ordering_reverse (list_cmp cmp xs ys)"
proof (induction cmp xs ys rule: list_cmp.induct)
  case (4 cmp x xs y ys)
  have "list_cmp cmp ys xs = ordering_reverse (list_cmp cmp xs ys)" by (rule 4(1)) (rule 4(2))
  then show ?case using 4(2) [of x y] by (simp add: ordering_reverse_then_with)
qed simp_all

lemma total_comparator_list:
  assumes "total_comparator f"
  shows "total_comparator (list_cmp f)"
proof -
  note ff = total_comparator.cmp_equal_left [OF assms] total_comparator.cmp_less_trans [OF assms]
    total_comparator.cmp_refl [OF assms] total_comparator.cmp_reverse [OF assms]
  have trans: "list_cmp f xs ys \<noteq> Greater \<Longrightarrow> list_cmp f ys zs \<noteq> Greater \<Longrightarrow> list_cmp f xs zs \<noteq> Greater" for xs ys zs
  proof (induction xs arbitrary: ys zs)
    case Nil
    then show ?case by (cases ys; cases zs) simp_all
  next
    case (Cons x xs)
    obtain y ys' where ys: "ys = y # ys'" using Cons.prems(1) by (cases ys) auto
    obtain z zs' where zs: "zs = z # zs'" using Cons.prems(2) ys by (cases zs) auto
    show ?case
    proof (cases "f x y")
      case Less
      moreover have "f y z \<noteq> Greater" using Cons.prems(2) ys zs by auto
      ultimately show ?thesis using ff(2) [of x y z] zs by simp
    next
      case Equal
      then have "f x z = f y z" by (rule ff(1))
      then show ?thesis using Cons.IH [of ys' zs'] Cons.prems ys zs Equal by (cases "f y z") auto
    next
      case Greater
      then show ?thesis using Cons.prems(1) ys by simp
    qed
  qed
  show ?thesis
    by unfold_locales (rule list_cmp_refl [OF ff(3)], rule list_cmp_reverse [OF ff(4)], rule trans)
qed

lemma list_cmp_Equal:
  "(\<And>x y. cmp x y = Equal \<longleftrightarrow> x = y) \<Longrightarrow> list_cmp cmp xs ys = Equal \<longleftrightarrow> xs = ys"
  by (induction cmp xs ys rule: list_cmp.induct) simp_all

end
