(* ===== verification/Natural_Sort_Key.thy ===== *)
theory Natural_Sort_Key
  imports Comparator
begin

text \<open>
  The natural comparison of file names (crate \<open>natural-sort-key\<close>): a prepared key holds folded
  units, and the comparator walks maximal numeric and text runs with index cursors. The reference
  is a comparison of token lists, in which a numeric run is the number it denotes.
  Unicode case folding is a parameter: the folded code points of a UTF-8 name.
\<close>

section \<open>Definitions\<close>

datatype prepared_natural_key =
    Bytes "u8 list"
  | Wide "u16 list"
  | Unicode "u32 list"

definition ascii_lowercase_u16 :: "u16 \<Rightarrow> u16" where
  "ascii_lowercase_u16 u = (if 65 \<le> u \<and> u \<le> 90 then u + 32 else u)"

definition ascii_lowercase_u32 :: "u32 \<Rightarrow> u32" where
  "ascii_lowercase_u32 u = (if 65 \<le> u \<and> u \<le> 90 then u + 32 else u)"

definition to_ascii_lowercase_u8 :: "u8 \<Rightarrow> u8" where
  "to_ascii_lowercase_u8 u = (if 65 \<le> u \<and> u \<le> 90 then u + 32 else u)"

definition from_utf8 :: "(string \<Rightarrow> u32 list) \<Rightarrow> string \<Rightarrow> prepared_natural_key" where
  "from_utf8 folded name = Unicode (folded name)"

definition from_bytes :: "u8 list \<Rightarrow> prepared_natural_key" where
  "from_bytes units = Bytes (map to_ascii_lowercase_u8 units)"

definition from_wide_units :: "u16 list \<Rightarrow> prepared_natural_key" where
  "from_wide_units units = Wide (map ascii_lowercase_u16 units)"

definition from_opaque_units :: "u32 list \<Rightarrow> prepared_natural_key" where
  "from_opaque_units units = Unicode (map ascii_lowercase_u32 units)"

text \<open>A Unix name that is not UTF-8 is its bytes.\<close>

definition from_os_str ::
    "(string \<Rightarrow> u32 list) \<Rightarrow> (string \<Rightarrow> bool) \<Rightarrow> string \<Rightarrow> prepared_natural_key" where
  "from_os_str folded is_utf8 name =
     (if is_utf8 name then from_utf8 folded name
      else from_bytes (map (\<lambda>c. of_nat (of_char c)) name))"

fun retained_bytes :: "prepared_natural_key \<Rightarrow> nat" where
  "retained_bytes (Bytes us) = length us"
| "retained_bytes (Wide us) = usize_saturating_mul (length us) 2"
| "retained_bytes (Unicode us) = usize_saturating_mul (length us) 4"

fun key_len :: "prepared_natural_key \<Rightarrow> nat" where
  "key_len (Bytes us) = length us"
| "key_len (Wide us) = length us"
| "key_len (Unicode us) = length us"

fun key_unit :: "prepared_natural_key \<Rightarrow> nat \<Rightarrow> u32 run" where
  "key_unit (Bytes us) i = map_option ucast (slice_get us i)"
| "key_unit (Wide us) i = map_option ucast (slice_get us i)"
| "key_unit (Unicode us) i = slice_get us i"

definition is_ascii_digit :: "u32 \<Rightarrow> bool" where
  "is_ascii_digit u \<longleftrightarrow> 48 \<le> u \<and> u \<le> 57"

function run_end_from :: "prepared_natural_key \<Rightarrow> nat \<Rightarrow> bool \<Rightarrow> nat run" where
  "run_end_from key e is_number =
     (if e < key_len key then
        (case key_unit key e of
           None \<Rightarrow> None
         | Some u \<Rightarrow> if is_ascii_digit u = is_number then run_end_from key (e + 1) is_number else Some e)
      else Some e)"
  by pat_completeness auto
termination by (relation "measure (\<lambda>(key, e, _). key_len key - e)") auto

definition run_end :: "prepared_natural_key \<Rightarrow> nat \<Rightarrow> bool \<Rightarrow> nat run" where
  "run_end key start is_number = run_end_from key (start + 1) is_number"

function first_significant_digit :: "prepared_natural_key \<Rightarrow> nat \<Rightarrow> nat \<Rightarrow> nat run" where
  "first_significant_digit key significant e =
     (if significant < e then
        (case key_unit key significant of
           None \<Rightarrow> None
         | Some u \<Rightarrow> if u = 48 then first_significant_digit key (significant + 1) e else Some significant)
      else Some significant)"
  by pat_completeness auto
termination by (relation "measure (\<lambda>(key, s, e). e - s)") auto

definition normalized_numeric_length :: "nat \<Rightarrow> nat \<Rightarrow> nat" where
  "normalized_numeric_length significant_start e = max (e - significant_start) 1"

function compare_unit_range ::
    "prepared_natural_key \<Rightarrow> nat \<Rightarrow> nat \<Rightarrow> prepared_natural_key \<Rightarrow> nat \<Rightarrow> nat \<Rightarrow> ordering run" where
  "compare_unit_range left i left_end right j right_end =
     (if i < left_end \<and> j < right_end then
        (case (key_unit left i, key_unit right j) of
           (Some u, Some v) \<Rightarrow>
             (let o1 = linear_cmp u v
              in if o1 \<noteq> Equal then Some o1
                 else compare_unit_range left (i + 1) left_end right (j + 1) right_end)
         | _ \<Rightarrow> None)
      else if i \<le> left_end \<and> j \<le> right_end then Some (linear_cmp (left_end - i) (right_end - j))
      else None)"
  by pat_completeness auto
termination by (relation "measure (\<lambda>(_, i, e, _). e - i)") auto

definition compare_numeric_run ::
    "prepared_natural_key \<Rightarrow> nat \<Rightarrow> nat \<Rightarrow> prepared_natural_key \<Rightarrow> nat \<Rightarrow> nat \<Rightarrow> ordering run" where
  "compare_numeric_run left left_start left_end right right_start right_end =
     (case (first_significant_digit left left_start left_end,
            first_significant_digit right right_start right_end) of
        (Some ls, Some rs) \<Rightarrow>
          (let o1 = linear_cmp (normalized_numeric_length ls left_end) (normalized_numeric_length rs right_end)
           in if o1 \<noteq> Equal then Some o1
              else compare_unit_range left ls left_end right rs right_end)
      | _ \<Rightarrow> None)"

lemma run_end_from_ge: "run_end_from key e b = Some e' \<Longrightarrow> e \<le> e'"
  by (induction key e b rule: run_end_from.induct)
    (auto split: if_splits option.splits)

declare run_end_from.simps [simp del] first_significant_digit.simps [simp del]
  compare_unit_range.simps [simp del]

function compare_natural_from ::
    "prepared_natural_key \<Rightarrow> prepared_natural_key \<Rightarrow> nat \<Rightarrow> nat \<Rightarrow> ordering run" where
  "compare_natural_from left right left_start right_start =
     (if left_start < key_len left \<and> right_start < key_len right then
        (case (key_unit left left_start, key_unit right right_start) of
           (Some u, Some v) \<Rightarrow>
             (if is_ascii_digit u \<noteq> is_ascii_digit v
              then Some (if is_ascii_digit u then Less else Greater)
              else
             (case (run_end left left_start (is_ascii_digit u),
                    run_end right right_start (is_ascii_digit v)) of
                (Some left_end, Some right_end) \<Rightarrow>
                  (case (if is_ascii_digit u
                         then compare_numeric_run left left_start left_end right right_start right_end
                         else compare_unit_range left left_start left_end right right_start right_end) of
                     None \<Rightarrow> None
                   | Some o1 \<Rightarrow>
                       if o1 \<noteq> Equal then Some o1
                       else compare_natural_from left right left_end right_end)
              | _ \<Rightarrow> None))
         | _ \<Rightarrow> None)
      else Some (if left_start = key_len left
                 then (if right_start = key_len right then Equal else Less) else Greater))"
  by pat_completeness auto
termination
  by (relation "measure (\<lambda>(l, r, i, j). key_len l - i)")
    (auto simp: run_end_def dest!: run_end_from_ge [OF sym])

declare compare_natural_from.simps [simp del]

definition compare_natural_units :: "prepared_natural_key \<Rightarrow> prepared_natural_key \<Rightarrow> ordering run" where
  "compare_natural_units left right = compare_natural_from left right 0 0"


section \<open>The index loops are list operations\<close>

fun key_units :: "prepared_natural_key \<Rightarrow> u32 list" where
  "key_units (Bytes us) = map ucast us"
| "key_units (Wide us) = map ucast us"
| "key_units (Unicode us) = us"

lemma length_key_units [simp]: "length (key_units key) = key_len key"
  by (cases key) simp_all

lemma key_unit_slice: "key_unit key i = slice_get (key_units key) i"
  by (cases key) (simp_all add: slice_get_def)

lemma run_end_from_takeWhile:
  "e \<le> key_len key \<Longrightarrow>
   run_end_from key e b = Some (e + length (takeWhile (\<lambda>u. is_ascii_digit u = b) (drop e (key_units key))))"
proof (induction key e b rule: run_end_from.induct)
  case (1 key e b)
  show ?case
  proof (cases "e < key_len key")
    case True
    then have d: "drop e (key_units key) = key_units key ! e # drop (Suc e) (key_units key)"
      by (simp add: Cons_nth_drop_Suc)
    show ?thesis
      using True 1(1) [OF True, of "key_units key ! e"]
      by (subst run_end_from.simps) (simp add: key_unit_slice slice_get_def d)
  next
    case False
    then show ?thesis using 1(2) by (subst run_end_from.simps) simp
  qed
qed

lemma first_significant_takeWhile:
  "s \<le> e \<Longrightarrow> e \<le> key_len key \<Longrightarrow>
   first_significant_digit key s e
     = Some (s + length (takeWhile (\<lambda>u. u = 48) (take (e - s) (drop s (key_units key)))))"
proof (induction key s e rule: first_significant_digit.induct)
  case (1 key s e)
  show ?case
  proof (cases "s < e")
    case True
    then have "s < key_len key" using 1(3) by simp
    then have "drop s (key_units key) = key_units key ! s # drop (Suc s) (key_units key)"
      by (simp add: Cons_nth_drop_Suc)
    moreover have "e - s = Suc (e - Suc s)" using True by simp
    ultimately have d: "take (e - s) (drop s (key_units key))
        = key_units key ! s # take (e - Suc s) (drop (Suc s) (key_units key))" by simp
    show ?thesis
      using True 1 \<open>s < key_len key\<close>
      by (subst first_significant_digit.simps) (simp add: key_unit_slice slice_get_def d)
  next
    case False
    then show ?thesis by (subst first_significant_digit.simps) simp
  qed
qed

lemma compare_unit_range_lists:
  "i \<le> le \<Longrightarrow> le \<le> key_len l \<Longrightarrow> j \<le> re \<Longrightarrow> re \<le> key_len r \<Longrightarrow>
   compare_unit_range l i le r j re
     = Some (list_cmp linear_cmp (take (le - i) (drop i (key_units l))) (take (re - j) (drop j (key_units r))))"
proof (induction l i le r j re rule: compare_unit_range.induct)
  case (1 l i le r j re)
  show ?case
  proof (cases "i < le \<and> j < re")
    case True
    then have lt: "i < key_len l" "j < key_len r" using 1(3,5) by simp_all
    have di: "take (le - i) (drop i (key_units l)) = key_units l ! i # take (le - Suc i) (drop (Suc i) (key_units l))"
      and dj: "take (re - j) (drop j (key_units r)) = key_units r ! j # take (re - Suc j) (drop (Suc j) (key_units r))"
      using True lt by (simp_all add: Cons_nth_drop_Suc [symmetric] Suc_diff_Suc [symmetric] del: Suc_diff_Suc)
    show ?thesis
      using True lt 1
      by (subst compare_unit_range.simps)
        (cases "linear_cmp (key_units l ! i) (key_units r ! j)";
          simp add: key_unit_slice slice_get_def di dj Let_def del: linear_cmp_eq)
  next
    case False
    then consider "i = le" | "j = re" using 1(2,4) by linarith
    then show ?thesis
    proof cases
      case 1
      then show ?thesis using \<open>j \<le> re\<close> \<open>re \<le> key_len r\<close>
        by (subst compare_unit_range.simps) (cases "take (re - j) (drop j (key_units r))"; auto simp: linear_cmp_def)
    next
      case 2
      then show ?thesis using \<open>i \<le> le\<close> \<open>le \<le> key_len l\<close>
        by (subst compare_unit_range.simps) (cases "take (le - i) (drop i (key_units l))"; auto simp: linear_cmp_def)
    qed
  qed
qed

section \<open>The reference comparison\<close>

datatype natural_token = Number nat | Text "u32 list"

fun digits_value :: "u32 list \<Rightarrow> nat" where
  "digits_value [] = 0"
| "digits_value (u # us) = (unat u - 48) * 10 ^ length us + digits_value us"

definition natural_token_of :: "u32 list \<Rightarrow> natural_token" where
  "natural_token_of run = (if is_ascii_digit (hd run) then Number (digits_value run) else Text run)"

text \<open>Maximal runs of digits and of other units.\<close>

function natural_tokens :: "u32 list \<Rightarrow> natural_token list" where
  "natural_tokens [] = []"
| "natural_tokens (u # us) =
     natural_token_of (u # takeWhile (\<lambda>v. is_ascii_digit v = is_ascii_digit u) us)
       # natural_tokens (dropWhile (\<lambda>v. is_ascii_digit v = is_ascii_digit u) us)"
  by pat_completeness auto
termination by (relation "measure length") (auto simp: less_Suc_eq_le length_dropWhile_le)

fun natural_token_cmp :: "natural_token \<Rightarrow> natural_token \<Rightarrow> ordering" where
  "natural_token_cmp (Number a) (Number b) = linear_cmp a b"
| "natural_token_cmp (Number a) (Text t) = Less"
| "natural_token_cmp (Text s) (Number b) = Greater"
| "natural_token_cmp (Text s) (Text t) = list_cmp linear_cmp s t"

definition natural_key_tokens :: "prepared_natural_key \<Rightarrow> natural_token list" where
  "natural_key_tokens key = natural_tokens (key_units key)"

subsection \<open>Digit runs compare as numbers\<close>

lemma digit_value_less: "is_ascii_digit u \<Longrightarrow> unat u - 48 < 10 \<and> 48 \<le> unat u"
  by (auto simp: is_ascii_digit_def word_le_nat_alt)

lemma digits_value_less: "\<forall>u \<in> set us. is_ascii_digit u \<Longrightarrow> digits_value us < 10 ^ length us"
proof (induction us)
  case Nil
  then show ?case by simp
next
  case (Cons u us)
  then have "digits_value us < 10 ^ length us" "unat u - 48 \<le> 9" using digit_value_less [of u] by auto
  then have "(unat u - 48) * 10 ^ length us + digits_value us < 9 * 10 ^ length us + 10 ^ length us"
    by (meson add_le_less_mono mult_le_mono1)
  then show ?case by simp
qed

lemma digits_value_significant: "digits_value (dropWhile (\<lambda>u. u = 48) us) = digits_value us"
  by (induction us) simp_all

lemma digits_value_ge:
  assumes "\<forall>u \<in> set us. is_ascii_digit u" and "us \<noteq> []" and "hd us \<noteq> 48"
  shows "10 ^ (length us - 1) \<le> digits_value us"
proof (cases us)
  case Nil
  then show ?thesis using assms by simp
next
  case (Cons u vs)
  have "unat u \<noteq> 48" using assms(3) Cons unsigned_word_eqI [of u 48] by auto
  then have "1 \<le> unat u - 48" using assms(1) Cons digit_value_less [of u] by auto
  then have "1 * 10 ^ length vs \<le> (unat u - 48) * 10 ^ length vs" by (rule mult_le_mono1)
  then show ?thesis using Cons by (simp add: trans_le_add1)
qed

lemma digits_value_lex:
  assumes "\<forall>u \<in> set us. is_ascii_digit u" and "\<forall>u \<in> set vs. is_ascii_digit u" and "length us = length vs"
  shows "list_cmp linear_cmp us vs = linear_cmp (digits_value us) (digits_value vs)"
  using assms(3,1,2)
proof (induction us vs rule: list_induct2)
  case Nil
  then show ?case by (simp add: linear_cmp_def)
next
  case (Cons u us v vs)
  have IH: "list_cmp linear_cmp us vs = linear_cmp (digits_value us) (digits_value vs)" using Cons by simp
  have lt: "digits_value us < 10 ^ length us" "digits_value vs < 10 ^ length us"
    using Cons digits_value_less [of us] digits_value_less [of vs] by auto
  have uv: "48 \<le> unat u" "48 \<le> unat v" using Cons digit_value_less by auto
  have step: "a * 10 ^ length us + x < b * 10 ^ length us + y" if "a < b" "x < 10 ^ length us" for a b x y :: nat
  proof -
    have "Suc a * 10 ^ length us \<le> b * 10 ^ length us" using that(1) by (intro mult_le_mono1) simp
    then show ?thesis using that(2) by simp
  qed
  show ?case
  proof (cases "linear_cmp u v")
    case Less
    then have "unat u - 48 < unat v - 48" using uv by (simp add: word_less_nat_alt)
    then have "digits_value (u # us) < digits_value (v # vs)" using step lt Cons.hyps by simp
    then show ?thesis using Less by (simp add: linear_cmp_less)
  next
    case Equal
    then have "u = v" by simp
    then show ?thesis using IH Cons.hyps by simp
  next
    case Greater
    then have "unat v - 48 < unat u - 48" using uv by (simp add: word_less_nat_alt)
    then have "digits_value (v # vs) < digits_value (u # us)" using step lt Cons.hyps by simp
    then show ?thesis using Greater by (simp add: linear_cmp_greater)
  qed
qed

text \<open>The shape of a number without leading zeroes decides by length first.\<close>

lemma significant_cmp:
  assumes us: "\<forall>u \<in> set us. is_ascii_digit u" "us \<noteq> [] \<longrightarrow> hd us \<noteq> 48"
    and vs: "\<forall>u \<in> set vs. is_ascii_digit u" "vs \<noteq> [] \<longrightarrow> hd vs \<noteq> 48"
  shows "then_with (linear_cmp (max (length us) 1) (max (length vs) 1)) (list_cmp linear_cmp us vs)
    = linear_cmp (digits_value us) (digits_value vs)"
proof -
  have pos: "0 < digits_value xs" if "\<forall>u \<in> set xs. is_ascii_digit u" "xs \<noteq> []" "hd xs \<noteq> 48" for xs
  proof -
    have "(0::nat) < 10 ^ (length xs - 1)" by simp
    then show ?thesis using digits_value_ge [OF that] by linarith
  qed
  have shorter: "digits_value xs < digits_value ys"
    if "\<forall>u \<in> set xs. is_ascii_digit u" "\<forall>u \<in> set ys. is_ascii_digit u" "hd ys \<noteq> 48" "length xs < length ys" for xs ys
  proof -
    have "length xs \<le> length ys - 1" using that(4) by simp
    then have "(10::nat) ^ length xs \<le> 10 ^ (length ys - 1)" by (rule power_increasing) simp
    moreover have "ys \<noteq> []" using that(4) by auto
    ultimately show ?thesis using digits_value_less [OF that(1)] digits_value_ge [OF that(2) _ that(3)] by linarith
  qed
  have empty: "then_with (linear_cmp 1 (max (length xs) 1)) (list_cmp linear_cmp [] xs) = Less" if "xs \<noteq> []" for xs :: "u32 list"
    using that by (cases xs; cases "tl xs") (simp_all add: linear_cmp_less)
  have empty': "then_with (linear_cmp (max (length xs) 1) 1) (list_cmp linear_cmp xs []) = Greater" if "xs \<noteq> []" for xs :: "u32 list"
    using that by (cases xs; cases "tl xs") (simp_all add: linear_cmp_greater)
  consider "us = []" "vs = []" | "us = []" "vs \<noteq> []" | "us \<noteq> []" "vs = []" | "us \<noteq> []" "vs \<noteq> []" by blast
  then show ?thesis
  proof cases
    case 2
    then show ?thesis using empty [OF 2(2)] pos [of vs] vs by (simp add: linear_cmp_less)
  next
    case 3
    then show ?thesis using empty' [OF 3(1)] pos [of us] us by (simp add: linear_cmp_greater)
  next
    case 4
    have len: "max (length us) 1 = length us" "max (length vs) 1 = length vs" using 4 by (simp_all add: Suc_leI)
    consider "length us < length vs" | "length us = length vs" | "length vs < length us" by linarith
    then show ?thesis
    proof cases
      case 1
      then show ?thesis unfolding len using shorter us vs 4 by (simp add: linear_cmp_less)
    next
      case 2
      then show ?thesis unfolding len using digits_value_lex [OF us(1) vs(1) 2] by simp
    next
      case 3
      then show ?thesis unfolding len using shorter us vs 4 by (simp add: linear_cmp_greater)
    qed
  qed simp
qed

subsection \<open>Runs and tokens\<close>

lemma compare_numeric_run_value:
  assumes "ls \<le> le" "le \<le> key_len l" "rs \<le> re" "re \<le> key_len r"
    and l: "take (le - ls) (drop ls (key_units l)) = us" "\<forall>u \<in> set us. is_ascii_digit u"
    and r: "take (re - rs) (drop rs (key_units r)) = vs" "\<forall>u \<in> set vs. is_ascii_digit u"
  shows "compare_numeric_run l ls le r rs re = Some (linear_cmp (digits_value us) (digits_value vs))"
proof -
  define a where "a = length (takeWhile (\<lambda>u. u = 48) us)"
  define b where "b = length (takeWhile (\<lambda>u. u = 48) vs)"
  let ?us = "dropWhile (\<lambda>u. u = 48) us" and ?vs = "dropWhile (\<lambda>u. u = 48) vs"
  have len: "length us = le - ls" "length vs = re - rs" using assms(1-4) l(1) r(1) by auto
  have ab: "a \<le> le - ls" "b \<le> re - rs" using length_takeWhile_le [of "\<lambda>u. u = 48" us]
      length_takeWhile_le [of "\<lambda>u. u = 48" vs] by (simp_all add: a_def b_def len)
  have fs: "first_significant_digit l ls le = Some (ls + a)" "first_significant_digit r rs re = Some (rs + b)"
    using first_significant_takeWhile [OF assms(1,2)] first_significant_takeWhile [OF assms(3,4)] l r
    by (simp_all add: a_def b_def)
  have cut: "take (e - (i + n)) (drop (i + n) xs) = dropWhile P ys"
    if "take (e - i) (drop i xs) = ys" "n = length (takeWhile P ys)" for e i n xs ys and P :: "u32 \<Rightarrow> bool"
  proof -
    have "dropWhile P ys = drop n (take (e - i) (drop i xs))" using that by (simp add: dropWhile_eq_drop)
    then show ?thesis by (simp add: drop_take add.commute)
  qed
  note us = cut [OF l(1) a_def] and vs = cut [OF r(1) b_def]
  have lens: "le - (ls + a) = length ?us" "re - (rs + b) = length ?vs"
    by (simp_all add: dropWhile_eq_drop a_def b_def len)
  have range: "compare_unit_range l (ls + a) le r (rs + b) re = Some (list_cmp linear_cmp ?us ?vs)"
    using compare_unit_range_lists [of "ls + a" le l "rs + b" re r] assms(1-4) ab us vs by simp
  have "hd ?us \<noteq> 48" if "?us \<noteq> []" using hd_dropWhile [OF that] by simp
  moreover have "hd ?vs \<noteq> 48" if "?vs \<noteq> []" using hd_dropWhile [OF that] by simp
  moreover have "\<forall>u \<in> set ?us. is_ascii_digit u" "\<forall>u \<in> set ?vs. is_ascii_digit u"
    using l(2) r(2) set_dropWhileD by metis+
  ultimately have "then_with (linear_cmp (max (length ?us) 1) (max (length ?vs) 1)) (list_cmp linear_cmp ?us ?vs)
    = linear_cmp (digits_value us) (digits_value vs)"
    using significant_cmp [of ?us ?vs] by (simp add: digits_value_significant)
  then show ?thesis using fs range
    by (auto simp: compare_numeric_run_def normalized_numeric_length_def lens then_with_def Let_def split: if_splits)
qed


lemma natural_tokens_run:
  assumes "i < length us"
    and that: "e = Suc i + length (takeWhile (\<lambda>v. is_ascii_digit v = is_ascii_digit (us ! i)) (drop (Suc i) us))"
  shows "natural_tokens (drop i us) =
    natural_token_of (take (e - i) (drop i us)) # natural_tokens (drop e us)
    \<and> i < e \<and> e \<le> length us
    \<and> (\<forall>v \<in> set (take (e - i) (drop i us)). is_ascii_digit v = is_ascii_digit (us ! i))
    \<and> hd (take (e - i) (drop i us)) = us ! i"
proof -
  let ?P = "\<lambda>v. is_ascii_digit v = is_ascii_digit (us ! i)"
  let ?t = "takeWhile ?P (drop (Suc i) us)"
  have d: "drop i us = us ! i # drop (Suc i) us" using assms by (simp add: Cons_nth_drop_Suc)
  have le: "length ?t \<le> length us - Suc i" using length_takeWhile_le [of ?P "drop (Suc i) us"] by simp
  have tk: "take (length ?t) (drop (Suc i) us) = ?t" by (simp add: takeWhile_eq_take [symmetric])
  have run: "take (e - i) (drop i us) = us ! i # ?t" using that tk by (simp add: d)
  have rest: "dropWhile ?P (drop (Suc i) us) = drop e us"
    using that by (simp add: dropWhile_eq_drop add.commute)
  show ?thesis unfolding run using that le assms(1) rest by (auto simp: d dest: set_takeWhileD)
qed

lemma compare_natural_from_tokens:
  "i \<le> key_len l \<Longrightarrow> j \<le> key_len r \<Longrightarrow>
   compare_natural_from l r i j
     = Some (list_cmp natural_token_cmp (natural_tokens (drop i (key_units l))) (natural_tokens (drop j (key_units r))))"
proof (induction "key_len l - i" arbitrary: i j rule: less_induct)
  case (less i j)
  show ?case
  proof (cases "i < key_len l \<and> j < key_len r")
    case False
    then consider "i = key_len l" "j = key_len r" | "i = key_len l" "j < key_len r" | "i < key_len l" "j = key_len r"
      using less.prems by linarith
    then show ?thesis
    proof cases
      case 2
      then obtain v vs where "drop j (key_units r) = v # vs" by (metis Cons_nth_drop_Suc length_key_units)
      then show ?thesis using 2 by (subst compare_natural_from.simps) simp
    next
      case 3
      then obtain v vs where "drop i (key_units l) = v # vs" by (metis Cons_nth_drop_Suc length_key_units)
      then show ?thesis using 3 by (subst compare_natural_from.simps) simp
    qed (subst compare_natural_from.simps, simp)
  next
    case True
    define u where "u = key_units l ! i"
    define v where "v = key_units r ! j"
    define le where "le = Suc i + length (takeWhile (\<lambda>x. is_ascii_digit x = is_ascii_digit u) (drop (Suc i) (key_units l)))"
    define re where "re = Suc j + length (takeWhile (\<lambda>x. is_ascii_digit x = is_ascii_digit v) (drop (Suc j) (key_units r)))"
    define us where "us = take (le - i) (drop i (key_units l))"
    define vs where "vs = take (re - j) (drop j (key_units r))"
    have L: "natural_tokens (drop i (key_units l)) = natural_token_of us # natural_tokens (drop le (key_units l))"
        "i < le" "le \<le> key_len l" "\<forall>x \<in> set us. is_ascii_digit x = is_ascii_digit u" "hd us = u"
      using natural_tokens_run [of i "key_units l" le, folded u_def us_def, OF _ le_def] True by simp_all
    have R: "natural_tokens (drop j (key_units r)) = natural_token_of vs # natural_tokens (drop re (key_units r))"
        "j < re" "re \<le> key_len r" "\<forall>x \<in> set vs. is_ascii_digit x = is_ascii_digit v" "hd vs = v"
      using natural_tokens_run [of j "key_units r" re, folded v_def vs_def, OF _ re_def] True by simp_all
    have units: "key_unit l i = Some u" "key_unit r j = Some v"
      using True by (simp_all add: key_unit_slice slice_get_def u_def v_def)
    have ends: "run_end l i (is_ascii_digit u) = Some le" "run_end r j (is_ascii_digit v) = Some re"
      using True by (simp_all add: run_end_def run_end_from_takeWhile le_def re_def)
    show ?thesis
    proof (cases "is_ascii_digit u = is_ascii_digit v")
      case False
      then show ?thesis using True units L R
        by (subst compare_natural_from.simps) (simp add: natural_token_of_def)
    next
      case same: True
      have cmp: "(if is_ascii_digit u then compare_numeric_run l i le r j re else compare_unit_range l i le r j re)
          = Some (natural_token_cmp (natural_token_of us) (natural_token_of vs))"
      proof (cases "is_ascii_digit u")
        case True
        have "compare_numeric_run l i le r j re = Some (linear_cmp (digits_value us) (digits_value vs))"
          using compare_numeric_run_value [of i le l j re r us vs] L R True same
          by (simp add: us_def vs_def less_imp_le)
        then show ?thesis using True same L(5) R(5) by (simp add: natural_token_of_def)
      next
        case False
        then show ?thesis using compare_unit_range_lists [of i le l j re r] L R same
          by (simp add: natural_token_of_def us_def vs_def less_imp_le)
      qed
      have IH: "natural_token_cmp (natural_token_of us) (natural_token_of vs) = Equal \<Longrightarrow>
          compare_natural_from l r le re
        = Some (list_cmp natural_token_cmp (natural_tokens (drop le (key_units l))) (natural_tokens (drop re (key_units r))))"
        using less.hyps [of le re] L(2,3) R(3) True by simp
      show ?thesis using True units ends cmp IH same L(1) R(1)
        by (subst compare_natural_from.simps) (simp add: then_with_def)
    qed
  qed
qed


text \<open>The comparator never panics and is the lexicographic comparison of the tokens.\<close>

lemma compare_natural_units_tokens:
  "compare_natural_units l r = Some (list_cmp natural_token_cmp (natural_key_tokens l) (natural_key_tokens r))"
  by (simp add: compare_natural_units_def natural_key_tokens_def compare_natural_from_tokens)

section \<open>The natural order\<close>

interpretation token: total_comparator natural_token_cmp
proof
  note texts = total_comparator_list [OF linear.total_comparator_axioms]
  fix x y z :: natural_token
  show "natural_token_cmp x x = Equal"
    by (cases x) (simp_all add: total_comparator.cmp_refl [OF texts])
  show "natural_token_cmp y x = ordering_reverse (natural_token_cmp x y)"
    by (cases x; cases y)
      (auto intro: total_comparator.cmp_reverse [OF texts] linear.cmp_reverse)
  assume "natural_token_cmp x y \<noteq> Greater" "natural_token_cmp y z \<noteq> Greater"
  then show "natural_token_cmp x z \<noteq> Greater"
    using total_comparator.cmp_trans [OF texts]
    by (cases x; cases y; cases z) (auto simp del: not_less)
qed

text \<open>\<open>Ord::cmp\<close> of prepared keys; the comparison is always defined.\<close>

definition natural_key_cmp :: "prepared_natural_key \<Rightarrow> prepared_natural_key \<Rightarrow> ordering" where
  "natural_key_cmp l r = (case compare_natural_units l r of Some o1 \<Rightarrow> o1 | None \<Rightarrow> Equal)"

lemma natural_key_cmp_tokens:
  "natural_key_cmp l r = list_cmp natural_token_cmp (natural_key_tokens l) (natural_key_tokens r)"
  by (simp add: natural_key_cmp_def compare_natural_units_tokens)

interpretation natural: total_comparator natural_key_cmp
  using total_comparator_key [OF total_comparator_list [OF token.total_comparator_axioms], of natural_key_tokens]
  by (simp add: natural_key_cmp_tokens [abs_def])

lemma natural_token_cmp_Equal: "natural_token_cmp x y = Equal \<longleftrightarrow> x = y"
  by (cases x; cases y) (simp_all add: list_cmp_Equal)

lemma natural_key_cmp_Equal: "natural_key_cmp l r = Equal \<longleftrightarrow> natural_key_tokens l = natural_key_tokens r"
  unfolding natural_key_cmp_tokens by (rule list_cmp_Equal) (rule natural_token_cmp_Equal)

end
