(* ===== verification/Sort_Keys.thy ===== *)
theory Sort_Keys
  imports Natural_Sort_Key Playlist_Entry
begin

text \<open>
  The immutable keys one canonical sort prepares per top-level entry and the comparator over them
  (playlist-core \<open>queue/sort/natural.rs\<close> and the key half of \<open>queue/sort.rs\<close>).
  \<^item> The Unicode tables of the standard library are the parameter \<open>text_tables\<close>:
    \<open>folded_units\<close> is the lower-cased scalar sequence the natural key is built from,
    \<open>to_lowercase\<close> is \<open>str::to_lowercase\<close>. Nothing is assumed of them.
  \<^item> \<open>derive(Ord)\<close> compares the position of the variant first and then its fields.
  \<^item> The main fact: on the keys of one operation the comparator never panics, is a total order,
    and calls two entries equal only when they have the same Entry ID.
\<close>

section \<open>Definitions\<close>

record text_tables =
  folded_units :: "string \<Rightarrow> u32 list"
  to_lowercase :: "string \<Rightarrow> string"

subsection \<open>UTF-8\<close>

definition byte_in :: "nat \<Rightarrow> nat \<Rightarrow> char \<Rightarrow> bool" where
  "byte_in lo hi c \<longleftrightarrow> lo \<le> of_char c \<and> of_char c \<le> hi"

abbreviation continuation :: "char \<Rightarrow> bool" where
  "continuation \<equiv> byte_in 128 191"

text \<open>\<open>OsStr::to_str\<close> succeeds exactly on well-formed UTF-8 (no overlong form, no surrogate, nothing
  above U+10FFFF).\<close>

fun is_utf8 :: "string \<Rightarrow> bool" where
  "is_utf8 [] \<longleftrightarrow> True"
| "is_utf8 (a # as) \<longleftrightarrow>
     byte_in 0 127 a \<and> is_utf8 as
   \<or> (case as of
        b # bs \<Rightarrow>
          byte_in 194 223 a \<and> continuation b \<and> is_utf8 bs
        \<or> (case bs of
             c # cs \<Rightarrow>
               (byte_in 224 224 a \<and> byte_in 160 191 b
                \<or> byte_in 225 236 a \<and> continuation b
                \<or> byte_in 237 237 a \<and> byte_in 128 159 b
                \<or> byte_in 238 239 a \<and> continuation b)
               \<and> continuation c \<and> is_utf8 cs
             \<or> (case cs of
                  d # ds \<Rightarrow>
                    (byte_in 240 240 a \<and> byte_in 144 191 b
                     \<or> byte_in 241 243 a \<and> continuation b
                     \<or> byte_in 244 244 a \<and> byte_in 128 143 b)
                    \<and> continuation c \<and> continuation d \<and> is_utf8 ds
                | [] \<Rightarrow> False)
           | [] \<Rightarrow> False)
      | [] \<Rightarrow> False)"

subsection \<open>Exact names and locators\<close>

datatype exact_foreign_platform = ExactLinux | ExactMacOs | ExactWindows | ExactOther string

datatype exact_foreign_units =
    ExactUtf8 string
  | ExactBytes "u8 list"
  | ExactWide "u16 list"
  | ExactOpaque string "u32 list"

datatype exact_name_key =
    NameUtf8 string
  | NameNative string
  | NameForeign exact_foreign_units

datatype exact_locator_key =
    LocatorNative string
  | LocatorForeign exact_foreign_platform exact_foreign_units
  | LocatorUrl string

record natural_sort_key =
  natural_name :: prepared_natural_key
  exact_name :: exact_name_key
  exact_locator :: exact_locator_key
  key_entry_id :: playlist_entry_id

fun exact_platform :: "foreign_path_platform \<Rightarrow> exact_foreign_platform" where
  "exact_platform Linux = ExactLinux"
| "exact_platform MacOs = ExactMacOs"
| "exact_platform Windows = ExactWindows"
| "exact_platform (OtherPlatform name) = ExactOther name"

fun exact_units :: "foreign_path_encoding \<Rightarrow> exact_foreign_units" where
  "exact_units (ForeignUtf8 path) = ExactUtf8 path"
| "exact_units (ForeignBytes units) = ExactBytes units"
| "exact_units (ForeignWide units) = ExactWide units"
| "exact_units (ForeignOpaque name units) = ExactOpaque name units"

text \<open>\<open>iter().rposition(p)\<close>: the index of the last element with \<open>p\<close>.\<close>

definition rposition :: "('a \<Rightarrow> bool) \<Rightarrow> 'a list \<Rightarrow> nat option" where
  "rposition p xs = map_option (\<lambda>k. length xs - 1 - k) (position p (rev xs))"

definition last_units_after_separator :: "'a list \<Rightarrow> 'a \<Rightarrow> 'a \<Rightarrow> 'a list" where
  "last_units_after_separator units unix_separator windows_separator =
     drop (case rposition (\<lambda>u. u = unix_separator \<or> u = windows_separator) units of
             None \<Rightarrow> 0 | Some k \<Rightarrow> k + 1) units"

text \<open>\<open>rsplit(seps).next()\<close>: the segment after the last separator.\<close>

definition rsplit_next :: "char list \<Rightarrow> string \<Rightarrow> string" where
  "rsplit_next seps path = rev (takeWhile (\<lambda>c. c \<notin> set seps) (rev path))"

fun foreign_filename_units :: "exact_foreign_units \<Rightarrow> exact_foreign_units" where
  "foreign_filename_units (ExactUtf8 path) = ExactUtf8 (rsplit_next [CHR ''/'', CHR 0x5C] path)"
| "foreign_filename_units (ExactBytes path) = ExactBytes (last_units_after_separator path 47 92)"
| "foreign_filename_units (ExactWide path) = ExactWide (last_units_after_separator path 47 92)"
| "foreign_filename_units (ExactOpaque name units) = ExactOpaque name units"

text \<open>\<open>Path::file_name\<close> is the last component when it is a normal one.\<close>

definition file_name :: "string \<Rightarrow> string option" where
  "file_name path =
     (case rev (path_components path) of
        NormalComponent name # _ \<Rightarrow> Some name
      | _ \<Rightarrow> None)"

definition native_filename :: "string \<Rightarrow> string" where
  "native_filename path = (case file_name path of Some name \<Rightarrow> name | None \<Rightarrow> path)"

definition exact_name_from_native :: "string \<Rightarrow> string \<Rightarrow> exact_name_key" where
  "exact_name_from_native filename fallback =
     (if is_utf8 filename then NameUtf8 filename
      else if filename = [] then NameUtf8 fallback
      else NameNative filename)"

fun prepare_neutral_natural_key :: "text_tables \<Rightarrow> exact_name_key \<Rightarrow> prepared_natural_key" where
  "prepare_neutral_natural_key T (NameUtf8 name) = from_utf8 (folded_units T) name"
| "prepare_neutral_natural_key T (NameNative name) = from_os_str (folded_units T) is_utf8 name"
| "prepare_neutral_natural_key T (NameForeign (ExactUtf8 name)) = from_utf8 (folded_units T) name"
| "prepare_neutral_natural_key T (NameForeign (ExactBytes units)) = from_bytes units"
| "prepare_neutral_natural_key T (NameForeign (ExactWide units)) = from_wide_units units"
| "prepare_neutral_natural_key T (NameForeign (ExactOpaque _ units)) = from_opaque_units units"

fun name_and_locator :: "playlist_locator \<Rightarrow> string \<Rightarrow> exact_name_key \<times> exact_locator_key" where
  "name_and_locator (Local (Native path)) fallback =
     (exact_name_from_native (native_filename path) fallback, LocatorNative path)"
| "name_and_locator (Local (Foreign platform encoding)) fallback =
     (NameForeign (foreign_filename_units (exact_units encoding)),
      LocatorForeign (exact_platform platform) (exact_units encoding))"
| "name_and_locator (Url url) fallback = (NameUtf8 fallback, LocatorUrl url)"

definition prepare_natural_sort_key ::
    "text_tables \<Rightarrow> playlist_locator \<Rightarrow> string \<Rightarrow> playlist_entry_id \<Rightarrow> natural_sort_key" where
  "prepare_natural_sort_key T loc fallback eid =
     (let (name_units, exact_loc) = name_and_locator loc fallback
      in \<lparr>natural_name = prepare_neutral_natural_key T name_units, exact_name = name_units,
          exact_locator = exact_loc, key_entry_id = eid\<rparr>)"

subsection \<open>The derived orders\<close>

fun platform_rank :: "exact_foreign_platform \<Rightarrow> nat" where
  "platform_rank ExactLinux = 0"
| "platform_rank ExactMacOs = 1"
| "platform_rank ExactWindows = 2"
| "platform_rank (ExactOther _) = 3"

fun platform_cmp :: "exact_foreign_platform \<Rightarrow> exact_foreign_platform \<Rightarrow> ordering" where
  "platform_cmp (ExactOther a) (ExactOther b) = string_cmp a b"
| "platform_cmp a b = linear_cmp (platform_rank a) (platform_rank b)"

fun units_rank :: "exact_foreign_units \<Rightarrow> nat" where
  "units_rank (ExactUtf8 _) = 0"
| "units_rank (ExactBytes _) = 1"
| "units_rank (ExactWide _) = 2"
| "units_rank (ExactOpaque _ _) = 3"

fun units_cmp :: "exact_foreign_units \<Rightarrow> exact_foreign_units \<Rightarrow> ordering" where
  "units_cmp (ExactUtf8 a) (ExactUtf8 b) = string_cmp a b"
| "units_cmp (ExactBytes a) (ExactBytes b) = list_cmp linear_cmp a b"
| "units_cmp (ExactWide a) (ExactWide b) = list_cmp linear_cmp a b"
| "units_cmp (ExactOpaque n a) (ExactOpaque m b) =
     then_with (string_cmp n m) (list_cmp linear_cmp a b)"
| "units_cmp a b = linear_cmp (units_rank a) (units_rank b)"

fun name_rank :: "exact_name_key \<Rightarrow> nat" where
  "name_rank (NameUtf8 _) = 0"
| "name_rank (NameNative _) = 1"
| "name_rank (NameForeign _) = 2"

fun name_cmp :: "exact_name_key \<Rightarrow> exact_name_key \<Rightarrow> ordering" where
  "name_cmp (NameUtf8 a) (NameUtf8 b) = string_cmp a b"
| "name_cmp (NameNative a) (NameNative b) = string_cmp a b"
| "name_cmp (NameForeign a) (NameForeign b) = units_cmp a b"
| "name_cmp a b = linear_cmp (name_rank a) (name_rank b)"

fun component_rank :: "path_component \<Rightarrow> nat" where
  "component_rank RootDir = 1"
| "component_rank CurDir = 2"
| "component_rank ParentDir = 3"
| "component_rank (NormalComponent _) = 4"

fun component_cmp :: "path_component \<Rightarrow> path_component \<Rightarrow> ordering" where
  "component_cmp (NormalComponent a) (NormalComponent b) = string_cmp a b"
| "component_cmp a b = linear_cmp (component_rank a) (component_rank b)"

definition path_cmp :: "string \<Rightarrow> string \<Rightarrow> ordering" where
  "path_cmp a b = list_cmp component_cmp (path_components a) (path_components b)"

fun locator_rank :: "exact_locator_key \<Rightarrow> nat" where
  "locator_rank (LocatorNative _) = 0"
| "locator_rank (LocatorForeign _ _) = 1"
| "locator_rank (LocatorUrl _) = 2"

fun locator_cmp :: "exact_locator_key \<Rightarrow> exact_locator_key \<Rightarrow> ordering" where
  "locator_cmp (LocatorNative a) (LocatorNative b) = path_cmp a b"
| "locator_cmp (LocatorForeign p a) (LocatorForeign q b) =
     then_with (platform_cmp p q) (units_cmp a b)"
| "locator_cmp (LocatorUrl a) (LocatorUrl b) = string_cmp a b"
| "locator_cmp a b = linear_cmp (locator_rank a) (locator_rank b)"

text \<open>The derived orders of the identities, as instances of the linear order class.\<close>

instantiation playlist_item_id :: linorder
begin

definition less_eq_playlist_item_id :: "playlist_item_id \<Rightarrow> playlist_item_id \<Rightarrow> bool" where
  "less_eq_playlist_item_id a b \<longleftrightarrow> item_raw a \<le> item_raw b"

definition less_playlist_item_id :: "playlist_item_id \<Rightarrow> playlist_item_id \<Rightarrow> bool" where
  "less_playlist_item_id a b \<longleftrightarrow> item_raw a < item_raw b"

instance
  by standard (auto simp: less_eq_playlist_item_id_def less_playlist_item_id_def
      intro: playlist_item_id.expand)

end

instantiation playlist_compound_group_id :: linorder
begin

definition less_eq_playlist_compound_group_id ::
    "playlist_compound_group_id \<Rightarrow> playlist_compound_group_id \<Rightarrow> bool" where
  "less_eq_playlist_compound_group_id a b \<longleftrightarrow> group_raw a \<le> group_raw b"

definition less_playlist_compound_group_id ::
    "playlist_compound_group_id \<Rightarrow> playlist_compound_group_id \<Rightarrow> bool" where
  "less_playlist_compound_group_id a b \<longleftrightarrow> group_raw a < group_raw b"

instance
  by standard (auto simp: less_eq_playlist_compound_group_id_def less_playlist_compound_group_id_def
      intro: playlist_compound_group_id.expand)

end

fun entry_id_less_eq :: "playlist_entry_id \<Rightarrow> playlist_entry_id \<Rightarrow> bool" where
  "entry_id_less_eq (EntrySingle a) (EntrySingle b) \<longleftrightarrow> a \<le> b"
| "entry_id_less_eq (EntrySingle _) (EntryCompound _) \<longleftrightarrow> True"
| "entry_id_less_eq (EntryCompound _) (EntrySingle _) \<longleftrightarrow> False"
| "entry_id_less_eq (EntryCompound a) (EntryCompound b) \<longleftrightarrow> a \<le> b"

instantiation playlist_entry_id :: linorder
begin

definition less_eq_playlist_entry_id :: "playlist_entry_id \<Rightarrow> playlist_entry_id \<Rightarrow> bool" where
  "less_eq_playlist_entry_id a b \<longleftrightarrow> entry_id_less_eq a b"

definition less_playlist_entry_id :: "playlist_entry_id \<Rightarrow> playlist_entry_id \<Rightarrow> bool" where
  "less_playlist_entry_id a b \<longleftrightarrow> entry_id_less_eq a b \<and> \<not> entry_id_less_eq b a"

instance
proof
  fix a b c :: playlist_entry_id
  show "a < b \<longleftrightarrow> a \<le> b \<and> \<not> b \<le> a"
    by (simp add: less_eq_playlist_entry_id_def less_playlist_entry_id_def)
  show "a \<le> a" by (cases a) (simp_all add: less_eq_playlist_entry_id_def)
  show "a \<le> b \<Longrightarrow> b \<le> c \<Longrightarrow> a \<le> c"
    by (cases a; cases b; cases c) (auto simp: less_eq_playlist_entry_id_def)
  show "a \<le> b \<Longrightarrow> b \<le> a \<Longrightarrow> a = b"
    by (cases a; cases b) (auto simp: less_eq_playlist_entry_id_def)
  show "a \<le> b \<or> b \<le> a"
    by (cases a; cases b) (auto simp: less_eq_playlist_entry_id_def)
qed

end

text \<open>\<open>Ord for NaturalSortKey\<close>.\<close>

definition natural_sort_key_cmp :: "natural_sort_key \<Rightarrow> natural_sort_key \<Rightarrow> ordering" where
  "natural_sort_key_cmp a b =
     then_with (natural_key_cmp (natural_name a) (natural_name b))
    (then_with (name_cmp (exact_name a) (exact_name b))
    (then_with (locator_cmp (exact_locator a) (exact_locator b))
               (linear_cmp (key_entry_id a) (key_entry_id b))))"

subsection \<open>Primary keys\<close>

datatype playlist_sort_key = NaturalFilename | Title | Artist | Album | DurationKey | SmartSequence

datatype sort_direction = Ascending | Descending

fun direction_apply :: "sort_direction \<Rightarrow> ordering \<Rightarrow> ordering" where
  "direction_apply Ascending ord = ord"
| "direction_apply Descending ord = ordering_reverse ord"

record normalized_text_key =
  folded :: string
  exact :: string

definition normalized_text_key_new :: "text_tables \<Rightarrow> string \<Rightarrow> normalized_text_key" where
  "normalized_text_key_new T text = \<lparr>folded = to_lowercase T text, exact = text\<rparr>"

definition text_key_cmp :: "normalized_text_key \<Rightarrow> normalized_text_key \<Rightarrow> ordering" where
  "text_key_cmp a b =
     then_with (string_cmp (folded a) (folded b)) (string_cmp (exact a) (exact b))"

record audio_sequence_key =
  audio_album :: "normalized_text_key option"
  audio_disc_number :: "u64 option"
  audio_track_number :: "u64 option"
  audio_title :: "normalized_text_key option"

record video_sequence_key =
  video_season_number :: "u64 option"
  video_episode_number :: "u64 option"
  video_title :: "normalized_text_key option"

datatype smart_sequence_key =
    SmartAudio audio_sequence_key
  | SmartVideo video_sequence_key

datatype prepared_primary_key =
    PrimaryNaturalFilename
  | PrimaryText "normalized_text_key option"
  | PrimaryArtists "normalized_text_key list option"
  | PrimaryDuration "nat option"
  | PrimarySmartSequence "smart_sequence_key option"

record prepared_sort_entry =
  original_index :: nat
  primary :: prepared_primary_key
  natural_fallback :: natural_sort_key

definition prepare_smart_sequence ::
    "text_tables \<Rightarrow> cached_playlist_metadata \<Rightarrow> smart_sequence_key option" where
  "prepare_smart_sequence T m =
     (case media_kind m of
        Audio \<Rightarrow> Some (SmartAudio
          \<lparr>audio_album = map_option (normalized_text_key_new T) (album m),
           audio_disc_number = disc_number m, audio_track_number = track_number m,
           audio_title = map_option (normalized_text_key_new T) (title m)\<rparr>)
      | Video \<Rightarrow> Some (SmartVideo
          \<lparr>video_season_number = season_number m, video_episode_number = episode_number m,
           video_title = map_option (normalized_text_key_new T) (title m)\<rparr>)
      | Unknown \<Rightarrow> None)"

fun prepare_primary_key ::
    "text_tables \<Rightarrow> cached_playlist_metadata \<Rightarrow> playlist_sort_key \<Rightarrow> prepared_primary_key" where
  "prepare_primary_key T m NaturalFilename = PrimaryNaturalFilename"
| "prepare_primary_key T m Title = PrimaryText (map_option (normalized_text_key_new T) (title m))"
| "prepare_primary_key T m Artist =
     PrimaryArtists (if artists m \<noteq> [] then Some (map (normalized_text_key_new T) (artists m)) else None)"
| "prepare_primary_key T m Album = PrimaryText (map_option (normalized_text_key_new T) (album m))"
| "prepare_primary_key T m DurationKey = PrimaryDuration (meta_duration m)"
| "prepare_primary_key T m SmartSequence = PrimarySmartSequence (prepare_smart_sequence T m)"

fun entry_sort_source :: "playlist_entry \<Rightarrow> playlist_locator \<times> cached_playlist_metadata" where
  "entry_sort_source (Single it) = (locator (item_payload it), cached_metadata (item_payload it))"
| "entry_sort_source (Compound g) = (provenance_locator g, cached_summary g)"

definition prepare_sort_entry ::
    "text_tables \<Rightarrow> playlist_sort_key \<Rightarrow> nat \<times> playlist_entry \<Rightarrow> prepared_sort_entry" where
  "prepare_sort_entry T key = (\<lambda>(i, e).
     let (loc, m) = entry_sort_source e
     in \<lparr>original_index = i, primary = prepare_primary_key T m key,
         natural_fallback = prepare_natural_sort_key T loc (fallback_display_name m) (entry_id e)\<rparr>)"

definition prepare_sort_entries ::
    "text_tables \<Rightarrow> playlist_entry list \<Rightarrow> playlist_sort_key \<Rightarrow> prepared_sort_entry list" where
  "prepare_sort_entries T es key = map (prepare_sort_entry T key) (enumerate 0 es)"

subsection \<open>The comparator\<close>

fun compare_known_optional ::
    "('a \<Rightarrow> 'a \<Rightarrow> ordering) \<Rightarrow> 'a option \<Rightarrow> 'a option \<Rightarrow> sort_direction \<Rightarrow> ordering" where
  "compare_known_optional cmp (Some a) (Some b) d = direction_apply d (cmp a b)"
| "compare_known_optional cmp (Some _) None d = Less"
| "compare_known_optional cmp None (Some _) d = Greater"
| "compare_known_optional cmp None None d = Equal"

definition compare_audio_sequence ::
    "audio_sequence_key \<Rightarrow> audio_sequence_key \<Rightarrow> sort_direction \<Rightarrow> ordering" where
  "compare_audio_sequence a b d =
     then_with (compare_known_optional text_key_cmp (audio_album a) (audio_album b) d)
    (then_with (compare_known_optional linear_cmp (audio_disc_number a) (audio_disc_number b) d)
    (then_with (compare_known_optional linear_cmp (audio_track_number a) (audio_track_number b) d)
               (compare_known_optional text_key_cmp (audio_title a) (audio_title b) d)))"

definition compare_video_sequence ::
    "video_sequence_key \<Rightarrow> video_sequence_key \<Rightarrow> sort_direction \<Rightarrow> ordering" where
  "compare_video_sequence a b d =
     then_with (compare_known_optional linear_cmp (video_season_number a) (video_season_number b) d)
    (then_with (compare_known_optional linear_cmp (video_episode_number a) (video_episode_number b) d)
               (compare_known_optional text_key_cmp (video_title a) (video_title b) d))"

fun compare_smart_sequence ::
    "smart_sequence_key \<Rightarrow> smart_sequence_key \<Rightarrow> sort_direction \<Rightarrow> ordering" where
  "compare_smart_sequence (SmartAudio a) (SmartAudio b) d = compare_audio_sequence a b d"
| "compare_smart_sequence (SmartVideo a) (SmartVideo b) d = compare_video_sequence a b d"
| "compare_smart_sequence (SmartAudio _) (SmartVideo _) d = direction_apply d Less"
| "compare_smart_sequence (SmartVideo _) (SmartAudio _) d = direction_apply d Greater"

fun compare_optional_smart ::
    "smart_sequence_key option \<Rightarrow> smart_sequence_key option \<Rightarrow> sort_direction \<Rightarrow> ordering" where
  "compare_optional_smart (Some a) (Some b) d = compare_smart_sequence a b d"
| "compare_optional_smart (Some _) None d = Less"
| "compare_optional_smart None (Some _) d = Greater"
| "compare_optional_smart None None d = Equal"

text \<open>Two entries of different sort keys never meet: the source panics there.\<close>

fun compare_primary :: "prepared_primary_key \<Rightarrow> prepared_primary_key \<Rightarrow> sort_direction \<Rightarrow> ordering run" where
  "compare_primary (PrimaryText a) (PrimaryText b) d = Some (compare_known_optional text_key_cmp a b d)"
| "compare_primary (PrimaryArtists a) (PrimaryArtists b) d =
     Some (compare_known_optional (list_cmp text_key_cmp) a b d)"
| "compare_primary (PrimaryDuration a) (PrimaryDuration b) d =
     Some (compare_known_optional linear_cmp a b d)"
| "compare_primary (PrimarySmartSequence a) (PrimarySmartSequence b) d =
     Some (compare_optional_smart a b d)"
| "compare_primary _ _ d = None"

definition compare_entries ::
    "prepared_sort_entry \<Rightarrow> prepared_sort_entry \<Rightarrow> sort_direction \<Rightarrow> ordering run" where
  "compare_entries a b d =
     (if primary a = PrimaryNaturalFilename \<and> primary b = PrimaryNaturalFilename
      then Some (direction_apply d (natural_sort_key_cmp (natural_fallback a) (natural_fallback b)))
      else map_option
        (\<lambda>ord. then_with ord (natural_sort_key_cmp (natural_fallback a) (natural_fallback b)))
        (compare_primary (primary a) (primary b) d))"

section \<open>The derived orders are total\<close>

text \<open>Every derived order is the lexicographic order of a list of number lists: the position of the
  variant, then the fields.\<close>

definition keys_cmp :: "nat list list \<Rightarrow> nat list list \<Rightarrow> ordering" where
  "keys_cmp = list_cmp (list_cmp linear_cmp)"

definition string_key :: "string \<Rightarrow> nat list" where
  "string_key = map of_char"

fun platform_key :: "exact_foreign_platform \<Rightarrow> nat list" where
  "platform_key (ExactOther s) = 3 # string_key s"
| "platform_key p = [platform_rank p]"

fun units_key :: "exact_foreign_units \<Rightarrow> nat list list" where
  "units_key (ExactUtf8 s) = [[0], string_key s]"
| "units_key (ExactBytes us) = [[1], map unat us]"
| "units_key (ExactWide us) = [[2], map unat us]"
| "units_key (ExactOpaque s us) = [[3], string_key s, map unat us]"

fun name_key :: "exact_name_key \<Rightarrow> nat list list" where
  "name_key (NameUtf8 s) = [[0], string_key s]"
| "name_key (NameNative s) = [[1], string_key s]"
| "name_key (NameForeign us) = [2] # units_key us"

fun component_key :: "path_component \<Rightarrow> nat list" where
  "component_key (NormalComponent s) = 4 # string_key s"
| "component_key c = [component_rank c]"

fun locator_key :: "exact_locator_key \<Rightarrow> nat list list" where
  "locator_key (LocatorNative p) = [0] # map component_key (path_components p)"
| "locator_key (LocatorForeign p us) = [1] # platform_key p # units_key us"
| "locator_key (LocatorUrl s) = [[2], string_key s]"

lemma list_cmp_map: "list_cmp c (map f xs) (map f ys) = list_cmp (\<lambda>x y. c (f x) (f y)) xs ys"
  by (induction "\<lambda>x y. c (f x) (f y)" xs ys rule: list_cmp.induct) simp_all

lemma linear_cmp_unat: "linear_cmp (unat a) (unat b) = linear_cmp a b"
  by (simp add: linear_cmp_def word_less_nat_alt word_unat_eq_iff)

lemma string_cmp_key: "string_cmp a b = list_cmp linear_cmp (string_key a) (string_key b)"
  by (simp add: string_cmp_def string_key_def list_cmp_map)

lemma words_cmp_key: "list_cmp linear_cmp a b = list_cmp linear_cmp (map unat a) (map unat b)"
  by (simp add: list_cmp_map linear_cmp_unat)

lemma platform_cmp_key: "platform_cmp a b = list_cmp linear_cmp (platform_key a) (platform_key b)"
  by (cases a; cases b) (simp_all add: string_cmp_key linear_cmp_def)

lemma units_cmp_key: "units_cmp a b = keys_cmp (units_key a) (units_key b)"
  by (cases a; cases b)
    (simp_all add: keys_cmp_def string_cmp_key words_cmp_key linear_cmp_def then_with_def)

lemma name_cmp_key: "name_cmp a b = keys_cmp (name_key a) (name_key b)"
  by (cases a; cases b)
    (simp_all add: keys_cmp_def string_cmp_key units_cmp_key linear_cmp_def then_with_def)

lemma component_cmp_key: "component_cmp a b = list_cmp linear_cmp (component_key a) (component_key b)"
  by (cases a; cases b) (simp_all add: string_cmp_key linear_cmp_def)

lemma path_cmp_key:
  "path_cmp a b = keys_cmp (map component_key (path_components a)) (map component_key (path_components b))"
  by (simp add: path_cmp_def keys_cmp_def list_cmp_map component_cmp_key [abs_def])

lemma locator_cmp_key: "locator_cmp a b = keys_cmp (locator_key a) (locator_key b)"
  by (cases a; cases b)
    (simp_all add: keys_cmp_def string_cmp_key units_cmp_key platform_cmp_key path_cmp_key
      linear_cmp_def then_with_def)

lemma total_keys_cmp: "total_comparator keys_cmp"
  unfolding keys_cmp_def by (intro total_comparator_list linear.total_comparator_axioms)

lemma total_string_cmp: "total_comparator string_cmp"
  unfolding string_cmp_key
  by (rule total_comparator_key, rule total_comparator_list, rule linear.total_comparator_axioms)

lemma total_natural_sort_key_cmp: "total_comparator natural_sort_key_cmp"
proof -
  have "total_comparator (lex_cmp (\<lambda>a b. natural_key_cmp (natural_name a) (natural_name b))
     (lex_cmp (\<lambda>a b. keys_cmp (name_key (exact_name a)) (name_key (exact_name b)))
     (lex_cmp (\<lambda>a b. keys_cmp (locator_key (exact_locator a)) (locator_key (exact_locator b)))
        (\<lambda>a b. linear_cmp (key_entry_id a) (key_entry_id b)))))"
    by (intro total_comparator_lex)
      (rule total_comparator_key [OF natural.total_comparator_axioms, of natural_name]
         total_comparator_key [OF total_keys_cmp] total_comparator_key [OF linear.total_comparator_axioms])+
  then show ?thesis
    by (simp add: lex_cmp_def [abs_def] natural_sort_key_cmp_def [abs_def] name_cmp_key locator_cmp_key)
qed

lemma natural_sort_key_cmp_Equal:
  "natural_sort_key_cmp a b = Equal \<Longrightarrow> key_entry_id a = key_entry_id b"
  by (simp add: natural_sort_key_cmp_def)

subsection \<open>Primary keys\<close>

lemma direction_apply_cases: "direction_apply d = (if d = Ascending then id else ordering_reverse)"
  by (cases d) (auto simp: fun_eq_iff)

lemma total_direction: "total_comparator f \<Longrightarrow> total_comparator (\<lambda>x y. direction_apply d (f x y))"
  by (cases d) (simp_all add: total_comparator_reverse)

lemma total_optional:
  assumes "total_comparator f"
  shows "total_comparator (\<lambda>a b. compare_known_optional f a b d)"
proof -
  note g = total_comparator.cmp_refl [OF total_direction [OF assms, of d]]
    total_comparator.cmp_reverse [OF total_direction [OF assms, of d]]
    total_comparator.cmp_trans [OF total_direction [OF assms, of d]]
  show ?thesis
  proof
    fix x y z :: "'a option"
    show "compare_known_optional f x x d = Equal" using g(1) by (cases x) simp_all
    show "compare_known_optional f y x d = ordering_reverse (compare_known_optional f x y d)"
      by (cases x; cases y) (simp_all, rule g(2))
    assume "compare_known_optional f x y d \<noteq> Greater" "compare_known_optional f y z d \<noteq> Greater"
    then show "compare_known_optional f x z d \<noteq> Greater"
      by (cases x; cases y; cases z) (simp_all, rule g(3))
  qed
qed

lemma total_text_key_cmp: "total_comparator text_key_cmp"
proof -
  have "total_comparator (lex_cmp (\<lambda>a b. string_cmp (folded a) (folded b))
      (\<lambda>a b. string_cmp (exact a) (exact b)))"
    by (intro total_comparator_lex) (rule total_comparator_key [OF total_string_cmp])+
  then show ?thesis by (simp add: lex_cmp_def [abs_def] text_key_cmp_def [abs_def])
qed

lemmas total_parts =
  total_comparator_key [OF total_optional [OF total_text_key_cmp]]
  total_comparator_key [OF total_optional [OF linear.total_comparator_axioms]]
  total_comparator_key [OF total_optional [OF total_comparator_list [OF total_text_key_cmp]]]
  total_comparator_key [OF total_natural_sort_key_cmp]
  total_comparator_key [OF total_direction [OF total_natural_sort_key_cmp]]

lemma total_audio: "total_comparator (\<lambda>a b. compare_audio_sequence a b d)"
proof -
  have "total_comparator (lex_cmp (\<lambda>a b. compare_known_optional text_key_cmp (audio_album a) (audio_album b) d)
    (lex_cmp (\<lambda>a b. compare_known_optional linear_cmp (audio_disc_number a) (audio_disc_number b) d)
    (lex_cmp (\<lambda>a b. compare_known_optional linear_cmp (audio_track_number a) (audio_track_number b) d)
      (\<lambda>a b. compare_known_optional text_key_cmp (audio_title a) (audio_title b) d))))"
    by (intro total_comparator_lex) (rule total_parts)+
  then show ?thesis by (simp add: lex_cmp_def [abs_def] compare_audio_sequence_def)
qed

lemma total_video: "total_comparator (\<lambda>a b. compare_video_sequence a b d)"
proof -
  have "total_comparator (lex_cmp (\<lambda>a b. compare_known_optional linear_cmp (video_season_number a) (video_season_number b) d)
    (lex_cmp (\<lambda>a b. compare_known_optional linear_cmp (video_episode_number a) (video_episode_number b) d)
      (\<lambda>a b. compare_known_optional text_key_cmp (video_title a) (video_title b) d)))"
    by (intro total_comparator_lex) (rule total_parts)+
  then show ?thesis by (simp add: lex_cmp_def [abs_def] compare_video_sequence_def)
qed

fun smart_rank :: "smart_sequence_key \<Rightarrow> nat" where
  "smart_rank (SmartAudio _) = 0" | "smart_rank (SmartVideo _) = 1"

fun smart_audio :: "smart_sequence_key \<Rightarrow> audio_sequence_key option" where
  "smart_audio (SmartAudio a) = Some a" | "smart_audio (SmartVideo _) = None"

fun smart_video :: "smart_sequence_key \<Rightarrow> video_sequence_key option" where
  "smart_video (SmartAudio _) = None" | "smart_video (SmartVideo v) = Some v"

lemma total_smart: "total_comparator (\<lambda>a b. compare_smart_sequence a b d)"
proof -
  have "total_comparator (lex_cmp (\<lambda>a b. direction_apply d (linear_cmp (smart_rank a) (smart_rank b)))
    (lex_cmp (\<lambda>a b. compare_known_optional (\<lambda>x y. compare_audio_sequence x y d) (smart_audio a) (smart_audio b) Ascending)
      (\<lambda>a b. compare_known_optional (\<lambda>x y. compare_video_sequence x y d) (smart_video a) (smart_video b) Ascending)))"
    by (intro total_comparator_lex)
      (rule total_comparator_key [OF total_direction [OF linear.total_comparator_axioms]]
        total_comparator_key [OF total_optional [OF total_audio]]
        total_comparator_key [OF total_optional [OF total_video]])+
  moreover have "compare_smart_sequence a b d = lex_cmp (\<lambda>a b. direction_apply d (linear_cmp (smart_rank a) (smart_rank b)))
    (lex_cmp (\<lambda>a b. compare_known_optional (\<lambda>x y. compare_audio_sequence x y d) (smart_audio a) (smart_audio b) Ascending)
      (\<lambda>a b. compare_known_optional (\<lambda>x y. compare_video_sequence x y d) (smart_video a) (smart_video b) Ascending)) a b" for a b
    by (cases a; cases b; cases d) (simp_all add: lex_cmp_def linear_cmp_def then_with_def)
  ultimately show ?thesis by presburger
qed

lemma compare_optional_smart_alt:
  "compare_optional_smart a b d = compare_known_optional (\<lambda>x y. compare_smart_sequence x y d) a b Ascending"
  by (cases a; cases b) simp_all

section \<open>The order of one sort operation\<close>

definition entry_order ::
    "text_tables \<Rightarrow> playlist_sort_key \<Rightarrow> sort_direction \<Rightarrow> playlist_entry \<Rightarrow> playlist_entry \<Rightarrow> ordering" where
  "entry_order T key d e f =
     the (compare_entries (prepare_sort_entry T key (0, e)) (prepare_sort_entry T key (0, f)) d)"

lemma prepare_sort_entry_parts [simp]:
  "original_index (prepare_sort_entry T key (i, e)) = i"
  "primary (prepare_sort_entry T key (i, e)) = prepare_primary_key T (snd (entry_sort_source e)) key"
  "key_entry_id (natural_fallback (prepare_sort_entry T key (i, e))) = entry_id e"
  by (simp_all add: prepare_sort_entry_def prepare_natural_sort_key_def split: prod.split)

lemma prepare_sort_entry_fallback:
  "natural_fallback (prepare_sort_entry T key (i, e)) = natural_fallback (prepare_sort_entry T key (0, e))"
  by (simp add: prepare_sort_entry_def prepare_natural_sort_key_def split: prod.split)

lemma compare_entries_index:
  "compare_entries (prepare_sort_entry T key (i, e)) (prepare_sort_entry T key (j, f)) d =
   compare_entries (prepare_sort_entry T key (0, e)) (prepare_sort_entry T key (0, f)) d"
  unfolding compare_entries_def prepare_sort_entry_parts(2)
  by (simp only: prepare_sort_entry_fallback [of T key i] prepare_sort_entry_fallback [of T key j])

lemma compare_entries_prepared:
  "compare_entries (prepare_sort_entry T key (i, e)) (prepare_sort_entry T key (j, f)) d =
   Some (entry_order T key d e f)"
proof -
  have "\<exists>r. compare_entries (prepare_sort_entry T key (0, e)) (prepare_sort_entry T key (0, f)) d = Some r"
    by (cases key) (simp_all add: compare_entries_def)
  then show ?thesis
    using compare_entries_index [of T key i e j f d] by (auto simp: entry_order_def)
qed

lemma total_entry_order: "total_comparator (entry_order T key d)"
proof -
  define nat where "nat = (\<lambda>e. natural_fallback (prepare_sort_entry T key (0, e)))"
  define md where "md = (\<lambda>e. snd (entry_sort_source e))"
  have lex: "entry_order T key d = lex_cmp (\<lambda>e f. the (compare_primary
        (prepare_primary_key T (md e) key) (prepare_primary_key T (md f) key) d))
      (\<lambda>e f. natural_sort_key_cmp (nat e) (nat f))" if "key \<noteq> NaturalFilename"
    using that by (cases key) (simp_all add: entry_order_def compare_entries_def lex_cmp_def fun_eq_iff nat_def md_def)
  have direct: "entry_order T key d = (\<lambda>e f. direction_apply d (natural_sort_key_cmp (nat e) (nat f)))"
    if "key = NaturalFilename"
    using that by (simp add: entry_order_def compare_entries_def fun_eq_iff nat_def)
  have primary: "total_comparator (\<lambda>e f. the (compare_primary
        (prepare_primary_key T (md e) key) (prepare_primary_key T (md f) key) d))" if "key \<noteq> NaturalFilename"
    using that
    by (cases key) (simp_all only: prepare_primary_key.simps compare_primary.simps option.sel
        compare_optional_smart_alt playlist_sort_key.distinct simp_thms,
        (rule total_parts total_comparator_key [OF total_optional [OF total_smart]])+)
  show ?thesis
  proof (cases "key = NaturalFilename")
    case True
    then show ?thesis using direct total_parts(5) [of d nat] by simp
  next
    case False
    then show ?thesis unfolding lex [OF False] by (intro total_comparator_lex primary total_parts)
  qed
qed

interpretation entry: total_comparator "entry_order T key d" for T key d
  by (rule total_entry_order)

lemma entry_order_Equal: "entry_order T key d e f = Equal \<Longrightarrow> entry_id e = entry_id f"
proof -
  assume "entry_order T key d e f = Equal"
  then have "natural_sort_key_cmp (natural_fallback (prepare_sort_entry T key (0, e)))
      (natural_fallback (prepare_sort_entry T key (0, f))) = Equal"
    by (cases key; cases d) (simp_all add: entry_order_def compare_entries_def)
  from natural_sort_key_cmp_Equal [OF this] show ?thesis by simp
qed

end
