(* ===== verification/Index_Sort.thy ===== *)
theory Index_Sort
  imports Comparator
begin

text \<open>
  The sorting machinery below the canonical sort (playlist-core \<open>queue/sort.rs\<close> and
  \<open>queue/sort/prepared.rs\<close>): the standard library's stable sort, the cancellable bottom-up merge
  sort over two index buffers, and the in-place application of a permutation.
  \<^item> The merge loops are the source's loops over the buffers with the indices it uses; \<open>None\<close>
    stands for a panic and, for the two outer loops, also for not returning. \<open>merge_widths_ok\<close>
    shows that neither happens.
  \<^item> The cancellation callback is a function on its own state, called where the source calls it.
  \<^item> \<open>sorted_unique\<close>: a total comparator that separates the elements leaves one sorted order, so
    both sorts give the same list.
\<close>

section \<open>Definitions\<close>

text \<open>\<open>slice::sort_by\<close>: a stable sort; a comparator that panics stops it.\<close>

fun sort_insert :: "('a \<Rightarrow> 'a \<Rightarrow> ordering run) \<Rightarrow> 'a \<Rightarrow> 'a list \<Rightarrow> 'a list run" where
  "sort_insert cmp x [] = Some [x]"
| "sort_insert cmp x (y # ys) =
     (case cmp x y of
        None \<Rightarrow> None
      | Some Greater \<Rightarrow> map_option ((#) y) (sort_insert cmp x ys)
      | Some _ \<Rightarrow> Some (x # y # ys))"

fun sort_by :: "('a \<Rightarrow> 'a \<Rightarrow> ordering run) \<Rightarrow> 'a list \<Rightarrow> 'a list run" where
  "sort_by cmp [] = Some []"
| "sort_by cmp (x # xs) = (case sort_by cmp xs of None \<Rightarrow> None | Some ys \<Rightarrow> sort_insert cmp x ys)"

text \<open>\<open>slice::swap\<close> and indexed assignment.\<close>

definition swap_at :: "nat \<Rightarrow> nat \<Rightarrow> 'a list \<Rightarrow> 'a list run" where
  "swap_at i j xs =
     (if i < length xs \<and> j < length xs then Some (xs[i := xs ! j, j := xs ! i]) else None)"

definition slice_set :: "'a list \<Rightarrow> nat \<Rightarrow> 'a \<Rightarrow> 'a list run" where
  "slice_set xs i x = (if i < length xs then Some (xs[i := x]) else None)"

text \<open>One round of the loop of \<open>apply_prepared_order\<close> on the triple (items,
  original index at position, position of original index).\<close>

definition apply_order_step ::
    "nat \<Rightarrow> nat \<Rightarrow> 'a list \<times> nat list \<times> nat list \<Rightarrow> ('a list \<times> nat list \<times> nat list) run" where
  "apply_order_step new_position desired = (\<lambda>(items, at_position, position_of).
     case slice_get position_of desired of
       None \<Rightarrow> None
     | Some current_position \<Rightarrow>
         if current_position = new_position then Some (items, at_position, position_of)
         else case slice_get at_position new_position of
           None \<Rightarrow> None
         | Some displaced \<Rightarrow>
             case (swap_at new_position current_position items,
                   swap_at new_position current_position at_position,
                   slice_set position_of desired new_position) of
               (Some items', Some at_position', Some position_of') \<Rightarrow>
                 map_option (\<lambda>p. (items', at_position', p))
                   (slice_set position_of' displaced current_position)
             | _ \<Rightarrow> None)"

fun apply_order_loop ::
    "nat \<Rightarrow> nat list \<Rightarrow> 'a list \<times> nat list \<times> nat list \<Rightarrow> ('a list \<times> nat list \<times> nat list) run" where
  "apply_order_loop new_position [] s = Some s"
| "apply_order_loop new_position (desired # ds) s =
     (case apply_order_step new_position desired s of
        None \<Rightarrow> None
      | Some s' \<Rightarrow> apply_order_loop (Suc new_position) ds s')"

definition apply_prepared_order :: "'a list \<Rightarrow> nat list \<Rightarrow> 'a list run" where
  "apply_prepared_order items sorted_original_indices =
     map_option fst
       (apply_order_loop 0 sorted_original_indices
          (items, [0..<length items], [0..<length items]))"

datatype canonical_sort_preparation_cancelled = CanonicalSortPreparationCancelled

type_synonym 'c cancel_callback = "'c \<Rightarrow> bool \<times> 'c"

text \<open>The inner loop that compares the heads of two runs. Its state is (merged, left, right, output,
  comparisons, callback state).\<close>

function merge_heads ::
    "'c cancel_callback \<Rightarrow> (nat \<Rightarrow> nat \<Rightarrow> ordering run) \<Rightarrow> nat list \<Rightarrow> nat \<Rightarrow> nat \<Rightarrow>
     nat list \<Rightarrow> nat \<Rightarrow> nat \<Rightarrow> nat \<Rightarrow> nat \<Rightarrow> 'c \<Rightarrow>
     (canonical_sort_preparation_cancelled + nat list \<times> nat \<times> nat \<times> nat \<times> nat \<times> 'c) run" where
  "merge_heads is_cancelled cmp current middle stop merged left right dest comparisons c =
     (if left < middle \<and> right < stop then
        (if fst (is_cancelled c) then Some (Inl CanonicalSortPreparationCancelled)
         else let c' = snd (is_cancelled c)
        in case (slice_get current left, slice_get current right) of
          (Some l, Some r) \<Rightarrow>
            (case cmp l r of
               None \<Rightarrow> None
             | Some ord \<Rightarrow>
                 if ord \<noteq> Greater then
                   (case slice_set merged dest l of
                      None \<Rightarrow> None
                    | Some merged' \<Rightarrow>
                        merge_heads is_cancelled cmp current middle stop merged' (left + 1) right
                          (dest + 1) (comparisons + 1) c')
                 else
                   (case slice_set merged dest r of
                      None \<Rightarrow> None
                    | Some merged' \<Rightarrow>
                        merge_heads is_cancelled cmp current middle stop merged' left (right + 1)
                          (dest + 1) (comparisons + 1) c'))
        | _ \<Rightarrow> None)
      else Some (Inr (merged, left, right, dest, comparisons, c)))"
  by pat_completeness auto
termination
  by (relation "measure (\<lambda>(_, _, _, middle, stop, _, left, right, _).
        (middle - left) + (stop - right))") auto

text \<open>The two loops that copy what is left of a run.\<close>

function copy_run ::
    "nat list \<Rightarrow> nat \<Rightarrow> nat list \<Rightarrow> nat \<Rightarrow> nat \<Rightarrow> (nat list \<times> nat) run" where
  "copy_run current stop merged src dest =
     (if src < stop then
        (case slice_get current src of
           None \<Rightarrow> None
         | Some x \<Rightarrow>
             (case slice_set merged dest x of
                None \<Rightarrow> None
              | Some merged' \<Rightarrow> copy_run current stop merged' (src + 1) (dest + 1)))
      else Some (merged, dest))"
  by pat_completeness auto
termination
  by (relation "measure (\<lambda>(_, stop, _, src, _). stop - src)") auto

definition merge_block ::
    "'c cancel_callback \<Rightarrow> (nat \<Rightarrow> nat \<Rightarrow> ordering run) \<Rightarrow> nat list \<Rightarrow> nat \<Rightarrow> nat \<Rightarrow> nat \<Rightarrow>
     nat list \<Rightarrow> nat \<Rightarrow> 'c \<Rightarrow>
     (canonical_sort_preparation_cancelled + nat list \<times> nat \<times> 'c) run" where
  "merge_block is_cancelled cmp current start middle stop merged comparisons c =
     (case merge_heads is_cancelled cmp current middle stop merged start middle start comparisons c of
        None \<Rightarrow> None
      | Some (Inl err) \<Rightarrow> Some (Inl err)
      | Some (Inr (merged1, left, right, dest, comparisons', c')) \<Rightarrow>
          (case copy_run current middle merged1 left dest of
             None \<Rightarrow> None
           | Some (merged2, dest') \<Rightarrow>
               map_option (\<lambda>(merged3, _). Inr (merged3, comparisons', c'))
                 (copy_run current stop merged2 right dest')))"

partial_function (option) merge_pass ::
    "'c cancel_callback \<Rightarrow> (nat \<Rightarrow> nat \<Rightarrow> ordering run) \<Rightarrow> nat \<Rightarrow> nat list \<Rightarrow> nat \<Rightarrow>
     nat list \<Rightarrow> nat \<Rightarrow> 'c \<Rightarrow>
     (canonical_sort_preparation_cancelled + nat list \<times> nat \<times> 'c) run" where
  "merge_pass is_cancelled cmp width current start merged comparisons c =
     (if start < length current then
        (if fst (is_cancelled c) then Some (Inl CanonicalSortPreparationCancelled)
         else
        let c' = snd (is_cancelled c);
            middle = min (usize_saturating_add start width) (length current);
            stop = min (usize_saturating_add middle width) (length current)
        in case merge_block is_cancelled cmp current start middle stop merged comparisons c' of
             None \<Rightarrow> None
           | Some (Inl err) \<Rightarrow> Some (Inl err)
           | Some (Inr (merged', comparisons', c'')) \<Rightarrow>
               merge_pass is_cancelled cmp width current stop merged' comparisons' c'')
      else Some (Inr (merged, comparisons, c)))"

text \<open>The outer loop: a pass, the swap of the buffers, twice the width.\<close>

partial_function (option) merge_widths ::
    "'c cancel_callback \<Rightarrow> (nat \<Rightarrow> nat \<Rightarrow> ordering run) \<Rightarrow> nat \<Rightarrow> nat list \<Rightarrow> nat list \<Rightarrow> nat \<Rightarrow>
     'c \<Rightarrow> (canonical_sort_preparation_cancelled + nat list \<times> nat \<times> 'c) run" where
  "merge_widths is_cancelled cmp width current merged comparisons c =
     (if width < length current then
        (case merge_pass is_cancelled cmp width current 0 merged comparisons c of
           None \<Rightarrow> None
         | Some (Inl err) \<Rightarrow> Some (Inl err)
         | Some (Inr (merged', comparisons', c')) \<Rightarrow>
             merge_widths is_cancelled cmp (usize_saturating_mul width 2) merged' current
               comparisons' c')
      else Some (Inr (current, comparisons, c)))"

section \<open>Sorted lists\<close>

definition cmp_sorted :: "('a \<Rightarrow> 'a \<Rightarrow> ordering) \<Rightarrow> 'a list \<Rightarrow> bool" where
  "cmp_sorted cmp = sorted_wrt (\<lambda>x y. cmp x y \<noteq> Greater)"

lemma cmp_sorted_simps [simp]:
  "cmp_sorted cmp []"
  "cmp_sorted cmp (x # xs) \<longleftrightarrow> (\<forall>y \<in> set xs. cmp x y \<noteq> Greater) \<and> cmp_sorted cmp xs"
  by (simp_all add: cmp_sorted_def)

lemma cmp_sorted_map: "cmp_sorted cmp (map f xs) = cmp_sorted (\<lambda>x y. cmp (f x) (f y)) xs"
  by (simp add: cmp_sorted_def sorted_wrt_map)

context total_comparator
begin

lemma sorted_unique:
  assumes "cmp_sorted cmp xs" and "cmp_sorted cmp ys" and "mset xs = mset ys"
    and "\<And>x y. x \<in> set xs \<Longrightarrow> y \<in> set xs \<Longrightarrow> cmp x y = Equal \<Longrightarrow> x = y"
  shows "xs = ys"
  using assms
proof (induction xs arbitrary: ys)
  case Nil
  then show ?case by simp
next
  case (Cons x xs)
  then obtain y ys' where ys: "ys = y # ys'" by (cases ys) auto
  have set: "set (x # xs) = set ys" using Cons.prems(3) by (rule mset_eq_setD)
  have "cmp x y \<noteq> Greater"
  proof (cases "x = y")
    case False
    then have "y \<in> set xs" using set ys by auto
    then show ?thesis using Cons.prems(1) by simp
  qed (simp add: cmp_refl)
  moreover have "cmp y x \<noteq> Greater"
  proof (cases "x = y")
    case False
    then have "x \<in> set ys'" using set ys by auto
    then show ?thesis using Cons.prems(2) ys by simp
  qed (simp add: cmp_refl)
  ultimately have "cmp x y = Equal" by (rule cmp_antisym)
  moreover have "y \<in> set (x # xs)" using set ys by simp
  ultimately have xy: "x = y" using Cons.prems(4) by simp
  have "xs = ys'"
  proof (rule Cons.IH)
    show "cmp_sorted cmp xs" "cmp_sorted cmp ys'" using Cons.prems(1,2) ys by simp_all
    show "mset xs = mset ys'" using Cons.prems(3) ys xy by simp
    show "a = b" if "a \<in> set xs" "b \<in> set xs" "cmp a b = Equal" for a b
      using that Cons.prems(4) by simp
  qed
  then show ?case using xy ys by simp
qed

text \<open>The standard sort returns a sorted permutation.\<close>

lemma sort_insert_ok:
  assumes "\<And>y. y \<in> set ys \<Longrightarrow> f x y = Some (cmp x y)" and "cmp_sorted cmp ys"
  shows "\<exists>zs. sort_insert f x ys = Some zs \<and> mset zs = add_mset x (mset ys) \<and> cmp_sorted cmp zs"
  using assms
proof (induction ys)
  case Nil
  then show ?case by simp
next
  case (Cons y ys)
  show ?case
  proof (cases "cmp x y = Greater")
    case True
    from Cons obtain zs where zs: "sort_insert f x ys = Some zs" "mset zs = add_mset x (mset ys)"
      "cmp_sorted cmp zs" by auto
    have "cmp y x \<noteq> Greater" using True cmp_total [of x y] by simp
    moreover have "set zs = insert x (set ys)" using zs(2) mset_eq_setD [of zs "x # ys"] by simp
    ultimately show ?thesis using zs True Cons.prems by auto
  next
    case False
    then have "cmp x z \<noteq> Greater" if "z \<in> set ys" for z
      using that Cons.prems(2) cmp_trans [of x y z] by simp
    then show ?thesis using False Cons.prems by (auto split: ordering.split)
  qed
qed

lemma sort_by_ok:
  assumes "\<And>x y. x \<in> set xs \<Longrightarrow> y \<in> set xs \<Longrightarrow> f x y = Some (cmp x y)"
  shows "\<exists>zs. sort_by f xs = Some zs \<and> mset zs = mset xs \<and> cmp_sorted cmp zs"
  using assms
proof (induction xs)
  case Nil
  then show ?case by simp
next
  case (Cons x xs)
  from Cons obtain ys where ys: "sort_by f xs = Some ys" "mset ys = mset xs" "cmp_sorted cmp ys" by auto
  have "f x y = Some (cmp x y)" if "y \<in> set ys" for y
    using that mset_eq_setD [OF ys(2)] Cons.prems by simp
  then have "\<exists>zs. sort_insert f x ys = Some zs \<and> mset zs = add_mset x (mset ys) \<and> cmp_sorted cmp zs"
    using ys(3) by (rule sort_insert_ok)
  with ys show ?case by auto
qed

end

section \<open>The merge loops\<close>

fun merge_by :: "('a \<Rightarrow> 'a \<Rightarrow> ordering) \<Rightarrow> 'a list \<Rightarrow> 'a list \<Rightarrow> 'a list" where
  "merge_by cmp [] ys = ys"
| "merge_by cmp xs [] = xs"
| "merge_by cmp (x # xs) (y # ys) =
     (if cmp x y = Greater then y # merge_by cmp (x # xs) ys else x # merge_by cmp xs (y # ys))"

lemma merge_by_Nil2 [simp]: "merge_by cmp xs [] = xs"
  by (cases xs) simp_all

lemma merge_by_mset [simp]: "mset (merge_by cmp xs ys) = mset xs + mset ys"
  by (induction cmp xs ys rule: merge_by.induct) simp_all

lemma merge_by_set [simp]: "set (merge_by cmp xs ys) = set xs \<union> set ys"
  by (metis merge_by_mset set_mset_mset set_mset_union)

lemma merge_by_length [simp]: "length (merge_by cmp xs ys) = length xs + length ys"
  by (metis merge_by_mset size_mset size_union)

context total_comparator
begin

lemma merge_by_sorted:
  "cmp_sorted cmp xs \<Longrightarrow> cmp_sorted cmp ys \<Longrightarrow> cmp_sorted cmp (merge_by cmp xs ys)"
proof (induction xs arbitrary: ys)
  case (Cons x xs)
  note outer = Cons
  show ?case using outer(3)
  proof (induction ys)
    case (Cons y ys)
    show ?case
    proof (cases "cmp x y = Greater")
      case True
      have yx: "cmp y x \<noteq> Greater" using True cmp_total [of x y] by simp
      then have "cmp y z \<noteq> Greater" if "z \<in> set xs" for z
        using that outer(2) cmp_trans [of y x z] by simp
      then show ?thesis using True yx Cons by auto
    next
      case False
      then have "cmp x z \<noteq> Greater" if "z \<in> set ys" for z
        using that Cons.prems cmp_trans [of x y z] by simp
      then show ?thesis using False outer(1) [of "y # ys"] outer(2) Cons.prems by auto
    qed
  qed (use outer(2) in simp)
qed simp

end

definition span_of :: "'a list \<Rightarrow> nat \<Rightarrow> nat \<Rightarrow> 'a list" where
  "span_of xs a b = take (b - a) (drop a xs)"

lemma span_of_same [simp]: "span_of xs a a = []"
  by (simp add: span_of_def)

lemma span_of_Cons: "a < b \<Longrightarrow> b \<le> length xs \<Longrightarrow> span_of xs a b = xs ! a # span_of xs (Suc a) b"
  by (cases "b - a") (simp_all add: span_of_def flip: Cons_nth_drop_Suc, metis Suc_diff_Suc diff_Suc_Suc old.nat.inject)

lemma span_of_length [simp]: "b \<le> length xs \<Longrightarrow> length (span_of xs a b) = b - a"
  by (simp add: span_of_def)

lemma span_of_subset: "set (span_of xs a b) \<subseteq> set xs"
  by (metis span_of_def set_drop_subset set_take_subset subset_trans)

lemma take_span_of_drop: "a \<le> b \<Longrightarrow> take a xs @ span_of xs a b @ drop b xs = xs"
  by (metis append_take_drop_id drop_drop le_add_diff_inverse span_of_def add.commute)

lemma slice_set_Some: "i < length xs \<Longrightarrow> slice_set xs i x = Some (xs[i := x])"
  by (simp add: slice_set_def)

lemma slice_get_nth: "i < length xs \<Longrightarrow> slice_get xs i = Some (xs ! i)"
  by (simp add: slice_get_def)

declare merge_heads.simps [simp del] copy_run.simps [simp del]

lemma copy_run_ok:
  assumes "src \<le> stop" "stop \<le> length current" "dest + (stop - src) \<le> length merged"
  shows "copy_run current stop merged src dest =
    Some (take dest merged @ span_of current src stop @ drop (dest + (stop - src)) merged,
          dest + (stop - src))"
  using assms
proof (induction current stop merged src dest rule: copy_run.induct)
  case (1 current stop merged src dest)
  show ?case
  proof (cases "src < stop")
    case True
    let ?m = "merged[dest := current ! src]"
    have out: "dest < length merged" using 1(4) True by simp
    have "copy_run current stop merged src dest = copy_run current stop ?m (src + 1) (dest + 1)"
      using True 1(3) out by (subst copy_run.simps) (simp add: slice_get_nth slice_set_Some)
    also have "\<dots> = Some (take (dest + 1) ?m @ span_of current (src + 1) stop
        @ drop (dest + 1 + (stop - (src + 1))) ?m, dest + 1 + (stop - (src + 1)))"
      by (rule 1(1)) (use True 1 out in \<open>simp_all add: slice_get_nth slice_set_Some\<close>)
    also have "dest + 1 + (stop - (src + 1)) = dest + (stop - src)" using True by simp
    also have "take (dest + 1) ?m = take dest merged @ [current ! src]"
      using out by (simp add: take_Suc_conv_app_nth)
    also have "drop (dest + (stop - src)) ?m = drop (dest + (stop - src)) merged"
      using True by (simp add: drop_update_cancel)
    finally show ?thesis using True 1(3) span_of_Cons [of src stop current] by simp
  next
    case False
    then show ?thesis using 1(2) by (subst copy_run.simps) simp
  qed
qed

text \<open>A run returns, and what it returns is a cancellation or satisfies \<open>P\<close>.\<close>

definition returns :: "('s \<Rightarrow> bool) \<Rightarrow> (canonical_sort_preparation_cancelled + 's) run \<Rightarrow> bool" where
  "returns P x \<longleftrightarrow> (\<exists>res. x = Some res \<and> (case res of Inl _ \<Rightarrow> True | Inr s \<Rightarrow> P s))"

lemma returns_simps [simp]:
  "returns P (Some (Inl e))" "returns P (Some (Inr s)) \<longleftrightarrow> P s" "\<not> returns P None"
  by (simp_all add: returns_def)

lemma returns_mono: "returns P x \<Longrightarrow> (\<And>s. P s \<Longrightarrow> Q s) \<Longrightarrow> returns Q x"
  by (auto simp: returns_def split: sum.splits)

lemma returns_cases:
  assumes "returns P x"
  obtains (cancelled) e where "x = Some (Inl e)" | (finished) s where "x = Some (Inr s)" "P s"
  using assms unfolding returns_def by (metis sum.case(2) sum.exhaust)

definition heads_ok ::
    "('a \<Rightarrow> 'a \<Rightarrow> ordering) \<Rightarrow> 'a list \<Rightarrow> nat \<Rightarrow> nat \<Rightarrow> 'a list \<Rightarrow> nat \<Rightarrow> nat \<Rightarrow> nat \<Rightarrow> nat \<Rightarrow>
     'a list \<times> nat \<times> nat \<times> nat \<times> nat \<times> 'c \<Rightarrow> bool" where
  "heads_ok c current middle stop merged left right dest comparisons = (\<lambda>(m, l, r, o', k, _).
     left \<le> l \<and> l \<le> middle \<and> right \<le> r \<and> r \<le> stop \<and> (l = middle \<or> r = stop)
     \<and> o' = l + (r - middle) \<and> k + dest = comparisons + o' \<and> length m = length merged
     \<and> take dest m = take dest merged \<and> drop o' m = drop o' merged
     \<and> merge_by c (span_of current left middle) (span_of current right stop)
       = span_of m dest o' @ span_of current l middle @ span_of current r stop)"

lemma heads_ok_step:
  assumes ok: "heads_ok c current middle stop (merged[dest := x]) left' right' (Suc dest) (Suc comparisons) s"
    and out: "dest < length merged" "left' + (right' - middle) = Suc dest"
    and len: "length merged = length current" "stop \<le> length current" "middle \<le> stop" "middle \<le> right'"
    and le: "left \<le> left'" "right \<le> right'"
    and merge: "merge_by c (span_of current left middle) (span_of current right stop)
      = x # merge_by c (span_of current left' middle) (span_of current right' stop)"
  shows "heads_ok c current middle stop merged left right dest comparisons s"
proof -
  obtain m l r o' k z where s: "s = (m, l, r, o', k, z)" by (metis prod_cases6)
  have ok': "left' \<le> l" "l \<le> middle" "right' \<le> r" "r \<le> stop" "l = middle \<or> r = stop" "o' = l + (r - middle)"
    "k + Suc dest = Suc comparisons + o'" "length m = length merged"
    "take (Suc dest) m = take (Suc dest) (merged[dest := x])"
    "drop o' m = drop o' (merged[dest := x])"
    "merge_by c (span_of current left' middle) (span_of current right' stop)
       = span_of m (Suc dest) o' @ span_of current l middle @ span_of current r stop"
    using ok unfolding heads_ok_def s prod.case length_list_update by blast+
  have o': "Suc dest \<le> o'" "o' \<le> length m" using ok'(1-8) out(2) len by linarith+
  have mx: "m ! dest = x" using arg_cong [OF ok'(9), of "\<lambda>xs. xs ! dest"] out(1) by simp
  have "take dest m = take dest merged"
    using arg_cong [OF ok'(9), of "take dest"] out(1) ok'(8) by (simp add: min_def)
  moreover have "drop o' m = drop o' merged" using ok'(10) o' by (simp add: drop_update_cancel)
  moreover have "span_of m dest o' = x # span_of m (Suc dest) o'" using o' mx by (simp add: span_of_Cons)
  ultimately show ?thesis using ok' merge le by (simp add: heads_ok_def s)
qed

lemma merge_heads_ok:
  assumes "\<And>l r. l \<in> set current \<Longrightarrow> r \<in> set current \<Longrightarrow> f l r = Some (c l r)"
    and "left \<le> middle" "middle \<le> right" "right \<le> stop" "stop \<le> length current"
      "length merged = length current" "dest = left + (right - middle)"
  shows "returns (heads_ok c current middle stop merged left right dest comparisons)
    (merge_heads is_cancelled f current middle stop merged left right dest comparisons z)"
  using assms
proof (induction is_cancelled f current middle stop merged left right dest comparisons z
    rule: merge_heads.induct)
  case (1 is_cancelled f current middle stop merged left right dest comparisons z)
  note f = 1(3) and b = 1(4-9)
  show ?case
  proof (cases "left < middle \<and> right < stop")
    case False
    then show ?thesis using b
      by (subst merge_heads.simps) (auto simp: heads_ok_def)
  next
    case True
    let ?l = "current ! left" and ?r = "current ! right"
    have mem: "?l \<in> set current" "?r \<in> set current" using True b by simp_all
    have out: "dest < length merged" using True b by linarith
    have sl: "span_of current left middle = ?l # span_of current (Suc left) middle"
      "span_of current right stop = ?r # span_of current (Suc right) stop"
      using True b by (simp_all add: span_of_Cons)
    have g: "slice_get current left = Some ?l" "slice_get current right = Some ?r"
      "f ?l ?r = Some (c ?l ?r)" "slice_set merged dest ?r = Some (merged[dest := ?r])"
      "slice_set merged dest ?l = Some (merged[dest := ?l])"
      using True b out f [OF mem] by (simp_all add: slice_get_nth slice_set_Some)
    show ?thesis
    proof (cases "fst (is_cancelled z)")
      case True
      with \<open>left < middle \<and> right < stop\<close> show ?thesis by (subst merge_heads.simps) simp
    next
      case uncancelled: False
      show ?thesis
      proof (cases "c ?l ?r = Greater")
        case gt: True
        let ?m = "merged[dest := ?r]"
        have run: "merge_heads is_cancelled f current middle stop merged left right dest comparisons z
          = merge_heads is_cancelled f current middle stop ?m left (right + 1) (dest + 1) (comparisons + 1)
              (snd (is_cancelled z))"
          using True uncancelled gt by (subst merge_heads.simps) (simp add: g Let_def)
        have "returns (heads_ok c current middle stop ?m left (right + 1) (dest + 1) (comparisons + 1))
          (merge_heads is_cancelled f current middle stop ?m left (right + 1) (dest + 1)
            (comparisons + 1) (snd (is_cancelled z)))"
          by (rule 1(2) [OF True uncancelled refl refl g(1,2,3) _ g(4)]) (use True gt b out in \<open>simp_all add: f\<close>)
        then show ?thesis unfolding run
        proof (rule returns_mono)
          fix s
          assume "heads_ok c current middle stop ?m left (right + 1) (dest + 1) (comparisons + 1) s"
          then show "heads_ok c current middle stop merged left right dest comparisons s"
            by (intro heads_ok_step [of c current middle stop merged dest ?r left "Suc right" comparisons _ left right]) (use True b out sl gt in simp_all)
        qed
      next
        case gt: False
        let ?m = "merged[dest := ?l]"
        have run: "merge_heads is_cancelled f current middle stop merged left right dest comparisons z
          = merge_heads is_cancelled f current middle stop ?m (left + 1) right (dest + 1) (comparisons + 1)
              (snd (is_cancelled z))"
          using True uncancelled gt by (subst merge_heads.simps) (simp add: g Let_def)
        have "returns (heads_ok c current middle stop ?m (left + 1) right (dest + 1) (comparisons + 1))
          (merge_heads is_cancelled f current middle stop ?m (left + 1) right (dest + 1)
            (comparisons + 1) (snd (is_cancelled z)))"
          by (rule 1(1) [OF True uncancelled refl refl g(1,2,3) _ g(5)]) (use True gt b out in \<open>simp_all add: f\<close>)
        then show ?thesis unfolding run
        proof (rule returns_mono)
          fix s
          assume "heads_ok c current middle stop ?m (left + 1) right (dest + 1) (comparisons + 1) s"
          then show "heads_ok c current middle stop merged left right dest comparisons s"
            by (intro heads_ok_step [of c current middle stop merged dest ?l "Suc left" right comparisons _ left right]) (use True b out sl gt in simp_all)
        qed
      qed
    qed
  qed
qed

lemma overwrite_facts:
  assumes "length xs = i" "length ys = j" "i + j \<le> k" "k \<le> length m"
  shows "take (i + j) (xs @ ys @ drop (i + j) m) = xs @ ys"
    and "length (xs @ ys @ drop (i + j) m) = length m"
    and "drop k (xs @ ys @ drop (i + j) m) = drop k m"
  using assms by auto

definition block_ok ::
    "('a \<Rightarrow> 'a \<Rightarrow> ordering) \<Rightarrow> 'a list \<Rightarrow> nat \<Rightarrow> nat \<Rightarrow> nat \<Rightarrow> 'a list \<Rightarrow> nat \<Rightarrow> 'a list \<times> nat \<times> 'c \<Rightarrow> bool" where
  "block_ok c current start middle stop merged comparisons = (\<lambda>(m, k, _).
     m = take start merged @ merge_by c (span_of current start middle) (span_of current middle stop)
           @ drop stop merged
     \<and> k \<le> comparisons + (stop - start))"

lemma merge_block_ok:
  assumes f: "\<And>l r. l \<in> set current \<Longrightarrow> r \<in> set current \<Longrightarrow> f l r = Some (c l r)"
    and b: "start \<le> middle" "middle \<le> stop" "stop \<le> length current" "length merged = length current"
  shows "returns (block_ok c current start middle stop merged comparisons)
    (merge_block is_cancelled f current start middle stop merged comparisons z)"
proof -
  have "returns (heads_ok c current middle stop merged start middle start comparisons)
    (merge_heads is_cancelled f current middle stop merged start middle start comparisons z)"
    by (rule merge_heads_ok) (use f b in auto)
  then show ?thesis
  proof (cases rule: returns_cases)
    case (cancelled e)
    then show ?thesis by (simp add: merge_block_def)
  next
    case (finished s)
    obtain m l r o' k z' where s: "s = (m, l, r, o', k, z')" by (metis prod_cases6)
    have ok: "start \<le> l" "l \<le> middle" "middle \<le> r" "r \<le> stop" "l = middle \<or> r = stop" "o' = l + (r - middle)"
      "k + start = comparisons + o'" "length m = length merged"
      "take start m = take start merged" "drop o' m = drop o' merged"
      "merge_by c (span_of current start middle) (span_of current middle stop)
         = span_of m start o' @ span_of current l middle @ span_of current r stop"
      using finished(2) unfolding heads_ok_def s prod.case by blast+
    have o': "start \<le> o'" "o' \<le> stop" using ok(1-6) by linarith+
    let ?o2 = "o' + (middle - l)"
    let ?m2 = "take o' m @ span_of current l middle @ drop ?o2 m"
    let ?m3 = "take ?o2 ?m2 @ span_of current r stop @ drop (?o2 + (stop - r)) ?m2"
    have end3: "?o2 + (stop - r) = stop" using ok(1-6) by linarith
    have len: "length (take o' m) = o'" "length (span_of current l middle) = middle - l"
      using o' b ok(8) by simp_all
    have le: "?o2 \<le> stop" "stop \<le> length m" using end3 b ok(8) by linarith+
    have m2: "take ?o2 ?m2 = take o' m @ span_of current l middle" "length ?m2 = length m"
      "drop stop ?m2 = drop stop m"
      by (rule overwrite_facts [OF len le])+
    have c1: "copy_run current middle m l o' = Some (?m2, ?o2)"
      by (rule copy_run_ok) (use ok b in simp_all)
    have c2: "copy_run current stop ?m2 r ?o2 = Some (?m3, ?o2 + (stop - r))"
      by (rule copy_run_ok) (use ok(4) b m2(2) ok(8) end3 in simp_all)
    have "take o' m = take start merged @ span_of m start o'"
      using ok(9) o' by (metis append_take_drop_id le_add_diff_inverse span_of_def take_add)
    moreover have "drop stop m = drop stop merged"
      using ok(10) o' by (metis drop_drop le_add_diff_inverse2)
    ultimately have "?m3 = take start merged @ merge_by c (span_of current start middle) (span_of current middle stop)
           @ drop stop merged"
      unfolding end3 m2 ok(11) by simp
    moreover have "k \<le> comparisons + (stop - start)" using ok(7) o' by linarith
    ultimately show ?thesis
      using finished(1) by (simp add: merge_block_def s c1 c2 block_ok_def)
  qed
qed

section \<open>Passes over runs\<close>

definition runs_sorted :: "('a \<Rightarrow> 'a \<Rightarrow> ordering) \<Rightarrow> nat \<Rightarrow> 'a list \<Rightarrow> bool" where
  "runs_sorted c w xs \<longleftrightarrow> (\<forall>k. cmp_sorted c (take w (drop (k * w) xs)))"

lemma runs_sorted_1: "runs_sorted c 1 xs"
proof -
  have "cmp_sorted c (take 1 ys)" for ys :: "'a list" by (cases ys) simp_all
  then show ?thesis by (simp add: runs_sorted_def)
qed

lemma runs_sorted_single: "length xs \<le> w \<Longrightarrow> runs_sorted c w xs \<longleftrightarrow> cmp_sorted c xs"
proof -
  assume le: "length xs \<le> w"
  have "cmp_sorted c (take w (drop (k * w) xs))" if "cmp_sorted c xs" for k
    using le that by (cases k) simp_all
  moreover have "cmp_sorted c (take w (drop (0 * w) xs)) \<Longrightarrow> cmp_sorted c xs" using le by simp
  ultimately show ?thesis unfolding runs_sorted_def by blast
qed

lemma runs_sorted_append:
  assumes "length a = w" "cmp_sorted c a" "runs_sorted c w b"
  shows "runs_sorted c w (a @ b)"
  unfolding runs_sorted_def
proof
  fix k
  show "cmp_sorted c (take w (drop (k * w) (a @ b)))"
    using assms by (cases k) (simp_all add: runs_sorted_def)
qed

lemma runs_sorted_drop: "runs_sorted c w xs \<Longrightarrow> runs_sorted c w (drop (j * w) xs)"
  unfolding runs_sorted_def by (metis add_mult_distrib drop_drop)

lemma runs_sorted_take: "runs_sorted c w xs \<Longrightarrow> cmp_sorted c (take w (drop (j * w) xs))"
  by (simp add: runs_sorted_def)

context total_comparator
begin

text \<open>Merging two neighbouring runs of one pass.\<close>

lemma runs_merge:
  assumes "runs_sorted cmp w xs" and "0 < w"
    and "runs_sorted cmp (2 * w) ys" "length ys = length (drop (2 * w) xs)"
  shows "runs_sorted cmp (2 * w) (merge_by cmp (take w xs) (take w (drop w xs)) @ ys)"
proof -
  have s: "cmp_sorted cmp (merge_by cmp (take w xs) (take w (drop w xs)))"
    using runs_sorted_take [OF assms(1), of 0] runs_sorted_take [OF assms(1), of 1]
    by (intro merge_by_sorted) simp_all
  show ?thesis
  proof (cases "2 * w \<le> length xs")
    case True
    then show ?thesis using s assms(3) by (intro runs_sorted_append) simp_all
  next
    case False
    then show ?thesis using s assms(4) by (simp add: runs_sorted_single)
  qed
qed

end

lemma window_segments:
  fixes start w n :: nat
  assumes "length xs = n" "start < n"
  defines "middle \<equiv> min (start + w) n"
  defines "stop \<equiv> min (middle + w) n"
  shows "span_of xs start middle = take w (drop start xs)"
    and "span_of xs middle stop = take w (drop w (drop start xs))"
    and "drop stop xs = drop (2 * w) (drop start xs)"
proof -
  show "span_of xs start middle = take w (drop start xs)"
    using assms(1,2) by (cases "start + w \<le> n") (simp_all add: span_of_def middle_def min_def)
  show "span_of xs middle stop = take w (drop w (drop start xs))"
  proof (cases "start + w \<le> n")
    case True
    then have "middle = start + w" by (simp add: middle_def)
    then show ?thesis using assms(1)
      by (cases "middle + w \<le> n") (simp_all add: span_of_def stop_def min_def add.commute)
  qed (use assms(1,2) in \<open>simp add: span_of_def stop_def middle_def\<close>)
  show "drop stop xs = drop (2 * w) (drop start xs)"
    using assms(1,2) by (cases "start + 2 * w \<le> n") (auto simp: stop_def middle_def min_def algebra_simps mult_2 mult_2_right)
qed

subsection \<open>The interface of the merge sort\<close>

text \<open>What the merge sort needs of its caller: on the indices below \<open>n\<close> the fallible comparison
  never panics and is a total order, and \<open>n\<close> is a length.\<close>

locale index_merge = total_comparator cmp for cmp :: "nat \<Rightarrow> nat \<Rightarrow> ordering" +
  fixes f :: "nat \<Rightarrow> nat \<Rightarrow> ordering run" and n :: nat
  assumes compares: "l < n \<Longrightarrow> r < n \<Longrightarrow> f l r = Some (cmp l r)"
    and fits: "n \<le> usize_max"
begin

definition pass_ok :: "nat \<Rightarrow> nat list \<Rightarrow> nat \<Rightarrow> nat list \<Rightarrow> nat \<Rightarrow> nat list \<times> nat \<times> 'c \<Rightarrow> bool" where
  "pass_ok w current start merged comparisons = (\<lambda>(m, k, _).
     (\<exists>zs. m = take start merged @ zs \<and> mset zs = mset (drop start current) \<and> runs_sorted cmp (2 * w) zs)
     \<and> k \<le> comparisons + (n - start))"

lemma merge_pass_ok:
  assumes "set current \<subseteq> {..<n}" "length current = n" "length merged = n" "0 < w"
    and "runs_sorted cmp w (drop start current)"
  shows "returns (pass_ok w current start merged comparisons)
    (merge_pass is_cancelled f w current start merged comparisons z)"
  using assms(3,5)
proof (induction "n - start" arbitrary: start merged comparisons z rule: less_induct)
  case less
  show ?case
  proof (cases "start < n")
    case False
    then show ?thesis using assms(2) less.prems
      by (subst merge_pass.simps) (simp add: pass_ok_def runs_sorted_single)
  next
    case True
    let ?xs = "drop start current"
    let ?M = "merge_by cmp (take w ?xs) (take w (drop w ?xs))"
    define middle where "middle = min (usize_saturating_add start w) n"
    define stop where "stop = min (usize_saturating_add middle w) n"
    have mid: "middle = min (start + w) n" using fits by (auto simp: middle_def usize_saturating_add_def)
    have st: "stop = min (middle + w) n" using fits by (auto simp: stop_def usize_saturating_add_def)
    have b: "start \<le> middle" "middle \<le> stop" "stop \<le> n" "start < stop"
      using mid st True assms(4) by linarith+
    have seg: "span_of current start middle = take w ?xs" "span_of current middle stop = take w (drop w ?xs)"
      "drop stop current = drop (2 * w) ?xs"
      using window_segments [of current n start w] assms(2) True mid st by simp_all
    have f: "f l r = Some (cmp l r)" if "l \<in> set current" "r \<in> set current" for l r
      using that assms(1) compares by auto
    show ?thesis
    proof (cases "fst (is_cancelled z)")
      case c: True
      then show ?thesis using True assms(2) by (subst merge_pass.simps) simp
    next
      case c: False
      have "returns (block_ok cmp current start middle stop merged comparisons)
        (merge_block is_cancelled f current start middle stop merged comparisons (snd (is_cancelled z)))"
        by (rule merge_block_ok) (use f b assms(2) less.prems(1) in simp_all)
      then show ?thesis
      proof (cases rule: returns_cases)
        case (cancelled e)
        then show ?thesis using True c assms(2)
          by (subst merge_pass.simps) (simp add: Let_def flip: middle_def stop_def)
      next
        case (finished s)
        obtain m k z' where s: "s = (m, k, z')" by (metis prod_cases3)
        have m: "m = take start merged @ ?M @ drop stop merged" and k: "k \<le> comparisons + (stop - start)"
          using finished(2) by (simp_all add: s block_ok_def seg)
        have run: "merge_pass is_cancelled f w current start merged comparisons z =
          merge_pass is_cancelled f w current stop m k z'"
          using True c assms(2) finished(1)
          by (subst merge_pass.simps) (simp add: Let_def s flip: middle_def stop_def)
        have lenM: "length ?M = stop - start" using mid st True assms(2) by simp linarith
        then have lm: "length m = n" "take stop m = take start merged @ ?M"
          using m b less.prems(1) by simp_all
        have "returns (pass_ok w current stop m k) (merge_pass is_cancelled f w current stop m k z')"
          by (rule less.hyps) (use b lm seg(3) runs_sorted_drop [OF less.prems(2), of 2] in simp_all)
        then show ?thesis unfolding run
        proof (rule returns_mono)
          fix t :: "nat list \<times> nat \<times> 'a"
          assume "pass_ok w current stop m k t"
          then obtain zs where zs: "fst t = take stop m @ zs" "mset zs = mset (drop stop current)"
            "runs_sorted cmp (2 * w) zs" "fst (snd t) \<le> k + (n - stop)"
            by (cases t) (auto simp: pass_ok_def)
          have "runs_sorted cmp (2 * w) (?M @ zs)"
            using less.prems(2) assms(4) zs(3) mset_eq_length [OF zs(2)] seg(3)
            by (intro runs_merge) simp_all
          moreover have "mset (?M @ zs) = mset ?xs"
            using zs(2) seg(3) by (metis (no_types) append_assoc append_take_drop_id drop_drop merge_by_mset mset_append mult_2)
          moreover have "fst t = take start merged @ ?M @ zs" using zs(1) lm(2) by simp
          moreover have "fst (snd t) \<le> comparisons + (n - start)" using zs(4) k b by linarith
          ultimately show "pass_ok w current start merged comparisons t"
            by (cases t) (auto simp: pass_ok_def)
        qed
      qed
    qed
  qed
qed

definition sort_ok :: "nat list \<Rightarrow> nat \<Rightarrow> nat \<Rightarrow> nat list \<times> nat \<times> 'c \<Rightarrow> bool" where
  "sort_ok current passes comparisons = (\<lambda>(m, k, _).
     mset m = mset current \<and> cmp_sorted cmp m \<and> k \<le> comparisons + n * passes)"

lemma merge_widths_ok:
  assumes "set current \<subseteq> {..<n}" "length current = n" "length merged = n" "0 < w"
    and "runs_sorted cmp w current" and "n \<le> w * 2 ^ passes"
  shows "returns (sort_ok current passes comparisons)
    (merge_widths is_cancelled f w current merged comparisons z)"
  using assms
proof (induction "n - w" arbitrary: w current merged comparisons z passes rule: less_induct)
  case less
  show ?case
  proof (cases "w < n")
    case False
    then show ?thesis using less.prems
      by (subst merge_widths.simps) (simp add: sort_ok_def runs_sorted_single)
  next
    case True
    obtain p where p: "passes = Suc p" using True less.prems(6) by (cases passes) simp_all
    have "returns (pass_ok w current 0 merged comparisons)
      (merge_pass is_cancelled f w current 0 merged comparisons z)"
      by (rule merge_pass_ok) (use less.prems in simp_all)
    then show ?thesis
    proof (cases rule: returns_cases)
      case (cancelled e)
      then show ?thesis using True less.prems(2) by (subst merge_widths.simps) simp
    next
      case (finished s)
      obtain m k z' where s: "s = (m, k, z')" by (metis prod_cases3)
      have m: "mset m = mset current" "runs_sorted cmp (2 * w) m" "k \<le> comparisons + n"
        using finished(2) by (auto simp: s pass_ok_def)
      define w' where "w' = usize_saturating_mul w 2"
      have w': "w' = min (2 * w) usize_max" by (simp add: w'_def usize_saturating_mul_def mult.commute)
      have len: "length m = n" "set m \<subseteq> {..<n}"
        using mset_eq_length [OF m(1)] mset_eq_setD [OF m(1)] less.prems by simp_all
      have runs: "runs_sorted cmp w' m"
        using m(2) w' fits len(1) runs_sorted_single [of m "2 * w" cmp] runs_sorted_single [of m w' cmp]
        by (cases "2 * w \<le> usize_max") (auto simp: min_def)
      have cap: "n \<le> w' * 2 ^ p"
      proof (cases "2 * w \<le> usize_max")
        case True
        then show ?thesis using w' less.prems(6) p by (simp add: ac_simps)
      next
        case False
        have "n * 1 \<le> usize_max * 2 ^ p" using fits by (intro mult_le_mono) simp_all
        then show ?thesis using False w' by (simp add: min_def)
      qed
      have run: "merge_widths is_cancelled f w current merged comparisons z =
          merge_widths is_cancelled f w' m current k z'"
        using True less.prems(2) finished(1)
        by (subst merge_widths.simps) (simp add: s flip: w'_def)
      have "w < w'" using True w' fits less.prems(4) by linarith
      then have "returns (sort_ok m p k) (merge_widths is_cancelled f w' m current k z')"
        using less.prems(2) True len runs cap by (intro less.hyps) simp_all
      then show ?thesis unfolding run
        by (rule returns_mono) (use m(1,3) p in \<open>auto simp: sort_ok_def\<close>)
    qed
  qed
qed

end

section \<open>Applying a permutation in place\<close>

text \<open>The two index tables are inverse permutations and say where every element is.\<close>

definition order_inv ::
    "'a list \<Rightarrow> nat list \<Rightarrow> nat \<Rightarrow> 'a list \<times> nat list \<times> nat list \<Rightarrow> bool" where
  "order_inv xs ds k = (\<lambda>(items, tbl, pos).
     length items = length xs \<and> length tbl = length xs \<and> length pos = length xs
     \<and> (\<forall>i < length xs. tbl ! i < length xs \<and> items ! i = xs ! (tbl ! i) \<and> pos ! (tbl ! i) = i)
     \<and> (\<forall>j < length xs. pos ! j < length xs \<and> tbl ! (pos ! j) = j)
     \<and> (\<forall>i < k. tbl ! i = ds ! i))"

lemma apply_order_step_ok:
  assumes inv: "order_inv xs ds k (items, tbl, pos)" and k: "k < length xs" "k < length ds"
    and d: "ds ! k < length xs" "distinct ds"
  shows "\<exists>s'. apply_order_step k (ds ! k) (items, tbl, pos) = Some s' \<and> order_inv xs ds (Suc k) s'"
proof -
  let ?n = "length xs" and ?d = "ds ! k"
  let ?c = "pos ! ?d" and ?e = "tbl ! k"
  have len: "length items = ?n" "length tbl = ?n" "length pos = ?n" using inv by (simp_all add: order_inv_def)
  have tbl: "tbl ! i < ?n" "items ! i = xs ! (tbl ! i)" "pos ! (tbl ! i) = i" if "i < ?n" for i
    using inv that by (simp_all add: order_inv_def)
  have pos: "pos ! j < ?n" "tbl ! (pos ! j) = j" if "j < ?n" for j
    using inv that by (simp_all add: order_inv_def)
  have fixed: "tbl ! i = ds ! i" if "i < k" for i using inv that by (simp add: order_inv_def)
  show ?thesis
  proof (cases "?c = k")
    case True
    then have "tbl ! k = ?d" using pos(2) [OF d(1)] by simp
    then have "order_inv xs ds (Suc k) (items, tbl, pos)" using inv by (auto simp: order_inv_def less_Suc_eq)
    moreover have "apply_order_step k ?d (items, tbl, pos) = Some (items, tbl, pos)"
      using True d(1) len by (simp add: apply_order_step_def slice_get_nth)
    ultimately show ?thesis by blast
  next
    case False
    have c: "?c < ?n" "tbl ! ?c = ?d" using pos d(1) by simp_all
    have e: "?e < ?n" "pos ! ?e = k" using tbl k(1) by simp_all
    have de: "?d \<noteq> ?e" using e False by auto
    have ck: "\<not> ?c < k" using c(2) fixed d(2) k(2) by (metis less_imp_neq nth_eq_iff_index_eq order_less_trans)
    let ?items = "items[k := items ! ?c, ?c := items ! k]"
    let ?tbl = "tbl[k := ?d, ?c := ?e]" and ?pos = "pos[?d := k, ?e := ?c]"
    have "apply_order_step k ?d (items, tbl, pos) = Some (?items, ?tbl, ?pos)"
      using False d(1) len c e k
      by (simp add: apply_order_step_def slice_get_nth swap_at_def slice_set_Some)
    moreover have "order_inv xs ds (Suc k) (?items, ?tbl, ?pos)"
      unfolding order_inv_def prod.case
    proof (intro conjI allI impI)
      show "length ?items = ?n" "length ?tbl = ?n" "length ?pos = ?n" using len by simp_all
    next
      fix i
      assume i: "i < ?n"
      show "?tbl ! i < ?n" using i len tbl d(1) e(1) k(1) c(1) by (auto simp: nth_list_update)
      show "?items ! i = xs ! (?tbl ! i)"
        using i len tbl(2) k(1) c by (simp add: nth_list_update)
      show "?pos ! (?tbl ! i) = i"
      proof -
        consider "i = k" | "i = ?c" "i \<noteq> k" | "i \<noteq> k" "i \<noteq> ?c" by blast
        then show ?thesis
        proof cases
          case 3
          then have "tbl ! i \<noteq> ?d" "tbl ! i \<noteq> ?e" using tbl(3) [OF i] e(2) by auto
          then show ?thesis using 3 tbl(3) [OF i] by simp
        qed (use len c e d(1) k(1) de False in simp_all)
      qed
    next
      fix j
      assume j: "j < ?n"
      show "?pos ! j < ?n" using j len pos(1) k(1) c(1) d(1) e(1) by (simp add: nth_list_update)
      show "?tbl ! (?pos ! j) = j"
      proof -
        consider "j = ?d" | "j = ?e" "j \<noteq> ?d" | "j \<noteq> ?d" "j \<noteq> ?e" by blast
        then show ?thesis
        proof cases
          case 3
          then have "pos ! j \<noteq> k" "pos ! j \<noteq> ?c" using pos(2) [OF j] c(2) by auto
          then show ?thesis using 3 pos(2) [OF j] by simp
        qed (use len c e d(1) k(1) de False in simp_all)
      qed
    next
      fix i
      assume "i < Suc k"
      then consider "i = k" | "i < k" by linarith
      then show "?tbl ! i = ds ! i"
      proof cases
        case 1
        then show ?thesis using len k(1) False by simp
      next
        case 2
        then show ?thesis using ck fixed by auto
      qed
    qed
    ultimately show ?thesis by blast
  qed
qed

lemma apply_order_loop_ok:
  assumes "order_inv xs (ds1 @ ds2) (length ds1) s" "distinct (ds1 @ ds2)"
    "set (ds1 @ ds2) \<subseteq> {..<length xs}" "length (ds1 @ ds2) = length xs"
  shows "\<exists>s'. apply_order_loop (length ds1) ds2 s = Some s' \<and> order_inv xs (ds1 @ ds2) (length xs) s'"
  using assms
proof (induction ds2 arbitrary: ds1 s)
  case Nil
  then show ?case by simp
next
  case (Cons d ds2)
  obtain items tbl pos where s: "s = (items, tbl, pos)" by (metis prod_cases3)
  have "\<exists>s'. apply_order_step (length ds1) ((ds1 @ d # ds2) ! length ds1) (items, tbl, pos) = Some s'
      \<and> order_inv xs (ds1 @ d # ds2) (Suc (length ds1)) s'"
    by (rule apply_order_step_ok) (use Cons.prems s in auto)
  then obtain s' where s': "apply_order_step (length ds1) d s = Some s'"
    "order_inv xs ((ds1 @ [d]) @ ds2) (length (ds1 @ [d])) s'" by (auto simp: s)
  from Cons.IH [OF s'(2)] Cons.prems show ?case by (simp add: s'(1))
qed

lemma apply_prepared_order_ok:
  assumes "mset ds = mset [0..<length xs]"
  shows "apply_prepared_order xs ds = Some (map ((!) xs) ds)"
proof -
  have ds: "distinct ds" "set ds = {..<length xs}" "length ds = length xs"
    using mset_eq_imp_distinct_iff [OF assms] mset_eq_setD [OF assms] mset_eq_length [OF assms]
    by (simp_all only: distinct_upt set_upt length_upt atLeast0LessThan diff_zero)
  have "order_inv xs ([] @ ds) (length []) (xs, [0..<length xs], [0..<length xs])"
    by (simp add: order_inv_def)
  from apply_order_loop_ok [OF this] ds obtain items tbl pos where
    run: "apply_order_loop 0 ds (xs, [0..<length xs], [0..<length xs]) = Some (items, tbl, pos)"
    and inv: "order_inv xs ds (length xs) (items, tbl, pos)" by auto
  have "items = map ((!) xs) ds"
    using inv ds(3) by (intro nth_equalityI) (simp_all add: order_inv_def)
  then show ?thesis by (simp add: apply_prepared_order_def run)
qed

lemma mset_map_nth:
  assumes "mset ds = mset [0..<length xs]"
  shows "mset (map ((!) xs) ds) = mset xs"
proof -
  have "mset (map ((!) xs) ds) = image_mset ((!) xs) (mset [0..<length xs])" by (simp only: mset_map assms)
  also have "\<dots> = mset (map ((!) xs) [0..<length xs])" by (simp only: mset_map)
  also have "map ((!) xs) [0..<length xs] = xs" by (rule map_nth)
  finally show ?thesis .
qed

section \<open>Cancellation\<close>

text \<open>Only the callback cancels.\<close>

lemma merge_heads_uncancelled:
  assumes never: "\<forall>c. \<not> fst (is_cancelled c)"
  shows "merge_heads is_cancelled f current middle stop merged left right dest comparisons z \<noteq> Some (Inl e)"
proof (induction "(middle - left) + (stop - right)" arbitrary: merged left right dest comparisons z rule: less_induct)
  case less
  show ?case
  proof (cases "left < middle \<and> right < stop")
    case True
    then have l: "merge_heads is_cancelled f current middle stop m (left + 1) right d k c \<noteq> Some (Inl e)"
      and r: "merge_heads is_cancelled f current middle stop m left (right + 1) d k c \<noteq> Some (Inl e)" for m d k c
      by (intro less; linarith)+
    show ?thesis
      using True l r by (subst merge_heads.simps) (auto simp: never Let_def split: option.splits)
  next
    case False
    then show ?thesis by (subst merge_heads.simps) (simp only: if_False, simp)
  qed
qed

lemma merge_block_uncancelled:
  assumes "\<forall>c. \<not> fst (is_cancelled c)"
  shows "merge_block is_cancelled f current start middle stop merged comparisons z \<noteq> Some (Inl e)"
  using merge_heads_uncancelled [where is_cancelled = is_cancelled, OF assms]
  by (auto simp: merge_block_def split: option.splits sum.splits)

lemma merge_pass_uncancelled:
  assumes never: "\<forall>c. \<not> fst (is_cancelled c)"
    and "merge_pass is_cancelled f w current start merged comparisons z = Some res"
  shows "res \<noteq> Inl e"
proof -
  have block: "merge_block is_cancelled g cur a b c m k x \<noteq> Some (Inl e)" for g cur a b c m k x
    by (rule merge_block_uncancelled [OF never])
  show ?thesis
    by (rule merge_pass.raw_induct [OF _ assms(2), of "\<lambda>d _ _ _ _ _ _ _ y. d = is_cancelled \<longrightarrow> y \<noteq> Inl e", simplified])
      (fastforce simp: Let_def never block split: if_splits option.splits sum.splits)
qed

lemma merge_widths_uncancelled:
  assumes never: "\<forall>c. \<not> fst (is_cancelled c)"
    and "merge_widths is_cancelled f w current merged comparisons z = Some res"
  shows "res \<noteq> Inl e"
proof -
  have pass: "merge_pass is_cancelled g v cur a m k x \<noteq> Some (Inl e)" for g v cur a m k x
    using merge_pass_uncancelled [OF never] by blast
  show ?thesis
    by (rule merge_widths.raw_induct [OF _ assms(2), of "\<lambda>d _ _ _ _ _ _ y. d = is_cancelled \<longrightarrow> y \<noteq> Inl e", simplified])
      (fastforce simp: pass split: if_splits option.splits sum.splits)
qed

end
