(* ===== verification/Queue_Metadata.thy ===== *)
theory Queue_Metadata
  imports Queue
begin

text \<open>
  Metadata-only patches (playlist-core \<open>queue/metadata_patch.rs\<close>): a batch is checked against the
  committed items, staged, and applied in one step. It is the only mutation allowed while a
  reservation is active.
\<close>

section \<open>Definitions\<close>

record playlist_metadata_patch =
  patch_item_id :: playlist_item_id
  expected_locator :: playlist_locator
  expected_local_fingerprint :: "local_source_fingerprint option"
  refreshed_local_fingerprint :: "local_source_fingerprint option"
  patch_metadata :: cached_playlist_metadata

definition metadata_patch_new ::
    "playlist_item_id \<Rightarrow> playlist_locator \<Rightarrow> local_source_fingerprint option \<Rightarrow>
     cached_playlist_metadata \<Rightarrow> playlist_metadata_patch" where
  "metadata_patch_new i l fp m =
     \<lparr>patch_item_id = i, expected_locator = l, expected_local_fingerprint = fp,
      refreshed_local_fingerprint = fp, patch_metadata = m\<rparr>"

definition metadata_patch_refreshed_local ::
    "playlist_item_id \<Rightarrow> playlist_locator \<Rightarrow> local_source_fingerprint option \<Rightarrow>
     local_source_fingerprint \<Rightarrow> cached_playlist_metadata \<Rightarrow> playlist_metadata_patch" where
  "metadata_patch_refreshed_local i l fp refreshed m =
     \<lparr>patch_item_id = i, expected_locator = l, expected_local_fingerprint = fp,
      refreshed_local_fingerprint = Some refreshed, patch_metadata = m\<rparr>"

datatype metadata_patch_item_outcome =
    Applied playlist_item_id
  | NoChange playlist_item_id
  | NotFound playlist_item_id
  | SourceMismatch playlist_item_id

record metadata_patch_batch_outcome =
  item_outcomes :: "metadata_patch_item_outcome list"
  applied_count :: nat

datatype metadata_patch_batch_error = MetadataRevisionExhausted

type_synonym staged_cache =
  "playlist_item_id \<Rightarrow> (local_source_fingerprint option \<times> cached_playlist_metadata) option"

record prepared_metadata_patch_plan =
  staged_cache_by_item_id :: staged_cache
  plan_outcome :: metadata_patch_batch_outcome

record prepared_metadata_patch_batch_commit =
  commit_plan :: prepared_metadata_patch_plan
  next_metadata_revision :: u64

definition item_by_id :: "playlist_item list \<Rightarrow> playlist_item_id \<Rightarrow> playlist_item option" where
  "item_by_id its = map_of (rev (map (\<lambda>it. (item_id it, it)) its))"

definition effective_cache ::
    "staged_cache \<Rightarrow> playlist_item \<Rightarrow> local_source_fingerprint option \<times> cached_playlist_metadata" where
  "effective_cache staged it =
     (case staged (item_id it) of
        Some c \<Rightarrow> c
      | None \<Rightarrow> (local_fingerprint it, cached_metadata (item_payload it)))"

fun prepare_patches ::
    "(playlist_item_id \<Rightarrow> playlist_item option) \<Rightarrow> staged_cache \<Rightarrow> playlist_metadata_patch list \<Rightarrow>
     staged_cache \<times> metadata_patch_item_outcome list \<times> nat" where
  "prepare_patches look staged [] = (staged, [], 0)"
| "prepare_patches look staged (p # ps) =
     (case look (patch_item_id p) of
        None \<Rightarrow>
          (let (s, os, n) = prepare_patches look staged ps in (s, NotFound (patch_item_id p) # os, n))
      | Some it \<Rightarrow>
          if \<not> locator_eq (locator (item_payload it)) (expected_locator p)
             \<or> local_fingerprint it \<noteq> expected_local_fingerprint p
          then (let (s, os, n) = prepare_patches look staged ps
                in (s, SourceMismatch (patch_item_id p) # os, n))
          else if effective_cache staged it = (refreshed_local_fingerprint p, patch_metadata p)
          then (let (s, os, n) = prepare_patches look staged ps
                in (s, NoChange (patch_item_id p) # os, n))
          else (let (s, os, n) =
                  prepare_patches look
                    (staged(patch_item_id p \<mapsto> (refreshed_local_fingerprint p, patch_metadata p))) ps
                in (s, Applied (patch_item_id p) # os, Suc n)))"

definition prepare_metadata_patch_plan ::
    "playlist_item list \<Rightarrow> playlist_metadata_patch list \<Rightarrow> prepared_metadata_patch_plan" where
  "prepare_metadata_patch_plan its patches =
     (let (s, os, n) = prepare_patches (item_by_id its) (\<lambda>_. None) patches
      in \<lparr>staged_cache_by_item_id = s, plan_outcome = \<lparr>item_outcomes = os, applied_count = n\<rparr>\<rparr>)"

definition changed_metadata :: "prepared_metadata_patch_plan \<Rightarrow> bool" where
  "changed_metadata plan \<longleftrightarrow> applied_count (plan_outcome plan) > 0"

text \<open>A staged cache is removed from the map when it is applied.\<close>

definition patch_item :: "staged_cache \<Rightarrow> playlist_item \<Rightarrow> playlist_item \<times> staged_cache" where
  "patch_item staged it =
     (case staged (item_id it) of
        None \<Rightarrow> (it, staged)
      | Some (fp, m) \<Rightarrow> (replace_local_cache fp m it, staged(item_id it := None)))"

fun patch_parts ::
    "staged_cache \<Rightarrow> playlist_compound_part list \<Rightarrow> playlist_compound_part list \<times> staged_cache" where
  "patch_parts staged [] = ([], staged)"
| "patch_parts staged (p # ps) =
     (let (it, s) = patch_item staged (part_item p);
          (ps', s') = patch_parts s ps
      in (p\<lparr>part_item := it\<rparr> # ps', s'))"

fun patch_entry :: "staged_cache \<Rightarrow> playlist_entry \<Rightarrow> playlist_entry \<times> staged_cache" where
  "patch_entry staged (Single it) = (let (it', s) = patch_item staged it in (Single it', s))"
| "patch_entry staged (Compound g) =
     (let (ps, s) = patch_parts staged (group_parts g) in (Compound (g\<lparr>group_parts := ps\<rparr>), s))"

fun patch_entries :: "staged_cache \<Rightarrow> playlist_entry list \<Rightarrow> playlist_entry list \<times> staged_cache" where
  "patch_entries staged [] = ([], staged)"
| "patch_entries staged (e # es) =
     (let (e', s) = patch_entry staged e; (es', s') = patch_entries s es in (e' # es', s'))"

definition apply_to_entries ::
    "prepared_metadata_patch_plan \<Rightarrow> playlist_entry list \<Rightarrow> playlist_entry list" where
  "apply_to_entries plan es = fst (patch_entries (staged_cache_by_item_id plan) es)"

definition preflight_metadata_patch_batch ::
    "playlist_queue \<Rightarrow> playlist_metadata_patch list \<Rightarrow>
     metadata_patch_batch_error + prepared_metadata_patch_batch_commit" where
  "preflight_metadata_patch_batch q patches =
     (let plan = prepare_metadata_patch_plan (iter_playable_items (entries q)) patches
      in if changed_metadata plan then
           (case checked_next (metadata_revision q) of
              None \<Rightarrow> Inl MetadataRevisionExhausted
            | Some n \<Rightarrow> Inr \<lparr>commit_plan = plan, next_metadata_revision = n\<rparr>)
         else Inr \<lparr>commit_plan = plan, next_metadata_revision = metadata_revision q\<rparr>)"

definition commit_metadata_patch_batch ::
    "playlist_queue \<Rightarrow> prepared_metadata_patch_batch_commit \<Rightarrow>
     metadata_patch_batch_outcome \<times> playlist_queue" where
  "commit_metadata_patch_batch q c =
     (plan_outcome (commit_plan c),
      q\<lparr>entries := apply_to_entries (commit_plan c) (entries q),
        metadata_revision :=
          (if changed_metadata (commit_plan c) then next_metadata_revision c
           else metadata_revision q)\<rparr>)"

definition apply_metadata_patch_batch ::
    "playlist_queue \<Rightarrow> playlist_metadata_patch list \<Rightarrow>
     (metadata_patch_batch_error + metadata_patch_batch_outcome) \<times> playlist_queue" where
  "apply_metadata_patch_batch q patches =
     (case preflight_metadata_patch_batch q patches of
        Inl e \<Rightarrow> (Inl e, q)
      | Inr c \<Rightarrow> (let (out, q') = commit_metadata_patch_batch q c in (Inr out, q')))"

section \<open>A patch only touches cached metadata\<close>

text \<open>What a staged cache does to one item, as a function of the item alone.\<close>

definition patched :: "staged_cache \<Rightarrow> playlist_item \<Rightarrow> playlist_item" where
  "patched staged it =
     (case staged (item_id it) of None \<Rightarrow> it | Some (fp, m) \<Rightarrow> replace_local_cache fp m it)"

lemma item_id_patched [simp]: "item_id (patched s it) = item_id it"
  by (simp add: patched_def replace_local_cache_def split: option.splits prod.splits)

lemma patch_item_eq: "patch_item s it = (patched s it, s(item_id it := None))"
  by (auto simp: patch_item_def patched_def fun_eq_iff split: option.splits prod.splits)

text \<open>Removing applied entries from the map is not observable when identities are unique.\<close>

lemma patched_other: "i \<noteq> item_id it \<Longrightarrow> patched (s(i := None)) it = patched s it"
  by (simp add: patched_def)

lemma patch_parts_eq:
  assumes "distinct (map (\<lambda>p. item_id (part_item p)) ps)"
  shows "patch_parts s ps = (map (\<lambda>p. p\<lparr>part_item := patched s (part_item p)\<rparr>) ps,
    \<lambda>i. if i \<in> (\<lambda>p. item_id (part_item p)) ` set ps then None else s i)"
  using assms
proof (induction ps arbitrary: s)
  case (Cons p ps)
  have "map (\<lambda>x. x\<lparr>part_item := patched (s(item_id (part_item p) := None)) (part_item x)\<rparr>) ps
      = map (\<lambda>x. x\<lparr>part_item := patched s (part_item x)\<rparr>) ps"
  proof (rule map_cong [OF refl])
    fix x assume "x \<in> set ps"
    moreover have "item_id (part_item p) \<notin> (\<lambda>p. item_id (part_item p)) ` set ps" using Cons.prems by simp
    ultimately have "item_id (part_item p) \<noteq> item_id (part_item x)" by blast
    then show "x\<lparr>part_item := patched (s(item_id (part_item p) := None)) (part_item x)\<rparr>
        = x\<lparr>part_item := patched s (part_item x)\<rparr>" by (simp add: patched_other)
  qed
  with Cons show ?case by (auto simp: patch_item_eq fun_eq_iff)
qed simp

lemma patch_entry_eq:
  assumes "distinct (map item_id (entry_playable_items e))"
  shows "patch_entry s e = (for_each_playable_item_mut (patched s) e,
    \<lambda>i. if i \<in> item_id ` set (entry_playable_items e) then None else s i)"
proof (cases e)
  case (Single it)
  then show ?thesis by (auto simp: patch_item_eq fun_eq_iff)
next
  case (Compound g)
  with assms show ?thesis by (auto simp: patch_parts_eq comp_def image_image)
qed

lemma for_each_cong:
  "(\<And>it. it \<in> set (entry_playable_items e) \<Longrightarrow> f it = g it) \<Longrightarrow>
   for_each_playable_item_mut f e = for_each_playable_item_mut g e"
  by (cases e) auto

lemma patch_entries_eq:
  assumes "distinct (iter_playable_ids es)"
  shows "fst (patch_entries s es) = map (for_each_playable_item_mut (patched s)) es"
  using assms
proof (induction es arbitrary: s)
  case (Cons e es)
  let ?s = "\<lambda>i. if i \<in> item_id ` set (entry_playable_items e) then None else s i"
  have "fst (patch_entries ?s es) = map (for_each_playable_item_mut (patched ?s)) es"
    using Cons by simp
  also have "\<dots> = map (for_each_playable_item_mut (patched s)) es"
  proof (rule map_cong [OF refl], rule for_each_cong)
    fix x it assume "x \<in> set es" "it \<in> set (entry_playable_items x)"
    then have "item_id it \<in> set (iter_playable_ids es)" by (auto simp: set_iter_playable_ids)
    with Cons.prems have "item_id it \<notin> item_id ` set (entry_playable_items e)" by auto
    then show "patched ?s it = patched s it" by (simp add: patched_def)
  qed
  finally show ?case
    using Cons.prems by (auto simp: patch_entry_eq split: prod.splits)
qed simp

lemma apply_to_entries_eq:
  "entries_wf es \<Longrightarrow> apply_to_entries plan es
     = map (for_each_playable_item_mut (patched (staged_cache_by_item_id plan))) es"
  by (simp add: apply_to_entries_def patch_entries_eq entries_wf_def)

lemma shape_for_each: "shape (for_each_playable_item_mut (patched s) e) = shape e"
  using for_each_ids [of "patched s" e] by (simp add: shape_def)

lemma commit_metadata_ok:
  assumes inv: "queue_inv q" and pre: "preflight_metadata_patch_batch q patches = Inr c"
  shows "op_ok q (snd (commit_metadata_patch_batch q c))"
    and "same_core q (snd (commit_metadata_patch_batch q c))"
proof -
  let ?f = "for_each_playable_item_mut (patched (staged_cache_by_item_id (commit_plan c)))"
  let ?es = "map ?f (entries q)"
  let ?q = "snd (commit_metadata_patch_batch q c)"
  have wf: "entries_wf (entries q)" using inv by (simp add: queue_inv_def)
  have q: "?q = q\<lparr>entries := ?es, metadata_revision := metadata_revision ?q\<rparr>"
    by (simp add: commit_metadata_patch_batch_def apply_to_entries_eq [OF wf])
  have shape: "map shape ?es = map shape (entries q)" by (simp add: shape_for_each)
  note proj = shape_projections [OF shape]
  have "entries_wf ?es" using wf by (simp add: for_each_entries(4))
  then have inv': "queue_inv ?q"
    using inv by (subst q) (simp add: queue_inv_def proj)
  have rev: "metadata_revision q \<le> metadata_revision ?q"
    using pre checked_next_Some(2) by (auto simp: commit_metadata_patch_batch_def preflight_metadata_patch_batch_def
        Let_def split: if_splits option.splits)
  show core: "same_core q ?q"
    by (subst q) (simp add: same_core_def shapes_def shape_for_each comp_def)
  then show "op_ok q ?q"
    using inv' rev q by (auto simp: op_ok_def advances_def same_core_def commit_metadata_patch_batch_def
        intro: grown_subset)
qed

lemma apply_metadata_patch_batch_ok:
  assumes inv: "queue_inv q" and run: "apply_metadata_patch_batch q patches = (res, q')"
  shows "op_ok q q'" and "same_core q q'" and "\<And>e. res = Inl e \<Longrightarrow> q' = q"
proof -
  have "same_core q q" by (simp add: same_core_def)
  then show "op_ok q q'" and "same_core q q'" and "\<And>e. res = Inl e \<Longrightarrow> q' = q"
    using run op_ok_refl [OF inv] commit_metadata_ok [OF inv, of patches]
    by (auto simp: apply_metadata_patch_batch_def split: sum.splits prod.splits)
qed

section \<open>Which patches take effect\<close>

lemma item_by_id_Some: "item_by_id its i = Some it \<Longrightarrow> it \<in> set its \<and> item_id it = i"
  by (auto simp: item_by_id_def dest!: map_of_SomeD)

lemma prepare_patches_staged:
  assumes "prepare_patches look staged ps = (s, os, n)" and "s i = Some c"
  shows "staged i = Some c \<or> (\<exists>p \<in> set ps. \<exists>it. patch_item_id p = i \<and> look i = Some it
    \<and> locator_eq (locator (item_payload it)) (expected_locator p) \<and> local_fingerprint it = expected_local_fingerprint p
    \<and> c = (refreshed_local_fingerprint p, patch_metadata p))"
  using assms
proof (induction look staged ps arbitrary: s os n rule: prepare_patches.induct)
  case (2 look staged p ps)
  obtain s0 os0 n0 where r0: "prepare_patches look staged ps = (s0, os0, n0)" by (metis prod_cases3)
  obtain s1 os1 n1 where r1: "prepare_patches look
      (staged(patch_item_id p \<mapsto> (refreshed_local_fingerprint p, patch_metadata p))) ps = (s1, os1, n1)"
    by (metis prod_cases3)
  consider (none) "look (patch_item_id p) = None"
    | (mismatch) it where "look (patch_item_id p) = Some it" "\<not> locator_eq (locator (item_payload it)) (expected_locator p)
         \<or> local_fingerprint it \<noteq> expected_local_fingerprint p"
    | (same) it where "look (patch_item_id p) = Some it" "\<not> (\<not> locator_eq (locator (item_payload it)) (expected_locator p)
         \<or> local_fingerprint it \<noteq> expected_local_fingerprint p)"
        "effective_cache staged it = (refreshed_local_fingerprint p, patch_metadata p)"
    | (applied) it where "look (patch_item_id p) = Some it" "\<not> (\<not> locator_eq (locator (item_payload it)) (expected_locator p)
         \<or> local_fingerprint it \<noteq> expected_local_fingerprint p)"
        "effective_cache staged it \<noteq> (refreshed_local_fingerprint p, patch_metadata p)"
    by (cases "look (patch_item_id p)") blast+
  then show ?case
  proof cases
    case none
    then have "s0 = s" using "2.prems"(1) r0 by simp
    from "2.IH"(1) [OF none r0] "2.prems"(2) this show ?thesis by auto
  next
    case mismatch
    then have "s0 = s" using "2.prems"(1) by (auto simp add: r0)
    from "2.IH"(2) [OF mismatch r0] "2.prems"(2) this show ?thesis by auto
  next
    case same
    then have "s0 = s" using "2.prems"(1) by (auto simp add: r0)
    from "2.IH"(3) [OF same r0] "2.prems"(2) this show ?thesis by auto
  next
    case applied
    then have "s1 = s" using "2.prems"(1) by (simp add: r1)
    from "2.IH"(4) [OF applied r1] "2.prems"(2) this applied(1,2) show ?thesis
      by (auto split: if_splits)
  qed
qed simp

lemma iter_playable_items_for_each:
  "iter_playable_items (map (for_each_playable_item_mut f) es) = map f (iter_playable_items es)"
proof -
  have "entry_playable_items (for_each_playable_item_mut f e) = map f (entry_playable_items e)" for e
    by (cases e) auto
  then show ?thesis by (induction es) (auto simp: iter_playable_items_def)
qed

text \<open>Every item is the old one, or the old one with the cache of a patch that named its identity,
  its locator and its fingerprint.\<close>

lemma apply_metadata_items:
  assumes inv: "queue_inv q" and run: "apply_metadata_patch_batch q patches = (Inr out, q')"
    and x: "x \<in> set (iter_playable_items (entries q'))"
  shows "\<exists>it \<in> set (iter_playable_items (entries q)). x = it
    \<or> (\<exists>p \<in> set patches. patch_item_id p = item_id it
        \<and> locator_eq (locator (item_payload it)) (expected_locator p)
        \<and> expected_local_fingerprint p = local_fingerprint it
        \<and> x = replace_local_cache (refreshed_local_fingerprint p) (patch_metadata p) it)"
proof -
  let ?its = "iter_playable_items (entries q)"
  have wf: "entries_wf (entries q)" using inv by (simp add: queue_inv_def)
  then have d: "distinct (map item_id ?its)" by (simp add: entries_wf_def iter_playable_ids_def)
  obtain s os n where plan: "prepare_patches (item_by_id ?its) (\<lambda>_. None) patches = (s, os, n)"
    by (metis prod_cases3)
  from run obtain c where c: "preflight_metadata_patch_batch q patches = Inr c"
    and q': "q' = snd (commit_metadata_patch_batch q c)"
    by (auto simp: apply_metadata_patch_batch_def split: sum.splits prod.splits)
  from c have "staged_cache_by_item_id (commit_plan c) = s"
    by (auto simp: preflight_metadata_patch_batch_def prepare_metadata_patch_plan_def plan Let_def
        split: if_splits option.splits)
  then have "entries q' = map (for_each_playable_item_mut (patched s)) (entries q)"
    by (simp add: q' commit_metadata_patch_batch_def apply_to_entries_eq [OF wf])
  with x obtain it where it: "it \<in> set ?its" "x = patched s it"
    by (auto simp: iter_playable_items_for_each)
  show ?thesis
  proof (cases "s (item_id it)")
    case None
    with it show ?thesis by (auto simp: patched_def)
  next
    case (Some c)
    from prepare_patches_staged [OF plan Some] obtain p it' where
      p: "p \<in> set patches" "patch_item_id p = item_id it" "item_by_id ?its (item_id it) = Some it'"
      "locator_eq (locator (item_payload it')) (expected_locator p)" "local_fingerprint it' = expected_local_fingerprint p"
      "c = (refreshed_local_fingerprint p, patch_metadata p)" by auto
    have "it' = it"
      using item_by_id_Some [OF p(3)] it(1) d by (auto simp: distinct_map inj_on_def)
    then have "x = replace_local_cache (refreshed_local_fingerprint p) (patch_metadata p) it"
      using it(2) Some p(6) by (simp add: patched_def)
    with p it \<open>it' = it\<close> show ?thesis by metis
  qed
qed

section \<open>One item at a time\<close>

text \<open>What a sequence of patches leaves in the cache of one item.\<close>

definition patch_matches :: "playlist_item \<Rightarrow> playlist_metadata_patch \<Rightarrow> bool" where
  "patch_matches it p \<longleftrightarrow>
     patch_item_id p = item_id it \<and> locator_eq (locator (item_payload it)) (expected_locator p)
     \<and> local_fingerprint it = expected_local_fingerprint p"

definition patched_cache ::
    "playlist_item \<Rightarrow> playlist_metadata_patch list \<Rightarrow>
     local_source_fingerprint option \<times> cached_playlist_metadata \<Rightarrow>
     local_source_fingerprint option \<times> cached_playlist_metadata" where
  "patched_cache it =
     fold (\<lambda>p c. if patch_matches it p then (refreshed_local_fingerprint p, patch_metadata p) else c)"

definition patch_one :: "playlist_metadata_patch list \<Rightarrow> playlist_item \<Rightarrow> playlist_item" where
  "patch_one ps it =
     (let (fp, m) = patched_cache it ps (local_fingerprint it, cached_metadata (item_payload it))
      in replace_local_cache fp m it)"

lemma prepare_patches_effective:
  assumes "look (item_id it) = Some it"
    and "\<And>i x. look i = Some x \<Longrightarrow> item_id x = i"
    and "prepare_patches look staged ps = (s, os, n)"
  shows "effective_cache s it = patched_cache it ps (effective_cache staged it)"
  using assms(3)
proof (induction ps arbitrary: staged s os n)
  case Nil
  then show ?case by (simp add: patched_cache_def)
next
  case (Cons p ps)
  show ?case
  proof (cases "look (patch_item_id p)")
    case None
    then have "\<not> patch_matches it p" using assms(1) by (auto simp: patch_matches_def)
    then show ?thesis using Cons None by (auto simp: patched_cache_def split: prod.splits)
  next
    case (Some x)
    let ?c = "(refreshed_local_fingerprint p, patch_metadata p)"
    have x: "item_id x = patch_item_id p" using assms(2) Some by blast
    have same: "patch_item_id p = item_id it \<Longrightarrow> x = it" using Some assms(1) by simp
    have other: "item_id it \<noteq> patch_item_id p \<Longrightarrow>
        effective_cache (staged(patch_item_id p \<mapsto> ?c)) it = effective_cache staged it"
      by (simp add: effective_cache_def)
    consider "\<not> patch_matches x p" | "patch_matches x p" "effective_cache staged x = ?c"
      | "patch_matches x p" "effective_cache staged x \<noteq> ?c" by blast
    then show ?thesis
    proof cases
      case 1
      then have "\<not> patch_matches it p" using same by (auto simp: patch_matches_def)
      then show ?thesis using Cons Some 1 x by (auto simp: patched_cache_def patch_matches_def split: prod.splits)
    next
      case 2
      then show ?thesis
        using Cons Some x same by (cases "patch_item_id p = item_id it")
          (auto simp: patched_cache_def patch_matches_def split: prod.splits)
    next
      case 3
      obtain s' os' n' where run: "prepare_patches look (staged(patch_item_id p \<mapsto> ?c)) ps = (s', os', n')"
        by (metis prod_cases3)
      then have "s = s'" using Cons.prems Some 3 x by (auto simp: patch_matches_def)
      then show ?thesis
        using Cons.IH [OF run] 3 same other
        by (cases "patch_item_id p = item_id it") (auto simp: patched_cache_def patch_matches_def effective_cache_def)
    qed
  qed
qed

lemma patched_effective: "patched s it = (let (fp, m) = effective_cache s it in replace_local_cache fp m it)"
  by (cases "s (item_id it)") (auto simp: patched_def effective_cache_def replace_local_cache_def)

lemma item_by_id_mem:
  assumes "distinct (map item_id its)" and "it \<in> set its"
  shows "item_by_id its (item_id it) = Some it"
proof -
  have "map_of (map (\<lambda>it. (item_id it, it)) (rev its)) (item_id it) = Some it"
    using assms by (intro map_of_is_SomeI) (auto simp: comp_def rev_map distinct_rev simp flip: rev_map)
  then show ?thesis by (simp add: item_by_id_def rev_map)
qed

end
