(* ===== verification/Queue_Sort.thy ===== *)
theory Queue_Sort
  imports Sort_Keys Index_Sort Queue_Metadata Queue_Reorder
begin

text \<open>
  The canonical sort of a queue (playlist-core \<open>queue/sort.rs\<close> and \<open>queue/sort/prepared.rs\<close>).
  \<^item> \<open>sort_canonical\<close> sorts at once with the standard library's stable sort.
  \<^item> The background sort takes a snapshot, prepares an order with its own cancellable merge sort and
    publishes order and metadata in one step after revalidation.
\<close>

section \<open>Definitions\<close>

subsection \<open>The synchronous sort\<close>

record sort_canonical_queue =
  sort_key :: playlist_sort_key
  sort_direction :: sort_direction

datatype sort_canonical_queue_outcome =
    SortReordered nat
  | AlreadyInCanonicalOrder
  | SortInstallCommitLinearizing
  | SortStructuralRevisionExhausted

definition sort_canonical ::
    "text_tables \<Rightarrow> playlist_queue \<Rightarrow> sort_canonical_queue \<Rightarrow>
     (sort_canonical_queue_outcome \<times> playlist_queue) run" where
  "sort_canonical T q intent =
     (if active_reservation q \<noteq> None then Some (SortInstallCommitLinearizing, q)
      else case sort_by (\<lambda>a b. compare_entries a b (sort_direction intent))
                  (prepare_sort_entries T (entries q) (sort_key intent)) of
        None \<Rightarrow> None
      | Some prepared \<Rightarrow>
          if list_all (\<lambda>(new_index, e). new_index = original_index e) (enumerate 0 prepared)
          then Some (AlreadyInCanonicalOrder, q)
          else case checked_next (structural_revision q) of
            None \<Rightarrow> Some (SortStructuralRevisionExhausted, q)
          | Some next_revision \<Rightarrow>
              map_option
                (\<lambda>es. (SortReordered (length es),
                       q\<lparr>entries := es, structural_revision := next_revision\<rparr>))
                (apply_prepared_order (entries q) (map original_index prepared)))"

subsection \<open>The background sort\<close>

record canonical_sort_snapshot =
  snapshot_entries :: "playlist_entry list"
  snapshot_revision :: queue_revision_snapshot

record canonical_sort_preparation_statistics =
  stat_prepared_entries :: nat
  stat_comparisons :: nat
  stat_shared_entry_handles :: nat

record prepared_canonical_sort =
  sort_expected_revision :: queue_revision_snapshot
  expected_entry_ids :: "playlist_entry_id list"
  sorted_entry_ids :: "playlist_entry_id list"
  sort_statistics :: canonical_sort_preparation_statistics

definition canonical_sort_snapshot_of :: "playlist_queue \<Rightarrow> canonical_sort_snapshot" where
  "canonical_sort_snapshot_of q =
     \<lparr>snapshot_entries = entries q, snapshot_revision = revision_snapshot q\<rparr>"

fun prepare_sort_entries_cancellable ::
    "text_tables \<Rightarrow> playlist_sort_key \<Rightarrow> 'c cancel_callback \<Rightarrow> nat \<Rightarrow> playlist_entry list \<Rightarrow> 'c \<Rightarrow>
     canonical_sort_preparation_cancelled + (prepared_sort_entry list \<times> nat \<times> 'c)" where
  "prepare_sort_entries_cancellable T key is_cancelled i [] c = Inr ([], 0, c)"
| "prepare_sort_entries_cancellable T key is_cancelled i (e # es) c =
     (if fst (is_cancelled c) then Inl CanonicalSortPreparationCancelled
      else
          (case prepare_sort_entries_cancellable T key is_cancelled (Suc i) es (snd (is_cancelled c)) of
             Inl err \<Rightarrow> Inl err
           | Inr (ps, n, c'') \<Rightarrow> Inr (prepare_sort_entry T key (i, e) # ps, Suc n, c'')))"

definition compare_indices ::
    "prepared_sort_entry list \<Rightarrow> sort_direction \<Rightarrow> nat \<Rightarrow> nat \<Rightarrow> ordering run" where
  "compare_indices ps d l r =
     (case (slice_get ps l, slice_get ps r) of
        (Some a, Some b) \<Rightarrow> compare_entries a b d
      | _ \<Rightarrow> None)"

definition stable_sorted_entry_indices ::
    "'c cancel_callback \<Rightarrow> prepared_sort_entry list \<Rightarrow> sort_direction \<Rightarrow> 'c \<Rightarrow>
     (canonical_sort_preparation_cancelled + nat list \<times> nat \<times> 'c) run" where
  "stable_sorted_entry_indices is_cancelled ps d c =
     merge_widths is_cancelled (compare_indices ps d) 1 [0..<length ps] (replicate (length ps) 0) 0 c"

text \<open>\<open>CanonicalSortSnapshot::prepare\<close>.\<close>

definition sort_prepare ::
    "text_tables \<Rightarrow> canonical_sort_snapshot \<Rightarrow> playlist_metadata_patch list \<Rightarrow>
     sort_canonical_queue \<Rightarrow> 'c cancel_callback \<Rightarrow> 'c \<Rightarrow>
     (canonical_sort_preparation_cancelled + prepared_canonical_sort) run" where
  "sort_prepare T snap patches intent is_cancelled c =
     (if fst (is_cancelled c) then Some (Inl CanonicalSortPreparationCancelled)
      else
     (let c1 = snd (is_cancelled c);
          effective_items = concat (map entry_playable_items (snapshot_entries snap));
          effective_entries =
            apply_to_entries (prepare_metadata_patch_plan effective_items patches)
              (snapshot_entries snap)
      in case prepare_sort_entries_cancellable T (sort_key intent) is_cancelled 0 effective_entries c1 of
           Inl err \<Rightarrow> Some (Inl err)
         | Inr (ps, n, c2) \<Rightarrow>
             (case stable_sorted_entry_indices is_cancelled ps (sort_direction intent) c2 of
                None \<Rightarrow> None
              | Some (Inl err) \<Rightarrow> Some (Inl err)
              | Some (Inr (indices, comparisons, _)) \<Rightarrow>
                  map_option
                    (\<lambda>ids. Inr \<lparr>sort_expected_revision = snapshot_revision snap,
                       expected_entry_ids = map entry_id (snapshot_entries snap),
                       sorted_entry_ids = ids,
                       sort_statistics = \<lparr>stat_prepared_entries = n, stat_comparisons = comparisons,
                         stat_shared_entry_handles = length effective_entries\<rparr>\<rparr>)
                    (those (map (\<lambda>k. Option.bind (slice_get ps k)
                        (\<lambda>p. map_option entry_id (slice_get effective_entries (original_index p))))
                      indices)))))"

datatype apply_prepared_canonical_sort_error =
    SortStaleQueueRevision
  | ApplyInstallCommitLinearizing
  | InvalidPermutation
  | ApplyStructuralRevisionExhausted
  | ApplyMetadataRevisionExhausted

record apply_prepared_canonical_sort_outcome =
  sort_metadata_outcome :: metadata_patch_batch_outcome
  was_reordered :: bool

record prepared_canonical_sort_commit =
  sort_next_entries :: "playlist_entry list"
  sort_next_structural_revision :: u64
  sort_next_metadata_revision :: u64
  sort_outcome :: apply_prepared_canonical_sort_outcome

text \<open>A checked revision step that is taken only when it is needed.\<close>

definition next_revision_if :: "bool \<Rightarrow> u64 \<Rightarrow> u64 option" where
  "next_revision_if needed r = (if needed then checked_next r else Some r)"

definition preflight_prepared_canonical_sort ::
    "playlist_queue \<Rightarrow> prepared_canonical_sort \<Rightarrow> playlist_metadata_patch list \<Rightarrow>
     (apply_prepared_canonical_sort_error + prepared_canonical_sort_commit) run" where
  "preflight_prepared_canonical_sort q prepared patches =
     (let current_entry_ids = iter_top_level_entry_ids (entries q);
          sorted_ids = sorted_entry_ids prepared;
          reordered = (current_entry_ids \<noteq> sorted_ids);
          plan = prepare_metadata_patch_plan (iter_playable_items (entries q)) patches
      in
      if rev_structural (revision_snapshot q) \<noteq> rev_structural (sort_expected_revision prepared)
         \<or> rev_metadata (revision_snapshot q) \<noteq> rev_metadata (sort_expected_revision prepared)
      then Some (Inl SortStaleQueueRevision)
      else if current_entry_ids \<noteq> expected_entry_ids prepared then Some (Inl SortStaleQueueRevision)
      else if length sorted_ids \<noteq> length (entries q)
              \<or> card (set sorted_ids) \<noteq> length (entries q)
              \<or> \<not> list_all (\<lambda>e. e \<in> set sorted_ids) current_entry_ids
      then Some (Inl InvalidPermutation)
      else if reordered \<and> active_reservation q \<noteq> None then Some (Inl ApplyInstallCommitLinearizing)
      else case next_revision_if (changed_metadata plan) (metadata_revision q) of
        None \<Rightarrow> Some (Inl ApplyMetadataRevisionExhausted)
      | Some next_metadata \<Rightarrow>
      case next_revision_if reordered (structural_revision q) of
        None \<Rightarrow> Some (Inl ApplyStructuralRevisionExhausted)
      | Some next_structural \<Rightarrow>
      (let next_entries = apply_to_entries plan (entries q);
           index_by_id = map_of (rev (map (\<lambda>(i, e). (entry_id e, i)) (enumerate 0 next_entries)));
           published =
             (if reordered
              then Option.bind (those (map index_by_id sorted_ids)) (apply_prepared_order next_entries)
              else Some next_entries)
       in map_option
            (\<lambda>es. Inr \<lparr>sort_next_entries = es, sort_next_structural_revision = next_structural,
                       sort_next_metadata_revision = next_metadata,
                       sort_outcome = \<lparr>sort_metadata_outcome = plan_outcome plan,
                                       was_reordered = reordered\<rparr>\<rparr>)
            published))"

definition commit_prepared_canonical_sort ::
    "playlist_queue \<Rightarrow> prepared_canonical_sort_commit \<Rightarrow>
     apply_prepared_canonical_sort_outcome \<times> playlist_queue" where
  "commit_prepared_canonical_sort q c =
     (sort_outcome c,
      q\<lparr>entries := sort_next_entries c,
        metadata_revision :=
          (if applied_count (sort_metadata_outcome (sort_outcome c)) > 0
           then sort_next_metadata_revision c else metadata_revision q),
        structural_revision :=
          (if was_reordered (sort_outcome c)
           then sort_next_structural_revision c else structural_revision q)\<rparr>)"

definition apply_prepared_canonical_sort ::
    "playlist_queue \<Rightarrow> prepared_canonical_sort \<Rightarrow> playlist_metadata_patch list \<Rightarrow>
     ((apply_prepared_canonical_sort_error + apply_prepared_canonical_sort_outcome)
      \<times> playlist_queue) run" where
  "apply_prepared_canonical_sort q prepared patches =
     (case preflight_prepared_canonical_sort q prepared patches of
        None \<Rightarrow> None
      | Some (Inl err) \<Rightarrow> Some (Inl err, q)
      | Some (Inr c) \<Rightarrow>
          (let (out, q') = commit_prepared_canonical_sort q c in Some (Inr out, q')))"

section \<open>One order, two algorithms\<close>

text \<open>The order of the positions of a list of entries.\<close>

definition index_order ::
    "text_tables \<Rightarrow> sort_canonical_queue \<Rightarrow> playlist_entry list \<Rightarrow> nat \<Rightarrow> nat \<Rightarrow> ordering" where
  "index_order T intent es i j = entry_order T (sort_key intent) (sort_direction intent) (es ! i) (es ! j)"

lemma total_index_order: "total_comparator (index_order T intent es)"
  unfolding index_order_def [abs_def] by (rule total_comparator_key [OF total_entry_order])

interpretation index: total_comparator "index_order T intent es" for T intent es
  by (rule total_index_order)

text \<open>A permutation of the positions that lists the entries in the order of the intent.\<close>

definition sorts_entries ::
    "text_tables \<Rightarrow> sort_canonical_queue \<Rightarrow> playlist_entry list \<Rightarrow> nat list \<Rightarrow> bool" where
  "sorts_entries T intent es ds \<longleftrightarrow> mset ds = mset [0..<length es] \<and> cmp_sorted (index_order T intent es) ds"

lemma sorts_entriesD:
  assumes "sorts_entries T intent es ds"
  shows "set ds = {..<length es}" "distinct ds" "length ds = length es"
    "mset (map ((!) es) ds) = mset es"
    "cmp_sorted (entry_order T (sort_key intent) (sort_direction intent)) (map ((!) es) ds)"
proof -
  have m: "mset ds = mset [0..<length es]" using assms by (simp add: sorts_entries_def)
  show "set ds = {..<length es}" using mset_eq_setD [OF m] by (simp only: set_upt atLeast0LessThan)
  show "distinct ds" using mset_eq_imp_distinct_iff [OF m] by (simp only: distinct_upt)
  show "length ds = length es" using mset_eq_length [OF m] by (simp only: length_upt diff_zero)
  show "mset (map ((!) es) ds) = mset es" by (rule mset_map_nth [OF m])
  show "cmp_sorted (entry_order T (sort_key intent) (sort_direction intent)) (map ((!) es) ds)"
    using assms by (simp add: sorts_entries_def cmp_sorted_map index_order_def [abs_def])
qed

lemma index_order_Equal:
  assumes "distinct (iter_top_level_entry_ids es)" "i < length es" "j < length es"
    and "index_order T intent es i j = Equal"
  shows "i = j"
proof -
  have "entry_id (es ! i) = entry_id (es ! j)"
    using assms(4) unfolding index_order_def by (rule entry_order_Equal)
  then have "iter_top_level_entry_ids es ! i = iter_top_level_entry_ids es ! j"
    using assms(2,3) by (simp add: iter_top_level_entry_ids_def)
  then show ?thesis using nth_eq_iff_index_eq [OF assms(1), of i j] assms(2,3)
    by (simp add: iter_top_level_entry_ids_def)
qed

lemma sorts_entries_unique:
  assumes "distinct (iter_top_level_entry_ids es)"
    and a: "sorts_entries T intent es as" and b: "sorts_entries T intent es bs"
  shows "as = bs"
proof (rule index.sorted_unique)
  show "cmp_sorted (index_order T intent es) as" "cmp_sorted (index_order T intent es) bs" "mset as = mset bs"
    using a b by (simp_all add: sorts_entries_def)
  show "i = j" if "i \<in> set as" "j \<in> set as" "index_order T intent es i j = Equal" for i j
    using that index_order_Equal [OF assms(1), of i j T intent] sorts_entriesD(1) [OF a] by simp
qed

lemma sorts_entries_identity:
  assumes "sorts_entries T intent es ds" and dist: "distinct (iter_top_level_entry_ids es)"
  shows "ds = [0..<length es] \<longleftrightarrow> map ((!) es) ds = es" (is "?l \<longleftrightarrow> ?r")
proof
  assume ?l
  then show ?r by (simp add: map_nth)
next
  assume r: ?r
  have d: "distinct es" using dist by (simp add: iter_top_level_entry_ids_def distinct_map)
  note p = sorts_entriesD [OF assms(1)]
  show ?l
  proof (rule nth_equalityI)
    show "length ds = length [0..<length es]" using p(3) by simp
    fix i
    assume i: "i < length ds"
    then have "es ! (ds ! i) = es ! i" using arg_cong [OF r, of "\<lambda>xs. xs ! i"] by simp
    moreover have "ds ! i < length es" using p(1) i nth_mem by blast
    ultimately show "ds ! i = [0..<length es] ! i" using d i p(3) by (simp add: nth_eq_iff_index_eq)
  qed
qed

subsection \<open>The synchronous order\<close>

lemma prepare_sort_entries_nth:
  "i < length es \<Longrightarrow> prepare_sort_entries T es key ! i = prepare_sort_entry T key (i, es ! i)"
  by (simp add: prepare_sort_entries_def nth_enumerate_eq)

lemma prepare_sort_entries_length [simp]: "length (prepare_sort_entries T es key) = length es"
  by (simp add: prepare_sort_entries_def)

lemma prepare_sort_entries_indices: "map original_index (prepare_sort_entries T es key) = [0..<length es]"
  by (rule nth_equalityI) (simp_all add: prepare_sort_entries_nth)

lemma prepare_sort_entries_mem:
  assumes "p \<in> set (prepare_sort_entries T es key)"
  shows "original_index p < length es \<and> p = prepare_sort_entry T key (original_index p, es ! original_index p)"
  using assms by (auto simp: in_set_conv_nth prepare_sort_entries_nth)

lemma sort_by_entries:
  "\<exists>zs. sort_by (\<lambda>a b. compare_entries a b (sort_direction intent))
          (prepare_sort_entries T es (sort_key intent)) = Some zs
     \<and> sorts_entries T intent es (map original_index zs)"
proof -
  let ?c = "\<lambda>a b. index_order T intent es (original_index a) (original_index b)"
  let ?ps = "prepare_sort_entries T es (sort_key intent)"
  have tot: "total_comparator ?c" by (rule total_comparator_key [OF total_index_order])
  have "\<exists>zs. sort_by (\<lambda>a b. compare_entries a b (sort_direction intent)) ?ps = Some zs
     \<and> mset zs = mset ?ps \<and> cmp_sorted ?c zs"
  proof (rule total_comparator.sort_by_ok [OF tot])
    fix a b
    assume "a \<in> set ?ps" "b \<in> set ?ps"
    then show "compare_entries a b (sort_direction intent) = Some (?c a b)"
      using prepare_sort_entries_mem [of a] prepare_sort_entries_mem [of b]
        compare_entries_prepared [of T "sort_key intent" "original_index a" _ "original_index b"]
      by (metis index_order_def)
  qed
  then obtain zs where zs: "sort_by (\<lambda>a b. compare_entries a b (sort_direction intent)) ?ps = Some zs"
    "mset zs = mset ?ps" "cmp_sorted ?c zs" by blast
  have "mset (map original_index zs) = mset (map original_index ?ps)" by (simp only: mset_map zs(2))
  then have "sorts_entries T intent es (map original_index zs)"
    using zs(3) by (simp only: sorts_entries_def cmp_sorted_map prepare_sort_entries_indices)
  then show ?thesis using zs(1) by blast
qed

lemma indices_in_place:
  "list_all (\<lambda>(k, e). k = original_index e) (enumerate 0 zs) \<longleftrightarrow> map original_index zs = [0..<length zs]"
proof -
  have "map original_index zs = [0..<length zs] \<longleftrightarrow> (\<forall>k < length zs. original_index (zs ! k) = k)"
    by (subst list_eq_iff_nth_eq) simp
  also have "\<dots> \<longleftrightarrow> (\<forall>k < length zs. k = original_index (zs ! k))"
    by (simp only: eq_commute)
  also have "\<dots> \<longleftrightarrow> list_all (\<lambda>(k, e). k = original_index e) (enumerate 0 zs)"
    unfolding list_all_length length_enumerate
    by (intro all_cong) (simp only: nth_enumerate_eq add_0 prod.case)
  finally show ?thesis by (rule sym)
qed

lemma sort_canonical_cases:
  assumes inv: "queue_inv q"
  obtains (reserved) "active_reservation q \<noteq> None"
      "sort_canonical T q intent = Some (SortInstallCommitLinearizing, q)"
  | (sorted) "active_reservation q = None" "sorts_entries T intent (entries q) [0..<length (entries q)]"
      "sort_canonical T q intent = Some (AlreadyInCanonicalOrder, q)"
  | (exhausted) ds where "active_reservation q = None" "sorts_entries T intent (entries q) ds"
      "map ((!) (entries q)) ds \<noteq> entries q" "checked_next (structural_revision q) = None"
      "sort_canonical T q intent = Some (SortStructuralRevisionExhausted, q)"
  | (reordered) ds s where "active_reservation q = None" "sorts_entries T intent (entries q) ds"
      "map ((!) (entries q)) ds \<noteq> entries q" "checked_next (structural_revision q) = Some s"
      "sort_canonical T q intent = Some (SortReordered (length (entries q)),
         q\<lparr>entries := map ((!) (entries q)) ds, structural_revision := s\<rparr>)"
proof (cases "active_reservation q = None")
  case free: True
  obtain zs where zs: "sort_by (\<lambda>a b. compare_entries a b (sort_direction intent))
      (prepare_sort_entries T (entries q) (sort_key intent)) = Some zs"
    "sorts_entries T intent (entries q) (map original_index zs)"
    using sort_by_entries by blast
  let ?ds = "map original_index zs" and ?es = "entries q"
  have len: "length zs = length ?es" using sorts_entriesD(3) [OF zs(2)] by simp
  have inpl: "list_all (\<lambda>(k, e). k = original_index e) (enumerate 0 zs) \<longleftrightarrow> map ((!) ?es) ?ds = ?es"
    unfolding indices_in_place len by (rule sorts_entries_identity [OF zs(2) queue_inv_distinct [OF inv]])
  have perm: "mset ?ds = mset [0..<length ?es]" using zs(2) by (simp only: sorts_entries_def)
  note app = apply_prepared_order_ok [OF perm]
  show thesis
  proof (cases "map ((!) ?es) ?ds = ?es")
    case True
    then have ds: "?ds = [0..<length ?es]"
      using sorts_entries_identity [OF zs(2) queue_inv_distinct [OF inv]] by blast
    have "sort_canonical T q intent = Some (AlreadyInCanonicalOrder, q)"
      using free zs(1) inpl True by (simp add: sort_canonical_def)
    then show thesis using sorted free zs(2) unfolding ds by blast
  next
    case False
    show thesis
    proof (cases "checked_next (structural_revision q)")
      case None
      have "sort_canonical T q intent = Some (SortStructuralRevisionExhausted, q)"
        using free zs(1) inpl False None by (simp add: sort_canonical_def)
      then show thesis using exhausted free zs(2) False None by blast
    next
      case (Some s)
      have "sort_canonical T q intent = Some (SortReordered (length ?es),
         q\<lparr>entries := map ((!) ?es) ?ds, structural_revision := s\<rparr>)"
        using free zs(1) inpl False Some app len by (simp add: sort_canonical_def)
      then show thesis using reordered free zs(2) False Some by blast
    qed
  qed
qed (simp add: sort_canonical_def reserved)

lemma sort_canonical_ok:
  assumes inv: "queue_inv q" and run: "sort_canonical T q intent = Some (out, q')"
  shows "op_ok q q'" and "mset (entries q') = mset (entries q)"
proof -
  have "op_ok q q' \<and> mset (entries q') = mset (entries q)"
    using inv
  proof (cases rule: sort_canonical_cases [where T = T and intent = intent])
    case (reordered ds s)
    then show ?thesis
      using run permuted_entries_ok [OF inv reordered(1,4), of "map ((!) (entries q)) ds"]
        sorts_entriesD(4) [OF reordered(2)] by simp
  qed (use run op_ok_refl [OF inv] in simp_all)
  then show "op_ok q q'" and "mset (entries q') = mset (entries q)" by blast+
qed

subsection \<open>The background order\<close>

interpretation merge: index_merge "index_order T intent es"
    "compare_indices (prepare_sort_entries T es (sort_key intent)) (sort_direction intent)"
    "min (length es) usize_max" for T intent es
proof
  fix l r
  assume "l < min (length es) usize_max" "r < min (length es) usize_max"
  then show "compare_indices (prepare_sort_entries T es (sort_key intent)) (sort_direction intent) l r =
      Some (index_order T intent es l r)"
    by (simp add: compare_indices_def slice_get_def prepare_sort_entries_nth compare_entries_prepared
        index_order_def)
qed simp

lemma stable_sorted_entry_indices_ok:
  assumes "length es \<le> usize_max" and "length es \<le> 2 ^ passes"
  shows "returns (\<lambda>(ds, k, _). sorts_entries T intent es ds \<and> k \<le> length es * passes)
    (stable_sorted_entry_indices is_cancelled (prepare_sort_entries T es (sort_key intent))
       (sort_direction intent) c)"
proof -
  have n: "min (length es) usize_max = length es" using assms(1) by simp
  have "returns (merge.sort_ok T intent es [0..<length es] passes 0)
    (stable_sorted_entry_indices is_cancelled (prepare_sort_entries T es (sort_key intent))
       (sort_direction intent) c)"
    unfolding stable_sorted_entry_indices_def prepare_sort_entries_length
    by (rule merge.merge_widths_ok) (use assms(2) runs_sorted_1 in \<open>simp_all add: n atLeast0LessThan\<close>)
  then show ?thesis
    by (rule returns_mono) (unfold merge.sort_ok_def, unfold sorts_entries_def n, auto)
qed

lemma prepare_cancellable:
  assumes "prepare_sort_entries_cancellable T key is_cancelled i es c = Inr (ps, n, c')"
  shows "ps = map (prepare_sort_entry T key) (enumerate i es) \<and> n = length es"
  using assms
proof (induction es arbitrary: i c ps n)
  case (Cons e es)
  then show ?case by (auto split: if_splits sum.splits prod.splits)
qed simp

text \<open>A plan prepared from entries \<open>es\<close> with the effective metadata \<open>fs\<close>.\<close>

definition plan_sorts ::
    "text_tables \<Rightarrow> sort_canonical_queue \<Rightarrow> canonical_sort_snapshot \<Rightarrow> playlist_entry list \<Rightarrow>
     prepared_canonical_sort \<Rightarrow> bool" where
  "plan_sorts T intent snap fs plan \<longleftrightarrow>
     sort_expected_revision plan = snapshot_revision snap
     \<and> expected_entry_ids plan = map entry_id (snapshot_entries snap)
     \<and> (\<exists>ds. sorts_entries T intent fs ds \<and> sorted_entry_ids plan = map entry_id (map ((!) fs) ds))
     \<and> stat_prepared_entries (sort_statistics plan) = length fs
     \<and> stat_shared_entry_handles (sort_statistics plan) = length fs
     \<and> (\<forall>passes. length fs \<le> 2 ^ passes \<longrightarrow>
          stat_comparisons (sort_statistics plan) \<le> length fs * passes)"

definition effective_entries :: "playlist_entry list \<Rightarrow> playlist_metadata_patch list \<Rightarrow> playlist_entry list" where
  "effective_entries es patches =
     apply_to_entries (prepare_metadata_patch_plan (iter_playable_items es) patches) es"

lemma those_map_Some: "(\<And>x. x \<in> set xs \<Longrightarrow> f x = Some (g x)) \<Longrightarrow> those (map f xs) = Some (map g xs)"
  by (induction xs) simp_all

lemma patch_entries_length: "length (fst (patch_entries s es)) = length es"
  by (induction es arbitrary: s) (simp_all add: Let_def split: prod.split, metis fst_conv)

lemma effective_entries_length [simp]: "length (effective_entries es patches) = length es"
  by (simp add: effective_entries_def apply_to_entries_def patch_entries_length)

lemma stable_sorted_entry_indices_all:
  assumes "length es \<le> usize_max"
  shows "returns (\<lambda>(ds, k, _). sorts_entries T intent es ds \<and> (\<forall>passes. length es \<le> 2 ^ passes \<longrightarrow> k \<le> length es * passes))
    (stable_sorted_entry_indices is_cancelled (prepare_sort_entries T es (sort_key intent))
       (sort_direction intent) c)" (is "returns _ ?run")
proof -
  note ok = stable_sorted_entry_indices_ok [OF assms, of _ T intent is_cancelled c]
  have "length es \<le> 2 ^ length es" by (simp add: less_imp_le)
  from ok [OF this] show ?thesis
  proof (cases rule: returns_cases)
    case (finished s)
    obtain ds k c' where s: "s = (ds, k, c')" by (metis prod_cases3)
    have "k \<le> length es * passes" if "length es \<le> 2 ^ passes" for passes
      using ok [OF that] finished(1) by (simp add: s)
    then show ?thesis using finished by (simp add: s)
  qed simp
qed

lemma sort_prepare_ok:
  assumes small: "length (snapshot_entries snap) \<le> usize_max"
  shows "returns (plan_sorts T intent snap (effective_entries (snapshot_entries snap) patches))
    (sort_prepare T snap patches intent is_cancelled c)"
proof -
  let ?es = "snapshot_entries snap"
  let ?fs = "effective_entries ?es patches"
  let ?c1 = "snd (is_cancelled c)" and ?ps = "prepare_sort_entries T ?fs (sort_key intent)"
  have eff: "apply_to_entries (prepare_metadata_patch_plan (concat (map entry_playable_items ?es)) patches) ?es = ?fs"
    by (simp add: effective_entries_def iter_playable_items_def)
  note run = sort_prepare_def [of T snap patches intent is_cancelled c, unfolded Let_def eff]
  show ?thesis
  proof (cases "fst (is_cancelled c)")
    case True
    then show ?thesis by (simp add: run)
  next
    case uncancelled: False
    show ?thesis
    proof (cases "prepare_sort_entries_cancellable T (sort_key intent) is_cancelled 0 ?fs ?c1")
      case (Inl e)
      then show ?thesis using uncancelled by (simp add: run)
    next
      case (Inr r)
      obtain ps n c2 where r: "r = (ps, n, c2)" by (metis prod_cases3)
      have ps: "ps = ?ps" "n = length ?fs"
        using prepare_cancellable [OF Inr [unfolded r]] by (simp_all add: prepare_sort_entries_def)
      note run' = run [unfolded Inr r ps]
      have "length ?fs \<le> usize_max" using small by simp
      from stable_sorted_entry_indices_all [OF this, of T intent is_cancelled c2] show ?thesis
      proof (cases rule: returns_cases)
        case (cancelled e)
        then show ?thesis using uncancelled by (simp add: run')
      next
        case (finished s)
        obtain ds k c3 where s: "s = (ds, k, c3)" by (metis prod_cases3)
        have ds: "sorts_entries T intent ?fs ds" "\<And>p. length ?fs \<le> 2 ^ p \<Longrightarrow> k \<le> length ?fs * p"
          using finished(2) by (simp_all add: s)
        have "those (map (\<lambda>k. Option.bind (slice_get ?ps k)
            (\<lambda>p. map_option entry_id (slice_get ?fs (original_index p)))) ds) = Some (map (\<lambda>k. entry_id (?fs ! k)) ds)"
          by (rule those_map_Some)
            (use sorts_entriesD(1) [OF ds(1)] in \<open>auto simp: slice_get_def prepare_sort_entries_nth\<close>)
        then show ?thesis
          using uncancelled finished(1) ds by (auto simp: run' s plan_sorts_def comp_def)
      qed
    qed
  qed
qed

section \<open>Publishing a prepared order\<close>

lemma index_by_id_nth:
  assumes "distinct (iter_top_level_entry_ids es)" "i < length es"
  shows "map_of (rev (map (\<lambda>(i, e). (entry_id e, i)) (enumerate 0 es))) (entry_id (es ! i)) = Some i"
proof -
  let ?xs = "map (\<lambda>(i, e). (entry_id e, i)) (enumerate 0 es)"
  have xs: "?xs = zip (map entry_id es) [0..<length es]"
    by (rule nth_equalityI) (simp_all add: nth_enumerate_eq)
  have "distinct (map fst (rev ?xs))"
    using assms(1) by (simp add: xs iter_top_level_entry_ids_def flip: rev_map)
  moreover have "(entry_id (es ! i), i) \<in> set (rev ?xs)"
    using assms(2) unfolding xs by (simp add: in_set_zip) (metis add_0 nth_map nth_upt)
  ultimately show ?thesis by simp
qed

text \<open>The permutation a list of identities stands for.\<close>

lemma permutation_of_ids:
  assumes d: "distinct (iter_top_level_entry_ids es)"
    and ids: "length ids = length es" "card (set ids) = length es"
      "list_all (\<lambda>e. e \<in> set ids) (iter_top_level_entry_ids es)"
  obtains ds where "those (map (map_of (rev (map (\<lambda>(i, e). (entry_id e, i)) (enumerate 0 es)))) ids) = Some ds"
    "mset ds = mset [0..<length es]" "map entry_id (map ((!) es) ds) = ids"
proof -
  have di: "distinct ids" using ids(1,2) by (simp add: card_distinct)
  have "set (iter_top_level_entry_ids es) \<subseteq> set ids" using ids(3) by (auto simp: list_all_iff)
  moreover have "card (set (iter_top_level_entry_ids es)) = length es"
    using distinct_card [OF d] by (simp add: iter_top_level_entry_ids_def)
  ultimately have set: "set ids = entry_id ` set es"
    using card_subset_eq [of "set ids" "set (iter_top_level_entry_ids es)"] ids(2)
    by (simp add: iter_top_level_entry_ids_def)
  define idx where "idx = (\<lambda>e. the (map_of (rev (map (\<lambda>(i, e). (entry_id e, i)) (enumerate 0 es))) e))"
  let ?ds = "map idx ids"
  have idx: "idx e < length es \<and> entry_id (es ! idx e) = e \<and> map_of (rev (map (\<lambda>(i, e). (entry_id e, i)) (enumerate 0 es))) e = Some (idx e)" if "e \<in> set ids" for e
  proof -
    obtain i where "i < length es" "e = entry_id (es ! i)" using \<open>e \<in> set ids\<close> set by (auto simp: in_set_conv_nth)
    then show ?thesis using index_by_id_nth [OF d, of i] by (simp add: idx_def)
  qed
  have inj: "inj_on idx (set ids)"
  proof (rule inj_onI)
    fix a b
    assume "a \<in> set ids" "b \<in> set ids" "idx a = idx b"
    then have "entry_id (es ! idx a) = a" "entry_id (es ! idx b) = b" "idx a = idx b"
      using idx [of a] idx [of b] by blast+
    then show "a = b" by metis
  qed
  have "set ?ds \<subseteq> {..<length es}" using idx by auto
  moreover have dd: "distinct ?ds" using di inj by (simp add: distinct_map)
  moreover have "card (set ?ds) = length es" using distinct_card [OF dd] ids(1) by simp
  ultimately have "set ?ds = set [0..<length es]"
    using card_subset_eq [of "{..<length es}" "set ?ds"] by (simp add: atLeast0LessThan)
  then have "mset ?ds = mset [0..<length es]" using dd set_eq_iff_mset_eq_distinct distinct_upt by blast
  moreover have "map entry_id (map ((!) es) ?ds) = ids"
    using idx by (intro map_idI [of ids "entry_id \<circ> (!) es \<circ> idx", unfolded map_map [symmetric]]) simp
  moreover have "those (map (map_of (rev (map (\<lambda>(i, e). (entry_id e, i)) (enumerate 0 es)))) ids) = Some ?ds"
    using idx by (intro those_map_Some) blast
  ultimately show thesis using that by blast
qed

lemma entries_eqI:
  assumes "map entry_id (map ((!) fs) ds) = iter_top_level_entry_ids fs"
    and "distinct (iter_top_level_entry_ids fs)" "set ds = {..<length fs}"
  shows "map ((!) fs) ds = fs"
proof (rule nth_equalityI)
  have len: "length ds = length fs" using arg_cong [OF assms(1), of length] by (simp add: iter_top_level_entry_ids_def)
  then show "length (map ((!) fs) ds) = length fs" by simp
  fix i
  assume "i < length (map ((!) fs) ds)"
  then have i: "i < length fs" "ds ! i < length fs" using len assms(3) nth_mem [of i ds] by auto
  have "entry_id (fs ! (ds ! i)) = entry_id (fs ! i)"
    using arg_cong [OF assms(1), of "\<lambda>xs. xs ! i"] i len by (simp add: iter_top_level_entry_ids_def)
  then have "ds ! i = i"
    using nth_eq_iff_index_eq [OF assms(2), of "ds ! i" i] i by (simp add: iter_top_level_entry_ids_def)
  then show "map ((!) fs) ds ! i = fs ! i" using i len by simp
qed

lemma effective_entries_ids:
  assumes "entries_wf es"
  shows "iter_top_level_entry_ids (effective_entries es patches) = iter_top_level_entry_ids es"
  unfolding effective_entries_def apply_to_entries_eq [OF assms] by (rule for_each_entries(1)) simp

text \<open>What the preflight demands of a plan, and what it publishes.\<close>

definition plan_accepted ::
    "playlist_queue \<Rightarrow> prepared_canonical_sort \<Rightarrow> playlist_metadata_patch list \<Rightarrow> u64 \<Rightarrow> u64 \<Rightarrow> bool" where
  "plan_accepted q plan patches m s \<longleftrightarrow>
     rev_structural (sort_expected_revision plan) = structural_revision q
     \<and> rev_metadata (sort_expected_revision plan) = metadata_revision q
     \<and> expected_entry_ids plan = iter_top_level_entry_ids (entries q)
     \<and> length (sorted_entry_ids plan) = length (entries q)
     \<and> card (set (sorted_entry_ids plan)) = length (entries q)
     \<and> list_all (\<lambda>e. e \<in> set (sorted_entry_ids plan)) (iter_top_level_entry_ids (entries q))
     \<and> (iter_top_level_entry_ids (entries q) \<noteq> sorted_entry_ids plan \<longrightarrow> active_reservation q = None)
     \<and> next_revision_if (changed_metadata (prepare_metadata_patch_plan (iter_playable_items (entries q)) patches))
         (metadata_revision q) = Some m
     \<and> next_revision_if (iter_top_level_entry_ids (entries q) \<noteq> sorted_entry_ids plan)
         (structural_revision q) = Some s"

lemma preflight_rejects:
  assumes "\<nexists>m s. plan_accepted q plan patches m s"
  shows "\<exists>err. preflight_prepared_canonical_sort q plan patches = Some (Inl err)"
  using assms by (auto simp: plan_accepted_def preflight_prepared_canonical_sort_def revision_snapshot_def
      Let_def split: option.split)

lemma preflight_accepts:
  assumes inv: "queue_inv q" and ok: "plan_accepted q plan patches m s"
  obtains ds where "mset ds = mset [0..<length (entries q)]"
    "sorted_entry_ids plan = map entry_id (map ((!) (effective_entries (entries q) patches)) ds)"
    "preflight_prepared_canonical_sort q plan patches = Some (Inr
       \<lparr>sort_next_entries = map ((!) (effective_entries (entries q) patches)) ds,
        sort_next_structural_revision = s, sort_next_metadata_revision = m,
        sort_outcome = \<lparr>sort_metadata_outcome =
            plan_outcome (prepare_metadata_patch_plan (iter_playable_items (entries q)) patches),
          was_reordered = (iter_top_level_entry_ids (entries q) \<noteq> sorted_entry_ids plan)\<rparr>\<rparr>)"
proof -
  let ?es = "entries q" and ?ids = "sorted_entry_ids plan"
  let ?plan = "prepare_metadata_patch_plan (iter_playable_items ?es) patches"
  let ?re = "iter_top_level_entry_ids ?es \<noteq> ?ids"
  let ?fs = "effective_entries ?es patches"
  have wf: "entries_wf ?es" using inv by (simp add: queue_inv_def)
  note d = queue_inv_distinct [OF inv] and ids = effective_entries_ids [OF wf, of patches]
  obtain ds where ds: "those (map (map_of (rev (map (\<lambda>(i, e). (entry_id e, i)) (enumerate 0 ?fs)))) ?ids) = Some ds"
    "mset ds = mset [0..<length ?fs]" "map entry_id (map ((!) ?fs) ds) = ?ids"
    by (rule permutation_of_ids [of ?fs ?ids]) (use ok d ids in \<open>simp_all add: plan_accepted_def\<close>)
  have mem: "set ds = {..<length ?fs}"
    using mset_eq_setD [OF ds(2)] by (simp only: set_upt atLeast0LessThan)
  have same: "map ((!) ?fs) ds = ?fs" if "\<not> ?re"
    using that ds(3) ids d mem by (intro entries_eqI) simp_all
  have "preflight_prepared_canonical_sort q plan patches = Some (Inr
       \<lparr>sort_next_entries = map ((!) ?fs) ds,
        sort_next_structural_revision = s, sort_next_metadata_revision = m,
        sort_outcome = \<lparr>sort_metadata_outcome = plan_outcome ?plan, was_reordered = ?re\<rparr>\<rparr>)"
  proof (cases ?re)
    case re: True
    show ?thesis using ok re ds(1) apply_prepared_order_ok [OF ds(2)]
      by (simp add: plan_accepted_def preflight_prepared_canonical_sort_def revision_snapshot_def Let_def
          flip: effective_entries_def)
  next
    case re: False
    show ?thesis using ok re same [OF re]
      by (simp add: plan_accepted_def preflight_prepared_canonical_sort_def revision_snapshot_def Let_def
          flip: effective_entries_def)
  qed
  then show thesis using that ds(2,3) by simp
qed

lemma applied_queue:
  assumes inv: "queue_inv q"
    and m: "next_revision_if (changed_metadata (prepare_metadata_patch_plan (iter_playable_items (entries q)) patches))
         (metadata_revision q) = Some m"
  shows "apply_metadata_patch_batch q patches =
    (Inr (plan_outcome (prepare_metadata_patch_plan (iter_playable_items (entries q)) patches)),
     q\<lparr>entries := effective_entries (entries q) patches, metadata_revision := m\<rparr>)"
  using m by (auto simp: apply_metadata_patch_batch_def preflight_metadata_patch_batch_def Let_def
      next_revision_if_def commit_metadata_patch_batch_def effective_entries_def split: if_splits)

lemma apply_accepted:
  assumes inv: "queue_inv q" and ok: "plan_accepted q plan patches m s"
  obtains ds where "mset ds = mset [0..<length (entries q)]"
    "sorted_entry_ids plan = map entry_id (map ((!) (effective_entries (entries q) patches)) ds)"
    "iter_top_level_entry_ids (entries q) = sorted_entry_ids plan \<Longrightarrow>
       map ((!) (effective_entries (entries q) patches)) ds = effective_entries (entries q) patches"
    "apply_prepared_canonical_sort q plan patches = Some (Inr
       \<lparr>sort_metadata_outcome =
            plan_outcome (prepare_metadata_patch_plan (iter_playable_items (entries q)) patches),
          was_reordered = (iter_top_level_entry_ids (entries q) \<noteq> sorted_entry_ids plan)\<rparr>,
        q\<lparr>entries := map ((!) (effective_entries (entries q) patches)) ds, metadata_revision := m,
          structural_revision := s\<rparr>)"
proof -
  let ?fs = "effective_entries (entries q) patches"
  let ?plan = "prepare_metadata_patch_plan (iter_playable_items (entries q)) patches"
  let ?re = "iter_top_level_entry_ids (entries q) \<noteq> sorted_entry_ids plan"
  have wf: "entries_wf (entries q)" using inv by (simp add: queue_inv_def)
  note ids = effective_entries_ids [OF wf, of patches]
  from preflight_accepts [OF inv ok] obtain ds where ds: "mset ds = mset [0..<length (entries q)]"
    "sorted_entry_ids plan = map entry_id (map ((!) ?fs) ds)"
    "preflight_prepared_canonical_sort q plan patches = Some (Inr
       \<lparr>sort_next_entries = map ((!) ?fs) ds,
        sort_next_structural_revision = s, sort_next_metadata_revision = m,
        sort_outcome = \<lparr>sort_metadata_outcome = plan_outcome ?plan, was_reordered = ?re\<rparr>\<rparr>)" .
  have mem: "set ds = {..<length ?fs}"
    using mset_eq_setD [OF ds(1)] by (simp only: set_upt atLeast0LessThan effective_entries_length)
  have same: "map ((!) ?fs) ds = ?fs" if "\<not> ?re"
    using that ds(2) ids queue_inv_distinct [OF inv] mem by (intro entries_eqI) simp_all
  have "m = metadata_revision q" if "\<not> changed_metadata ?plan"
    using ok that by (simp add: plan_accepted_def next_revision_if_def)
  moreover have "s = structural_revision q" if "\<not> ?re"
    using ok that by (simp add: plan_accepted_def next_revision_if_def)
  ultimately have "apply_prepared_canonical_sort q plan patches = Some (Inr
       \<lparr>sort_metadata_outcome = plan_outcome ?plan, was_reordered = ?re\<rparr>,
        q\<lparr>entries := map ((!) ?fs) ds, metadata_revision := m, structural_revision := s\<rparr>)"
    using ds(3) by (auto simp: apply_prepared_canonical_sort_def commit_prepared_canonical_sort_def
        changed_metadata_def)
  then show thesis using that ds(1,2) same by blast
qed

lemma apply_prepared_ok:
  assumes inv: "queue_inv q"
  shows "\<exists>res q'. apply_prepared_canonical_sort q plan patches = Some (res, q') \<and> op_ok q q'
    \<and> (\<forall>err. res = Inl err \<longrightarrow> q' = q)
    \<and> (\<forall>out. res = Inr out \<longrightarrow>
         mset (entries q') = mset (effective_entries (entries q) patches)
         \<and> iter_top_level_entry_ids (entries q') = sorted_entry_ids plan)"
proof (cases "\<exists>m s. plan_accepted q plan patches m s")
  case False
  then obtain err where "preflight_prepared_canonical_sort q plan patches = Some (Inl err)"
    using preflight_rejects by blast
  then show ?thesis using op_ok_refl [OF inv] by (simp add: apply_prepared_canonical_sort_def)
next
  case True
  then obtain m s where ok: "plan_accepted q plan patches m s" by blast
  let ?fs = "effective_entries (entries q) patches"
  let ?re = "iter_top_level_entry_ids (entries q) \<noteq> sorted_entry_ids plan"
  from apply_accepted [OF inv ok] obtain ds where ds: "mset ds = mset [0..<length (entries q)]"
    "sorted_entry_ids plan = map entry_id (map ((!) ?fs) ds)"
    "\<not> ?re \<Longrightarrow> map ((!) ?fs) ds = ?fs"
    "apply_prepared_canonical_sort q plan patches = Some (Inr
       \<lparr>sort_metadata_outcome = plan_outcome (prepare_metadata_patch_plan (iter_playable_items (entries q)) patches),
          was_reordered = ?re\<rparr>,
        q\<lparr>entries := map ((!) ?fs) ds, metadata_revision := m, structural_revision := s\<rparr>)" by blast
  let ?q1 = "q\<lparr>entries := ?fs, metadata_revision := m\<rparr>"
  let ?q2 = "q\<lparr>entries := map ((!) ?fs) ds, metadata_revision := m, structural_revision := s\<rparr>"
  have ms: "next_revision_if (changed_metadata (prepare_metadata_patch_plan (iter_playable_items (entries q)) patches))
       (metadata_revision q) = Some m" "next_revision_if ?re (structural_revision q) = Some s"
    "?re \<longrightarrow> active_reservation q = None"
    using ok by (simp_all add: plan_accepted_def)
  have perm: "mset (map ((!) ?fs) ds) = mset ?fs" using ds(1) by (intro mset_map_nth) simp
  have op1: "op_ok q ?q1" using apply_metadata_patch_batch_ok(1) [OF inv applied_queue [OF inv ms(1)]] .
  have "op_ok q ?q2"
  proof (cases ?re)
    case re: True
    have op2: "op_ok ?q1 (?q1\<lparr>entries := map ((!) ?fs) ds, structural_revision := s\<rparr>)"
      using op1 re ms(2,3) perm by (intro permuted_entries_ok) (simp_all add: op_ok_def next_revision_if_def)
    have eq: "?q1\<lparr>entries := map ((!) ?fs) ds, structural_revision := s\<rparr> = ?q2"
      by (rule playlist_queue.equality) simp_all
    show ?thesis using op_ok_trans [OF op1 op2] unfolding eq .
  next
    case re: False
    then have "?q2 = ?q1" using ds(3) ms(2) by (simp add: next_revision_if_def)
    then show ?thesis using op1 by simp
  qed
  then show ?thesis using ds(4) perm ds(2) by (simp add: iter_top_level_entry_ids_def)
qed

text \<open>The background sort publishes what the synchronous sort computes on the patched queue.\<close>

lemma length_le_retained:
  assumes "entries_wf es"
  shows "length es \<le> retained_item_count es"
proof -
  have "1 \<le> entry_retained_item_count e" if "entry_wf e" for e
    using that by (cases e) (auto simp: Suc_le_eq)
  then have "\<forall>e \<in> set es. entry_wf e \<Longrightarrow> length es \<le> retained_item_count es"
    by (induction es) (force simp: retained_item_count_def)+
  then show ?thesis using assms by (simp add: entries_wf_def)
qed

lemma set_map_nth_subset: "set ds \<subseteq> {..<length xs} \<Longrightarrow> set (map ((!) xs) ds) \<subseteq> set xs"
  by auto

lemma plan_of_snapshot:
  assumes inv: "queue_inv q"
    and prep: "sort_prepare T (canonical_sort_snapshot_of q) patches intent is_cancelled c = Some (Inr plan)"
  obtains ds where "sorts_entries T intent (effective_entries (entries q) patches) ds"
    "sorted_entry_ids plan = map entry_id (map ((!) (effective_entries (entries q) patches)) ds)"
    "sort_expected_revision plan = revision_snapshot q"
    "expected_entry_ids plan = iter_top_level_entry_ids (entries q)"
proof -
  have "length (entries q) \<le> usize_max"
    using inv length_le_retained [of "entries q"] by (simp add: queue_inv_def MAX_PLAYLIST_ITEMS_def usize_max_def)
  then have "returns (plan_sorts T intent (canonical_sort_snapshot_of q) (effective_entries (entries q) patches))
    (sort_prepare T (canonical_sort_snapshot_of q) patches intent is_cancelled c)"
    using sort_prepare_ok [of "canonical_sort_snapshot_of q"] by (simp add: canonical_sort_snapshot_of_def)
  then show thesis
    using that prep by (auto simp: plan_sorts_def canonical_sort_snapshot_of_def iter_top_level_entry_ids_def)
qed

lemma sorted_plan_accepted:
  assumes inv: "queue_inv q" and free: "active_reservation q = None"
    and plan: "sorts_entries T intent (effective_entries (entries q) patches) ds"
    "sorted_entry_ids plan = map entry_id (map ((!) (effective_entries (entries q) patches)) ds)"
    "sort_expected_revision plan = revision_snapshot q"
    "expected_entry_ids plan = iter_top_level_entry_ids (entries q)"
    and "next_revision_if (changed_metadata (prepare_metadata_patch_plan (iter_playable_items (entries q)) patches))
         (metadata_revision q) = Some m"
    and "next_revision_if (iter_top_level_entry_ids (entries q) \<noteq> sorted_entry_ids plan) (structural_revision q) = Some s"
  shows "plan_accepted q plan patches m s"
proof -
  let ?fs = "effective_entries (entries q) patches"
  have wf: "entries_wf (entries q)" using inv by (simp add: queue_inv_def)
  have m: "mset (sorted_entry_ids plan) = mset (iter_top_level_entry_ids (entries q))"
  proof -
    have "mset (sorted_entry_ids plan) = image_mset entry_id (mset (map ((!) ?fs) ds))"
      by (simp only: plan(2) mset_map)
    also have "\<dots> = mset (iter_top_level_entry_ids ?fs)"
      by (subst sorts_entriesD(4) [OF plan(1)]) (simp only: iter_top_level_entry_ids_def mset_map)
    finally show ?thesis by (simp only: effective_entries_ids [OF wf])
  qed
  have "distinct (sorted_entry_ids plan)" "set (sorted_entry_ids plan) = set (iter_top_level_entry_ids (entries q))"
    "length (sorted_entry_ids plan) = length (entries q)"
    using mset_eq_set_distinct [OF m queue_inv_distinct [OF inv]] mset_eq_length [OF m]
    by (simp_all add: iter_top_level_entry_ids_def)
  then show ?thesis using assms(2-) distinct_card [of "sorted_entry_ids plan"]
    by (simp add: plan_accepted_def revision_snapshot_def list_all_iff)
qed

lemma background_agrees:
  assumes inv: "queue_inv q" and free: "active_reservation q = None"
    and prep: "sort_prepare T (canonical_sort_snapshot_of q) patches intent is_cancelled c = Some (Inr plan)"
    and patch: "apply_metadata_patch_batch q patches = (Inr mo, q1)"
    and sort: "sort_canonical T q1 intent = Some (so, q2)" "so \<noteq> SortStructuralRevisionExhausted"
  shows "apply_prepared_canonical_sort q plan patches =
    Some (Inr \<lparr>sort_metadata_outcome = mo, was_reordered = (so \<noteq> AlreadyInCanonicalOrder)\<rparr>, q2)"
proof -
  let ?fs = "effective_entries (entries q) patches"
  let ?mp = "prepare_metadata_patch_plan (iter_playable_items (entries q)) patches"
  let ?ids = "iter_top_level_entry_ids (entries q)"
  have wf: "entries_wf (entries q)" using inv by (simp add: queue_inv_def)
  note d = queue_inv_distinct [OF inv] and ids = effective_entries_ids [OF wf, of patches]
  from patch obtain m where m: "next_revision_if (changed_metadata ?mp) (metadata_revision q) = Some m"
    by (auto simp: apply_metadata_patch_batch_def preflight_metadata_patch_batch_def Let_def next_revision_if_def
        split: if_splits option.splits)
  have q1: "mo = plan_outcome ?mp" "q1 = q\<lparr>entries := ?fs, metadata_revision := m\<rparr>"
    using applied_queue [OF inv m] patch by simp_all
  have inv1: "queue_inv q1" using apply_metadata_patch_batch_ok(1) [OF inv patch] by (simp add: op_ok_def)
  from plan_of_snapshot [OF inv prep] obtain ds0 where plan: "sorts_entries T intent ?fs ds0"
    "sorted_entry_ids plan = map entry_id (map ((!) ?fs) ds0)"
    "sort_expected_revision plan = revision_snapshot q" "expected_entry_ids plan = ?ids" by blast
  have uniq: "ds = ds0" if "sorts_entries T intent ?fs ds" for ds
    using sorts_entries_unique [OF _ that plan(1)] d ids by simp
  have inj: "map ((!) ?fs) ds = map ((!) ?fs) ds0"
    if "sorted_entry_ids plan = map entry_id (map ((!) ?fs) ds)" "mset ds = mset [0..<length (entries q)]" for ds
  proof -
    have "set ds = {..<length ?fs}" "set ds0 = {..<length ?fs}"
      using mset_eq_setD [OF that(2)] sorts_entriesD(1) [OF plan(1)]
      by (simp_all only: set_upt atLeast0LessThan effective_entries_length)
    then have "set (map ((!) ?fs) ds) \<union> set (map ((!) ?fs) ds0) \<subseteq> set ?fs"
      by (intro Un_least set_map_nth_subset) (simp_all only: order_refl)
    moreover have "inj_on entry_id (set ?fs)"
      using d unfolding ids [symmetric] by (simp add: iter_top_level_entry_ids_def distinct_map)
    ultimately have "inj_on entry_id (set (map ((!) ?fs) ds) \<union> set (map ((!) ?fs) ds0))"
      by (rule inj_on_subset [rotated])
    from iffD1 [OF inj_on_map_eq_map [OF this]] show ?thesis using that(1) plan(2) by simp
  qed
  show ?thesis using inv1
  proof (cases rule: sort_canonical_cases [where T = T and intent = intent])
    case sorted
    then have ds0: "ds0 = [0..<length ?fs]" using uniq q1 by simp
    have same: "map ((!) ?fs) ds0 = ?fs" unfolding ds0 by (rule map_nth)
    then have eq: "?ids = sorted_entry_ids plan" using plan(2) ids by (simp add: iter_top_level_entry_ids_def)
    have "plan_accepted q plan patches m (structural_revision q)"
      by (rule sorted_plan_accepted [OF inv free plan m]) (simp add: eq next_revision_if_def)
    from apply_accepted [OF inv this] obtain ds where ds: "mset ds = mset [0..<length (entries q)]"
      "sorted_entry_ids plan = map entry_id (map ((!) ?fs) ds)"
      "apply_prepared_canonical_sort q plan patches = Some (Inr
         \<lparr>sort_metadata_outcome = plan_outcome ?mp, was_reordered = (?ids \<noteq> sorted_entry_ids plan)\<rparr>,
          q\<lparr>entries := map ((!) ?fs) ds, metadata_revision := m,
            structural_revision := structural_revision q\<rparr>)" by blast
    have "so = AlreadyInCanonicalOrder" "q2 = q1" using sorted(3) sort by simp_all
    then show ?thesis unfolding ds(3) inj [OF ds(2,1)] same using eq q1 by simp
  next
    case (reordered ds s)
    have ds: "ds = ds0" using uniq reordered(2) q1 by simp
    have "?ids \<noteq> sorted_entry_ids plan"
    proof
      assume "?ids = sorted_entry_ids plan"
      then have "map ((!) ?fs) ds0 = ?fs"
        using plan(2) ids d sorts_entriesD(1) [OF plan(1)] by (intro entries_eqI) simp_all
      then show False using reordered(3) ds q1 by simp
    qed
    then have re: "(?ids \<noteq> sorted_entry_ids plan) = True" by simp
    have "plan_accepted q plan patches m s"
      by (rule sorted_plan_accepted [OF inv free plan m], unfold re)
        (use reordered(4) q1 in \<open>simp add: next_revision_if_def\<close>)
    from apply_accepted [OF inv this] obtain ds1 where ds1: "mset ds1 = mset [0..<length (entries q)]"
      "sorted_entry_ids plan = map entry_id (map ((!) ?fs) ds1)"
      "apply_prepared_canonical_sort q plan patches = Some (Inr
         \<lparr>sort_metadata_outcome = plan_outcome ?mp, was_reordered = (?ids \<noteq> sorted_entry_ids plan)\<rparr>,
          q\<lparr>entries := map ((!) ?fs) ds1, metadata_revision := m, structural_revision := s\<rparr>)" by blast
    have so: "so = SortReordered (length (entries q1))"
      "q2 = q1\<lparr>entries := map ((!) (entries q1)) ds, structural_revision := s\<rparr>"
      using reordered(5) sort(1) by simp_all
    have "q2 = q\<lparr>entries := map ((!) ?fs) ds0, metadata_revision := m, structural_revision := s\<rparr>"
      unfolding so q1 ds by (rule playlist_queue.equality) simp_all
    then show ?thesis unfolding ds1(3) inj [OF ds1(2,1)] re using q1 so(1) by simp
  qed (use sort free q1 in simp_all)
qed

section \<open>A callback that never cancels, an order that is already there\<close>

lemma prepare_uncancelled:
  assumes "\<forall>c. \<not> fst (is_cancelled c)"
  shows "\<exists>x. prepare_sort_entries_cancellable T key is_cancelled i es c = Inr x"
  by (induction es arbitrary: i c) (use assms in \<open>auto split: sum.splits\<close>, metis sum.distinct(1))

lemma sort_prepare_uncancelled:
  assumes never: "\<forall>c. \<not> fst (is_cancelled c)" and small: "length (snapshot_entries snap) \<le> usize_max"
  shows "\<exists>plan. sort_prepare T snap patches intent is_cancelled c = Some (Inr plan)"
proof -
  obtain res where res: "sort_prepare T snap patches intent is_cancelled c = Some res"
    using sort_prepare_ok [OF small, of T intent patches is_cancelled c] unfolding returns_def by blast
  let ?es = "apply_to_entries (prepare_metadata_patch_plan
      (concat (map entry_playable_items (snapshot_entries snap))) patches) (snapshot_entries snap)"
  obtain ps n c2 where p: "prepare_sort_entries_cancellable T (sort_key intent) is_cancelled 0 ?es
      (snd (is_cancelled c)) = Inr (ps, n, c2)"
    using prepare_uncancelled [OF never] by (metis prod_cases3)
  have "stable_sorted_entry_indices is_cancelled ps (sort_direction intent) c2 \<noteq> Some (Inl e)" for e
    unfolding stable_sorted_entry_indices_def using merge_widths_uncancelled [OF never] by blast
  with res p have "res \<noteq> Inl e" for e
    by (auto simp: sort_prepare_def Let_def never split: option.splits sum.splits prod.splits)
  with res show ?thesis by (cases res) auto
qed

lemma sorts_entries_sorted:
  assumes "cmp_sorted (entry_order T (sort_key intent) (sort_direction intent)) es"
  shows "sorts_entries T intent es [0..<length es]"
proof -
  have "map ((!) es) [0..<length es] = es" by (rule map_nth)
  then have "cmp_sorted (entry_order T (sort_key intent) (sort_direction intent)) (map ((!) es) [0..<length es])"
    using assms by simp
  then show ?thesis unfolding sorts_entries_def cmp_sorted_map index_order_def [abs_def] by simp
qed

lemma sort_canonical_sorted_input:
  assumes inv: "queue_inv q" and free: "active_reservation q = None"
    and sorted: "cmp_sorted (entry_order T (sort_key intent) (sort_direction intent)) (entries q)"
  shows "sort_canonical T q intent = Some (AlreadyInCanonicalOrder, q)"
  using inv
proof (cases rule: sort_canonical_cases [where T = T and intent = intent])
  case (exhausted ds)
  with sorts_entries_unique [OF queue_inv_distinct [OF inv] exhausted(2) sorts_entries_sorted [OF sorted]]
  show ?thesis by (simp add: map_nth)
next
  case (reordered ds s)
  with sorts_entries_unique [OF queue_inv_distinct [OF inv] reordered(2) sorts_entries_sorted [OF sorted]]
  show ?thesis by (simp add: map_nth)
qed (use free in simp_all)

end
