(* ===== verification/Queue_System.thy ===== *)
theory Queue_System
  imports Queue_Automatic Queue_Restore Queue_Sort
begin

text \<open>
  The queue with everything its clients may hold across calls: removal snapshots for Undo, manual
  navigation previews, automatic traversal plans and the one prepared token. A client (the playlist
  controller of \<open>app-egui\<close>) calls the operations in any order; \<open>perform\<close> runs one call on the
  state, \<open>None\<close> standing for a panic, and \<open>system_step\<close> is the transition relation it induces.
  \<^item> Snapshots, previews and plans may be stale: they stay in the state and every later call may
    use them again. Only the token is linear, as its Rust type is.
  \<^item> \<open>perform_ok\<close>: from a state with the invariant every call returns and keeps the invariant. The
    one exception is the commit of an automatic token whose plan was made with shuffle enabled, on a
    queue where shuffle has been disabled since.
\<close>

section \<open>Definitions\<close>

datatype queue_edit =
    AppendEntries "playlist_entry_draft list"
  | AppendCappedEntries "playlist_entry_draft list"
  | ReplaceEntries "playlist_entry_draft list"
  | AppendBatch "playlist_item_draft list"
  | AppendCappedTail "playlist_item_draft list"
  | ReplaceAll "playlist_item_draft list"
  | ClearQueue
  | SetCurrent playlist_item_id
  | ClearCurrent
  | ManualPlay playlist_item_id
  | EnableShuffle
  | DisableShuffle
  | RemoveEntry playlist_entry_id
  | RemoveBatch "playlist_entry_id list" "playlist_entry_id list"
  | RemoveOthers playlist_entry_id
  | MoveItem playlist_entry_id move_item_intent
  | MoveItems "playlist_entry_id list" move_item_intent
  | InsertDiscovery queue_revision_snapshot "playlist_entry_id option" "playlist_item_draft list"
  | PatchMetadata "playlist_metadata_patch list"
  | SortCanonical text_tables sort_canonical_queue
  | ApplySort prepared_canonical_sort "playlist_metadata_patch list"

abbreviation keep_rng :: "'r \<Rightarrow> 'a \<times> playlist_queue \<Rightarrow> playlist_queue \<times> 'r" where
  "keep_rng r \<equiv> (\<lambda>(_, q'). (q', r))"

fun perform_edit :: "'r rng \<Rightarrow> 'r \<Rightarrow> playlist_queue \<Rightarrow> queue_edit \<Rightarrow> (playlist_queue \<times> 'r) run" where
  "perform_edit R r q (AppendEntries ds) = map_option snd (append_entries R r q ds)"
| "perform_edit R r q (AppendCappedEntries ds) = map_option snd (append_capped_entries R r q ds)"
| "perform_edit R r q (ReplaceEntries ds) = map_option snd (replace_entries R r q ds)"
| "perform_edit R r q (AppendBatch ds) = map_option snd (append_batch R r q ds)"
| "perform_edit R r q (AppendCappedTail ds) = map_option snd (append_capped_tail R r q ds)"
| "perform_edit R r q (ReplaceAll ds) = map_option snd (replace_all R r q ds)"
| "perform_edit R r q ClearQueue = Some (snd (clear q), r)"
| "perform_edit R r q (SetCurrent i) = map_option (keep_rng r) (set_traversal_current q i)"
| "perform_edit R r q ClearCurrent = Some (snd (clear_traversal_current q), r)"
| "perform_edit R r q (ManualPlay i) = map_option (keep_rng r) (commit_manual_play q i)"
| "perform_edit R r q EnableShuffle = Some (snd (enable_shuffle R r q))"
| "perform_edit R r q DisableShuffle = Some (snd (disable_shuffle q), r)"
| "perform_edit R r q (RemoveEntry k) = map_option (keep_rng r) (remove_entry q k)"
| "perform_edit R r q (RemoveBatch ks order) = map_option (keep_rng r) (remove_batch q ks order)"
| "perform_edit R r q (RemoveOthers k) = map_option (keep_rng r) (remove_others q k)"
| "perform_edit R r q (MoveItem k intent) = map_option (keep_rng r) (move_item q k intent)"
| "perform_edit R r q (MoveItems ks intent) = map_option (keep_rng r) (move_items q ks intent)"
| "perform_edit R r q (InsertDiscovery v anchor ds) = Some (snd (insert_discovery_batch R r q v anchor ds))"
| "perform_edit R r q (PatchMetadata ps) = Some (snd (apply_metadata_patch_batch q ps), r)"
| "perform_edit R r q (SortCanonical T intent) = map_option (keep_rng r) (sort_canonical T q intent)"
| "perform_edit R r q (ApplySort plan ps) = map_option (keep_rng r) (apply_prepared_canonical_sort q plan ps)"

text \<open>What the argument types guarantee: a compound draft has parts, and a list in memory has a
  length.\<close>

fun edit_wf :: "queue_edit \<Rightarrow> bool" where
  "edit_wf (AppendEntries ds) \<longleftrightarrow> (\<forall>d \<in> set ds. draft_wf d)"
| "edit_wf (AppendCappedEntries ds) \<longleftrightarrow>
     (\<forall>d \<in> set ds. draft_wf d) \<and> sum_list (map draft_retained_item_count ds) \<le> usize_max"
| "edit_wf (ReplaceEntries ds) \<longleftrightarrow> (\<forall>d \<in> set ds. draft_wf d)"
| "edit_wf _ \<longleftrightarrow> True"

datatype live_token =
    ReservedToken prepared_queue_mutation_token
  | ManualToken prepared_manual_navigation_token
  | AutomaticToken prepared_automatic_traversal_token

record playlist_system =
  queue :: playlist_queue
  snapshots :: "playlist_removal_snapshot list"
  previews :: "manual_navigation_preview list"
  plans :: "automatic_traversal_plan list"
  live_token :: "live_token option"

datatype client_call =
    Edit queue_edit
  | CaptureSnapshot
  | UndoRemoval nat
  | UndoRows nat
  | PrepareReserved queue_revision_snapshot reserved_queue_mutation nat
  | BeginDetached manual_navigation_direction
  | BeginFailed playlist_item_id
  | BeginManual manual_navigation_intent
  | ContinueManual nat manual_navigation_intent
  | PrepareManual nat nat
  | BeginAutomatic repeat_mode bool
  | AdvanceAutomatic nat
  | RevalidateAutomatic nat
  | PrepareAutomatic nat nat
  | AbortToken
  | FailToken
  | CommitToken
  | DropToken

text \<open>Bookkeeping of what a call returns.\<close>

fun offer_preview :: "manual_navigation_outcome \<Rightarrow> playlist_system \<Rightarrow> playlist_system" where
  "offer_preview (manual_navigation_outcome.OpenItem _ p) s = s\<lparr>previews := previews s @ [p]\<rparr>"
| "offer_preview (NoItem _) s = s"

fun offer_plan :: "automatic_traversal_advance \<Rightarrow> playlist_system \<Rightarrow> playlist_system" where
  "offer_plan (automatic_traversal_advance.OpenItem _ p) s = s\<lparr>plans := plans s @ [p]\<rparr>"
| "offer_plan (AllFailed _) s = s"

fun offer_start :: "automatic_traversal_start \<Rightarrow> playlist_system \<Rightarrow> playlist_system" where
  "offer_start (automatic_traversal_start.OpenItem _ p) s = s\<lparr>plans := plans s @ [p]\<rparr>"
| "offer_start _ s = s"

definition with_nth :: "'a list \<Rightarrow> nat \<Rightarrow> 's \<Rightarrow> 'r \<Rightarrow> ('a \<Rightarrow> ('s \<times> 'r) run) \<Rightarrow> ('s \<times> 'r) run" where
  "with_nth xs n s r f = (case slice_get xs n of None \<Rightarrow> Some (s, r) | Some x \<Rightarrow> f x)"

fun abort_token :: "playlist_system \<Rightarrow> live_token \<Rightarrow> playlist_system run" where
  "abort_token s (ReservedToken t) =
     map_option (\<lambda>q. s\<lparr>queue := q, live_token := None\<rparr>) (abort_reserved (queue s) t)"
| "abort_token s (ManualToken t) =
     map_option (\<lambda>(p, q). s\<lparr>queue := q, live_token := None, previews := previews s @ [p]\<rparr>)
       (abort_manual_navigation (queue s) t)"
| "abort_token s (AutomaticToken t) =
     map_option (\<lambda>(p, q). s\<lparr>queue := q, live_token := None, plans := plans s @ [p]\<rparr>)
       (abort_automatic_traversal (queue s) t)"

text \<open>Only a manual token can be failed; any other client aborts.\<close>

fun fail_token :: "playlist_system \<Rightarrow> live_token \<Rightarrow> playlist_system run" where
  "fail_token s (ManualToken t) =
     map_option (\<lambda>(p, q). s\<lparr>queue := q, live_token := None, previews := previews s @ [p]\<rparr>)
       (fail_manual_navigation (queue s) t)"
| "fail_token s t = abort_token s t"

fun commit_token :: "'r rng \<Rightarrow> 'r \<Rightarrow> playlist_system \<Rightarrow> live_token \<Rightarrow> (playlist_system \<times> 'r) run" where
  "commit_token R r s (ReservedToken t) =
     map_option (\<lambda>(_, q, r'). (s\<lparr>queue := q, live_token := None\<rparr>, r')) (commit_reserved R r (queue s) t)"
| "commit_token R r s (ManualToken t) =
     map_option (\<lambda>(_, q, r'). (s\<lparr>queue := q, live_token := None\<rparr>, r'))
       (commit_manual_navigation R r (queue s) t)"
| "commit_token R r s (AutomaticToken t) =
     map_option (\<lambda>(_, q, r'). (s\<lparr>queue := q, live_token := None\<rparr>, r'))
       (commit_automatic_traversal R r (queue s) t)"

definition prepared :: "playlist_system \<Rightarrow> 'r \<Rightarrow> ('t \<Rightarrow> live_token) \<Rightarrow> ('e + 't) \<times> playlist_queue \<Rightarrow> playlist_system \<times> 'r" where
  "prepared s r wrap = (\<lambda>(res, q).
     (case res of Inl _ \<Rightarrow> s\<lparr>queue := q\<rparr> | Inr t \<Rightarrow> s\<lparr>queue := q, live_token := Some (wrap t)\<rparr>, r))"

fun perform :: "'r rng \<Rightarrow> 'r \<Rightarrow> playlist_system \<Rightarrow> client_call \<Rightarrow> (playlist_system \<times> 'r) run" where
  "perform R r s (Edit e) = map_option (\<lambda>(q, r'). (s\<lparr>queue := q\<rparr>, r')) (perform_edit R r (queue s) e)"
| "perform R r s CaptureSnapshot =
     Some (s\<lparr>snapshots := snapshots s @ [capture_removal_snapshot (queue s)]\<rparr>, r)"
| "perform R r s (UndoRemoval n) =
     with_nth (snapshots s) n s r
       (\<lambda>x. Some (s\<lparr>queue := snd (restore_removal_snapshot (queue s) x)\<rparr>, r))"
| "perform R r s (UndoRows n) =
     with_nth (snapshots s) n s r
       (\<lambda>x. Some (s\<lparr>queue := snd (restore_removed_rows_keeping_current (queue s) x)\<rparr>, r))"
| "perform R r s (PrepareReserved v m address) =
     map_option (prepared s r ReservedToken) (prepare_reserved_mutation (queue s) v m address)"
| "perform R r s (BeginDetached d) =
     map_option (\<lambda>out. (offer_preview out s, r)) (begin_replacement_detached_navigation (queue s) d)"
| "perform R r s (BeginFailed i) =
     map_option (\<lambda>res. (case res of Inl _ \<Rightarrow> s | Inr p \<Rightarrow> s\<lparr>previews := previews s @ [p]\<rparr>, r))
       (begin_failed_manual_navigation (queue s) i)"
| "perform R r s (BeginManual intent) =
     map_option (\<lambda>(out, r'). (offer_preview out s, r')) (begin_manual_navigation R r (queue s) intent)"
| "perform R r s (ContinueManual n intent) =
     with_nth (previews s) n s r
       (\<lambda>p. map_option (\<lambda>(res, r'). (case res of Inl _ \<Rightarrow> s | Inr out \<Rightarrow> offer_preview out s, r'))
          (continue_manual_navigation R r (queue s) p intent))"
| "perform R r s (PrepareManual n address) =
     with_nth (previews s) n s r
       (\<lambda>p. map_option (prepared s r ManualToken) (prepare_manual_navigation (queue s) p address))"
| "perform R r s (BeginAutomatic mode failed) =
     map_option (\<lambda>(out, r'). (offer_start out s, r')) (begin_automatic_traversal R r (queue s) mode failed)"
| "perform R r s (AdvanceAutomatic n) =
     with_nth (plans s) n s r
       (\<lambda>p. map_option (\<lambda>(out, r'). (offer_plan out s, r'))
          (advance_automatic_traversal_after_failure R r (queue s) p))"
| "perform R r s (RevalidateAutomatic n) =
     with_nth (plans s) n s r
       (\<lambda>p. map_option (\<lambda>(out, r'). (offer_plan out s, r'))
          (revalidate_automatic_traversal R r (queue s) p))"
| "perform R r s (PrepareAutomatic n address) =
     with_nth (plans s) n s r
       (\<lambda>p. map_option (prepared s r AutomaticToken) (prepare_automatic_traversal (queue s) p address))"
| "perform R r s AbortToken =
     (case live_token s of None \<Rightarrow> Some (s, r) | Some t \<Rightarrow> map_option (\<lambda>s'. (s', r)) (abort_token s t))"
| "perform R r s FailToken =
     (case live_token s of None \<Rightarrow> Some (s, r) | Some t \<Rightarrow> map_option (\<lambda>s'. (s', r)) (fail_token s t))"
| "perform R r s CommitToken =
     (case live_token s of None \<Rightarrow> Some (s, r) | Some t \<Rightarrow> commit_token R r s t)"
| "perform R r s DropToken = Some (s\<lparr>live_token := None\<rparr>, r)"

text \<open>Addresses of heap cells are not zero.\<close>

fun call_wf :: "client_call \<Rightarrow> bool" where
  "call_wf (Edit e) \<longleftrightarrow> edit_wf e"
| "call_wf (PrepareReserved _ _ address) \<longleftrightarrow> address \<noteq> 0"
| "call_wf (PrepareManual _ address) \<longleftrightarrow> address \<noteq> 0"
| "call_wf (PrepareAutomatic _ address) \<longleftrightarrow> address \<noteq> 0"
| "call_wf _ \<longleftrightarrow> True"

definition system_of :: "playlist_queue \<Rightarrow> playlist_system" where
  "system_of q = \<lparr>queue = q, snapshots = [], previews = [], plans = [], live_token = None\<rparr>"

inductive system_step :: "'r rng \<Rightarrow> playlist_system \<Rightarrow> playlist_system \<Rightarrow> bool" for R where
  call: "rng_ok R \<Longrightarrow> call_wf c \<Longrightarrow> perform R r s c = Some (s', r') \<Longrightarrow> system_step R s s'"

text \<open>The call that can panic.\<close>

definition shuffle_dropped :: "playlist_system \<Rightarrow> client_call \<Rightarrow> bool" where
  "shuffle_dropped s c \<longleftrightarrow>
     c = CommitToken \<and>
     (case live_token s of
        Some (AutomaticToken t) \<Rightarrow>
          plan_shuffle_preview (token_plan t) \<noteq> None \<and> shuffle_traversal (queue s) = None
      | _ \<Rightarrow> False)"

section \<open>The invariant\<close>

text \<open>An entry identity names the same rows in the queue and in every snapshot, and the watermarks
  of a snapshot are not above those of the queue.\<close>

definition lineage :: "playlist_system \<Rightarrow> playlist_entry set" where
  "lineage s = set (entries (queue s)) \<union> (\<Union>x \<in> set (snapshots s). set (rs_entries x))"

definition same_rows :: "playlist_entry set \<Rightarrow> bool" where
  "same_rows A \<longleftrightarrow> (\<forall>e \<in> A. \<forall>f \<in> A. entry_id e = entry_id f \<longrightarrow> shape e = shape f)"

definition snapshot_below :: "playlist_queue \<Rightarrow> playlist_removal_snapshot \<Rightarrow> bool" where
  "snapshot_below q x \<longleftrightarrow>
     queue_inv (snapshot_queue x)
     \<and> next_item_id (rs_item_allocator x) \<le> next_item_id (item_allocator q)
     \<and> next_group_id (rs_group_allocator x) \<le> next_group_id (group_allocator q)"

definition snapshots_ok :: "playlist_system \<Rightarrow> bool" where
  "snapshots_ok s \<longleftrightarrow> same_rows (lineage s) \<and> (\<forall>x \<in> set (snapshots s). snapshot_below (queue s) x)"

fun token_ok :: "playlist_queue \<Rightarrow> live_token \<Rightarrow> bool" where
  "token_ok q (ReservedToken t) \<longleftrightarrow>
     active_reservation q = Some (token_key t) \<and> prepared_for q (token_mutation t)"
| "token_ok q (ManualToken t) \<longleftrightarrow> manual_token_ok q t"
| "token_ok q (AutomaticToken t) \<longleftrightarrow> automatic_token_ok q t"

definition system_inv :: "playlist_system \<Rightarrow> bool" where
  "system_inv s \<longleftrightarrow>
     queue_inv (queue s) \<and> snapshots_ok s
     \<and> (\<forall>p \<in> set (previews s). preview_fits (queue s) p)
     \<and> (\<forall>p \<in> set (plans s). plan_wf p)
     \<and> (\<forall>t. live_token s = Some t \<longrightarrow> token_ok (queue s) t)"

section \<open>Every edit keeps the queue invariant\<close>

lemma keep_rng_run:
  "\<exists>res q'. x = Some (res, q') \<and> P q' \<Longrightarrow> \<exists>q' r'. map_option (keep_rng r) x = Some (q', r') \<and> P q'"
  by auto

lemma snd_run:
  "\<exists>res q' r'. x = Some (res, q', r') \<and> P q' \<Longrightarrow> \<exists>q' r'. map_option snd x = Some (q', r') \<and> P q'"
  by auto

lemma perform_edit_ok:
  assumes rng: "rng_ok R" and inv: "queue_inv q" and wf: "edit_wf e"
  shows "\<exists>q' r'. perform_edit R r q e = Some (q', r') \<and> op_ok q q'"
proof (cases e)
  case (AppendEntries ds)
  then show ?thesis using append_entries_ok [OF rng inv, of ds r] wf
    unfolding AppendEntries perform_edit.simps by (intro snd_run) (simp, blast)
next
  case (AppendCappedEntries ds)
  then show ?thesis using append_capped_entries_ok [OF rng inv, of ds r] wf
    unfolding AppendCappedEntries perform_edit.simps by (intro snd_run) (simp, blast)
next
  case (ReplaceEntries ds)
  then show ?thesis using replace_entries_ok [OF rng inv, of ds r] wf
    unfolding ReplaceEntries perform_edit.simps by (intro snd_run) (simp, blast)
next
  case (AppendBatch ds)
  show ?thesis using append_batch_ok [OF rng inv, of r ds]
    unfolding AppendBatch perform_edit.simps by (intro snd_run) blast
next
  case (AppendCappedTail ds)
  show ?thesis using append_capped_tail_ok [OF rng inv, of r ds]
    unfolding AppendCappedTail perform_edit.simps by (intro snd_run) blast
next
  case (ReplaceAll ds)
  show ?thesis using replace_all_ok [OF rng inv, of r ds]
    unfolding ReplaceAll perform_edit.simps by (intro snd_run) blast
next
  case ClearQueue
  then show ?thesis using clear_ok(1) [OF inv] by simp
next
  case (SetCurrent i)
  show ?thesis using set_traversal_current_ok [OF inv, of i]
    unfolding SetCurrent perform_edit.simps by (intro keep_rng_run) blast
next
  case ClearCurrent
  then show ?thesis using clear_traversal_current_ok [OF inv] by simp
next
  case (ManualPlay i)
  show ?thesis using commit_manual_play_ok [OF inv, of i]
    unfolding ManualPlay perform_edit.simps by (intro keep_rng_run) blast
next
  case EnableShuffle
  then show ?thesis using enable_shuffle_ok [OF rng inv, of r] by (cases "enable_shuffle R r q") auto
next
  case DisableShuffle
  then show ?thesis using disable_shuffle_ok [OF inv] by simp
next
  case (RemoveEntry k)
  show ?thesis using remove_entry_ok [OF inv, of k]
    unfolding RemoveEntry perform_edit.simps by (intro keep_rng_run) blast
next
  case (RemoveBatch ks order)
  show ?thesis using remove_batch_ok [OF inv, of ks order]
    unfolding RemoveBatch perform_edit.simps by (intro keep_rng_run) blast
next
  case (RemoveOthers k)
  show ?thesis using remove_others_ok [OF inv, of k]
    unfolding RemoveOthers perform_edit.simps by (intro keep_rng_run) blast
next
  case (MoveItem k intent)
  show ?thesis using move_item_ok [OF inv, of k intent]
    unfolding MoveItem perform_edit.simps by (intro keep_rng_run) blast
next
  case (MoveItems ks intent)
  show ?thesis using move_items_ok [OF inv, of ks intent]
    unfolding MoveItems perform_edit.simps by (intro keep_rng_run) blast
next
  case (InsertDiscovery v anchor ds)
  then show ?thesis using insert_discovery_batch_ok(1) [OF rng inv, of r v anchor ds]
    by (cases "insert_discovery_batch R r q v anchor ds") auto
next
  case (PatchMetadata ps)
  then show ?thesis using apply_metadata_patch_batch_ok(1) [OF inv, of ps]
    by (cases "apply_metadata_patch_batch q ps") auto
next
  case (SortCanonical T intent)
  have "\<exists>out q'. sort_canonical T q intent = Some (out, q')"
    using inv by (cases rule: sort_canonical_cases [where T = T and intent = intent]) simp_all
  then have "\<exists>out q'. sort_canonical T q intent = Some (out, q') \<and> op_ok q q'"
    using sort_canonical_ok(1) [OF inv] by blast
  then show ?thesis unfolding SortCanonical perform_edit.simps by (rule keep_rng_run)
next
  case (ApplySort plan ps)
  show ?thesis using apply_prepared_ok [OF inv, of plan ps]
    unfolding ApplySort perform_edit.simps by (intro keep_rng_run) blast
qed

section \<open>What clients hold stays usable\<close>

definition fresh_entry :: "playlist_queue \<Rightarrow> playlist_entry \<Rightarrow> bool" where
  "fresh_entry q e \<longleftrightarrow>
     (case entry_id e of
        EntrySingle i \<Rightarrow> next_item_id (item_allocator q) \<le> item_raw i
      | EntryCompound g \<Rightarrow> next_group_id (group_allocator q) \<le> group_raw g)"

lemma compound_ids_mem: "Compound g \<in> set es \<Longrightarrow> group_id g \<in> set (compound_ids es)"
  by (induction es rule: compound_ids.induct) auto

lemma queue_not_fresh:
  assumes inv: "queue_inv q" and e: "e \<in> set (entries q)"
  shows "\<not> fresh_entry q e"
proof (cases e)
  case (Single it)
  then have "item_id it \<in> set (iter_playable_ids (entries q))"
    using e by (force simp: set_iter_playable_ids)
  then show ?thesis
    using inv Single by (auto simp: queue_inv_def items.below_def fresh_entry_def word_le_nat_alt)
next
  case (Compound g)
  then show ?thesis
    using inv e compound_ids_mem [of g "entries q"]
    by (auto simp: queue_inv_def groups.below_def fresh_entry_def word_le_nat_alt)
qed

lemma fresh_entry_mono:
  assumes "fresh_entry q e" and "next_item_id (item_allocator p) \<le> next_item_id (item_allocator q)"
    and "next_group_id (group_allocator p) \<le> next_group_id (group_allocator q)"
  shows "fresh_entry p e"
  using assms by (cases "entry_id e") (auto simp: fresh_entry_def intro: order_trans)

lemma fresh_entry_id: "entry_id e = entry_id f \<Longrightarrow> fresh_entry q e = fresh_entry q f"
  by (simp add: fresh_entry_def)

lemma lineage_not_fresh:
  assumes inv: "queue_inv (queue s)" and ok: "snapshots_ok s" and e: "e \<in> lineage s"
  shows "\<not> fresh_entry (queue s) e"
proof (cases "e \<in> set (entries (queue s))")
  case True
  then show ?thesis using queue_not_fresh [OF inv] by blast
next
  case False
  then obtain x where x: "x \<in> set (snapshots s)" "e \<in> set (rs_entries x)" using e by (auto simp: lineage_def)
  then have q: "queue_inv (snapshot_queue x)"
    and le: "next_item_id (rs_item_allocator x) \<le> next_item_id (item_allocator (queue s))"
      "next_group_id (rs_group_allocator x) \<le> next_group_id (group_allocator (queue s))"
    using ok by (simp_all add: snapshots_ok_def snapshot_below_def)
  have "\<not> fresh_entry (snapshot_queue x) e"
    using queue_not_fresh [OF q] x(2) by (simp add: snapshot_queue_def)
  then show ?thesis using fresh_entry_mono [of "queue s" e "snapshot_queue x"] le
    by (auto simp: snapshot_queue_def)
qed

lemma same_rows_subset: "same_rows B \<Longrightarrow> A \<subseteq> B \<Longrightarrow> same_rows A"
  unfolding same_rows_def by blast

text \<open>The rows of a new queue are rows of the lineage or carry fresh identities.\<close>

lemma snapshots_ok_step:
  assumes inv: "queue_inv (queue s)" and ok: "snapshots_ok s" and inv': "queue_inv q'"
    and adv: "advances (queue s) q'"
    and rows: "\<forall>e \<in> set (entries q'). (\<exists>f \<in> lineage s. shape e = shape f) \<or> fresh_entry (queue s) e"
  shows "snapshots_ok (s\<lparr>queue := q'\<rparr>)"
proof -
  have mono: "next_item_id (item_allocator (queue s)) \<le> next_item_id (item_allocator q')"
    "next_group_id (group_allocator (queue s)) \<le> next_group_id (group_allocator q')"
    using adv by (simp_all add: advances_def)
  have known: "shape e = shape f" if "e \<in> lineage s" "f \<in> lineage s" "entry_id e = entry_id f" for e f
    using ok that unfolding snapshots_ok_def same_rows_def by blast
  have wf': "entries_wf (entries q')" using inv' by (simp add: queue_inv_def)
  have cross: "shape e = shape f" if e: "e \<in> set (entries q')" and f: "f \<in> lineage s" and id: "entry_id e = entry_id f" for e f
  proof -
    have "\<not> fresh_entry (queue s) e" using lineage_not_fresh [OF inv ok f] fresh_entry_id [OF id] by simp
    then obtain g where g: "g \<in> lineage s" "shape e = shape g" using rows e by blast
    then have "shape g = shape f" using known [OF g(1) f] id shape_entry_id [OF g(2)] by simp
    then show ?thesis using g(2) by simp
  qed
  have within: "shape e = shape f" if "e \<in> set (entries q')" "f \<in> set (entries q')" "entry_id e = entry_id f" for e f
    using entry_id_inj [OF wf' that] by simp
  have "same_rows (set (entries q') \<union> lineage s)"
    unfolding same_rows_def
  proof (intro ballI impI)
    fix e f
    assume "e \<in> set (entries q') \<union> lineage s" "f \<in> set (entries q') \<union> lineage s" and id: "entry_id e = entry_id f"
    then consider "e \<in> set (entries q')" "f \<in> set (entries q')" | "e \<in> set (entries q')" "f \<in> lineage s"
      | "e \<in> lineage s" "f \<in> set (entries q')" | "e \<in> lineage s" "f \<in> lineage s" by blast
    then show "shape e = shape f"
    proof cases
      case 1
      then show ?thesis using id by (rule within)
    next
      case 2
      then show ?thesis using id by (rule cross)
    next
      case 3
      from cross [OF 3(2,1) id [symmetric]] show ?thesis by (rule sym)
    next
      case 4
      then show ?thesis using id by (rule known)
    qed
  qed
  then have "same_rows (lineage (s\<lparr>queue := q'\<rparr>))"
    by (rule same_rows_subset) (auto simp: lineage_def)
  moreover have "snapshot_below q' x" if "x \<in> set (snapshots s)" for x
    using ok that mono by (auto simp: snapshots_ok_def snapshot_below_def intro: order_trans)
  ultimately show ?thesis by (simp add: snapshots_ok_def)
qed

lemma grown_rows:
  assumes "grown (queue s) q'"
  shows "\<forall>e \<in> set (entries q'). (\<exists>f \<in> lineage s. shape e = shape f) \<or> fresh_entry (queue s) e"
  using assms by (fastforce simp: grown_def fresh_entry_def lineage_def shapes_def)

lemma token_ok_op:
  assumes tok: "token_ok q t" and op: "op_inv q q'"
  shows "token_ok q' t"
proof -
  have locked: "active_reservation q \<noteq> None"
    using tok by (cases t) (auto simp: manual_token_ok_def automatic_token_ok_def)
  then have core: "same_core q q'" and adv: "advances q q'" and act: "active_reservation q' = active_reservation q"
    using op by (simp_all add: op_inv_def)
  have rev: "revisions_match q' v = revisions_match q v" for v
    using core by (simp add: revisions_match_def same_core_def)
  show ?thesis
    using tok prepared_for_frozen [OF core] preview_fits_advances [OF _ adv] act rev
    by (cases t) (auto simp: manual_token_ok_def automatic_token_ok_def)
qed

lemma lineage_simps [simp]:
  "lineage (s\<lparr>previews := ps\<rparr>) = lineage s" "lineage (s\<lparr>plans := as\<rparr>) = lineage s"
  "lineage (s\<lparr>live_token := t\<rparr>) = lineage s"
  "lineage (s\<lparr>queue := q\<lparr>active_reservation := a\<rparr>\<rparr>) = lineage (s\<lparr>queue := q\<rparr>)"
  by (simp_all add: lineage_def)

lemma snapshot_below_lock [simp]: "snapshot_below (q\<lparr>active_reservation := a\<rparr>) x = snapshot_below q x"
  by (simp add: snapshot_below_def)

lemma snapshots_ok_simps [simp]:
  "snapshots_ok (s\<lparr>previews := ps\<rparr>) = snapshots_ok s" "snapshots_ok (s\<lparr>plans := as\<rparr>) = snapshots_ok s"
  "snapshots_ok (s\<lparr>live_token := t\<rparr>) = snapshots_ok s"
  "snapshots_ok (s\<lparr>queue := q\<lparr>active_reservation := a\<rparr>\<rparr>) = snapshots_ok (s\<lparr>queue := q\<rparr>)"
  by (simp_all add: snapshots_ok_def)

lemma system_invD:
  assumes "system_inv s"
  shows "queue_inv (queue s)" "snapshots_ok s" "p \<in> set (previews s) \<Longrightarrow> preview_fits (queue s) p"
    "a \<in> set (plans s) \<Longrightarrow> plan_wf a" "live_token s = Some t \<Longrightarrow> token_ok (queue s) t"
  using assms by (simp_all add: system_inv_def)

lemma system_invI:
  assumes "queue_inv (queue s)" "snapshots_ok s" "\<And>p. p \<in> set (previews s) \<Longrightarrow> preview_fits (queue s) p"
    "\<And>a. a \<in> set (plans s) \<Longrightarrow> plan_wf a" "\<And>t. live_token s = Some t \<Longrightarrow> token_ok (queue s) t"
  shows "system_inv s"
  using assms by (simp add: system_inv_def)

lemma system_inv_op:
  assumes s: "system_inv s" and op: "op_inv (queue s) q'"
    and rows: "\<forall>e \<in> set (entries q'). (\<exists>f \<in> lineage s. shape e = shape f) \<or> fresh_entry (queue s) e"
  shows "system_inv (s\<lparr>queue := q'\<rparr>)"
proof (rule system_invI)
  have inv': "queue_inv q'" and adv: "advances (queue s) q'" using op by (simp_all add: op_inv_def)
  show "queue_inv (queue (s\<lparr>queue := q'\<rparr>))" using inv' by simp
  show "snapshots_ok (s\<lparr>queue := q'\<rparr>)"
    by (rule snapshots_ok_step [OF system_invD(1,2) [OF s] inv' adv rows])
  show "preview_fits (queue (s\<lparr>queue := q'\<rparr>)) p" if "p \<in> set (previews (s\<lparr>queue := q'\<rparr>))" for p
    using preview_fits_advances [OF _ adv] system_invD(3) [OF s] that by simp
  show "plan_wf a" if "a \<in> set (plans (s\<lparr>queue := q'\<rparr>))" for a using system_invD(4) [OF s] that by simp
  show "token_ok (queue (s\<lparr>queue := q'\<rparr>)) t" if "live_token (s\<lparr>queue := q'\<rparr>) = Some t" for t
    using token_ok_op [OF _ op] system_invD(5) [OF s] that by simp
qed

lemma system_inv_release:
  assumes s: "system_inv s" and inv': "queue_inv q'" and adv: "advances (queue s) q'" and grown: "grown (queue s) q'"
  shows "system_inv (s\<lparr>queue := q', live_token := None\<rparr>)"
proof (rule system_invI)
  show "queue_inv (queue (s\<lparr>queue := q', live_token := None\<rparr>))" using inv' by simp
  have "snapshots_ok (s\<lparr>queue := q'\<rparr>)"
    by (rule snapshots_ok_step [OF system_invD(1,2) [OF s] inv' adv grown_rows [OF grown]])
  then show "snapshots_ok (s\<lparr>queue := q', live_token := None\<rparr>)" by simp
  show "preview_fits (queue (s\<lparr>queue := q', live_token := None\<rparr>)) p"
    if "p \<in> set (previews (s\<lparr>queue := q', live_token := None\<rparr>))" for p
    using preview_fits_advances [OF _ adv] system_invD(3) [OF s] that by simp
  show "plan_wf a" if "a \<in> set (plans (s\<lparr>queue := q', live_token := None\<rparr>))" for a
    using system_invD(4) [OF s] that by simp
qed simp

lemma system_inv_preview:
  assumes s: "system_inv s" and p: "preview_fits (queue s) p"
  shows "system_inv (s\<lparr>previews := previews s @ [p]\<rparr>)"
  by (rule system_invI) (use p system_invD [OF s] in auto)

lemma system_inv_plan:
  assumes s: "system_inv s" and a: "plan_wf a"
  shows "system_inv (s\<lparr>plans := plans s @ [a]\<rparr>)"
  by (rule system_invI) (use a system_invD [OF s] in auto)

lemma system_inv_drop:
  assumes s: "system_inv s"
  shows "system_inv (s\<lparr>live_token := None\<rparr>)"
  by (rule system_invI) (use system_invD [OF s] in auto)

lemma system_inv_lock:
  assumes s: "system_inv s" and tok: "token_ok (queue s\<lparr>active_reservation := Some a\<rparr>) t"
  shows "system_inv (s\<lparr>queue := queue s\<lparr>active_reservation := Some a\<rparr>, live_token := Some t\<rparr>)"
  by (rule system_invI) (use tok system_invD [OF s] in auto)

lemma system_inv_capture:
  assumes s: "system_inv s"
  shows "system_inv (s\<lparr>snapshots := snapshots s @ [capture_removal_snapshot (queue s)]\<rparr>)"
proof -
  let ?c = "capture_removal_snapshot (queue s)"
  have c: "rs_entries ?c = entries (queue s)" "rs_item_allocator ?c = item_allocator (queue s)"
    "rs_group_allocator ?c = group_allocator (queue s)"
    by (simp_all add: capture_removal_snapshot_def)
  have "queue_inv (snapshot_queue ?c)"
    using capture_fits [OF system_invD(1) [OF s]] by (simp add: snapshot_fits_def)
  then have "snapshot_below (queue s) ?c" by (simp add: snapshot_below_def c)
  moreover have "lineage (s\<lparr>snapshots := snapshots s @ [?c]\<rparr>) = lineage s"
    using c by (auto simp: lineage_def)
  ultimately have "snapshots_ok (s\<lparr>snapshots := snapshots s @ [?c]\<rparr>)"
    using system_invD(2) [OF s] by (auto simp: snapshots_ok_def)
  then show ?thesis by (intro system_invI) (use system_invD [OF s] in auto)
qed

section \<open>Every call\<close>

text \<open>What a call guarantees: the invariant, monotone revisions and watermarks, and rows that come
  from the lineage or carry fresh identities.\<close>

definition call_ok :: "playlist_system \<Rightarrow> playlist_system \<Rightarrow> bool" where
  "call_ok s s' \<longleftrightarrow>
     system_inv s' \<and> advances (queue s) (queue s')
     \<and> (\<forall>e \<in> lineage s'. (\<exists>f \<in> lineage s. shape e = shape f) \<or> fresh_entry (queue s) e)"

lemma advances_refl: "advances q q"
  by (simp add: advances_def)

lemma call_okI:
  assumes "system_inv s'" "advances (queue s) (queue s')"
    and "\<forall>e \<in> set (entries (queue s')). (\<exists>f \<in> lineage s. shape e = shape f) \<or> fresh_entry (queue s) e"
    and "snapshots s' = snapshots s"
  shows "call_ok s s'"
proof -
  have "(\<exists>f \<in> lineage s. shape e = shape f) \<or> fresh_entry (queue s) e" if "e \<in> lineage s'" for e
  proof (cases "e \<in> set (entries (queue s'))")
    case False
    then have "e \<in> lineage s" using that assms(4) by (auto simp: lineage_def)
    then show ?thesis by blast
  qed (use assms(3) in blast)
  then show ?thesis using assms(1,2) by (simp add: call_ok_def)
qed

lemma call_ok_op:
  assumes "system_inv s" "op_inv (queue s) q'"
    "\<forall>e \<in> set (entries q'). (\<exists>f \<in> lineage s. shape e = shape f) \<or> fresh_entry (queue s) e"
  shows "call_ok s (s\<lparr>queue := q'\<rparr>)"
  using system_inv_op [OF assms] assms by (intro call_okI) (simp_all add: op_inv_def)

lemma call_ok_release:
  assumes "system_inv s" "queue_inv q'" "advances (queue s) q'" "grown (queue s) q'"
  shows "call_ok s (s\<lparr>queue := q', live_token := None\<rparr>)"
  using system_inv_release [OF assms] grown_rows [OF assms(4)] assms(3) by (intro call_okI) simp_all

lemma queue_rows: "\<forall>e \<in> set (entries (queue s)). (\<exists>f \<in> lineage s. shape e = shape f) \<or> fresh_entry (queue s) e"
  by (auto simp: lineage_def)

lemma call_ok_same_queue:
  assumes "system_inv s'" "queue s' = queue s" "snapshots s' = snapshots s"
  shows "call_ok s s'"
  using assms queue_rows [of s] advances_refl by (intro call_okI) simp_all

lemma call_ok_capture:
  assumes "system_inv s"
  shows "call_ok s (s\<lparr>snapshots := snapshots s @ [capture_removal_snapshot (queue s)]\<rparr>)"
proof -
  have "lineage (s\<lparr>snapshots := snapshots s @ [capture_removal_snapshot (queue s)]\<rparr>) = lineage s"
    by (auto simp: lineage_def capture_removal_snapshot_def)
  then show ?thesis using system_inv_capture [OF assms] advances_refl by (auto simp: call_ok_def)
qed

lemma call_ok_lock:
  assumes "system_inv s" "token_ok (queue s\<lparr>active_reservation := Some a\<rparr>) t"
  shows "call_ok s (s\<lparr>queue := queue s\<lparr>active_reservation := Some a\<rparr>, live_token := Some t\<rparr>)"
  using system_inv_lock [OF assms] queue_rows [of s] advances_refl_reservation(1)
  by (intro call_okI) (simp_all add: fresh_entry_def)

abbreviation call_run :: "playlist_system \<Rightarrow> (playlist_system \<times> 'r) run \<Rightarrow> bool" where
  "call_run s x \<equiv> (\<exists>s' r'. x = Some (s', r') \<and> call_ok s s')"

lemma with_nth_run:
  assumes "system_inv s" and "\<And>x. x \<in> set xs \<Longrightarrow> call_run s (f x)"
  shows "call_run s (with_nth xs n s r f)"
proof (cases "n < length xs")
  case True
  then show ?thesis using assms(2) [of "xs ! n"] by (simp add: with_nth_def slice_get_def)
next
  case False
  then show ?thesis using call_ok_same_queue [OF assms(1)] by (simp add: with_nth_def slice_get_def)
qed

lemma undo_run:
  assumes s: "system_inv s" and x: "x \<in> set (snapshots s)"
    and plain: "src = FromCurrentQueue \<Longrightarrow> shuffle_traversal (queue s) = None"
  shows "call_ok s (s\<lparr>queue := snd (restore_removal_snapshot_from (queue s) x src)\<rparr>)"
proof -
  obtain res q' where run: "restore_removal_snapshot_from (queue s) x src = (res, q')" by fastforce
  have rows: "same_rows (lineage s)" and snap: "queue_inv (snapshot_queue x)"
    using system_invD(2) [OF s] x by (simp_all add: snapshots_ok_def snapshot_below_def)
  have "e \<in> lineage s" if "e \<in> set (entries (queue s))" for e using that by (simp add: lineage_def)
  moreover have sub: "e \<in> lineage s" if "e \<in> set (rs_entries x)" for e using that x by (auto simp: lineage_def)
  ultimately have fits: "snapshot_fits (queue s) x"
    using rows snap unfolding snapshot_fits_def same_rows_def by blast
  note ok' = restore_removal_snapshot_from_ok [OF system_invD(1) [OF s] fits _ run]
  have ok: "op_inv (queue s) q'" "\<And>e. res = Inl e \<Longrightarrow> q' = queue s"
    "\<And>c. res = Inr c \<Longrightarrow> shapes q' = map shape (rs_entries x)"
    using ok' plain by blast+
  have "\<exists>f \<in> lineage s. shape e = shape f" if e: "e \<in> set (entries q')" for e
  proof (cases res)
    case (Inl err)
    then show ?thesis using ok(2) e by (auto simp: lineage_def)
  next
    case (Inr c)
    then have "shape e \<in> shape ` set (rs_entries x)" using ok(3) [OF Inr] e by (metis image_eqI image_set shapes_def)
    then show ?thesis using sub by blast
  qed
  then show ?thesis using call_ok_op [OF s ok(1)] run by simp
qed

lemma prepared_run:
  assumes s: "system_inv s" and x: "x = Some (res, q')" and failed: "\<And>e. res = Inl e \<Longrightarrow> q' = queue s"
    and locked: "\<And>t. res = Inr t \<Longrightarrow> q' = queue s\<lparr>active_reservation := Some a\<rparr> \<and> token_ok q' (wrap t)"
  shows "call_run s (map_option (prepared s r wrap) x)"
proof (cases res)
  case (Inl e)
  then show ?thesis using x failed call_ok_same_queue [OF s] by (simp add: prepared_def)
next
  case (Inr t)
  have q': "q' = queue s\<lparr>active_reservation := Some a\<rparr>" using locked [OF Inr] by blast
  have "token_ok (queue s\<lparr>active_reservation := Some a\<rparr>) (wrap t)" using locked [OF Inr] unfolding q' by blast
  then show ?thesis using x Inr q' call_ok_lock [OF s, of a "wrap t"] by (simp add: prepared_def)
qed

lemma offer_preview_ok: "system_inv s \<Longrightarrow> manual_outcome_ok (queue s) out \<Longrightarrow> call_ok s (offer_preview out s)"
  by (cases out) (auto simp: manual_outcome_ok_def intro!: call_ok_same_queue system_inv_preview)

lemma offer_plan_ok:
  "system_inv s \<Longrightarrow> (\<And>i p. out = automatic_traversal_advance.OpenItem i p \<Longrightarrow> plan_wf p) \<Longrightarrow> call_ok s (offer_plan out s)"
  by (cases out) (auto intro!: call_ok_same_queue system_inv_plan)

lemma offer_start_ok:
  "system_inv s \<Longrightarrow> (\<And>i p. out = automatic_traversal_start.OpenItem i p \<Longrightarrow> plan_wf p) \<Longrightarrow> call_ok s (offer_start out s)"
  by (cases out) (auto intro!: call_ok_same_queue system_inv_plan)

lemma token_unlocked: "system_inv s \<Longrightarrow> active_reservation (queue s) = None \<Longrightarrow> live_token s = None"
  using system_invD(5) [of s]
  by (cases "live_token s") (auto simp: manual_token_ok_def automatic_token_ok_def elim!: token_ok.elims(2))

lemma release_aborted:
  assumes "system_inv s"
  shows "call_ok s (s\<lparr>queue := queue s\<lparr>active_reservation := None\<rparr>, live_token := None\<rparr>)"
  using call_ok_release [OF assms, of "queue s\<lparr>active_reservation := None\<rparr>"] system_invD(1) [OF assms]
    advances_refl_reservation [of "queue s"] by simp

lemma abort_token_run:
  assumes s: "system_inv s" and t: "live_token s = Some t"
  shows "\<exists>s'. abort_token s t = Some s' \<and> call_ok s s'" and "\<exists>s'. fail_token s t = Some s' \<and> call_ok s s'"
proof -
  let ?r = "s\<lparr>queue := queue s\<lparr>active_reservation := None\<rparr>, live_token := None\<rparr>"
  have r: "call_ok s ?r" by (rule release_aborted [OF s])
  then have ri: "system_inv ?r" by (simp add: call_ok_def)
  have tok: "token_ok (queue s) t" by (rule system_invD(5) [OF s t])
  have preview: "call_ok s (?r\<lparr>previews := previews s @ [p]\<rparr>)" if "preview_fits (queue s) p" for p
    using system_inv_preview [OF ri, of p] that r by (auto simp: call_ok_def)
  have plan: "call_ok s (?r\<lparr>plans := plans s @ [p]\<rparr>)" if "plan_wf p" for p
    using system_inv_plan [OF ri that] r by (auto simp: call_ok_def)
  show a: "\<exists>s'. abort_token s t = Some s' \<and> call_ok s s'"
  proof (cases t)
    case (ReservedToken x)
    then show ?thesis using tok abort_reserved_ok [OF system_invD(1) [OF s], of x] r by simp
  next
    case (ManualToken x)
    then have "manual_token_ok (queue s) x" using tok by simp
    then show ?thesis
      using ManualToken abort_manual_navigation_ok(1) [OF system_invD(1) [OF s]] preview
      by (simp add: manual_token_ok_def)
  next
    case (AutomaticToken x)
    then have "automatic_token_ok (queue s) x" using tok by simp
    then show ?thesis
      using AutomaticToken abort_automatic_traversal_ok [OF system_invD(1) [OF s]] plan by simp
  qed
  show "\<exists>s'. fail_token s t = Some s' \<and> call_ok s s'"
  proof (cases t)
    case (ManualToken x)
    then have "manual_token_ok (queue s) x" using tok by simp
    then show ?thesis
      using ManualToken abort_manual_navigation_ok(3) [OF system_invD(1) [OF s]] preview
      by (simp add: manual_token_ok_def)
  qed (use a in simp_all)
qed

lemma commit_token_run:
  assumes rng: "rng_ok R" and s: "system_inv s" and t: "live_token s = Some t"
    and keep: "\<not> shuffle_dropped s CommitToken"
  shows "call_run s (commit_token R r s t)"
proof -
  have tok: "token_ok (queue s) t" by (rule system_invD(5) [OF s t])
  note inv = system_invD(1) [OF s]
  have release: "call_run s (map_option (\<lambda>(_, q, r'). (s\<lparr>queue := q, live_token := None\<rparr>, r')) x)"
    if "\<exists>out q' r'. x = Some (out, q', r') \<and> queue_inv q' \<and> advances (queue s) q' \<and> grown (queue s) q'"
    for x :: "('b \<times> playlist_queue \<times> 'c) run"
    using that call_ok_release [OF s] by auto
  show ?thesis
  proof (cases t)
    case (ReservedToken x)
    have "\<exists>out q' r'. commit_reserved R r (queue s) x = Some (out, q', r')
        \<and> queue_inv q' \<and> advances (queue s) q' \<and> grown (queue s) q'"
      using commit_reserved_ok [OF rng inv, of x r] tok ReservedToken by auto
    then show ?thesis unfolding ReservedToken commit_token.simps using call_ok_release [OF s] by auto
  next
    case (ManualToken x)
    have "\<exists>out q' r'. commit_manual_navigation R r (queue s) x = Some (out, q', r')
        \<and> queue_inv q' \<and> advances (queue s) q' \<and> grown (queue s) q'"
      using commit_manual_navigation_ok [OF rng inv, of x r] tok ManualToken by auto
    then show ?thesis unfolding ManualToken commit_token.simps using call_ok_release [OF s] by auto
  next
    case (AutomaticToken x)
    have "\<exists>out q' r'. commit_automatic_traversal R r (queue s) x = Some (out, q', r')
        \<and> queue_inv q' \<and> advances (queue s) q' \<and> grown (queue s) q'"
      using commit_automatic_traversal_ok [OF rng inv, of x r] tok AutomaticToken keep t
      by (auto simp: shuffle_dropped_def split: if_splits)
    then show ?thesis unfolding AutomaticToken commit_token.simps using call_ok_release [OF s] by auto
  qed
qed

lemma perform_ok:
  assumes rng: "rng_ok R" and s: "system_inv s" and wf: "call_wf c" and keep: "\<not> shuffle_dropped s c"
  shows "call_run s (perform R r s c)"
proof -
  note inv = system_invD(1) [OF s]
  show ?thesis
  proof (cases c)
    case (Edit e)
    then show ?thesis
      using perform_edit_ok [OF rng inv, of e r] wf call_ok_op [OF s op_ok_op_inv] grown_rows
      by (auto simp: op_ok_def)
  next
    case CaptureSnapshot
    then show ?thesis using call_ok_capture [OF s] by simp
  next
    case (UndoRemoval n)
    have "call_ok s (s\<lparr>queue := snd (restore_removal_snapshot (queue s) x)\<rparr>)"
      if "x \<in> set (snapshots s)" for x
      using undo_run [OF s that, of FromSnapshot] by (simp add: restore_removal_snapshot_def)
    then show ?thesis unfolding UndoRemoval perform.simps by (intro with_nth_run [OF s]) simp
  next
    case (UndoRows n)
    have "call_ok s (s\<lparr>queue := snd (restore_removed_rows_keeping_current (queue s) x)\<rparr>)"
      if "x \<in> set (snapshots s)" for x
      using undo_run [OF s that, of FromCurrentQueue] call_ok_same_queue [OF s]
      by (simp add: restore_removed_rows_keeping_current_def)
    then show ?thesis unfolding UndoRows perform.simps by (intro with_nth_run [OF s]) simp
  next
    case (PrepareReserved v m a)
    then have a: "a \<noteq> 0" using wf by simp
    obtain res q' where run: "prepare_reserved_mutation (queue s) v m a = Some (res, q')"
      and inl: "\<And>e. res = Inl e \<Longrightarrow> q' = queue s"
      and inr: "\<And>t. res = Inr t \<Longrightarrow> q' = queue s\<lparr>active_reservation := Some a\<rparr>
         \<and> token_key t = a \<and> prepared_for (queue s) (token_mutation t)"
      using prepare_reserved_ok [OF inv a, of v m] by blast
    show ?thesis unfolding PrepareReserved perform.simps
      by (rule prepared_run [OF s run, where a = a]) (use inl inr in auto)
  next
    case (BeginDetached d)
    then show ?thesis
      using begin_replacement_detached_ok [OF inv, of d] call_ok_same_queue [OF s] system_inv_preview [OF s]
      apply (elim exE conjE)
      subgoal for out by (cases out) (auto intro!: call_ok_same_queue system_inv_preview s)
      done
  next
    case (BeginFailed i)
    then show ?thesis
      using begin_failed_manual_ok [OF inv, of i] call_ok_same_queue [OF s]
      apply (elim exE conjE)
      subgoal for res by (cases res) (auto intro!: call_ok_same_queue system_inv_preview s)
      done
  next
    case (BeginManual intent)
    then show ?thesis
      using begin_manual_navigation_ok [OF rng inv, of r intent] offer_preview_ok [OF s] by auto
  next
    case (ContinueManual n intent)
    have "call_run s (map_option (\<lambda>(res, r'). (case res of Inl _ \<Rightarrow> s | Inr out \<Rightarrow> offer_preview out s, r'))
          (continue_manual_navigation R r (queue s) p intent))" if "p \<in> set (previews s)" for p
      using continue_manual_navigation_ok [OF rng inv system_invD(3) [OF s that], of r intent]
        offer_preview_ok [OF s] call_ok_same_queue [OF s] by (auto split: if_splits)
    then show ?thesis unfolding ContinueManual perform.simps by (intro with_nth_run [OF s])
  next
    case (PrepareManual n a)
    have "call_run s (map_option (prepared s r ManualToken) (prepare_manual_navigation (queue s) p a))"
      if mem: "p \<in> set (previews s)" for p
    proof -
      have a: "a \<noteq> 0" using wf PrepareManual by simp
      obtain res q' where run: "prepare_manual_navigation (queue s) p a = Some (res, q')" and res: "case res of
          Inl f \<Rightarrow> q' = queue s
        | Inr tok \<Rightarrow> q' = queue s\<lparr>active_reservation := Some a\<rparr> \<and> token_ok q' (ManualToken tok)"
        using prepare_manual_navigation_ok [OF inv system_invD(3) [OF s mem] a]
        apply (elim exE conjE)
        subgoal for res by (cases res) auto
        done
      show ?thesis by (rule prepared_run [OF s run, where a = a]) (use res in auto)
    qed
    then show ?thesis unfolding PrepareManual perform.simps by (intro with_nth_run [OF s])
  next
    case (BeginAutomatic mode failed)
    obtain out r' where run: "begin_automatic_traversal R r (queue s) mode failed = Some (out, r')"
      and wf: "\<And>i p. out = automatic_traversal_start.OpenItem i p \<Longrightarrow> plan_wf p"
      using begin_automatic_traversal_ok [OF rng inv, of r mode failed] by fastforce
    then show ?thesis using BeginAutomatic offer_start_ok [OF s wf] by simp
  next
    case (AdvanceAutomatic n)
    have "call_run s (map_option (\<lambda>(out, r'). (offer_plan out s, r'))
        (advance_automatic_traversal_after_failure R r (queue s) p))" if mem: "p \<in> set (plans s)" for p
    proof -
      obtain out r' where run: "advance_automatic_traversal_after_failure R r (queue s) p = Some (out, r')"
        and wf: "\<And>i p. out = automatic_traversal_advance.OpenItem i p \<Longrightarrow> plan_wf p"
        using advance_automatic_traversal_ok [OF rng inv system_invD(4) [OF s mem], of r] by fastforce
      then show ?thesis using offer_plan_ok [OF s wf] by simp
    qed
    then show ?thesis unfolding AdvanceAutomatic perform.simps by (intro with_nth_run [OF s])
  next
    case (RevalidateAutomatic n)
    have "call_run s (map_option (\<lambda>(out, r'). (offer_plan out s, r'))
        (revalidate_automatic_traversal R r (queue s) p))" if "p \<in> set (plans s)" for p
      using revalidate_automatic_traversal_ok [OF rng inv system_invD(4) [OF s that], of r] offer_plan_ok [OF s]
      by fastforce
    then show ?thesis unfolding RevalidateAutomatic perform.simps by (intro with_nth_run [OF s])
  next
    case (PrepareAutomatic n a)
    have "call_run s (map_option (prepared s r AutomaticToken) (prepare_automatic_traversal (queue s) p a))"
      if mem: "p \<in> set (plans s)" for p
    proof -
      have a: "a \<noteq> 0" using wf PrepareAutomatic by simp
      obtain res q' where run: "prepare_automatic_traversal (queue s) p a = Some (res, q')" and res: "case res of
          Inl f \<Rightarrow> q' = queue s
        | Inr tok \<Rightarrow> q' = queue s\<lparr>active_reservation := Some a\<rparr> \<and> token_ok q' (AutomaticToken tok)"
        using prepare_automatic_traversal_ok [OF inv system_invD(4) [OF s mem] a]
        apply (elim exE conjE)
        subgoal for res by (cases res) auto
        done
      show ?thesis by (rule prepared_run [OF s run, where a = a]) (use res in auto)
    qed
    then show ?thesis unfolding PrepareAutomatic perform.simps by (intro with_nth_run [OF s])
  next
    case AbortToken
    then show ?thesis using abort_token_run(1) [OF s] call_ok_same_queue [OF s]
      by (cases "live_token s") auto
  next
    case FailToken
    then show ?thesis using abort_token_run(2) [OF s] call_ok_same_queue [OF s]
      by (cases "live_token s") auto
  next
    case CommitToken
    then show ?thesis using commit_token_run [OF rng s] keep call_ok_same_queue [OF s]
      by (cases "live_token s") auto
  next
    case DropToken
    then show ?thesis using call_ok_same_queue [OF system_inv_drop [OF s]] by simp
  qed
qed

lemma perform_panics:
  assumes rng: "rng_ok R" and s: "system_inv s" and drop: "shuffle_dropped s c"
  shows "perform R r s c = None"
proof -
  obtain t where t: "c = CommitToken" "live_token s = Some (AutomaticToken t)"
    "plan_shuffle_preview (token_plan t) \<noteq> None" "shuffle_traversal (queue s) = None"
    using drop by (auto simp: shuffle_dropped_def split: option.splits live_token.splits)
  have "automatic_token_ok (queue s) t" using system_invD(5) [OF s t(2)] by simp
  from commit_automatic_traversal_ok [OF rng system_invD(1) [OF s] this, of r] show ?thesis
    using t by simp
qed

lemma system_step_ok:
  assumes s: "system_inv s" and step: "system_step R s s'"
  shows "call_ok s s'"
  using step
proof cases
  case (call c r r')
  have "\<not> shuffle_dropped s c" using perform_panics [OF call(1) s, of c r] call(3) by auto
  from perform_ok [OF call(1) s call(2) this, of r] show ?thesis using call(3) by auto
qed

interpretation system: invariant_system "system_step R" system_inv for R
  by unfold_locales (use system_step_ok in \<open>auto simp: call_ok_def\<close>)

section \<open>Identities are never reused\<close>

text \<open>\<open>G\<close> are rows seen before: none of their identities is fresh any more, and an identity still
  names the same rows.\<close>

definition names_fixed :: "playlist_entry set \<Rightarrow> playlist_system \<Rightarrow> bool" where
  "names_fixed G s \<longleftrightarrow>
     system_inv s \<and> same_rows (lineage s \<union> G) \<and> (\<forall>e \<in> G. \<not> fresh_entry (queue s) e)"

lemma names_fixed_step:
  assumes fixed: "names_fixed G s" and step: "system_step R s s'"
  shows "names_fixed G s'"
proof -
  have s: "system_inv s" and same: "same_rows (lineage s \<union> G)" and old: "\<And>e. e \<in> G \<Longrightarrow> \<not> fresh_entry (queue s) e"
    using fixed by (simp_all add: names_fixed_def)
  have inv': "system_inv s'" and adv: "advances (queue s) (queue s')"
    and rows: "\<And>e. e \<in> lineage s' \<Longrightarrow> (\<exists>f \<in> lineage s. shape e = shape f) \<or> fresh_entry (queue s) e"
    using system_step_ok [OF s step] by (simp_all add: call_ok_def)
  have known: "shape e = shape f" if "e \<in> lineage s \<union> G" "f \<in> lineage s \<union> G" "entry_id e = entry_id f" for e f
    using same that unfolding same_rows_def by blast
  have mono: "\<not> fresh_entry (queue s') e" if "\<not> fresh_entry (queue s) e" for e
    using that adv fresh_entry_mono [of "queue s'" e "queue s"] by (auto simp: advances_def)
  have cross: "shape e = shape f" if e: "e \<in> lineage s'" and f: "f \<in> G" and id: "entry_id e = entry_id f" for e f
  proof -
    have "\<not> fresh_entry (queue s) e" using old [OF f] fresh_entry_id [OF id] by simp
    then obtain g where g: "g \<in> lineage s" "shape e = shape g" using rows [OF e] by blast
    have "entry_id g = entry_id f" using shape_entry_id [OF g(2)] id by simp
    then have "shape g = shape f" using known [of g f] g(1) f by blast
    then show ?thesis using g(2) by simp
  qed
  have "same_rows (lineage s')" using system_invD(2) [OF inv'] by (simp add: snapshots_ok_def)
  then have within: "shape e = shape f" if "e \<in> lineage s'" "f \<in> lineage s'" "entry_id e = entry_id f" for e f
    using that unfolding same_rows_def by blast
  have "same_rows (lineage s' \<union> G)"
    unfolding same_rows_def
  proof (intro ballI impI)
    fix e f
    assume "e \<in> lineage s' \<union> G" "f \<in> lineage s' \<union> G" and id: "entry_id e = entry_id f"
    then consider "e \<in> lineage s'" "f \<in> lineage s'" | "e \<in> lineage s'" "f \<in> G"
      | "e \<in> G" "f \<in> lineage s'" | "e \<in> G" "f \<in> G" by blast
    then show "shape e = shape f"
    proof cases
      case 1
      then show ?thesis using id by (rule within)
    next
      case 2
      then show ?thesis using id by (rule cross)
    next
      case 3
      from cross [OF 3(2,1) id [symmetric]] show ?thesis by (rule sym)
    next
      case 4
      then show ?thesis using id known [of e f] by blast
    qed
  qed
  then show ?thesis using inv' old mono by (simp add: names_fixed_def)
qed

interpretation identity: invariant_system "system_step R" "names_fixed G" for R G
  by unfold_locales (rule names_fixed_step)

lemma names_fixed_start:
  assumes s: "system_inv s"
  shows "names_fixed (lineage s) s"
  using s lineage_not_fresh [OF system_invD(1,2) [OF s]] by (auto simp: names_fixed_def system_inv_def snapshots_ok_def)

lemma identities_not_reused:
  assumes s: "system_inv s" and steps: "(system_step R)\<^sup>*\<^sup>* s t"
    and e: "e \<in> set (entries (queue s))" and f: "f \<in> set (entries (queue t))" and id: "entry_id e = entry_id f"
  shows "shape e = shape f"
proof -
  have "names_fixed (lineage s) t" by (rule identity.inv_steps [OF steps names_fixed_start [OF s]])
  then have "same_rows (lineage t \<union> lineage s)" by (simp add: names_fixed_def)
  then show ?thesis using e f id unfolding same_rows_def lineage_def by blast
qed

lemma system_of_inv:
  assumes "queue_inv q"
  shows "system_inv (system_of q)"
proof -
  have "same_rows (set (entries q))"
    using assms entry_id_inj [of "entries q"] unfolding same_rows_def queue_inv_def by metis
  then show ?thesis
    using assms by (simp add: system_inv_def system_of_def snapshots_ok_def lineage_def)
qed

lemma steps_advance:
  assumes "(system_step R)\<^sup>*\<^sup>* s t" and "system_inv s"
  shows "advances (queue s) (queue t)"
  using assms
proof (induction rule: rtranclp_induct)
  case base
  show ?case by (rule advances_refl)
next
  case (step t u)
  then have "system_inv t" using system.inv_steps by blast
  from system_step_ok [OF this step(2)] have "advances (queue t) (queue u)" by (simp add: call_ok_def)
  with step show ?case using advances_trans by blast
qed

section \<open>Sequences of calls\<close>

fun run_calls :: "'r rng \<Rightarrow> 'r \<Rightarrow> playlist_system \<Rightarrow> client_call list \<Rightarrow> (playlist_system \<times> 'r) run" where
  "run_calls R r s [] = Some (s, r)"
| "run_calls R r s (c # cs) =
     (case perform R r s c of None \<Rightarrow> None | Some (s', r') \<Rightarrow> run_calls R r' s' cs)"

lemma run_calls_steps:
  assumes "rng_ok R" and "\<forall>c \<in> set cs. call_wf c" and "run_calls R r s cs = Some (s', r')"
  shows "(system_step R)\<^sup>*\<^sup>* s s'"
  using assms(2,3)
proof (induction cs arbitrary: s r)
  case (Cons c cs)
  then obtain t r1 where t: "perform R r s c = Some (t, r1)" "run_calls R r1 t cs = Some (s', r')"
    by (auto split: option.splits)
  have "system_step R s t" using Cons.prems(1) by (intro system_step.call [OF assms(1) _ t(1)]) simp
  moreover have "(system_step R)\<^sup>*\<^sup>* t s'" using Cons.IH [OF _ t(2)] Cons.prems(1) by simp
  ultimately show ?case by (rule converse_rtranclp_into_rtranclp)
qed simp

end
