(* ===== verification/Sample_Queue.thy ===== *)
theory Sample_Queue
  imports Queue_System
begin

text \<open>
  Concrete data the witnesses evaluate: a random source that satisfies \<open>rng_ok\<close>, drafts, and a
  queue of two single items around a compound group of two parts.
\<close>

section \<open>Definitions\<close>

text \<open>Keeps the order and draws the lower bound.\<close>

definition sample_rng :: "unit rng" where
  "sample_rng = \<lparr>rng_shuffle = (\<lambda>r xs. (xs, r)), rng_range = (\<lambda>r lo hi. (lo, r))\<rparr>"

definition sample_metadata :: "string \<Rightarrow> cached_playlist_metadata" where
  "sample_metadata name = metadata_new name Audio"

definition sample_draft :: "string \<Rightarrow> playlist_item_draft" where
  "sample_draft name =
     \<lparr>draft_locator = Local (Native (''/m/'' @ name)), draft_fingerprint = None,
      draft_metadata = sample_metadata name, draft_payload = None\<rparr>"

definition sample_item :: "u64 \<Rightarrow> string \<Rightarrow> playlist_item" where
  "sample_item i name = into_item (sample_draft name) (PlaylistItemId i)"

definition sample_group :: playlist_compound_group where
  "sample_group =
     \<lparr>group_id = PlaylistCompoundGroupId 1, provenance_locator = Local (Native ''/m/set''),
      cached_summary = sample_metadata ''set'',
      group_parts =
        [\<lparr>part_group_id = PlaylistCompoundGroupId 1, part_ordinal = 1, part_item = sample_item 2 ''b''\<rparr>,
         \<lparr>part_group_id = PlaylistCompoundGroupId 1, part_ordinal = 2, part_item = sample_item 3 ''a''\<rparr>],
      group_durable_payload = None\<rparr>"

definition sample_queue :: playlist_queue where
  "sample_queue =
     \<lparr>entries = [Single (sample_item 1 ''t10''), Compound sample_group, Single (sample_item 4 ''t9'')],
      item_allocator = \<lparr>next_item_id = 5\<rparr>, group_allocator = \<lparr>next_group_id = 2\<rparr>,
      traversal_current = Some (PlaylistItemId 1), structural_revision = 3, traversal_revision = 1,
      metadata_revision = 0, active_reservation = None, shuffle_traversal = None\<rparr>"

lemma sample_rng_ok: "rng_ok sample_rng"
  by (simp add: rng_ok_def sample_rng_def)

lemmas sample_defs = sample_queue_def sample_group_def sample_item_def sample_draft_def
  sample_metadata_def metadata_new_def into_item_def

lemma sample_ids:
  "iter_playable_ids (entries sample_queue) = map PlaylistItemId [1, 2, 3, 4]"
  "compound_ids (entries sample_queue) = [PlaylistCompoundGroupId 1]"
  "iter_top_level_entry_ids (entries sample_queue) =
     [EntrySingle (PlaylistItemId 1), EntryCompound (PlaylistCompoundGroupId 1), EntrySingle (PlaylistItemId 4)]"
  by (simp_all add: sample_defs iter_top_level_entry_ids_def)

lemma sample_queue_inv: "queue_inv sample_queue"
proof -
  have "entries_wf (entries sample_queue)"
    unfolding entries_wf_def sample_ids by (simp add: sample_defs)
  moreover have "retained_item_count (entries sample_queue) \<le> MAX_PLAYLIST_ITEMS"
    by (simp add: sample_defs MAX_PLAYLIST_ITEMS_def)
  ultimately show ?thesis
    unfolding queue_inv_def sample_ids items.below_def groups.below_def by (simp add: sample_queue_def)
qed

section \<open>Runs\<close>

definition sample_restored :: playlist_queue where
  "sample_restored = sample_queue\<lparr>structural_revision := 0, traversal_revision := 0\<rparr>"

definition sample_move :: client_call where
  "sample_move = Edit (MoveItem (EntrySingle (PlaylistItemId 4)) ToFront)"

definition sample_moved :: playlist_system where
  "sample_moved = system_of (sample_restored
     \<lparr>entries := [Single (sample_item 4 ''t9''), Single (sample_item 1 ''t10''), Compound sample_group],
      structural_revision := 1\<rparr>)"

lemmas sample_move_simps = move_item_def resolve_top_level_entry_index_def checked_next_def
  u64_checked_add_def remove_at_def splice_at_def iter_top_level_entry_ids_def

lemma sample_restored_inv: "queue_inv sample_restored"
  using sample_queue_inv by (simp add: sample_restored_def queue_inv_def sample_queue_def)

lemma sample_system_inv: "system_inv (system_of sample_restored)"
  by (rule system_of_inv [OF sample_restored_inv])

lemma sample_move_run:
  "perform sample_rng () (system_of sample_restored) sample_move = Some (sample_moved, ())"
  by (simp add: sample_move_def system_of_def sample_moved_def sample_restored_def sample_defs sample_move_simps)

lemma sample_step: "system_step sample_rng (system_of sample_restored) sample_moved"
  using system_step.call [OF sample_rng_ok _ sample_move_run] by (simp add: sample_move_def)

lemma sample_restore_run:
  "restore_input_wf (restore_input_of sample_queue)"
  "restore (restore_input_of sample_queue) = Some (Inr sample_restored)"
proof -
  show "restore_input_wf (restore_input_of sample_queue)"
    by (simp add: restore_input_wf_def restore_input_of_def sample_defs)
  show "restore (restore_input_of sample_queue) = Some (Inr sample_restored)"
    unfolding restore_complete [OF sample_queue_inv]
    by (simp add: sample_restored_def sample_queue_def)
qed

definition sample_select :: client_call where
  "sample_select = PrepareReserved (revision_snapshot sample_restored) (SelectCommitted (PlaylistItemId 3)) 64"

definition sample_token :: prepared_queue_mutation_token where
  "sample_token = \<lparr>token_key = 64, token_mutation = PreparedSelect (PlaylistItemId 3) (Some 1)\<rparr>"

definition sample_locked :: playlist_system where
  "sample_locked = (system_of (sample_restored\<lparr>active_reservation := Some 64\<rparr>))
     \<lparr>live_token := Some (ReservedToken sample_token)\<rparr>"

lemma sample_select_run:
  "perform sample_rng () (system_of sample_restored) sample_select = Some (sample_locked, ())"
  by (simp add: sample_select_def system_of_def sample_locked_def sample_token_def sample_restored_def sample_defs
      prepare_reserved_mutation_def prepare_select_def prepared_def revision_snapshot_def
      same_reservation_preconditions_def validate_traversal_current_def item_lookup_def iter_playable_items_def
      checked_next_def u64_checked_add_def)

lemma sample_select_step: "system_step sample_rng (system_of sample_restored) sample_locked"
  using system_step.call [OF sample_rng_ok _ sample_select_run] by (simp add: sample_select_def)

definition sample_traversal :: shuffle_traversal where
  "sample_traversal = \<lparr>history = [PlaylistItemId 1], history_cursor = Some 0,
     upcoming = [EntrySingle (PlaylistItemId 4), EntryCompound (PlaylistCompoundGroupId 1)]\<rparr>"

definition sample_shuffled :: playlist_queue where
  "sample_shuffled = sample_queue\<lparr>shuffle_traversal := Some sample_traversal\<rparr>"

lemma sample_shuffled_inv: "queue_inv sample_shuffled"
proof -
  have "shuffle_wf (set (iter_playable_ids (entries sample_queue))) (set (iter_top_level_entry_ids (entries sample_queue)))
      (Some (PlaylistItemId 1)) sample_traversal"
    unfolding sample_ids by (simp add: shuffle_wf_def sample_traversal_def MAX_SHUFFLE_HISTORY_ENTRIES_def)
  with sample_queue_inv show ?thesis
    by (simp add: queue_inv_def sample_shuffled_def) (simp add: sample_queue_def)
qed

definition sample_removed :: playlist_queue where
  "sample_removed = sample_queue
     \<lparr>entries := [Compound sample_group, Single (sample_item 4 ''t9'')], traversal_current := None,
      structural_revision := 4, traversal_revision := 2\<rparr>"

lemma sample_remove_run:
  "remove_entry sample_queue (EntrySingle (PlaylistItemId 1)) =
     Some (remove_item_outcome.Removed (EntrySingle (PlaylistItemId 1)) traversal_current_effect.Cleared
        (Detached (PlaylistItemId 1)), sample_removed)"
  by (simp add: remove_entry_def sample_removed_def sample_defs sample_move_simps removed_current_def
     next_traversal_if_removed_def publish_removal_def removal_effect_def removal_outcome_of_def)

lemma sample_discovery_run:
  "insert_discovery_batch sample_rng () sample_queue (revision_snapshot sample_queue)
     (Some (EntrySingle (PlaylistItemId 4))) [sample_draft ''x'', sample_draft ''y''] =
   (Inr \<lparr>discovery_item_ids = [PlaylistItemId 5, PlaylistItemId 6], discovery_anchor = Some (EntrySingle (PlaylistItemId 4))\<rparr>,
    sample_queue\<lparr>entries := [Single (sample_item 1 ''t10''), Compound sample_group, Single (sample_item 5 ''x''),
        Single (sample_item 6 ''y''), Single (sample_item 4 ''t9'')],
      item_allocator := \<lparr>next_item_id = 7\<rparr>, structural_revision := 4\<rparr>, ())"
  by (simp add: insert_discovery_batch_def sample_defs revision_snapshot_def resolve_insertion_index_def
      sample_move_simps usize_checked_add_def usize_max_def MAX_PLAYLIST_ITEMS_def item_preflight_allocation_def
      u64_try_from_usize_def existing_item_ids_def item_commit_allocation_def merge_into_shuffle_def
      items_from_drafts_def non_zero_u64_def)

definition duplicate_input :: playlist_queue_restore where
  "duplicate_input = (restore_input_of sample_queue)
     \<lparr>restored_entries := map restored_of_entry [Single (sample_item 1 ''x''), Single (sample_item 1 ''y'')]\<rparr>"

section \<open>More runs\<close>

definition sample_tables :: text_tables where
  "sample_tables = \<lparr>folded_units = map of_char, to_lowercase = id\<rparr>"

definition sample_intent :: sort_canonical_queue where
  "sample_intent = \<lparr>sort_key = NaturalFilename, sort_direction = Ascending\<rparr>"

definition never_cancelled :: "unit cancel_callback" where
  "never_cancelled c = (False, c)"

lemma sample_order:
  "entry_order sample_tables NaturalFilename Ascending (Single (sample_item 1 ''t10'')) (Compound sample_group) = Greater"
  "entry_order sample_tables NaturalFilename Ascending (Single (sample_item 1 ''t10'')) (Single (sample_item 4 ''t9'')) = Greater"
  "entry_order sample_tables NaturalFilename Ascending (Compound sample_group) (Single (sample_item 4 ''t9'')) = Less"
  by code_simp+

definition sample_sorted :: playlist_queue where
  "sample_sorted = sample_queue
     \<lparr>entries := [Compound sample_group, Single (sample_item 4 ''t9''), Single (sample_item 1 ''t10'')],
      structural_revision := 4\<rparr>"

lemma sample_sort_run:
  "sort_canonical sample_tables sample_queue sample_intent = Some (SortReordered 3, sample_sorted)"
  by (simp add: sort_canonical_def sample_intent_def sample_queue_def sample_sorted_def prepare_sort_entries_def
      compare_entries_prepared sample_order checked_next_def u64_checked_add_def apply_prepared_order_def apply_order_step_def
      slice_get_def slice_set_def swap_at_def upt_rec)

definition sample_next :: manual_navigation_intent where
  "sample_next = \<lparr>intent_direction = NavNext, intent_repeat_mode = RepeatQueue\<rparr>"

definition sample_preview :: manual_navigation_preview where
  "sample_preview =
     \<lparr>expected_revision = revision_snapshot sample_queue, preview_origin = CommittedItem (PlaylistItemId 1),
      latest_target_item_id = PlaylistItemId 2, has_left_committed_origin = True,
      preview_state = Ready, shuffle_preview = None\<rparr>"

definition sample_manual_token :: prepared_manual_navigation_token where
  "sample_manual_token = \<lparr>token_preview = sample_preview,
     reservation_token = \<lparr>token_key = 64, token_mutation = PreparedSelect (PlaylistItemId 2) (Some 2)\<rparr>\<rparr>"

lemma sample_begin_run:
  "begin_manual_navigation sample_rng () sample_queue sample_next =
     Some (manual_navigation_outcome.OpenItem (PlaylistItemId 2) sample_preview, ())"
  by (simp add: begin_manual_navigation_def sample_next_def sample_preview_def sample_defs origin_of_def
      canonical_index_of_def manual_target_index_def slice_get_def leaves_origin_def)

lemma sample_prepare_run:
  "prepare_manual_navigation sample_queue sample_preview 64 =
     Some (Inr sample_manual_token, sample_queue\<lparr>active_reservation := Some 64\<rparr>)"
  by (simp add: prepare_manual_navigation_def prepare_reserved_mutation_def sample_preview_def sample_manual_token_def
      sample_defs same_reservation_preconditions_def revision_snapshot_def prepare_select_def
      validate_traversal_current_def item_lookup_def iter_playable_items_def checked_next_def u64_checked_add_def)

definition sample_later :: playlist_queue where
  "sample_later = sample_queue\<lparr>traversal_revision := 2\<rparr>"

definition solo_queue :: playlist_queue where
  "solo_queue = sample_queue\<lparr>entries := [Single (sample_item 1 ''t10'')]\<rparr>"

lemma solo_queue_inv: "queue_inv solo_queue"
  by (simp add: solo_queue_def sample_defs queue_inv_def entries_wf_def items.below_def groups.below_def MAX_PLAYLIST_ITEMS_def)

definition solo_plan :: automatic_traversal_plan where
  "solo_plan =
     \<lparr>plan_expected_revision = revision_snapshot solo_queue, plan_repeat_mode = RepeatQueue,
      eligible_item_ids = {PlaylistItemId 1}, attempted_item_ids = {}, canonical_candidates = [PlaylistItemId 1],
      canonical_cursor = 1, plan_shuffle_preview = None, target_item_id = PlaylistItemId 1\<rparr>"

lemma solo_runs:
  "begin_automatic_traversal sample_rng () solo_queue RepeatQueue False =
     Some (automatic_traversal_start.OpenItem (PlaylistItemId 1) solo_plan, ())"
  "advance_automatic_traversal_after_failure sample_rng () solo_queue solo_plan = Some (AllFailed 1, ())"
  by (simp_all add: begin_automatic_traversal_def advance_automatic_traversal_after_failure_def solo_queue_def
      solo_plan_def sample_defs automatic_canonical_candidates_def next_automatic_candidate_def
      canonical_index_of_def automatic_candidate_is_available_def item_lookup_def iter_playable_items_def)

definition trio_queue :: playlist_queue where
  "trio_queue =
     \<lparr>entries = [Single (sample_item 1 ''a''), Single (sample_item 2 ''b''), Single (sample_item 3 ''c'')],
      item_allocator = \<lparr>next_item_id = 4\<rparr>, group_allocator = \<lparr>next_group_id = 1\<rparr>,
      traversal_current = Some (PlaylistItemId 1), structural_revision = 1, traversal_revision = 1,
      metadata_revision = 0, active_reservation = None, shuffle_traversal = None\<rparr>"

lemma trio_items: 
 "item_id (sample_item i n) = PlaylistItemId i"
 by (simp add: sample_item_def into_item_def)

lemma trio_inv: "queue_inv trio_queue"
  by (simp add: trio_queue_def trio_items queue_inv_def entries_wf_def items.below_def groups.below_def MAX_PLAYLIST_ITEMS_def)

lemmas trace_simps = system_of_def trio_queue_def trio_items prepared_def with_nth_def slice_get_def
  enable_shuffle_def disable_shuffle_def fresh_def sample_rng_def shuffle_visit_identity_of_def iter_top_level_entry_ids_def
  checked_next_def u64_checked_add_def
  begin_automatic_traversal_def automatic_canonical_candidates_def canonical_index_of_def
  next_automatic_candidate_def  automatic_candidate_is_available_def item_lookup_def iter_playable_items_def
  preview_step_def preview_new_def step_next_def consume_upcoming_def push_step_def latest_speculative_item_def
  last_step_item_def history_item_at_logical_def option_or_def next_playable_item_id_in_entry_def
  first_playable_item_id_def top_level_entry_def maximum_steps_def
  prepare_automatic_traversal_def prepare_reserved_mutation_def prepare_select_def revision_snapshot_def
  same_reservation_preconditions_def validate_traversal_current_def
  commit_automatic_traversal_def commit_reserved_def

lemma six_steps: "usize_saturating_mul (Suc (Suc (Suc 0))) 2 = Suc (Suc (Suc (Suc (Suc (Suc 0)))))"
  by (simp add: usize_saturating_mul_def usize_max_def)

definition navigate :: "nat \<Rightarrow> manual_navigation_direction \<Rightarrow> client_call list" where
  "navigate n d = [BeginManual \<lparr>intent_direction = d, intent_repeat_mode = RepeatQueue\<rparr>, PrepareManual n 64, CommitToken]"

definition previous_trace :: "client_call list" where
  "previous_trace = Edit EnableShuffle # navigate 0 NavNext @ navigate 1 NavNext @ navigate 2 NavNext @ navigate 3 NavPrevious"

lemmas navigation_simps = begin_manual_navigation_def Let_def build_initial_shuffle_preview_outcome_def
  origin_of_def leaves_origin_def prepare_manual_navigation_def commit_manual_navigation_def direct_transition_def
  commit_direct_transition_def append_factual_visit_def remove_from_upcoming_def MAX_SHUFFLE_HISTORY_ENTRIES_def
  commit_into_def new_cycle_def step_previous_def commit_history_cursor_def

definition trio_traversal :: shuffle_traversal where
  "trio_traversal = \<lparr>history = map PlaylistItemId [1, 2, 3, 1], history_cursor = Some 2,
     upcoming = map EntrySingle (map PlaylistItemId [2, 3])\<rparr>"

definition trio_after_previous :: playlist_queue where
  "trio_after_previous = trio_queue\<lparr>traversal_current := Some (PlaylistItemId 3), traversal_revision := 6,
     shuffle_traversal := Some trio_traversal\<rparr>"

lemma previous_trace_run:
  "map_option (\<lambda>(s, r). queue s) (run_calls sample_rng () (system_of trio_queue) previous_trace) = Some trio_after_previous"
  by (simp add: previous_trace_def navigate_def trace_simps navigation_simps trio_after_previous_def trio_traversal_def)

lemma trio_restore:
  "restore_with_shuffle (restore_input_of trio_after_previous) (shuffle_snapshot trio_traversal) =
     Some (Inl (TraversalError (CurrentEntryPresentInUpcoming (PlaylistItemId 3) (EntrySingle (PlaylistItemId 3)))))"
proof -
  let ?q = "trio_queue\<lparr>traversal_current := Some (PlaylistItemId 3)\<rparr>"
  have inv: "queue_inv ?q" using trio_inv by (simp add: queue_inv_def trio_queue_def trio_items)
  have "restore_input_of trio_after_previous = restore_input_of ?q"
    by (simp add: restore_input_of_def trio_after_previous_def)
  then show ?thesis
    using restore_complete [OF inv]
    by (simp add: restore_with_shuffle_def trio_queue_def trio_traversal_def trio_items iter_top_level_entry_ids_def
        shuffle_restore_def shuffle_snapshot_def MAX_SHUFFLE_HISTORY_ENTRIES_def slice_get_def)
qed

definition disable_trace :: "client_call list" where
  "disable_trace = [Edit EnableShuffle, BeginAutomatic RepeatQueue False, Edit DisableShuffle, PrepareAutomatic 0 64]"

definition sample_patch :: playlist_metadata_patch where
  "sample_patch = metadata_patch_new (PlaylistItemId 1) (Local (Native ''/m//a'')) None
     ((sample_metadata ''a'')\<lparr>title := Some ''A''\<rparr>)"

lemma sample_patch_run:
  "\<exists>out q'. apply_metadata_patch_batch trio_queue [sample_patch] = (Inr out, q')"
  by (simp add: apply_metadata_patch_batch_def preflight_metadata_patch_batch_def prepare_metadata_patch_plan_def
     changed_metadata_def commit_metadata_patch_batch_def checked_next_def u64_checked_add_def trio_queue_def Let_def split: prod.splits)

definition sample_group_draft :: playlist_compound_group_draft where
  "sample_group_draft =
     \<lparr>gdraft_provenance_locator = Local (Native ''/m/set''), gdraft_cached_summary = sample_metadata ''set'',
      gdraft_parts = [sample_draft ''b'', sample_draft ''a''], gdraft_durable_payload = None\<rparr>"

end
