(* ===== verification/Bit_Stream.thy ===== *)
theory Bit_Stream
  imports Prelude
begin

text \<open>
  What the format parsers share: the \<open>?\<close> operator on a \<open>Result\<close> (\<open>and_then\<close>), \<open>Option::ok_or\<close>, and
  the bits of a byte buffer, most significant bit first, with the value a run of bits denotes.
  A parser maps a reader to an error or to a value with the advanced reader; \<open>reads\<close> says that it
  accepts the encoding of a value and \<open>consumes\<close> that whatever it accepts is such an encoding. Both
  compose along \<open>and_then\<close>. The locale \<open>bit_source\<close> is the contract of a bit reader.
\<close>

section \<open>Results\<close>

fun and_then :: "'e + 'a \<Rightarrow> ('a \<Rightarrow> 'e + 'b) \<Rightarrow> 'e + 'b" where
  "and_then (Inl e) f = Inl e"
| "and_then (Inr x) f = f x"

fun ok_or :: "'e \<Rightarrow> 'a option \<Rightarrow> 'e + 'a" where
  "ok_or e None = Inl e"
| "ok_or e (Some x) = Inr x"

lemma and_then_Inr_iff:
  "and_then p f = Inr y \<longleftrightarrow> (\<exists>x. p = Inr x \<and> f x = Inr y)"
  by (cases p) auto

lemma and_then_Inl_iff:
  "and_then p f = Inl e \<longleftrightarrow> p = Inl e \<or> (\<exists>x. p = Inr x \<and> f x = Inl e)"
  by (cases p) auto

lemma ok_or_Inr_iff [simp]: "ok_or e x = Inr y \<longleftrightarrow> x = Some y"
  by (cases x) auto

lemma ok_or_Inl_iff [simp]: "ok_or e x = Inl d \<longleftrightarrow> x = None \<and> d = e"
  by (cases x) auto

section \<open>Bits, most significant first\<close>

definition bits_of_byte :: "u8 \<Rightarrow> bool list" where
  "bits_of_byte b = map (\<lambda>i. bit b (7 - i)) [0..<8]"

definition bits_of_bytes :: "u8 list \<Rightarrow> bool list" where
  "bits_of_bytes bs = concat (map bits_of_byte bs)"

definition bits_value :: "bool list \<Rightarrow> nat" where
  "bits_value bs = foldl (\<lambda>v b. 2 * v + of_bool b) 0 bs"

fun nat_bits :: "nat \<Rightarrow> nat \<Rightarrow> bool list" where
  "nat_bits 0 v = []"
| "nat_bits (Suc n) v = nat_bits n (v div 2) @ [odd v]"

text \<open>Bits packed into bytes; the last byte is padded with zero bits.\<close>

fun bytes_of_bits :: "bool list \<Rightarrow> u8 list" where
  "bytes_of_bits [] = []"
| "bytes_of_bits (b # bs) =
     of_nat (bits_value (take 8 (b # bs) @ replicate (8 - length (b # bs)) False))
       # bytes_of_bits (drop 8 (b # bs))"

lemma length_bits_of_byte [simp]: "length (bits_of_byte b) = 8"
  by (simp add: bits_of_byte_def)

lemma nth_bits_of_byte: "i < 8 \<Longrightarrow> bits_of_byte b ! i = bit b (7 - i)"
  by (simp add: bits_of_byte_def)

lemma bits_of_bytes_simps [simp]:
  "bits_of_bytes [] = []"
  "bits_of_bytes (b # bs) = bits_of_byte b @ bits_of_bytes bs"
  "bits_of_bytes (bs @ cs) = bits_of_bytes bs @ bits_of_bytes cs"
  by (simp_all add: bits_of_bytes_def)

lemma length_bits_of_bytes [simp]: "length (bits_of_bytes bs) = 8 * length bs"
  by (induction bs) auto

lemma nth_bits_of_bytes:
  "i < 8 * length bs \<Longrightarrow> bits_of_bytes bs ! i = bit (bs ! (i div 8)) (7 - i mod 8)"
proof (induction bs arbitrary: i)
  case (Cons b bs)
  show ?case
  proof (cases "i < 8")
    case True
    then show ?thesis by (simp add: nth_append nth_bits_of_byte)
  next
    case False
    then obtain j where i: "i = j + 8" using le_Suc_ex [of 8 i] by auto
    with Cons.prems have "j < 8 * length bs" by simp
    moreover have "(j + 8) div 8 = Suc (j div 8)" "(j + 8) mod 8 = j mod 8" by simp_all
    ultimately show ?thesis using Cons.IH [of j] by (simp add: i nth_append)
  qed
qed simp

lemma bits_value_Nil [simp]: "bits_value [] = 0"
  by (simp add: bits_value_def)

lemma bits_value_snoc [simp]: "bits_value (bs @ [b]) = 2 * bits_value bs + of_bool b"
  by (simp add: bits_value_def)

lemma bits_value_less: "bits_value bs < 2 ^ length bs"
  by (induction bs rule: rev_induct) auto

lemma length_nat_bits [simp]: "length (nat_bits n v) = n"
  by (induction n arbitrary: v) auto

lemma nat_bits_Nil_iff [simp]: "nat_bits n v = [] \<longleftrightarrow> n = 0" "[] = nat_bits n v \<longleftrightarrow> n = 0"
  by (metis length_0_conv length_nat_bits)+

lemma bits_value_nat_bits: "v < 2 ^ n \<Longrightarrow> bits_value (nat_bits n v) = v"
  by (induction n arbitrary: v) (auto simp: odd_iff_mod_2_eq_one)

lemma nat_bits_bits_value: "length bs = n \<Longrightarrow> nat_bits n (bits_value bs) = bs"
proof (induction n arbitrary: bs)
  case (Suc n)
  then obtain cs b where bs: "bs = cs @ [b]" by (cases bs rule: rev_cases) auto
  with Suc show ?case by simp
qed simp

lemma bits_of_byte_of_nat:
  assumes "length bs = 8"
  shows "bits_of_byte (of_nat (bits_value bs)) = bs"
proof -
  obtain a b c d e f g h where bs: "bs = [a,b,c,d,e,f,g,h]"
    using assms by (auto simp: numeral_eq_Suc length_Suc_conv)
  show ?thesis
    by (cases a; cases b; cases c; cases d; cases e; cases f; cases g; cases h;
        simp add: bs bits_of_byte_def bits_value_def upt_rec)
qed

lemma bits_of_bytes_of_bits:
  "\<exists>n. bits_of_bytes (bytes_of_bits bs) = bs @ replicate n False"
proof (induction bs rule: bytes_of_bits.induct)
  case (2 b bs)
  let ?c = "b # bs"
  from 2 obtain n where n:
    "bits_of_bytes (bytes_of_bits (drop 8 ?c)) = drop 8 ?c @ replicate n False" by blast
  have "bits_of_bytes (bytes_of_bits ?c) =
      (take 8 ?c @ replicate (8 - length ?c) False) @ drop 8 ?c @ replicate n False"
    using n by (subst bytes_of_bits.simps, subst bits_of_bytes_simps, subst bits_of_byte_of_nat)
      (auto simp: min_def)
  also have "\<dots> = ?c @ replicate (8 - length ?c + n) False"
  proof (cases "8 \<le> length ?c")
    case True
    then show ?thesis by (metis append_assoc append_take_drop_id append_Nil diff_is_0_eq
          plus_nat.add_0 replicate_0)
  next
    case False
    then show ?thesis by (simp flip: replicate_add add.commute)
  qed
  finally show ?case by blast
qed simp

lemma length_bytes_of_bits: "length (bytes_of_bits bs) = (length bs + 7) div 8"
proof (induction bs rule: bytes_of_bits.induct)
  case (2 b bs)
  then show ?case by (cases "length bs < 8") (auto simp: div_if)
qed simp

section \<open>The value as a machine word\<close>

definition word_of_bits :: "bool list \<Rightarrow> 'a::len word" where
  "word_of_bits bs = of_nat (bits_value bs)"

lemma word_of_bits_Nil [simp]: "word_of_bits [] = 0"
  by (simp add: word_of_bits_def)

lemma word_of_bits_snoc:
  "(word_of_bits (bs @ [b]) :: 'a::len word) = or (push_bit 1 (word_of_bits bs)) (of_bool b)"
proof -
  have "(word_of_bits (bs @ [b]) :: 'a word) = 2 * word_of_bits bs + of_bool b"
    by (simp add: word_of_bits_def)
  also have "\<dots> = or (push_bit 1 (word_of_bits bs)) (of_bool b)"
    by (cases b) (auto simp: push_bit_double even_or_iff or_one_eq mult.commute)
  finally show ?thesis .
qed

lemma foldl_word_of_bits:
  "foldl (\<lambda>v b. or (push_bit 1 v) (of_bool b)) 0 bs = (word_of_bits bs :: 'a::len word)"
  by (induction bs rule: rev_induct) (auto simp: word_of_bits_snoc)

lemma unat_word_of_bits:
  "length bs \<le> LENGTH('a) \<Longrightarrow> unat (word_of_bits bs :: 'a::len word) = bits_value bs"
proof -
  assume "length bs \<le> LENGTH('a)"
  then have "(2::nat) ^ length bs \<le> 2 ^ LENGTH('a)" by (simp add: power_increasing)
  with bits_value_less [of bs] have "bits_value bs < 2 ^ LENGTH('a)" by linarith
  then show ?thesis by (simp add: word_of_bits_def unat_of_nat)
qed

lemma word_of_nat_bits: "v < 2 ^ n \<Longrightarrow> word_of_bits (nat_bits n v) = of_nat v"
  by (simp add: word_of_bits_def bits_value_nat_bits)

lemma of_nat_word_eq_iff:
  assumes "v < 2 ^ LENGTH('a)" and "k < 2 ^ LENGTH('a)"
  shows "(of_nat v :: 'a::len word) = of_nat k \<longleftrightarrow> v = k"
  using assms by (metis of_nat_inverse)

lemma of_nat_word_eq_numeral:
  assumes "v < 2 ^ LENGTH('a)" and "numeral k < (2 :: nat) ^ LENGTH('a)"
  shows "(of_nat v :: 'a::len word) = numeral k \<longleftrightarrow> v = numeral k"
  using of_nat_word_eq_iff [OF assms] by simp

section \<open>Big-endian bytes\<close>

definition be_value :: "u8 list \<Rightarrow> nat" where
  "be_value bs = foldl (\<lambda>v b. 256 * v + unat b) 0 bs"

fun be_bytes :: "nat \<Rightarrow> nat \<Rightarrow> u8 list" where
  "be_bytes 0 v = []"
| "be_bytes (Suc n) v = be_bytes n (v div 256) @ [of_nat (v mod 256)]"

lemma be_value_Nil [simp]: "be_value [] = 0"
  by (simp add: be_value_def)

lemma be_value_snoc [simp]: "be_value (bs @ [b]) = 256 * be_value bs + unat b"
  by (simp add: be_value_def)

lemma unat_u8_less: "unat (b :: u8) < 256"
  using unsigned_less [of b, where ?'a = nat] by simp

lemma be_value_less: "be_value bs < 256 ^ length bs"
proof (induction bs rule: rev_induct)
  case (snoc b bs)
  then show ?case using unat_u8_less [of b] by simp
qed simp

lemma length_be_bytes [simp]: "length (be_bytes n v) = n"
  by (induction n arbitrary: v) auto

lemma be_value_be_bytes: "v < 256 ^ n \<Longrightarrow> be_value (be_bytes n v) = v"
proof (induction n arbitrary: v)
  case (Suc n)
  then have "v div 256 < 256 ^ n" by (simp add: less_mult_imp_div_less mult.commute)
  with Suc.IH show ?case by (simp add: unat_of_nat)
qed simp

lemma be_bytes_be_value: "length bs = n \<Longrightarrow> be_bytes n (be_value bs) = bs"
proof (induction n arbitrary: bs)
  case (Suc n)
  then obtain cs b where bs: "bs = cs @ [b]" by (cases bs rule: rev_cases) auto
  with Suc unat_u8_less [of b] show ?case by simp
qed simp

section \<open>Parsers and the encodings they accept\<close>

definition reads ::
    "('r \<Rightarrow> 'b list) \<Rightarrow> ('r \<Rightarrow> bool) \<Rightarrow> ('r \<Rightarrow> 'e + 'a \<times> 'r) \<Rightarrow> 'b list \<Rightarrow> 'a \<Rightarrow> bool" where
  "reads unread ok p bs x \<longleftrightarrow>
     (\<forall>r rest. ok r \<longrightarrow> unread r = bs @ rest \<longrightarrow>
        (\<exists>s. p r = Inr (x, s) \<and> ok s \<and> unread s = rest))"

definition consumes ::
    "('r \<Rightarrow> 'b list) \<Rightarrow> ('r \<Rightarrow> bool) \<Rightarrow> ('r \<Rightarrow> 'e + 'a \<times> 'r) \<Rightarrow> ('b list \<Rightarrow> 'a \<Rightarrow> bool) \<Rightarrow> bool" where
  "consumes unread ok p G \<longleftrightarrow>
     (\<forall>r x s. ok r \<longrightarrow> p r = Inr (x, s) \<longrightarrow>
        ok s \<and> (\<exists>bs. G bs x \<and> unread r = bs @ unread s))"

lemma reads_return: "reads unread ok (\<lambda>r. Inr (x, r)) [] x"
  by (simp add: reads_def)

lemma reads_bind:
  assumes "reads unread ok p as x" and "reads unread ok (\<lambda>r. g x r) bs y"
  shows "reads unread ok (\<lambda>r. and_then (p r) (\<lambda>(x, r). g x r)) (as @ bs) y"
  unfolding reads_def
proof (intro allI impI)
  fix r rest
  assume r: "ok r" and "unread r = (as @ bs) @ rest"
  then have "unread r = as @ (bs @ rest)" by simp
  with assms(1) r obtain s where s: "p r = Inr (x, s)" "ok s" "unread s = bs @ rest"
    unfolding reads_def by blast
  from assms(2) s(2,3) obtain t where "g x s = Inr (y, t)" "ok t" "unread t = rest"
    unfolding reads_def by blast
  with s(1) show "\<exists>s. and_then (p r) (\<lambda>(x, r). g x r) = Inr (y, s) \<and> ok s \<and> unread s = rest"
    by simp
qed

lemma reads_bind_end:
  "reads unread ok p as x \<Longrightarrow> reads unread ok (\<lambda>r. g x r) [] y \<Longrightarrow>
     reads unread ok (\<lambda>r. and_then (p r) (\<lambda>(x, r). g x r)) as y"
  using reads_bind [of unread ok p as x g "[]" y] by simp

lemma reads_map:
  assumes "reads unread ok p bs x"
  shows "reads unread ok (\<lambda>r. and_then (p r) (\<lambda>(x, r). Inr (g x, r))) bs (g x)"
  using reads_bind [OF assms reads_return, of "\<lambda>x. g x"] by simp

lemma reads_If:
  "(c \<Longrightarrow> reads unread ok p bs x) \<Longrightarrow> (\<not> c \<Longrightarrow> reads unread ok q bs x) \<Longrightarrow>
     reads unread ok (\<lambda>r. if c then p r else q r) bs x"
  by (cases c) simp_all

lemma readsD:
  "reads unread ok p bs x \<Longrightarrow> ok r \<Longrightarrow> unread r = bs @ rest \<Longrightarrow>
     \<exists>s. p r = Inr (x, s) \<and> ok s \<and> unread s = rest"
  by (simp add: reads_def)

lemma consumesE:
  assumes "consumes unread ok p G" and "ok r" and "p r = Inr (x, s)"
  obtains bs where "ok s" and "G bs x" and "unread r = bs @ unread s"
  using assms unfolding consumes_def by blast

lemma consumesI:
  assumes "\<And>r x s. ok r \<Longrightarrow> p r = Inr (x, s) \<Longrightarrow> ok s \<and> (\<exists>bs. G bs x \<and> unread r = bs @ unread s)"
  shows "consumes unread ok p G"
  using assms unfolding consumes_def by blast

lemma consumes_weaken:
  "consumes unread ok p G \<Longrightarrow> (\<And>bs x. G bs x \<Longrightarrow> H bs x) \<Longrightarrow> consumes unread ok p H"
  unfolding consumes_def by blast

lemma consumes_return: "consumes unread ok (\<lambda>r. Inr (x, r)) (\<lambda>bs y. bs = [] \<and> y = x)"
  by (simp add: consumes_def)

lemma consumes_error: "consumes unread ok (\<lambda>r. Inl e) (\<lambda>bs y. False)"
  by (simp add: consumes_def)

lemma consumes_If:
  "consumes unread ok p G \<Longrightarrow> consumes unread ok q H \<Longrightarrow>
     consumes unread ok (\<lambda>r. if c then p r else q r) (\<lambda>bs x. if c then G bs x else H bs x)"
  by (cases c) simp_all

lemma consumes_prod:
  "(\<And>a b. consumes unread ok (g a b) (H a b)) \<Longrightarrow>
     consumes unread ok (case_prod g x) (H (fst x) (snd x))"
  by (cases x) simp

lemma consumes_map:
  assumes "consumes unread ok p G"
  shows "consumes unread ok (\<lambda>r. and_then (p r) (\<lambda>(x, r). Inr (g x, r))) (\<lambda>bs y. \<exists>x. G bs x \<and> y = g x)"
proof (rule consumesI)
  fix r y t
  assume r: "ok r" and "and_then (p r) (\<lambda>(x, r). Inr (g x, r)) = Inr (y, t)"
  then obtain x where "p r = Inr (x, t)" "y = g x" by (auto simp: and_then_Inr_iff)
  with assms r show "ok t \<and> (\<exists>bs. (\<exists>x. G bs x \<and> y = g x) \<and> unread r = bs @ unread t)"
    unfolding consumes_def by metis
qed

lemma consumes_bind:
  assumes "consumes unread ok p G" and "\<And>x. consumes unread ok (\<lambda>r. g x r) (H x)"
  shows "consumes unread ok (\<lambda>r. and_then (p r) (\<lambda>(x, r). g x r))
           (\<lambda>cs y. \<exists>as x bs. cs = as @ bs \<and> G as x \<and> H x bs y)"
proof (rule consumesI)
  fix r y t
  assume r: "ok r" and "and_then (p r) (\<lambda>(x, r). g x r) = Inr (y, t)"
  then obtain x s where p: "p r = Inr (x, s)" and f: "g x s = Inr (y, t)"
    by (auto simp: and_then_Inr_iff)
  from assms(1) r p obtain as where as: "ok s" "G as x" "unread r = as @ unread s"
    by (rule consumesE)
  from assms(2) as(1) f obtain bs where "ok t" "H x bs y" "unread s = bs @ unread t"
    by (rule consumesE)
  with as show "ok t \<and> (\<exists>cs. (\<exists>as x bs. cs = as @ bs \<and> G as x \<and> H x bs y) \<and> unread r = cs @ unread t)"
    by (metis append_assoc)
qed

section \<open>The contract of a bit reader\<close>

locale bit_source =
  fixes unread :: "'r \<Rightarrow> bool list"
    and ok :: "'r \<Rightarrow> bool"
    and read :: "nat \<Rightarrow> 'r \<Rightarrow> 'e + 'v::len word \<times> 'r"
    and limit :: nat
  assumes read_enough: "ok r \<Longrightarrow> n \<le> limit \<Longrightarrow> unread r = bs @ rest \<Longrightarrow> length bs = n \<Longrightarrow>
      \<exists>s. read n r = Inr (word_of_bits bs, s) \<and> ok s \<and> unread s = rest"
    and read_short: "ok r \<Longrightarrow> n \<le> limit \<Longrightarrow> length (unread r) < n \<Longrightarrow> \<exists>e. read n r = Inl e"
begin

lemma reads_bits:
  "n \<le> limit \<Longrightarrow> length bs = n \<Longrightarrow> reads unread ok (read n) bs (word_of_bits bs)"
  unfolding reads_def using read_enough by blast

lemma reads_number:
  "n \<le> limit \<Longrightarrow> v < 2 ^ n \<Longrightarrow> reads unread ok (read n) (nat_bits n v) (of_nat v)"
  using reads_bits [of n "nat_bits n v"] by (simp add: word_of_nat_bits)

lemma consumes_bits:
  assumes "n \<le> limit"
  shows "consumes unread ok (read n) (\<lambda>bs x. length bs = n \<and> x = word_of_bits bs)"
proof (rule consumesI)
  fix r x s
  assume r: "ok r" and read: "read n r = Inr (x, s)"
  with read_short [OF r assms] have n: "n \<le> length (unread r)"
    by (metis Inl_Inr_False not_le)
  then obtain bs rest where bs: "unread r = bs @ rest" "length bs = n"
    by (metis append_take_drop_id length_take min.absorb2)
  from read_enough [OF r assms this] read bs
  show "ok s \<and> (\<exists>bs. (length bs = n \<and> x = word_of_bits bs) \<and> unread r = bs @ unread s)"
    by auto
qed

lemma consumes_number:
  assumes "n \<le> limit"
  shows "consumes unread ok (read n) (\<lambda>bs x. \<exists>v < 2 ^ n. bs = nat_bits n v \<and> x = of_nat v)"
  by (rule consumes_weaken [OF consumes_bits [OF assms]])
    (metis bits_value_less nat_bits_bits_value word_of_bits_def)

end

end
