(* ===== verification/Pgs_Segment.thy ===== *)
theory Pgs_Segment
  imports Bit_Stream
begin

text \<open>
  The segments of a PGS stream (crate \<open>subtitle-pgs\<close>): cutting a Matroska block or a \<open>.sup\<close> file into
  segments (module \<open>segment\<close>), with the encoder of one segment (\<open>stream_builder\<close>). A time is its number
  of microseconds. The specification of the framing is the bytes of a segment; the cut is shown to be
  exactly the inverse of concatenation, with the rest that a truncated block leaves.
\<close>

section \<open>Segments\<close>

datatype segment_kind =
    PresentationComposition
  | WindowDefinition
  | PaletteDefinition
  | ObjectDefinition
  | EndOfDisplaySet
  | Unknown_Kind u8

definition kind_from_byte :: "u8 \<Rightarrow> segment_kind" where
  "kind_from_byte b =
     (if b = 0x16 then PresentationComposition else if b = 0x17 then WindowDefinition
      else if b = 0x14 then PaletteDefinition else if b = 0x15 then ObjectDefinition
      else if b = 0x80 then EndOfDisplaySet else Unknown_Kind b)"

fun kind_to_byte :: "segment_kind \<Rightarrow> u8" where
  "kind_to_byte PresentationComposition = 0x16"
| "kind_to_byte WindowDefinition = 0x17"
| "kind_to_byte PaletteDefinition = 0x14"
| "kind_to_byte ObjectDefinition = 0x15"
| "kind_to_byte EndOfDisplaySet = 0x80"
| "kind_to_byte (Unknown_Kind b) = b"

record segment =
  kind :: segment_kind
  payload :: "u8 list"

datatype segment_framing_error =
    TruncatedHeader nat
  | TruncatedPayload segment_kind nat nat

record split_result =
  segments :: "segment list"
  framing_error :: "segment_framing_error option"

definition SEGMENT_HEADER_LEN :: nat where "SEGMENT_HEADER_LEN = 3"
definition SUP_HEADER_LEN :: nat where "SUP_HEADER_LEN = 10"
definition SUP_MAGIC :: "u8 list" where "SUP_MAGIC = [0x50, 0x47]"
definition SUP_CLOCK_HZ :: nat where "SUP_CLOCK_HZ = 90000"

definition u16_be :: "u8 \<Rightarrow> u8 \<Rightarrow> u16" where
  "u16_be a b = of_nat (be_value [a, b])"

definition u32_be :: "u8 \<Rightarrow> u8 \<Rightarrow> u8 \<Rightarrow> u8 \<Rightarrow> u32" where
  "u32_be a b c d = of_nat (be_value [a, b, c, d])"

definition read_segment :: "u8 list \<Rightarrow> segment_framing_error + segment \<times> u8 list" where
  "read_segment bytes =
     (if length bytes < SEGMENT_HEADER_LEN then Inl (TruncatedHeader (length bytes))
      else
        let k = kind_from_byte (bytes ! 0);
            declared = unat (u16_be (bytes ! 1) (bytes ! 2));
            body = drop SEGMENT_HEADER_LEN bytes
        in if length body < declared then Inl (TruncatedPayload k declared (length body))
           else Inr (\<lparr>kind = k, payload = take declared body\<rparr>, drop declared body))"

lemma read_segment_shorter: "read_segment bytes = Inr (s, rest) \<Longrightarrow> length rest < length bytes"
  by (auto simp: read_segment_def SEGMENT_HEADER_LEN_def Let_def split: if_splits)

function split_loop :: "u8 list \<Rightarrow> segment list \<Rightarrow> split_result" where
  "split_loop rest acc =
     (if rest = [] then \<lparr>segments = acc, framing_error = None\<rparr>
      else case read_segment rest of
        Inr (s, tail) \<Rightarrow> split_loop tail (acc @ [s])
      | Inl e \<Rightarrow> \<lparr>segments = acc, framing_error = Some e\<rparr>)"
  by pat_completeness auto

termination
  by (relation "measure (\<lambda>(rest, acc). length rest)") (auto dest: read_segment_shorter)

declare split_loop.simps [simp del]

definition skip_sup_prefix :: "u8 list \<Rightarrow> u8 list" where
  "skip_sup_prefix bytes =
     (if SUP_HEADER_LEN \<le> length bytes \<and> take 2 bytes = SUP_MAGIC then drop SUP_HEADER_LEN bytes
      else bytes)"

definition split_block :: "u8 list \<Rightarrow> split_result" where
  "split_block bytes = split_loop (skip_sup_prefix bytes) []"

section \<open>The encoder of the tests\<close>

text \<open>\<open>encode_segment\<close> of \<open>stream_builder\<close>; a payload that does not fit is cut (the code asserts in
  debug builds that this does not happen).\<close>

definition u16_bytes :: "u16 \<Rightarrow> u8 list" where
  "u16_bytes w = be_bytes 2 (unat w)"

definition u32_bytes :: "u32 \<Rightarrow> u8 list" where
  "u32_bytes w = be_bytes 4 (unat w)"

definition encode_segment :: "segment_kind \<Rightarrow> u8 list \<Rightarrow> u8 list" where
  "encode_segment k bytes =
     (let len = (if length bytes < 2 ^ 16 then of_nat (length bytes) else - 1) :: u16 in
      [kind_to_byte k] @ u16_bytes len @ take (unat len) bytes)"

definition segment_bytes :: "segment \<Rightarrow> u8 list" where
  "segment_bytes s = encode_segment (kind s) (payload s)"

definition segment_ok :: "segment \<Rightarrow> bool" where
  "segment_ok s \<longleftrightarrow> length (payload s) < 2 ^ 16 \<and> kind_from_byte (kind_to_byte (kind s)) = kind s"

text \<open>What a truncated block leaves, and the error that reports it.\<close>

fun framing_end :: "u8 list \<Rightarrow> segment_framing_error option \<Rightarrow> bool" where
  "framing_end tail None \<longleftrightarrow> tail = []"
| "framing_end tail (Some (TruncatedHeader n)) \<longleftrightarrow> tail \<noteq> [] \<and> length tail = n \<and> n < SEGMENT_HEADER_LEN"
| "framing_end tail (Some (TruncatedPayload k declared available)) \<longleftrightarrow>
     available < declared \<and> (\<exists>body. length body = available \<and> declared < 2 ^ 16 \<and>
       tail = [kind_to_byte k] @ be_bytes 2 declared @ body \<and> kind_from_byte (kind_to_byte k) = k)"

section \<open>Cutting is the inverse of concatenation\<close>

lemma kind_round_trip [simp]: "kind_to_byte (kind_from_byte b) = b"
  by (simp add: kind_from_byte_def)

lemma unat_u16_be: "unat (u16_be a b) = be_value [a, b]"
  using be_value_less [of "[a, b]"] by (simp add: u16_be_def unat_of_nat)

lemma u16_bytes_be: "u16_bytes (u16_be a b) = [a, b]"
  using be_bytes_be_value [of "[a, b]" 2] by (simp add: u16_bytes_def unat_u16_be)

lemma length_u16_bytes [simp]: "length (u16_bytes w) = 2"
  by (simp add: u16_bytes_def)

lemma u16_bytes_eq: "\<exists>a b. u16_bytes w = [a, b] \<and> u16_be a b = w"
proof -
  obtain a b where ab: "u16_bytes w = [a, b]"
    using length_u16_bytes [of w] by (auto simp: numeral_2_eq_2 length_Suc_conv simp del: length_u16_bytes)
  moreover have "be_value (u16_bytes w) = unat w"
    using unsigned_less [of w, where ?'a = nat] by (simp add: u16_bytes_def be_value_be_bytes)
  ultimately have "u16_be a b = w" by (simp add: u16_be_def)
  with ab show ?thesis by blast
qed

lemma segment_bytes_eq:
  "segment_ok s \<Longrightarrow>
     segment_bytes s = [kind_to_byte (kind s)] @ be_bytes 2 (length (payload s)) @ payload s"
  by (simp add: segment_bytes_def encode_segment_def segment_ok_def u16_bytes_def Let_def unat_of_nat)

lemma be_bytes_2: "length bs = 2 \<Longrightarrow> be_value bs = n \<Longrightarrow> be_bytes 2 n = bs"
  using be_bytes_be_value by blast

lemma read_segment_iff:
  "read_segment bytes = Inr (s, rest) \<longleftrightarrow> segment_ok s \<and> bytes = segment_bytes s @ rest"
proof
  assume r: "read_segment bytes = Inr (s, rest)"
  then have l: "3 \<le> length bytes" by (auto simp: read_segment_def SEGMENT_HEADER_LEN_def split: if_splits)
  then obtain k a b body where bytes: "bytes = k # a # b # body"
    by (metis Suc_le_length_iff numeral_3_eq_3)
  let ?n = "be_value [a, b]"
  have n: "?n < 2 ^ 16" using be_value_less [of "[a, b]"] by simp
  from r have "\<not> length body < ?n" and s: "s = \<lparr>kind = kind_from_byte k, payload = take ?n body\<rparr>"
    and rest: "rest = drop ?n body"
    by (auto simp: read_segment_def SEGMENT_HEADER_LEN_def Let_def bytes unat_u16_be split: if_splits)
  then have len: "length (payload s) = ?n" by simp
  have ok: "segment_ok s" using n len by (simp add: segment_ok_def s)
  have "be_bytes 2 ?n = [a, b]" by (rule be_bytes_be_value) simp
  then have "segment_bytes s = [k, a, b] @ take ?n body"
    using segment_bytes_eq [OF ok] len by (simp add: s)
  with ok show "segment_ok s \<and> bytes = segment_bytes s @ rest"
    by (simp add: bytes rest)
next
  assume a: "segment_ok s \<and> bytes = segment_bytes s @ rest"
  then have n: "length (payload s) < 2 ^ 16" by (simp add: segment_ok_def)
  obtain x y where xy: "be_bytes 2 (length (payload s)) = [x, y]"
    using length_be_bytes [of 2 "length (payload s)"]
    by (auto simp: numeral_2_eq_2 length_Suc_conv simp del: length_be_bytes be_bytes.simps)
  then have "be_value [x, y] = length (payload s)"
    using be_value_be_bytes [of "length (payload s)" 2] n by simp
  then have "unat (u16_be x y) = length (payload s)" by (simp add: unat_u16_be)
  moreover have "bytes = [kind_to_byte (kind s), x, y] @ payload s @ rest"
    using a segment_bytes_eq [of s] xy by simp
  ultimately show "read_segment bytes = Inr (s, rest)"
    using a by (simp add: read_segment_def SEGMENT_HEADER_LEN_def Let_def segment_ok_def)
qed

lemma read_segment_error:
  "bytes \<noteq> [] \<and> read_segment bytes = Inl e \<longleftrightarrow> framing_end bytes (Some e)"
proof (cases "length bytes < 3")
  case True
  show ?thesis
  proof (cases e)
    case (TruncatedPayload k d a)
    with True show ?thesis by (auto simp: read_segment_def SEGMENT_HEADER_LEN_def)
  qed (use True in \<open>auto simp: read_segment_def SEGMENT_HEADER_LEN_def\<close>)
next
  case False
  then obtain k a b body where bytes: "bytes = k # a # b # body"
    by (metis Suc_le_length_iff numeral_3_eq_3 not_less)
  let ?n = "be_value [a, b]"
  have n: "?n < 2 ^ 16" using be_value_less [of "[a, b]"] by simp
  have enc: "be_bytes 2 ?n = [a, b]" by (rule be_bytes_be_value) simp
  have dec: "be_value (be_bytes 2 d) = d" if "d < 2 ^ 16" for d
    using be_value_be_bytes [of d 2] that by simp
  have r: "read_segment bytes = Inl e \<longleftrightarrow>
      length body < ?n \<and> e = TruncatedPayload (kind_from_byte k) ?n (length body)"
    by (auto simp: read_segment_def SEGMENT_HEADER_LEN_def Let_def bytes unat_u16_be)
  show ?thesis
  proof (cases e)
    case (TruncatedHeader m)
    have "\<not> framing_end bytes (Some e)" by (simp add: TruncatedHeader SEGMENT_HEADER_LEN_def bytes)
    moreover have "read_segment bytes \<noteq> Inl e" using r TruncatedHeader by blast
    ultimately show ?thesis by blast
  next
    case (TruncatedPayload k' d m)
    have "(\<exists>c. length c = m \<and> d < 2 ^ 16 \<and> bytes = [kind_to_byte k'] @ be_bytes 2 d @ c \<and>
        kind_from_byte (kind_to_byte k') = k') \<longleftrightarrow> k' = kind_from_byte k \<and> d = ?n \<and> m = length body"
    proof
      assume "\<exists>c. length c = m \<and> d < 2 ^ 16 \<and> bytes = [kind_to_byte k'] @ be_bytes 2 d @ c \<and>
          kind_from_byte (kind_to_byte k') = k'"
      then obtain c where c: "length c = m" "d < 2 ^ 16" "k # a # b # body = kind_to_byte k' # be_bytes 2 d @ c"
        "kind_from_byte (kind_to_byte k') = k'" by (auto simp: bytes)
      from c(3) have "take 2 (a # b # body) = be_bytes 2 d"
        by (metis append_eq_conv_conj length_be_bytes list.inject)
      then have "be_bytes 2 d = [a, b]" by simp
      moreover from this c(3) have "body = c" by simp
      ultimately show "k' = kind_from_byte k \<and> d = ?n \<and> m = length body"
        using c dec [OF c(2)] by auto
    next
      assume "k' = kind_from_byte k \<and> d = ?n \<and> m = length body"
      then show "\<exists>c. length c = m \<and> d < 2 ^ 16 \<and> bytes = [kind_to_byte k'] @ be_bytes 2 d @ c \<and>
          kind_from_byte (kind_to_byte k') = k'"
        using n enc by (intro exI [of _ body]) (simp add: bytes)
    qed
    then have "framing_end bytes (Some e) \<longleftrightarrow> m < d \<and> k' = kind_from_byte k \<and> d = ?n \<and> m = length body"
      by (simp only: TruncatedPayload framing_end.simps)
    moreover have "read_segment bytes = Inl e \<longleftrightarrow>
        m < d \<and> k' = kind_from_byte k \<and> d = ?n \<and> m = length body"
      by (subst r) (auto simp: TruncatedPayload)
    moreover have "bytes \<noteq> []" by (simp add: bytes)
    ultimately show ?thesis by blast
  qed
qed

lemma segment_bytes_nonempty [simp]: "segment_bytes s \<noteq> []"
  by (simp add: segment_bytes_def encode_segment_def Let_def)

lemma framing_end_cases:
  "framing_end bytes e \<longleftrightarrow>
     (if bytes = [] then e = None else \<exists>x. read_segment bytes = Inl x \<and> e = Some x)"
  using read_segment_error [of bytes] by (cases e) auto

lemma split_loop_grows: "\<exists>more. segments (split_loop bytes acc) = acc @ more"
proof (induction bytes acc rule: split_loop.induct)
  case (1 rest acc)
  show ?case
  proof (cases "rest = []")
    case False
    show ?thesis
    proof (cases "read_segment rest")
      case (Inr x)
      obtain s tail where x: "x = (s, tail)" by (cases x)
      from "1" [OF False Inr x [symmetric]] Inr x False show ?thesis by (auto simp: split_loop.simps [of rest])
    qed (use False in \<open>auto simp: split_loop.simps [of rest]\<close>)
  qed (auto simp: split_loop.simps [of "[]"])
qed

lemma split_loop_iff:
  "split_loop bytes acc = \<lparr>segments = acc @ ss, framing_error = e\<rparr> \<longleftrightarrow>
     list_all segment_ok ss \<and> (\<exists>tail. bytes = concat (map segment_bytes ss) @ tail \<and> framing_end tail e)"
proof (induction ss arbitrary: bytes acc)
  case Nil
  show ?case
  proof (cases "bytes = []")
    case False
    show ?thesis
    proof (cases "read_segment bytes")
      case (Inr x)
      obtain s rest where x: "x = (s, rest)" by (cases x)
      from split_loop_grows [of rest "acc @ [s]"]
      have "segments (split_loop rest (acc @ [s])) \<noteq> acc" by auto
      with Inr x False show ?thesis
        by (auto simp: split_loop.simps [of bytes] framing_end_cases)
    qed (use False in \<open>auto simp: split_loop.simps [of bytes] framing_end_cases\<close>)
  qed (auto simp: split_loop.simps [of "[]"] framing_end_cases)
next
  case (Cons s ss)
  show ?case
  proof (cases "\<exists>rest. read_segment bytes = Inr (s, rest)")
    case True
    then obtain rest where r: "read_segment bytes = Inr (s, rest)" by blast
    then have b: "segment_ok s" "bytes = segment_bytes s @ rest" by (simp_all add: read_segment_iff)
    have "bytes \<noteq> []" using b by simp
    with r have "split_loop bytes acc = split_loop rest (acc @ [s])"
      by (simp add: split_loop.simps [of bytes])
    with Cons.IH [of rest "acc @ [s]"] b show ?thesis by simp
  next
    case False
    have "split_loop bytes acc \<noteq> \<lparr>segments = acc @ s # ss, framing_error = e\<rparr>"
    proof (cases "read_segment bytes")
      case (Inr x)
      then obtain t rest where x: "read_segment bytes = Inr (t, rest)" by (cases x) auto
      with False have "t \<noteq> s" by auto
      have "bytes \<noteq> []" using x by (auto simp: read_segment_iff)
      with x have "split_loop bytes acc = split_loop rest (acc @ [t])"
        by (simp add: split_loop.simps [of bytes])
      with split_loop_grows [of rest "acc @ [t]"] \<open>t \<noteq> s\<close> show ?thesis by auto
    qed (auto simp: split_loop.simps [of bytes])
    moreover have "bytes \<noteq> segment_bytes s @ rest \<or> \<not> segment_ok s" for rest
      using False by (auto simp: read_segment_iff)
    ultimately show ?thesis by auto
  qed
qed

lemma split_block_iff:
  "split_block bytes = \<lparr>segments = ss, framing_error = e\<rparr> \<longleftrightarrow>
     list_all segment_ok ss \<and>
     (\<exists>tail. skip_sup_prefix bytes = concat (map segment_bytes ss) @ tail \<and> framing_end tail e)"
  using split_loop_iff [of "skip_sup_prefix bytes" "[]" ss e] by (simp add: split_block_def)

lemma split_block_bytes:
  assumes "list_all segment_ok ss" and "skip_sup_prefix bytes = concat (map segment_bytes ss)"
  shows "split_block bytes = \<lparr>segments = ss, framing_error = None\<rparr>"
  using assms by (simp add: split_block_iff)

section \<open>Files\<close>

type_synonym subtitle_time = int

record sup_segment =
  presentation_time :: subtitle_time
  sup_content :: segment

datatype sup_error =
    BadMagic nat
  | SupTruncatedHeader nat
  | SupTruncatedSegment nat segment_framing_error

text \<open>The product fits in \<open>u64\<close>; \<open>i64::try_from(..).unwrap_or(i64::MAX)\<close>.\<close>

definition ticks_90khz_to_time :: "u32 \<Rightarrow> subtitle_time" where
  "ticks_90khz_to_time ticks =
     (let micros = unat ticks * 1000000 div SUP_CLOCK_HZ in
      if micros < 2 ^ 63 then int micros else 2 ^ 63 - 1)"

function read_sup_loop :: "u8 list \<Rightarrow> nat \<Rightarrow> sup_segment list \<Rightarrow> sup_error + sup_segment list" where
  "read_sup_loop bytes offset records =
     (if offset < length bytes then
        let rest = drop offset bytes in
        if length rest < SUP_HEADER_LEN then Inl (SupTruncatedHeader offset)
        else if take 2 rest \<noteq> SUP_MAGIC then Inl (BadMagic offset)
        else
          let ticks = u32_be (rest ! 2) (rest ! 3) (rest ! 4) (rest ! 5);
              body = drop SUP_HEADER_LEN rest
          in case read_segment body of
               Inl e \<Rightarrow> Inl (SupTruncatedSegment (offset + SUP_HEADER_LEN) e)
             | Inr (s, _) \<Rightarrow>
                 read_sup_loop bytes
                   (offset + SUP_HEADER_LEN + SEGMENT_HEADER_LEN + length (payload s))
                   (records @ [\<lparr>presentation_time = ticks_90khz_to_time ticks, sup_content = s\<rparr>])
      else Inr records)"
  by pat_completeness auto

termination
  by (relation "measure (\<lambda>(bytes, offset, records). length bytes - offset)")
    (auto simp: SUP_HEADER_LEN_def)

declare read_sup_loop.simps [simp del]

definition read_sup :: "u8 list \<Rightarrow> sup_error + sup_segment list" where
  "read_sup bytes = read_sup_loop bytes 0 []"

text \<open>A record of a \<open>.sup\<close> file: the magic, the two clocks and the segment.\<close>

definition sup_record_bytes :: "u32 \<times> u32 \<times> segment \<Rightarrow> u8 list" where
  "sup_record_bytes = (\<lambda>(pts, dts, s). SUP_MAGIC @ u32_bytes pts @ u32_bytes dts @ segment_bytes s)"

definition sup_record :: "u32 \<times> u32 \<times> segment \<Rightarrow> sup_segment" where
  "sup_record = (\<lambda>(pts, dts, s). \<lparr>presentation_time = ticks_90khz_to_time pts, sup_content = s\<rparr>)"

definition sup_record_ok :: "u32 \<times> u32 \<times> segment \<Rightarrow> bool" where
  "sup_record_ok = (\<lambda>(pts, dts, s). segment_ok s)"

lemma length_segment_bytes: "segment_ok s \<Longrightarrow> length (segment_bytes s) = SEGMENT_HEADER_LEN + length (payload s)"
  by (simp add: segment_bytes_eq SEGMENT_HEADER_LEN_def)

lemma u32_bytes_be: "u32_bytes (u32_be a b c d) = [a, b, c, d]"
  using be_bytes_be_value [of "[a, b, c, d]" 4] be_value_less [of "[a, b, c, d]"]
  by (simp add: u32_bytes_def u32_be_def unat_of_nat)

lemma u32_bytes_cases:
  obtains a b c d where "u32_bytes w = [a, b, c, d]" and "u32_be a b c d = w"
proof -
  have "length (u32_bytes w) = 4" by (simp add: u32_bytes_def)
  then obtain a b c d where abcd: "u32_bytes w = [a, b, c, d]"
    by (auto simp: numeral_eq_Suc length_Suc_conv)
  moreover have "be_value (u32_bytes w) = unat w"
    using unsigned_less [of w, where ?'a = nat] by (simp add: u32_bytes_def be_value_be_bytes)
  ultimately have "u32_be a b c d = w" by (simp add: u32_be_def)
  with abcd that show ?thesis by blast
qed

lemma read_sup_step:
  assumes "sup_record_ok r" and "offset \<le> length bytes" and "drop offset bytes = sup_record_bytes r @ rest"
  shows "read_sup_loop bytes offset acc =
           read_sup_loop bytes (offset + length (sup_record_bytes r)) (acc @ [sup_record r])"
    and "drop (offset + length (sup_record_bytes r)) bytes = rest"
proof -
  obtain pts dts s where r: "r = (pts, dts, s)" by (cases r)
  then have s: "segment_ok s" using assms(1) by (simp add: sup_record_ok_def)
  obtain a b c d where pts: "u32_bytes pts = [a, b, c, d]" "u32_be a b c d = pts" by (rule u32_bytes_cases)
  obtain a' b' c' d' where dts: "u32_bytes dts = [a', b', c', d']" by (rule u32_bytes_cases)
  have d: "drop offset bytes = [0x50, 0x47, a, b, c, d, a', b', c', d'] @ segment_bytes s @ rest"
    using assms(3) by (simp add: r sup_record_bytes_def SUP_MAGIC_def pts dts)
  then have "offset < length bytes" by (metis append_Cons drop_eq_Nil leI list.distinct(1))
  moreover have "read_segment (segment_bytes s @ rest) = Inr (s, rest)" using s by (simp add: read_segment_iff)
  moreover have "length (sup_record_bytes r) = SUP_HEADER_LEN + SEGMENT_HEADER_LEN + length (payload s)"
    using s by (simp add: r sup_record_bytes_def SUP_MAGIC_def pts dts length_segment_bytes SUP_HEADER_LEN_def)
  ultimately show "read_sup_loop bytes offset acc =
      read_sup_loop bytes (offset + length (sup_record_bytes r)) (acc @ [sup_record r])"
    by (subst read_sup_loop.simps)
      (simp add: d Let_def SUP_HEADER_LEN_def SUP_MAGIC_def pts(2) sup_record_def r algebra_simps)
  show "drop (offset + length (sup_record_bytes r)) bytes = rest"
    using assms(3) by (metis add.commute append_eq_conv_conj drop_drop)
qed

lemma read_sup_records:
  "list_all sup_record_ok rs \<Longrightarrow> offset \<le> length bytes \<Longrightarrow>
     drop offset bytes = concat (map sup_record_bytes rs) \<Longrightarrow>
     read_sup_loop bytes offset acc = Inr (acc @ map sup_record rs)"
proof (induction rs arbitrary: offset acc)
  case Nil
  then show ?case by (subst read_sup_loop.simps) simp
next
  case (Cons r rs)
  then have d: "drop offset bytes = sup_record_bytes r @ concat (map sup_record_bytes rs)" by simp
  note step = read_sup_step [OF _ Cons.prems(2) d]
  have "length bytes - offset = length (sup_record_bytes r @ concat (map sup_record_bytes rs))"
    by (metis d length_drop)
  then have "offset + length (sup_record_bytes r) \<le> length bytes" using Cons.prems(2) by simp
  with Cons step show ?case by simp
qed

lemma at_least_ten:
  "10 \<le> length xs \<Longrightarrow> \<exists>a b c d e f g h i j ys. xs = a # b # c # d # e # f # g # h # i # j # ys"
  by (auto simp: numeral_eq_Suc Suc_le_length_iff)

lemma read_sup_loop_records:
  "read_sup_loop bytes offset acc = Inr out \<Longrightarrow> offset \<le> length bytes \<Longrightarrow>
     \<exists>rs. list_all sup_record_ok rs \<and> drop offset bytes = concat (map sup_record_bytes rs) \<and>
       out = acc @ map sup_record rs"
proof (induction bytes offset acc rule: read_sup_loop.induct)
  case (1 bytes offset acc)
  show ?case
  proof (cases "offset < length bytes")
    case False
    with "1.prems" show ?thesis
      by (intro exI [of _ "[]"]) (subst (asm) (1) read_sup_loop.simps, simp)
  next
    case True
    let ?rest = "drop offset bytes"
    from "1.prems"(1) True obtain s tail where
      head: "10 \<le> length ?rest" "take 2 ?rest = SUP_MAGIC"
        "read_segment (drop 10 ?rest) = Inr (s, tail)"
      by (subst (asm) (1) read_sup_loop.simps)
        (auto simp: Let_def SUP_HEADER_LEN_def split: if_splits sum.splits)
    obtain p q a b c d a' b' c' d' body where
      rest: "?rest = p # q # a # b # c # d # a' # b' # c' # d' # body"
      using at_least_ten [OF head(1)] by blast
    let ?r = "(u32_be a b c d, u32_be a' b' c' d', s)"
    have s: "segment_ok s" "body = segment_bytes s @ tail"
      using head(3) by (simp_all add: rest read_segment_iff)
    have r: "sup_record_ok ?r" "?rest = sup_record_bytes ?r @ tail"
      using head(2) s rest by (simp_all add: sup_record_ok_def sup_record_bytes_def u32_bytes_be SUP_MAGIC_def)
    note step = read_sup_step [OF r(1) _ r(2)]
    let ?n = "offset + SUP_HEADER_LEN + SEGMENT_HEADER_LEN + length (payload s)"
    have len: "offset + length (sup_record_bytes ?r) = ?n"
      using s by (simp add: sup_record_bytes_def SUP_MAGIC_def u32_bytes_be length_segment_bytes SUP_HEADER_LEN_def)
    have "length ?rest = length (sup_record_bytes ?r @ tail)" by (simp only: r(2))
    with True len have le: "?n \<le> length bytes" by simp
    have "\<exists>rs. list_all sup_record_ok rs \<and> drop ?n bytes = concat (map sup_record_bytes rs) \<and>
        out = (acc @ [sup_record ?r]) @ map sup_record rs"
      using "1.IH" [OF True refl _ _ refl refl, of "(s, tail)" s tail] "1.prems" step len le head True rest
      by (simp add: SUP_HEADER_LEN_def sup_record_def)
    then obtain rs where rs: "list_all sup_record_ok rs" "tail = concat (map sup_record_bytes rs)"
      "out = (acc @ [sup_record ?r]) @ map sup_record rs"
      using step(2) len True by auto
    with r show ?thesis by (intro exI [of _ "?r # rs"]) simp
  qed
qed

lemma read_sup_iff:
  "read_sup bytes = Inr out \<longleftrightarrow>
     (\<exists>rs. list_all sup_record_ok rs \<and> bytes = concat (map sup_record_bytes rs) \<and> out = map sup_record rs)"
  using read_sup_loop_records [of bytes 0 "[]" out] read_sup_records [of _ 0 bytes "[]"]
  by (auto simp: read_sup_def)

end
