(* ===== verification/Pgs_Rle.thy ===== *)
theory Pgs_Rle
  imports Prelude
begin

text \<open>
  HDMV run-length decoding (crate \<open>subtitle-pgs\<close>, module \<open>rle\<close>): codes are read from a cursor and
  written to a canvas of palette indices, deviations from the format are counted. A slice range or
  a subtraction that would panic is \<open>None\<close>. The specification is the code table of the format as
  data; a stream of lines in these codes decodes to its pixels with a clean report, and the
  decoder returns a picture of the requested size for all other input.
\<close>

section \<open>The report and the canvas\<close>

datatype rle_data_end = Data_Complete | Data_Truncated

record rle_report =
  overshoot_runs :: u32
  short_lines :: u32
  ignored_trailing_bytes :: u32
  data_end :: rle_data_end

definition is_clean :: "rle_report \<Rightarrow> bool" where
  "is_clean r \<longleftrightarrow>
     overshoot_runs r = 0 \<and> short_lines r = 0 \<and> ignored_trailing_bytes r = 0 \<and>
     data_end r = Data_Complete"

record decoded_indices =
  di_indices :: "u8 list"
  di_report :: rle_report

record canvas =
  indices :: "u8 list"
  canvas_width :: nat
  canvas_height :: nat
  column :: nat
  row :: nat
  report :: rle_report

definition is_full :: "canvas \<Rightarrow> bool" where
  "is_full c \<longleftrightarrow> canvas_height c \<le> row c"

text \<open>\<open>xs[start..end].fill(v)\<close> and \<open>usize\<close> subtraction, which panic out of range.\<close>

definition fill_range :: "nat \<Rightarrow> nat \<Rightarrow> 'a \<Rightarrow> 'a list \<Rightarrow> 'a list run" where
  "fill_range i j v xs =
     (if i \<le> j \<and> j \<le> length xs then Some (take i xs @ replicate (j - i) v @ drop j xs) else None)"

definition usize_sub :: "nat \<Rightarrow> nat \<Rightarrow> nat run" where
  "usize_sub a b = (if b \<le> a then Some (a - b) else None)"

definition put_run :: "nat \<Rightarrow> u8 \<Rightarrow> canvas \<Rightarrow> canvas run" where
  "put_run n color c =
     (if is_full c then Some c
      else Option.bind (usize_sub (canvas_width c) (column c)) (\<lambda>room.
        let written = min n room;
            c = (if written < n
                 then c\<lparr>report := (report c)\<lparr>overshoot_runs := overshoot_runs (report c) + 1\<rparr>\<rparr>
                 else c);
            start = row c * canvas_width c + column c
        in Option.bind
             (if color \<noteq> 0 then fill_range start (start + written) color (indices c)
              else Some (indices c))
             (\<lambda>filled. Some (c\<lparr>indices := filled, column := column c + written\<rparr>))))"

definition end_line :: "canvas \<Rightarrow> canvas" where
  "end_line c =
     (if is_full c then c
      else
        let c = (if column c < canvas_width c
                 then c\<lparr>report := (report c)\<lparr>short_lines := short_lines (report c) + 1\<rparr>\<rparr>
                 else c)
        in c\<lparr>column := 0, row := row c + 1\<rparr>)"

section \<open>Codes\<close>

datatype rle_code = EndOfLine | Code_Run nat u8

text \<open>The code at \<open>pos\<close> with the pos after it, or \<open>None\<close> where the data cuts it.\<close>

definition next_code :: "u8 list \<Rightarrow> nat \<Rightarrow> (rle_code \<times> nat) option" where
  "next_code bytes pos =
     Option.bind (slice_get bytes pos) (\<lambda>first.
       if first \<noteq> 0 then Some (Code_Run 1 first, pos + 1)
       else
         Option.bind (slice_get bytes (pos + 1)) (\<lambda>marker.
           let short_len = unat (and marker 0x3F); tag = drop_bit 6 marker in
           if tag = 0 \<and> short_len = 0 then Some (EndOfLine, pos + 2)
           else if tag = 0 then Some (Code_Run short_len 0, pos + 2)
           else if tag = 1 then
             Option.bind (slice_get bytes (pos + 2)) (\<lambda>low.
               Some (Code_Run (or (push_bit 8 short_len) (unat low)) 0, pos + 3))
           else if tag = 2 then
             Option.bind (slice_get bytes (pos + 2)) (\<lambda>color.
               Some (Code_Run short_len color, pos + 3))
           else
             Option.bind (slice_get bytes (pos + 2)) (\<lambda>low.
             Option.bind (slice_get bytes (pos + 3)) (\<lambda>color.
               Some (Code_Run (or (push_bit 8 short_len) (unat low)) color, pos + 4)))))"

fun apply_code :: "rle_code \<Rightarrow> canvas \<Rightarrow> canvas run" where
  "apply_code EndOfLine c = Some (end_line c)"
| "apply_code (Code_Run n color) c = put_run n color c"

lemma next_code_advances:
  "next_code bytes pos = Some (code, q) \<Longrightarrow> pos < q \<and> q \<le> length bytes"
  by (auto simp: next_code_def Let_def bind_eq_Some_conv split: if_splits)

text \<open>The loop: the canvas, the position it stopped at and whether a code was cut.\<close>

function decode_loop :: "u8 list \<Rightarrow> nat \<Rightarrow> canvas \<Rightarrow> (canvas \<times> nat \<times> bool) run" where
  "decode_loop bytes pos c =
     (if pos < length bytes \<and> \<not> is_full c then
        case next_code bytes pos of
          Some (code, next_pos) \<Rightarrow>
            Option.bind (apply_code code c) (\<lambda>c. decode_loop bytes next_pos c)
        | None \<Rightarrow> Some (c, length bytes, True)
      else Some (c, pos, False))"
  by pat_completeness auto

termination
  by (relation "measure (\<lambda>(bytes, pos, c). length bytes - pos)")
    (auto dest: next_code_advances)

declare decode_loop.simps [simp del]

text \<open>\<open>chunks(2)\<close>\<close>

fun chunks_of_two :: "'a list \<Rightarrow> 'a list list" where
  "chunks_of_two [] = []"
| "chunks_of_two [a] = [[a]]"
| "chunks_of_two (a # b # xs) = [a, b] # chunks_of_two xs"

definition count_ignored_tail :: "u8 list \<Rightarrow> u32" where
  "count_ignored_tail tail =
     (if \<exists>pair \<in> set (chunks_of_two tail). pair \<noteq> [0, 0] \<and> pair \<noteq> [0]
      then if length tail < 2 ^ 32 then of_nat (length tail) else - 1
      else 0)"

definition new_canvas :: "nat \<Rightarrow> nat \<Rightarrow> canvas" where
  "new_canvas w h =
     \<lparr>indices = replicate (usize_saturating_mul w h) 0, canvas_width = w, canvas_height = h,
      column = 0, row = 0,
      report = \<lparr>overshoot_runs = 0, short_lines = 0, ignored_trailing_bytes = 0,
                data_end = Data_Complete\<rparr>\<rparr>"

definition decode_hdmv_rle :: "u8 list \<Rightarrow> nat \<Rightarrow> nat \<Rightarrow> decoded_indices run" where
  "decode_hdmv_rle bytes w h =
     Option.bind (decode_loop bytes 0 (new_canvas w h)) (\<lambda>(c, pos, truncated).
       let (c, truncated) =
             (if is_full c then (c, truncated)
              else
                let c = (if 0 < column c then end_line c else c)
                in (c, truncated \<or> \<not> is_full c))
       in if length bytes < pos then None
          else
            let r = (report c)\<lparr>ignored_trailing_bytes := count_ignored_tail (drop pos bytes)\<rparr>
            in Some \<lparr>di_indices = indices c,
                     di_report = (if truncated then r\<lparr>data_end := Data_Truncated\<rparr> else r)\<rparr>)"

section \<open>No panic, and the size of the picture\<close>

definition canvas_ok :: "nat \<Rightarrow> nat \<Rightarrow> canvas \<Rightarrow> bool" where
  "canvas_ok w h c \<longleftrightarrow>
     canvas_width c = w \<and> canvas_height c = h \<and> length (indices c) = w * h \<and> column c \<le> w"

lemma row_inside: "r < h \<Longrightarrow> k \<le> w \<Longrightarrow> r * w + k \<le> w * (h :: nat)"
proof -
  assume "r < h" "k \<le> w"
  then have "r * w + k \<le> Suc r * w" "Suc r * w \<le> h * w" by (simp, simp only: mult_le_mono1 Suc_leI)
  then show ?thesis by (simp add: mult.commute)
qed

lemma put_run_ok:
  assumes "canvas_ok w h c"
  shows "\<exists>d. put_run n color c = Some d \<and> canvas_ok w h d"
proof (cases "is_full c")
  case True
  with assms show ?thesis by (simp add: put_run_def)
next
  case False
  let ?written = "min n (w - column c)"
  have "row c * w + (column c + ?written) \<le> w * h"
    using False assms by (intro row_inside) (auto simp: is_full_def canvas_ok_def)
  with False assms show ?thesis
    by (auto simp: put_run_def usize_sub_def fill_range_def canvas_ok_def Let_def add.assoc)
qed

lemma end_line_ok: "canvas_ok w h c \<Longrightarrow> canvas_ok w h (end_line c)"
  by (simp add: end_line_def canvas_ok_def Let_def)

lemma apply_code_ok: "canvas_ok w h c \<Longrightarrow> \<exists>d. apply_code code c = Some d \<and> canvas_ok w h d"
  using put_run_ok end_line_ok by (cases code) auto

lemma decode_loop_ok:
  "canvas_ok w h c \<Longrightarrow> pos \<le> length bytes \<Longrightarrow>
     \<exists>d q t. decode_loop bytes pos c = Some (d, q, t) \<and> canvas_ok w h d \<and> q \<le> length bytes"
proof (induction bytes pos c rule: decode_loop.induct)
  case (1 bytes pos c)
  show ?case
  proof (cases "pos < length bytes \<and> \<not> is_full c")
    case False
    with "1.prems" show ?thesis by (auto simp: decode_loop.simps)
  next
    case going: True
    show ?thesis
    proof (cases "next_code bytes pos")
      case None
      with going "1.prems" show ?thesis by (auto simp: decode_loop.simps)
    next
      case (Some cq)
      obtain code q where cq: "cq = (code, q)" by (cases cq)
      from apply_code_ok "1.prems"(1) obtain d where d: "apply_code code c = Some d" "canvas_ok w h d"
        by blast
      from next_code_advances [OF Some [unfolded cq]] have "q \<le> length bytes" by blast
      from "1.IH" [OF going Some [unfolded cq] refl d this] Some cq d(1) going show ?thesis
        by (simp add: decode_loop.simps [of bytes pos c])
    qed
  qed
qed

theorem decode_total:
  assumes "w * h \<le> usize_max"
  shows "\<exists>d. decode_hdmv_rle bytes w h = Some d \<and> length (di_indices d) = w * h"
proof -
  have "canvas_ok w h (new_canvas w h)"
    using assms by (simp add: canvas_ok_def new_canvas_def usize_saturating_mul_def)
  from decode_loop_ok [OF this, of 0 bytes] obtain c q t where
    "decode_loop bytes 0 (new_canvas w h) = Some (c, q, t)" "canvas_ok w h c" "q \<le> length bytes"
    by auto
  then show ?thesis
    using end_line_ok [of w h c] by (auto simp: decode_hdmv_rle_def Let_def canvas_ok_def)
qed

section \<open>The code table of the format\<close>

datatype format_code =
    Pixel u8
  | Zeros nat
  | Long_Zeros nat
  | Colored nat u8
  | Long_Colored nat u8

fun code_ok :: "format_code \<Rightarrow> bool" where
  "code_ok (Pixel c) \<longleftrightarrow> c \<noteq> 0"
| "code_ok (Zeros n) \<longleftrightarrow> 0 < n \<and> n < 2 ^ 6"
| "code_ok (Long_Zeros n) \<longleftrightarrow> n < 2 ^ 14"
| "code_ok (Colored n c) \<longleftrightarrow> n < 2 ^ 6"
| "code_ok (Long_Colored n c) \<longleftrightarrow> n < 2 ^ 14"

fun code_bytes :: "format_code \<Rightarrow> u8 list" where
  "code_bytes (Pixel c) = [c]"
| "code_bytes (Zeros n) = [0, of_nat n]"
| "code_bytes (Long_Zeros n) = [0, of_nat (64 + n div 256), of_nat (n mod 256)]"
| "code_bytes (Colored n c) = [0, of_nat (128 + n), c]"
| "code_bytes (Long_Colored n c) = [0, of_nat (192 + n div 256), of_nat (n mod 256), c]"

fun code_run :: "format_code \<Rightarrow> nat \<times> u8" where
  "code_run (Pixel c) = (1, c)"
| "code_run (Zeros n) = (n, 0)"
| "code_run (Long_Zeros n) = (n, 0)"
| "code_run (Colored n c) = (n, c)"
| "code_run (Long_Colored n c) = (n, c)"

definition code_pixels :: "format_code \<Rightarrow> u8 list" where
  "code_pixels k = replicate (fst (code_run k)) (snd (code_run k))"

definition line_bytes :: "format_code list \<Rightarrow> u8 list" where
  "line_bytes ks = concat (map code_bytes ks) @ [0, 0]"

definition line_pixels :: "format_code list \<Rightarrow> u8 list" where
  "line_pixels ks = concat (map code_pixels ks)"

definition line_ok :: "nat \<Rightarrow> format_code list \<Rightarrow> bool" where
  "line_ok w ks \<longleftrightarrow> (\<forall>k \<in> set ks. code_ok k) \<and> length (line_pixels ks) = w"

section \<open>A stream in the format decodes to its pixels\<close>

lemma slice_get_append [simp]: "slice_get (xs @ ys) (length xs + i) = slice_get ys i"
  by (simp add: slice_get_def)

lemma slice_get_append_0 [simp]: "slice_get (xs @ y # ys) (length xs) = Some y"
  by (simp add: slice_get_def)

lemma slice_get_Cons [simp]:
  "slice_get (x # xs) 0 = Some x" "slice_get (x # xs) (Suc i) = slice_get xs i"
  by (simp_all add: slice_get_def)

lemma marker_fields:
  assumes "k < 256"
  shows "unat (and (of_nat k :: u8) 0x3F) = k mod 64" and "drop_bit 6 (of_nat k :: u8) = of_nat (k div 64)"
proof -
  have k: "unat (of_nat k :: u8) = k" using assms by (simp add: unat_of_nat)
  have "(0x3F :: u8) = mask 6" by (simp add: mask_eq_exp_minus_1)
  then have "and (of_nat k :: u8) 0x3F = take_bit 6 (of_nat k)" by (simp add: take_bit_eq_mask)
  then show "unat (and (of_nat k :: u8) 0x3F) = k mod 64"
    using k by (simp add: take_bit_eq_mod unat_mod)
  have "unat (drop_bit 6 (of_nat k :: u8)) = k div 64"
    using k by (simp add: drop_bit_eq_div unat_div)
  then show "drop_bit 6 (of_nat k :: u8) = of_nat (k div 64)"
    by (metis of_nat_unat ucast_id)
qed

lemma or_shift:
  assumes "b < 2 ^ k"
  shows "or (push_bit k a) b = a * 2 ^ k + (b :: nat)"
proof -
  have "\<not> bit (push_bit k a) n \<or> \<not> bit b n" for n
  proof (cases "n < k")
    case True
    then show ?thesis by (simp add: bit_push_bit_iff)
  next
    case False
    have "b < 2 ^ k" by (rule assms)
    also have "(2 :: nat) ^ k \<le> 2 ^ n" using False by (intro power_increasing) simp_all
    finally show ?thesis by (simp add: bit_iff_odd)
  qed
  then have "push_bit k a + b = or (push_bit k a) b" by (intro disjunctive_add) blast
  then show ?thesis by (simp add: push_bit_eq_mult)
qed

lemma or_shift_8: "b < 256 \<Longrightarrow> or (push_bit 8 a) b = a * 256 + (b :: nat)"
  using or_shift [of b 8 a] by simp

lemma slice_get_tail:
  "slice_get (pre @ a # xs) (length pre + 1) = slice_get xs 0"
  "slice_get (pre @ a # b # xs) (length pre + 2) = slice_get xs 0"
  "slice_get (pre @ a # b # xs) (length pre + 3) = slice_get xs 1"
proof -
  show "slice_get (pre @ a # xs) (length pre + 1) = slice_get xs 0"
    using slice_get_append [of pre "a # xs" "Suc 0"] by simp
  show "slice_get (pre @ a # b # xs) (length pre + 2) = slice_get xs 0"
    using slice_get_append [of pre "a # b # xs" "Suc (Suc 0)"] by simp
  have "length pre + 3 = length pre + Suc (Suc (Suc 0))" by simp
  then show "slice_get (pre @ a # b # xs) (length pre + 3) = slice_get xs 1"
    using slice_get_append [of pre "a # b # xs" "Suc (Suc (Suc 0))"] by (simp only: slice_get_Cons One_nat_def)
qed

lemma tag_eq:
  "t < 4 \<Longrightarrow> ((of_nat t :: u8) = 0) = (t = 0)" "t < 4 \<Longrightarrow> ((of_nat t :: u8) = 1) = (t = 1)"
  "t < 4 \<Longrightarrow> ((of_nat t :: u8) = 2) = (t = 2)"
proof -
  assume "t < 4"
  then consider "t = 0" | "t = 1" | "t = 2" | "t = 3" by linarith
  then show "((of_nat t :: u8) = 0) = (t = 0)" "((of_nat t :: u8) = 1) = (t = 1)"
    "((of_nat t :: u8) = 2) = (t = 2)"
    by (cases; simp)+
qed

lemma next_code_marker:
  assumes "s < 64" and "t < 4"
  shows "next_code (pre @ 0 # of_nat (64 * t + s) # tail) (length pre) =
     (if t = 0 \<and> s = 0 then Some (EndOfLine, length pre + 2)
      else if t = 0 then Some (Code_Run s 0, length pre + 2)
      else if t = 1 then Option.bind (slice_get tail 0) (\<lambda>low.
        Some (Code_Run (or (push_bit 8 s) (unat low)) 0, length pre + 3))
      else if t = 2 then Option.bind (slice_get tail 0) (\<lambda>c. Some (Code_Run s c, length pre + 3))
      else Option.bind (slice_get tail 0) (\<lambda>low. Option.bind (slice_get tail 1) (\<lambda>c.
        Some (Code_Run (or (push_bit 8 s) (unat low)) c, length pre + 4))))"
proof -
  have k: "64 * t + s < 256" using assms by linarith
  have "unat (and (of_nat (64 * t + s) :: u8) 0x3F) = s"
    "drop_bit 6 (of_nat (64 * t + s) :: u8) = of_nat t"
    using marker_fields [OF k] assms(1) by simp_all
  then show ?thesis
    unfolding next_code_def slice_get_append_0 slice_get_tail Let_def
    by (simp only: Option.bind.simps slice_get_Cons tag_eq [OF assms(2)] simp_thms if_False if_True)
qed

lemma next_code_of_bytes:
  assumes "code_ok k"
  shows "next_code (pre @ code_bytes k @ rest) (length pre) =
     Some (Code_Run (fst (code_run k)) (snd (code_run k)), length pre + length (code_bytes k))"
proof -
  have low: "unat (of_nat (n mod 256) :: u8) = n mod 256" for n by (simp add: unat_of_nat)
  have whole: "or (push_bit 8 (n div 256)) (n mod 256) = n" for n :: nat
    by (simp add: or_shift_8)
  show ?thesis
  proof (cases k)
    case (Pixel c)
    with assms show ?thesis by (simp add: next_code_def)
  next
    case (Zeros n)
    with assms next_code_marker [of n 0 pre rest] show ?thesis by simp
  next
    case (Long_Zeros n)
    with assms have "n div 256 < 64" by simp
    from next_code_marker [OF this, of 1 pre "of_nat (n mod 256) # rest"] show ?thesis
      by (simp only: Long_Zeros) (simp add: low whole)
  next
    case (Colored n c)
    with assms next_code_marker [of n 2 pre "c # rest"] show ?thesis by simp
  next
    case (Long_Colored n c)
    with assms have "n div 256 < 64" by simp
    from next_code_marker [OF this, of 3 pre "of_nat (n mod 256) # c # rest"] show ?thesis
      by (simp only: Long_Colored) (simp add: low whole)
  qed
qed

lemma next_code_eol: "next_code (pre @ [0, 0] @ rest) (length pre) = Some (EndOfLine, length pre + 2)"
  using next_code_marker [of 0 0 pre rest] by simp

text \<open>A canvas on which row \<open>r\<close> has been written up to column \<open>k\<close>.\<close>

definition canvas_at :: "nat \<Rightarrow> nat \<Rightarrow> u8 list \<Rightarrow> nat \<Rightarrow> nat \<Rightarrow> canvas" where
  "canvas_at w h p r k =
     (new_canvas w h)\<lparr>indices := p @ replicate (w * h - length p) 0, column := k, row := r\<rparr>"

lemma canvas_at_fields [simp]:
  "canvas_width (canvas_at w h p r k) = w" "canvas_height (canvas_at w h p r k) = h"
  "row (canvas_at w h p r k) = r" "column (canvas_at w h p r k) = k"
  "indices (canvas_at w h p r k) = p @ replicate (w * h - length p) 0"
  "report (canvas_at w h p r k) = report (new_canvas w h)"
  by (simp_all add: canvas_at_def new_canvas_def)

lemma put_run_canvas_at:
  assumes "r < h" and "k + n \<le> w" and "length p = r * w + k"
  shows "put_run n color (canvas_at w h p r k) = Some (canvas_at w h (p @ replicate n color) r (k + n))"
proof -
  have room: "length p + n \<le> w * h"
    using row_inside [OF assms(1,2)] by (simp add: assms(3) add.assoc)
  have n: "min n (w - k) = n" using assms(2) by simp
  have split: "replicate (w * h - length p) 0 = replicate n 0 @ replicate (w * h - (length p + n)) (0 :: u8)"
    using room by (simp flip: replicate_add)
  have "put_run n color (canvas_at w h p r k) =
      Some ((canvas_at w h p r k)\<lparr>
        indices := p @ replicate n color @ replicate (w * h - (length p + n)) 0, column := k + n\<rparr>)"
    using assms room n split
    by (auto simp: put_run_def is_full_def usize_sub_def fill_range_def Let_def)
  then show ?thesis by (simp add: canvas_at_def)
qed

lemma decode_loop_step:
  assumes "r < h" and "next_code bytes pos = Some (code, q)"
    and "apply_code code (canvas_at w h p r k) = Some d"
  shows "decode_loop bytes pos (canvas_at w h p r k) = decode_loop bytes q d"
  using assms next_code_advances [OF assms(2)]
  by (simp add: decode_loop.simps [of bytes pos] is_full_def)

lemma decode_codes:
  assumes "\<forall>x \<in> set ks. code_ok x" and "r < h" and "k + length (line_pixels ks) \<le> w"
    and "length p = r * w + k"
  shows "decode_loop (pre @ concat (map code_bytes ks) @ rest) (length pre) (canvas_at w h p r k) =
     decode_loop (pre @ concat (map code_bytes ks) @ rest)
       (length (pre @ concat (map code_bytes ks)))
       (canvas_at w h (p @ line_pixels ks) r (k + length (line_pixels ks)))"
  using assms
proof (induction ks arbitrary: pre p k)
  case Nil
  then show ?case by (simp add: line_pixels_def)
next
  case (Cons x ks)
  obtain n c where run: "code_run x = (n, c)" by (cases "code_run x")
  let ?bytes = "pre @ concat (map code_bytes (x # ks)) @ rest"
  have pixels: "line_pixels (x # ks) = replicate n c @ line_pixels ks"
    by (simp add: line_pixels_def code_pixels_def run)
  with Cons.prems(3) have fits: "k + n \<le> w" "k + n + length (line_pixels ks) \<le> w" by simp_all
  have bytes: "?bytes = (pre @ code_bytes x) @ concat (map code_bytes ks) @ rest" by simp
  have next_x: "next_code ?bytes (length pre) = Some (Code_Run n c, length (pre @ code_bytes x))"
    using next_code_of_bytes [of x pre "concat (map code_bytes ks) @ rest"] Cons.prems(1) by (simp add: run)
  have "decode_loop ?bytes (length pre) (canvas_at w h p r k) =
      decode_loop ?bytes (length (pre @ code_bytes x)) (canvas_at w h (p @ replicate n c) r (k + n))"
    using put_run_canvas_at [OF Cons.prems(2) fits(1) Cons.prems(4)]
    by (intro decode_loop_step [OF Cons.prems(2) next_x]) simp
  also have "\<dots> = decode_loop ?bytes (length ((pre @ code_bytes x) @ concat (map code_bytes ks)))
      (canvas_at w h ((p @ replicate n c) @ line_pixels ks) r (k + n + length (line_pixels ks)))"
    unfolding bytes using Cons.prems fits(2) by (intro Cons.IH) simp_all
  finally show ?case by (simp add: pixels add.assoc)
qed

lemma decode_line:
  assumes "line_ok w ks" and "r < h" and "length p = r * w"
  shows "decode_loop (pre @ line_bytes ks @ rest) (length pre) (canvas_at w h p r 0) =
     decode_loop (pre @ line_bytes ks @ rest) (length (pre @ line_bytes ks))
       (canvas_at w h (p @ line_pixels ks) (r + 1) 0)"
proof -
  let ?bytes = "pre @ line_bytes ks @ rest" and ?head = "pre @ concat (map code_bytes ks)"
  have ok: "\<forall>x \<in> set ks. code_ok x" "length (line_pixels ks) = w"
    using assms(1) by (simp_all add: line_ok_def)
  have bytes: "?bytes = pre @ concat (map code_bytes ks) @ [0, 0] @ rest"
    by (simp add: line_bytes_def)
  have "decode_loop ?bytes (length pre) (canvas_at w h p r 0) =
      decode_loop ?bytes (length ?head) (canvas_at w h (p @ line_pixels ks) r w)"
    unfolding bytes using decode_codes [of ks r h 0 w p pre "[0, 0] @ rest"] ok assms(2,3) by simp
  also have "\<dots> = decode_loop ?bytes (length ?head + 2) (canvas_at w h (p @ line_pixels ks) (r + 1) 0)"
  proof (rule decode_loop_step [OF assms(2)])
    show "next_code ?bytes (length ?head) = Some (EndOfLine, length ?head + 2)"
      using next_code_eol [of ?head rest] by (simp add: bytes)
    show "apply_code EndOfLine (canvas_at w h (p @ line_pixels ks) r w) =
        Some (canvas_at w h (p @ line_pixels ks) (r + 1) 0)"
      using assms(2) by (simp add: end_line_def is_full_def canvas_at_def new_canvas_def)
  qed
  finally show ?thesis by (simp add: line_bytes_def)
qed

lemma decode_lines:
  assumes "\<forall>ks \<in> set lines. line_ok w ks" and "r + length lines = h" and "length p = r * w"
  shows "decode_loop (pre @ concat (map line_bytes lines) @ rest) (length pre) (canvas_at w h p r 0) =
     Some (canvas_at w h (p @ concat (map line_pixels lines)) h 0,
           length (pre @ concat (map line_bytes lines)), False)"
  using assms
proof (induction lines arbitrary: pre p r)
  case Nil
  then show ?case by (simp add: decode_loop.simps is_full_def)
next
  case (Cons ks lines)
  have ks: "line_ok w ks" "r < h" using Cons.prems by auto
  then have "length (line_pixels ks) = w" by (simp add: line_ok_def)
  with Cons.prems(3) have len: "length (p @ line_pixels ks) = (r + 1) * w" by simp
  have "\<forall>ks \<in> set lines. line_ok w ks" "r + 1 + length lines = h" using Cons.prems by auto
  from Cons.IH [OF this len, of "pre @ line_bytes ks"]
    decode_line [OF ks Cons.prems(3), of pre "concat (map line_bytes lines) @ rest"]
  show ?case by simp
qed

lemma count_ignored_zeros: "count_ignored_tail (replicate n 0) = 0"
proof -
  have "pair = [0, 0] \<or> pair = [0]" if "pair \<in> set (chunks_of_two xs)" "set xs \<subseteq> {0}"
    for pair and xs :: "u8 list"
    using that by (induction xs rule: chunks_of_two.induct) auto
  from this [of _ "replicate n 0"] show ?thesis
    by (fastforce simp: count_ignored_tail_def)
qed

theorem decode_format:
  assumes "\<forall>ks \<in> set lines. line_ok w ks" and "w * length lines \<le> usize_max"
  shows "\<exists>d. decode_hdmv_rle (concat (map line_bytes lines) @ replicate padding 0) w (length lines) = Some d \<and>
     di_indices d = concat (map line_pixels lines) \<and> is_clean (di_report d)"
proof -
  let ?h = "length lines" and ?p = "concat (map line_pixels lines)"
  have start: "new_canvas w ?h = canvas_at w ?h [] 0 0"
    using assms(2) by (simp add: canvas_at_def new_canvas_def usize_saturating_mul_def)
  have "length ?p = w * ?h"
    using assms(1) by (induction lines) (auto simp: line_ok_def)
  moreover have "decode_loop (concat (map line_bytes lines) @ replicate padding 0) 0 (new_canvas w ?h) =
      Some (canvas_at w ?h ?p ?h 0, length (concat (map line_bytes lines)), False)"
    using decode_lines [OF assms(1), of 0 ?h "[]" "[]" "replicate padding 0"] by (simp add: start)
  ultimately show ?thesis
    by (simp add: decode_hdmv_rle_def is_full_def Let_def is_clean_def count_ignored_zeros new_canvas_def)
qed

section \<open>The encoder of the stream builder\<close>

definition MAX_RUN :: nat where "MAX_RUN = 0x3FFF"

text \<open>\<open>((run >> 8) & 0x3F) as u8\<close> and \<open>(run & 0xFF) as u8\<close>\<close>

definition push_run :: "u8 \<Rightarrow> nat \<Rightarrow> u8 list" where
  "push_run color n =
     (let high = of_nat (and (drop_bit 8 n) 0x3F); low = of_nat (and n 0xFF) in
      if color = 0 \<and> 1 \<le> n \<and> n \<le> 63 then [0, low]
      else if color = 0 then [0, or 0x40 high, low]
      else if n = 1 then [color]
      else if 2 \<le> n \<and> n \<le> 63 then [0, or 0x80 low, color]
      else [0, or 0xC0 high, low, color])"

function grow_run :: "u8 list \<Rightarrow> nat \<Rightarrow> nat \<Rightarrow> nat" where
  "grow_run line col n =
     (if col + n < length line \<and> line ! (col + n) = line ! col \<and> n < MAX_RUN
      then grow_run line col (n + 1) else n)"
  by pat_completeness auto

termination
  by (relation "measure (\<lambda>(line, col, n). length line - (col + n))") auto

declare grow_run.simps [simp del]

lemma grow_run_ge: "n \<le> grow_run line col n"
proof (induction line col n rule: grow_run.induct)
  case (1 line col n)
  then show ?case by (subst grow_run.simps) (auto simp: Suc_le_eq)
qed

function encode_columns :: "u8 list \<Rightarrow> nat \<Rightarrow> u8 list" where
  "encode_columns line col =
     (if col < length line
      then let n = grow_run line col 1
           in push_run (line ! col) n @ encode_columns line (col + n)
      else [])"
  by pat_completeness auto

termination
proof (relation "measure (\<lambda>(line, col). length line - col)")
  fix line col n
  assume "col < length line" "n = grow_run line col 1"
  with grow_run_ge [of 1 line col]
  show "((line, col + n), (line, col)) \<in> measure (\<lambda>(line, col). length line - col)" by auto
qed simp

declare encode_columns.simps [simp del]

definition encode_row :: "u8 list \<Rightarrow> nat \<Rightarrow> nat \<Rightarrow> u8 list" where
  "encode_row pixels w r =
     encode_columns (map (\<lambda>i. case slice_get pixels i of Some c \<Rightarrow> c | None \<Rightarrow> 0) [r * w..<r * w + w]) 0
     @ [0, 0]"

definition encode_rle :: "u8 list \<Rightarrow> u16 \<Rightarrow> u16 \<Rightarrow> u8 list" where
  "encode_rle pixels w h = concat (map (encode_row pixels (unat w)) [0..<unat h])"

lemma low_bits: "and n 0xFF = n mod (256 :: nat)" "and n 0x3F = n mod (64 :: nat)"
proof -
  have "(0xFF :: nat) = mask 8" "(0x3F :: nat) = mask 6" by (simp_all add: mask_eq_exp_minus_1)
  then have "and n 0xFF = take_bit 8 n" "and n 0x3F = take_bit 6 n"
    by (simp_all only: take_bit_eq_mask)
  then show "and n 0xFF = n mod (256 :: nat)" "and n 0x3F = n mod (64 :: nat)"
    by (simp_all add: take_bit_eq_mod)
qed

lemma or_tag: "s < 64 \<Longrightarrow> or (of_nat (64 * t)) (of_nat s) = (of_nat (64 * t + s) :: u8)"
proof -
  assume "s < 64"
  then have "or (64 * t) s = 64 * t + s"
    using or_shift [of s 6 t] by (simp add: push_bit_eq_mult mult.commute)
  then show ?thesis by (simp only: of_nat_or_eq [symmetric])
qed

lemma push_run_code:
  assumes "1 \<le> n" and "n \<le> MAX_RUN"
  shows "\<exists>k. code_ok k \<and> push_run c n = code_bytes k \<and> code_run k = (n, c)"
proof -
  have n: "n < 16384" using assms(2) by (simp add: MAX_RUN_def)
  then have div: "n div 256 < 64" by auto
  have high: "and (drop_bit 8 n) 0x3F = n div 256"
    using div by (simp add: low_bits drop_bit_eq_div)
  have tags: "or 0x40 (of_nat (n div 256)) = (of_nat (64 + n div 256) :: u8)"
    "or 0xC0 (of_nat (n div 256)) = (of_nat (192 + n div 256) :: u8)"
    "n < 64 \<Longrightarrow> or 0x80 (of_nat n) = (of_nat (128 + n) :: u8)"
    using or_tag [OF div, of 1] or_tag [OF div, of 3] or_tag [of n 2] by simp_all
  consider "c = 0" "n < 64" | "c = 0" "64 \<le> n" | "c \<noteq> 0" "n = 1" | "c \<noteq> 0" "2 \<le> n" "n < 64"
    | "c \<noteq> 0" "64 \<le> n"
    using assms(1) by linarith
  then show ?thesis
  proof cases
    case 1
    with assms(1) show ?thesis
      by (intro exI [of _ "Zeros n"]) (auto simp: push_run_def Let_def low_bits)
  next
    case 2
    with n tags show ?thesis
      by (intro exI [of _ "Long_Zeros n"]) (simp add: push_run_def Let_def high low_bits(1))
  next
    case 3
    then show ?thesis by (intro exI [of _ "Pixel c"]) (simp add: push_run_def)
  next
    case 4
    with tags show ?thesis
      by (intro exI [of _ "Colored n c"]) (auto simp: push_run_def Let_def low_bits)
  next
    case 5
    with n tags show ?thesis
      by (intro exI [of _ "Long_Colored n c"]) (simp add: push_run_def Let_def high low_bits(1))
  qed
qed

definition same_run :: "'a list \<Rightarrow> nat \<Rightarrow> nat \<Rightarrow> bool" where
  "same_run xs col n \<longleftrightarrow> col + n \<le> length xs \<and> take n (drop col xs) = replicate n (xs ! col)"

lemma same_run_1: "col < length xs \<Longrightarrow> same_run xs col 1"
  by (simp add: same_run_def take_Suc hd_drop_conv_nth)

lemma same_run_Suc:
  "same_run xs col n \<Longrightarrow> col + n < length xs \<Longrightarrow> xs ! (col + n) = xs ! col \<Longrightarrow> same_run xs col (n + 1)"
  by (simp add: same_run_def take_Suc_conv_app_nth replicate_append_same)

lemma grow_run_run:
  "same_run line col n \<Longrightarrow> n \<le> MAX_RUN \<Longrightarrow>
     same_run line col (grow_run line col n) \<and> grow_run line col n \<le> MAX_RUN"
proof (induction line col n rule: grow_run.induct)
  case (1 line col n)
  show ?case
  proof (cases "col + n < length line \<and> line ! (col + n) = line ! col \<and> n < MAX_RUN")
    case True
    with "1.prems" have "same_run line col (n + 1)" by (intro same_run_Suc) simp_all
    with "1.IH" [OF True] True show ?thesis by (simp add: grow_run.simps [of line col n])
  next
    case False
    then have "grow_run line col n = n" by (subst grow_run.simps) auto
    with "1.prems" show ?thesis by simp
  qed
qed

lemma encode_columns_codes:
  "\<exists>ks. (\<forall>k \<in> set ks. code_ok k) \<and> encode_columns line col = concat (map code_bytes ks) \<and>
     line_pixels ks = drop col line"
proof (induction line col rule: encode_columns.induct)
  case (1 line col)
  show ?case
  proof (cases "col < length line")
    case False
    then show ?thesis
      by (intro exI [of _ "[]"]) (simp add: encode_columns.simps [of line col] line_pixels_def)
  next
    case True
    let ?n = "grow_run line col 1"
    have run: "same_run line col ?n" and n: "1 \<le> ?n" "?n \<le> MAX_RUN"
      using grow_run_ge [of 1 line col] grow_run_run [OF same_run_1 [OF True]]
      by (simp_all add: MAX_RUN_def)
    from push_run_code [OF n] obtain k where k: "code_ok k"
      "push_run (line ! col) ?n = code_bytes k" "code_run k = (?n, line ! col)" by blast
    from "1.IH" [OF True refl] obtain ks where ks: "\<forall>k \<in> set ks. code_ok k"
      "encode_columns line (col + ?n) = concat (map code_bytes ks)"
      "line_pixels ks = drop (col + ?n) line" by blast
    from run have "take ?n (drop col line) = replicate ?n (line ! col)" by (simp add: same_run_def)
    then have "drop col line = replicate ?n (line ! col) @ drop (col + ?n) line"
      by (metis add.commute append_take_drop_id drop_drop)
    then have "line_pixels (k # ks) = drop col line"
      using ks(3) k(3) by (simp add: line_pixels_def code_pixels_def)
    with True k ks show ?thesis
      by (intro exI [of _ "k # ks"]) (simp add: encode_columns.simps [of line col] Let_def)
  qed
qed

lemma encode_row_line:
  assumes "r * w + w \<le> length pixels"
  shows "\<exists>ks. line_ok w ks \<and> encode_row pixels w r = line_bytes ks \<and>
     line_pixels ks = take w (drop (r * w) pixels)"
proof -
  let ?line = "map (\<lambda>i. case slice_get pixels i of Some c \<Rightarrow> c | None \<Rightarrow> 0) [r * w..<r * w + w]"
  have line: "?line = take w (drop (r * w) pixels)"
    using assms by (intro nth_equalityI) (auto simp: slice_get_def)
  from encode_columns_codes [of ?line 0] obtain ks where ks: "\<forall>k \<in> set ks. code_ok k"
    "encode_columns ?line 0 = concat (map code_bytes ks)" "line_pixels ks = ?line" by auto
  then have "line_ok w ks" by (simp add: line_ok_def)
  moreover have "encode_row pixels w r = line_bytes ks"
    by (simp only: encode_row_def line_bytes_def ks(2))
  ultimately show ?thesis using ks(3) line by auto
qed

lemma rows_concat: "length xs = w * h \<Longrightarrow> concat (map (\<lambda>r. take w (drop (r * w) xs)) [0..<h]) = xs"
proof (induction h arbitrary: xs)
  case (Suc h)
  then have "length (drop w xs) = w * h" by simp
  from Suc.IH [OF this] have "concat (map (\<lambda>r. take w (drop (Suc r * w) xs)) [0..<h]) = drop w xs"
    by (simp add: add.commute)
  then show ?case
    by (simp only: map_upt_Suc concat.simps mult_0 drop_0 append_take_drop_id)
qed simp

lemma encode_rle_lines:
  assumes "length pixels = unat w * unat h"
  shows "\<exists>lines. length lines = unat h \<and> (\<forall>ks \<in> set lines. line_ok (unat w) ks) \<and>
     encode_rle pixels w h = concat (map line_bytes lines) \<and> concat (map line_pixels lines) = pixels"
proof -
  have "\<exists>ks. line_ok (unat w) ks \<and> encode_row pixels (unat w) r = line_bytes ks \<and>
     line_pixels ks = take (unat w) (drop (r * unat w) pixels)" if "r < unat h" for r
  proof (rule encode_row_line)
    have "r * unat w + unat w \<le> unat w * unat h" by (rule row_inside [OF that order_refl])
    then show "r * unat w + unat w \<le> length pixels" by (simp add: assms)
  qed
  then obtain f where f: "\<And>r. r < unat h \<Longrightarrow> line_ok (unat w) (f r) \<and>
      encode_row pixels (unat w) r = line_bytes (f r) \<and>
      line_pixels (f r) = take (unat w) (drop (r * unat w) pixels)"
    by metis
  let ?lines = "map f [0..<unat h]"
  have "map line_pixels ?lines = map (\<lambda>r. take (unat w) (drop (r * unat w) pixels)) [0..<unat h]"
    using f by simp
  then have "concat (map line_pixels ?lines) = pixels" by (simp only: rows_concat [OF assms])
  moreover have "encode_rle pixels w h = concat (map line_bytes ?lines)"
    unfolding encode_rle_def by (rule arg_cong [where f = concat]) (use f in simp)
  ultimately show ?thesis using f by (intro exI [of _ ?lines]) auto
qed

theorem encode_decode:
  assumes "length pixels = unat w * unat h"
  shows "\<exists>d. decode_hdmv_rle (encode_rle pixels w h) (unat w) (unat h) = Some d \<and>
     di_indices d = pixels \<and> is_clean (di_report d)"
proof -
  from encode_rle_lines [OF assms] obtain lines where l: "length lines = unat h"
    "\<forall>ks \<in> set lines. line_ok (unat w) ks" "encode_rle pixels w h = concat (map line_bytes lines)"
    "concat (map line_pixels lines) = pixels" by blast
  have "unat w < 2 ^ 16" "unat h < 2 ^ 16"
    using unsigned_less [of w, where ?'a = nat] unsigned_less [of h, where ?'a = nat] by simp_all
  then have "unat w * unat h \<le> 2 ^ 16 * 2 ^ 16" by (intro mult_le_mono) simp_all
  then have "unat w * length lines \<le> usize_max" by (simp add: l(1) usize_max_def)
  from decode_format [OF l(2) this, of 0] show ?thesis by (simp add: l(1,3,4))
qed
end
