(* ===== verification/Picture.thy ===== *)
theory Picture
  imports Bit_Stream
begin

text \<open>
  Bitmap cues of \<open>subtitle-core/src/picture.rs\<close>: rectangles in picture coordinates with their
  intersection, the compressed picture, the palette and the cue with its construction check. A
  \<open>NonZeroU32\<close> is a \<open>u32\<close> that \<open>rect_ok\<close> and \<open>picture_ok\<close> keep positive; an \<open>Arc\<close> is the value it shares.
  The specification of a rectangle is the set of pixels it covers.
\<close>

section \<open>Rectangles\<close>

record picture_position =
  pos_x :: u32
  pos_y :: u32

record picture_rect =
  rect_x :: u32
  rect_y :: u32
  rect_width :: u32
  rect_height :: u32

definition checked_sub :: "nat \<Rightarrow> nat \<Rightarrow> nat option" where
  "checked_sub a b = (if b \<le> a then Some (a - b) else None)"

definition nonzero_u32 :: "nat \<Rightarrow> u32 option" where
  "nonzero_u32 n = (if n < 2 ^ 32 \<and> n \<noteq> 0 then Some (of_nat n) else None)"

definition intersection :: "picture_rect \<Rightarrow> picture_rect \<Rightarrow> picture_rect option" where
  "intersection a b =
     (let left = max (rect_x a) (rect_x b);
          top = max (rect_y a) (rect_y b);
          right = min (unat (rect_x a) + unat (rect_width a)) (unat (rect_x b) + unat (rect_width b));
          bottom = min (unat (rect_y a) + unat (rect_height a)) (unat (rect_y b) + unat (rect_height b))
      in case Option.bind (checked_sub right (unat left)) nonzero_u32 of
           None \<Rightarrow> None
         | Some w \<Rightarrow>
             (case Option.bind (checked_sub bottom (unat top)) nonzero_u32 of
                None \<Rightarrow> None
              | Some h \<Rightarrow> Some \<lparr>rect_x = left, rect_y = top, rect_width = w, rect_height = h\<rparr>))"

definition contains_rect :: "picture_rect \<Rightarrow> picture_rect \<Rightarrow> bool" where
  "contains_rect outer inner \<longleftrightarrow> intersection outer inner = Some inner"

definition rect_ok :: "picture_rect \<Rightarrow> bool" where
  "rect_ok r \<longleftrightarrow> rect_width r \<noteq> 0 \<and> rect_height r \<noteq> 0"

definition covers :: "picture_rect \<Rightarrow> nat \<Rightarrow> nat \<Rightarrow> bool" where
  "covers r x y \<longleftrightarrow>
     unat (rect_x r) \<le> x \<and> x < unat (rect_x r) + unat (rect_width r) \<and>
     unat (rect_y r) \<le> y \<and> y < unat (rect_y r) + unat (rect_height r)"

lemma unat_max: "unat (max a b) = max (unat a) (unat (b :: 'a::len word))"
  by (simp add: max_def word_le_nat_alt)

text \<open>One axis: an interval that ends within another that fits has a length that fits.\<close>

definition axis :: "u32 \<Rightarrow> u32 \<Rightarrow> u32 \<Rightarrow> u32 \<Rightarrow> u32 option" where
  "axis p l q k =
     Option.bind (checked_sub (min (unat p + unat l) (unat q + unat k)) (unat (max p q))) nonzero_u32"

lemma axis_Some:
  assumes "axis p l q k = Some n"
  shows "n \<noteq> 0" and "unat (max p q) + unat n = min (unat p + unat l) (unat q + unat k)"
proof -
  obtain d where d: "checked_sub (min (unat p + unat l) (unat q + unat k)) (unat (max p q)) = Some d"
    and n: "nonzero_u32 d = Some n"
    using assms by (auto simp: axis_def bind_eq_Some_conv)
  from n have "unat n = d" "d \<noteq> 0" by (auto simp: nonzero_u32_def unat_of_nat split: if_splits)
  with d show "n \<noteq> 0" "unat (max p q) + unat n = min (unat p + unat l) (unat q + unat k)"
    by (auto simp: checked_sub_def split: if_splits)
qed

lemma axis_None:
  assumes "axis p l q k = None"
  shows "min (unat p + unat l) (unat q + unat k) \<le> unat (max p q)"
proof -
  let ?r = "min (unat p + unat l) (unat q + unat k)" and ?m = "unat (max p q)"
  have "?r - ?m \<le> unat l" by (simp add: unat_max)
  moreover have "unat l < 2 ^ 32" using unsigned_less [of l, where ?'a = nat] by simp
  ultimately have "?r - ?m < 2 ^ 32" by (rule le_less_trans)
  with assms show ?thesis
    by (auto simp: axis_def checked_sub_def nonzero_u32_def split: if_splits)
qed

lemma axis_full: "l \<noteq> 0 \<Longrightarrow> axis p l p l = Some l"
  using unsigned_less [of l, where ?'a = nat]
  by (simp add: axis_def checked_sub_def nonzero_u32_def unat_eq_zero)

lemma intersection_axis:
  "intersection a b =
     (case axis (rect_x a) (rect_width a) (rect_x b) (rect_width b) of
        None \<Rightarrow> None
      | Some w \<Rightarrow>
          (case axis (rect_y a) (rect_height a) (rect_y b) (rect_height b) of
             None \<Rightarrow> None
           | Some h \<Rightarrow> Some \<lparr>rect_x = max (rect_x a) (rect_x b), rect_y = max (rect_y a) (rect_y b),
                             rect_width = w, rect_height = h\<rparr>))"
  unfolding intersection_def axis_def Let_def ..

text \<open>An intersection covers exactly the common pixels, and there is none when there is no common pixel.\<close>

lemma intersection_covers:
  assumes "intersection a b = Some c"
  shows "rect_ok c" and "covers c x y \<longleftrightarrow> covers a x y \<and> covers b x y"
  using assms axis_Some
  by (auto simp: intersection_axis covers_def rect_ok_def unat_max split: option.splits)

lemma intersection_None:
  assumes "intersection a b = None"
  shows "\<not> (covers a x y \<and> covers b x y)"
proof -
  from assms consider "axis (rect_x a) (rect_width a) (rect_x b) (rect_width b) = None"
    | "axis (rect_y a) (rect_height a) (rect_y b) (rect_height b) = None"
    by (auto simp: intersection_axis split: option.splits)
  then show ?thesis by cases (auto dest!: axis_None simp: covers_def unat_max)
qed

lemma intersection_self: "rect_ok r \<Longrightarrow> intersection r r = Some r"
  by (simp add: intersection_axis axis_full rect_ok_def)

lemma rect_eqI:
  assumes "rect_ok a" and "rect_ok b" and same: "\<And>x y. covers a x y \<longleftrightarrow> covers b x y"
  shows "a = b"
proof -
  have low: "unat (rect_x b) \<le> unat (rect_x a) \<and> unat (rect_y b) \<le> unat (rect_y a) \<and>
      unat (rect_x a) + unat (rect_width a) \<le> unat (rect_x b) + unat (rect_width b) \<and>
      unat (rect_y a) + unat (rect_height a) \<le> unat (rect_y b) + unat (rect_height b)"
    if ok: "rect_ok a" and sub: "\<And>x y. covers a x y \<Longrightarrow> covers b x y" for a b :: picture_rect
  proof -
    have pos: "0 < unat (rect_width a)" "0 < unat (rect_height a)"
      using ok by (simp_all add: rect_ok_def unat_gt_0)
    have "covers b (unat (rect_x a)) (unat (rect_y a))"
      by (rule sub) (use pos in \<open>simp add: covers_def\<close>)
    moreover have "covers b (unat (rect_x a) + unat (rect_width a) - 1) (unat (rect_y a) + unat (rect_height a) - 1)"
      by (rule sub) (use pos in \<open>auto simp: covers_def\<close>)
    ultimately show ?thesis using pos by (auto simp: covers_def)
  qed
  have "unat (rect_x a) = unat (rect_x b) \<and> unat (rect_y a) = unat (rect_y b) \<and>
      unat (rect_width a) = unat (rect_width b) \<and> unat (rect_height a) = unat (rect_height b)"
    using low [of a b] low [of b a] assms by auto
  then show ?thesis by (cases a; cases b) (simp add: word_unat_eq_iff)
qed

lemma contains_rect_iff:
  assumes "rect_ok inner"
  shows "contains_rect outer inner \<longleftrightarrow> (\<forall>x y. covers inner x y \<longrightarrow> covers outer x y)"
proof
  assume "contains_rect outer inner"
  then show "\<forall>x y. covers inner x y \<longrightarrow> covers outer x y"
    using intersection_covers(2) [of outer inner inner] by (auto simp: contains_rect_def)
next
  assume sub: "\<forall>x y. covers inner x y \<longrightarrow> covers outer x y"
  have "covers inner (unat (rect_x inner)) (unat (rect_y inner))"
    using assms by (simp add: covers_def rect_ok_def unat_gt_0)
  with sub intersection_None [of outer inner] obtain c where c: "intersection outer inner = Some c"
    by (cases "intersection outer inner") auto
  have "c = inner"
    by (rule rect_eqI) (use intersection_covers [OF c] sub assms in auto)
  with c show "contains_rect outer inner" by (simp add: contains_rect_def)
qed

section \<open>Pictures and palettes\<close>

datatype picture_encoding = HdmvRle "u8 list"

record indexed_picture =
  pic_width :: u32
  pic_height :: u32
  pic_encoding :: picture_encoding

fun encoding_bytes :: "picture_encoding \<Rightarrow> u8 list" where
  "encoding_bytes (HdmvRle bytes) = bytes"

definition encoded_len :: "indexed_picture \<Rightarrow> nat" where
  "encoded_len p = (case pic_encoding p of HdmvRle bytes \<Rightarrow> length bytes)"

definition full_rect :: "indexed_picture \<Rightarrow> picture_rect" where
  "full_rect p = \<lparr>rect_x = 0, rect_y = 0, rect_width = pic_width p, rect_height = pic_height p\<rparr>"

definition picture_ok :: "indexed_picture \<Rightarrow> bool" where
  "picture_ok p \<longleftrightarrow> pic_width p \<noteq> 0 \<and> pic_height p \<noteq> 0"

record palette_color =
  color_red :: u8
  color_green :: u8
  color_blue :: u8
  color_alpha :: u8

definition TRANSPARENT :: palette_color where
  "TRANSPARENT = \<lparr>color_red = 0, color_green = 0, color_blue = 0, color_alpha = 0\<rparr>"

type_synonym picture_palette = "palette_color list"

definition PALETTE_LEN :: nat where "PALETTE_LEN = 256"
definition PALETTE_BYTE_LEN :: nat where "PALETTE_BYTE_LEN = PALETTE_LEN * 4"

definition palette_transparent :: picture_palette where
  "palette_transparent = replicate PALETTE_LEN TRANSPARENT"

definition palette_color_at :: "picture_palette \<Rightarrow> u8 \<Rightarrow> palette_color" where
  "palette_color_at entries index = entries ! unat index"

datatype picture_forced_flag = Forced | Regular

record picture_reference_size =
  ref_width :: u32
  ref_height :: u32

section \<open>Cues\<close>

datatype invalid_picture_cue = VisibleRegionOutsidePicture picture_rect u32 u32

record subtitle_picture_cue =
  cue_reference_size :: picture_reference_size
  cue_origin :: picture_position
  cue_visible_region :: picture_rect
  cue_picture :: indexed_picture
  cue_palette :: picture_palette
  cue_forced :: picture_forced_flag

definition new_picture_cue ::
    "picture_reference_size \<Rightarrow> picture_position \<Rightarrow> picture_rect \<Rightarrow> indexed_picture \<Rightarrow> picture_palette \<Rightarrow>
     picture_forced_flag \<Rightarrow> invalid_picture_cue + subtitle_picture_cue" where
  "new_picture_cue reference origin region picture palette forced =
     (if \<not> contains_rect (full_rect picture) region
      then Inl (VisibleRegionOutsidePicture region (pic_width picture) (pic_height picture))
      else Inr \<lparr>cue_reference_size = reference, cue_origin = origin, cue_visible_region = region,
                cue_picture = picture, cue_palette = palette, cue_forced = forced\<rparr>)"

definition cue_ok :: "subtitle_picture_cue \<Rightarrow> bool" where
  "cue_ok c \<longleftrightarrow>
     picture_ok (cue_picture c) \<and> rect_ok (cue_visible_region c) \<and>
     contains_rect (full_rect (cue_picture c)) (cue_visible_region c) \<and> length (cue_palette c) = PALETTE_LEN"

lemma full_rect_ok [simp]: "rect_ok (full_rect p) \<longleftrightarrow> picture_ok p"
  by (simp add: rect_ok_def full_rect_def picture_ok_def)

lemma covers_full_rect:
  "covers (full_rect p) x y \<longleftrightarrow> x < unat (pic_width p) \<and> y < unat (pic_height p)"
  by (simp add: covers_def full_rect_def)

lemma contains_full_rect:
  assumes "rect_ok r"
  shows "contains_rect (full_rect p) r \<longleftrightarrow>
    unat (rect_x r) + unat (rect_width r) \<le> unat (pic_width p) \<and>
    unat (rect_y r) + unat (rect_height r) \<le> unat (pic_height p)"
proof -
  have pos: "0 < unat (rect_width r)" "0 < unat (rect_height r)"
    using assms by (simp_all add: rect_ok_def unat_gt_0)
  show ?thesis
  proof
    assume "contains_rect (full_rect p) r"
    then have sub: "\<forall>x y. covers r x y \<longrightarrow> covers (full_rect p) x y"
      by (simp add: contains_rect_iff [OF assms])
    have "covers r (unat (rect_x r) + unat (rect_width r) - 1) (unat (rect_y r) + unat (rect_height r) - 1)"
      using pos by (auto simp: covers_def)
    with sub have "covers (full_rect p) (unat (rect_x r) + unat (rect_width r) - 1)
        (unat (rect_y r) + unat (rect_height r) - 1)" by blast
    then show "unat (rect_x r) + unat (rect_width r) \<le> unat (pic_width p) \<and>
        unat (rect_y r) + unat (rect_height r) \<le> unat (pic_height p)"
      using pos by (auto simp: covers_full_rect)
  next
    assume "unat (rect_x r) + unat (rect_width r) \<le> unat (pic_width p) \<and>
        unat (rect_y r) + unat (rect_height r) \<le> unat (pic_height p)"
    then show "contains_rect (full_rect p) r"
      using contains_rect_iff [OF assms, of "full_rect p"] by (auto simp: covers_full_rect) (auto simp: covers_def)
  qed
qed

end
