(* ===== verification/Pgs_Payload.thy ===== *)
theory Pgs_Payload
  imports Pgs_Segment Pgs_Rle Picture
begin

text \<open>
  The payloads of PGS segments (crate \<open>subtitle-pgs\<close>): the byte reader with its typed error (modules
  \<open>reader\<close>, \<open>error\<close>), the parsers of windows, palettes, objects and compositions (\<open>wds\<close>, \<open>pds\<close>, \<open>ods\<close>,
  \<open>pcs\<close>) and the encoders of \<open>stream_builder\<close>. The reader satisfies the parser calculus of
  \<open>Bit_Stream\<close> over bytes, and each parser is shown to invert its encoder.
\<close>

section \<open>The byte reader\<close>

datatype segment_parse_error =
    Segment_Truncated segment_kind nat nat
  | ZeroVideoSize
  | OversizedVideoSize u16 u16
  | ZeroObjectSize

record byte_reader =
  rd_bytes :: "u8 list"
  rd_position :: nat
  rd_segment :: segment_kind

type_synonym 'a payload_parser = "byte_reader \<Rightarrow> segment_parse_error + 'a \<times> byte_reader"

definition new_byte_reader :: "segment_kind \<Rightarrow> u8 list \<Rightarrow> byte_reader" where
  "new_byte_reader k bytes = \<lparr>rd_bytes = bytes, rd_position = 0, rd_segment = k\<rparr>"

definition remaining :: "byte_reader \<Rightarrow> nat" where
  "remaining r = length (rd_bytes r) - rd_position r"

definition take_bytes :: "nat \<Rightarrow> u8 list payload_parser" where
  "take_bytes n r =
     (if remaining r < n then Inl (Segment_Truncated (rd_segment r) n (remaining r))
      else Inr (take n (drop (rd_position r) (rd_bytes r)),
                r\<lparr>rd_position := rd_position r + n\<rparr>))"

definition get_u8 :: "u8 payload_parser" where
  "get_u8 r = and_then (take_bytes 1 r) (\<lambda>(raw, r). Inr (raw ! 0, r))"

definition get_u16 :: "u16 payload_parser" where
  "get_u16 r = and_then (take_bytes 2 r) (\<lambda>(raw, r). Inr (u16_be (raw ! 0) (raw ! 1), r))"

definition get_u24 :: "u32 payload_parser" where
  "get_u24 r =
     and_then (take_bytes 3 r) (\<lambda>(raw, r). Inr (u32_be 0 (raw ! 0) (raw ! 1) (raw ! 2), r))"

definition rest_bytes :: "byte_reader \<Rightarrow> u8 list" where
  "rest_bytes r = drop (rd_position r) (rd_bytes r)"

section \<open>Windows\<close>

record window_definition =
  window_id :: u8
  window_x :: u16
  window_y :: u16
  window_width :: u16
  window_height :: u16

fun read_windows :: "nat \<Rightarrow> window_definition list payload_parser" where
  "read_windows 0 r = Inr ([], r)"
| "read_windows (Suc n) r =
     and_then (get_u8 r) (\<lambda>(i, r).
     and_then (get_u16 r) (\<lambda>(x, r).
     and_then (get_u16 r) (\<lambda>(y, r).
     and_then (get_u16 r) (\<lambda>(w, r).
     and_then (get_u16 r) (\<lambda>(h, r).
     and_then (read_windows n r) (\<lambda>(ws, r).
       Inr (\<lparr>window_id = i, window_x = x, window_y = y, window_width = w, window_height = h\<rparr> # ws,
            r)))))))"

definition parse_wds :: "u8 list \<Rightarrow> segment_parse_error + window_definition list" where
  "parse_wds bytes =
     and_then (get_u8 (new_byte_reader WindowDefinition bytes)) (\<lambda>(n, r).
     and_then (read_windows (unat n) r) (\<lambda>(ws, r). Inr ws))"

section \<open>Palettes\<close>

record palette_entry_ycbcr =
  entry_index :: u8
  luma :: u8
  cb :: u8
  cr :: u8
  entry_alpha :: u8

record palette_definition =
  pd_palette_id :: u8
  pd_version :: u8
  pd_entries :: "palette_entry_ycbcr list"
  trailing_partial_bytes :: nat

definition ENTRY_LEN :: nat where "ENTRY_LEN = 5"

text \<open>Cr comes before Cb in the stream. The loop takes whole entries while there are any.\<close>

function read_entries :: "byte_reader \<Rightarrow> palette_entry_ycbcr list \<Rightarrow>
    segment_parse_error + palette_entry_ycbcr list \<times> byte_reader" where
  "read_entries r acc =
     (if ENTRY_LEN \<le> remaining r then
        case take_bytes ENTRY_LEN r of
          Inl e \<Rightarrow> Inl e
        | Inr (raw, r) \<Rightarrow>
            read_entries r
              (acc @ [\<lparr>entry_index = raw ! 0, luma = raw ! 1, cb = raw ! 3, cr = raw ! 2,
                       entry_alpha = raw ! 4\<rparr>])
      else Inr (acc, r))"
  by pat_completeness auto

termination
  by (relation "measure (\<lambda>(r, acc). remaining r)")
    (auto simp: take_bytes_def remaining_def ENTRY_LEN_def split: if_splits)

declare read_entries.simps [simp del]

definition parse_pds :: "u8 list \<Rightarrow> segment_parse_error + palette_definition" where
  "parse_pds bytes =
     and_then (get_u8 (new_byte_reader PaletteDefinition bytes)) (\<lambda>(i, r).
     and_then (get_u8 r) (\<lambda>(v, r).
     and_then (read_entries r []) (\<lambda>(entries, r).
       Inr \<lparr>pd_palette_id = i, pd_version = v, pd_entries = entries,
            trailing_partial_bytes = remaining r\<rparr>)))"

section \<open>Objects\<close>

datatype fragment_position = Only | First | Middle | Last

definition position_from_flags :: "u8 \<Rightarrow> fragment_position" where
  "position_from_flags flags =
     (case (and flags 0x80 \<noteq> 0, and flags 0x40 \<noteq> 0) of
        (True, True) \<Rightarrow> Only
      | (True, False) \<Rightarrow> First
      | (False, True) \<Rightarrow> Last
      | (False, False) \<Rightarrow> Middle)"

definition starts_object :: "fragment_position \<Rightarrow> bool" where
  "starts_object p \<longleftrightarrow> p = Only \<or> p = First"

definition ends_object :: "fragment_position \<Rightarrow> bool" where
  "ends_object p \<longleftrightarrow> p = Only \<or> p = Last"

record object_header =
  declared_data_length :: u32
  header_width :: u16
  header_height :: u16

definition expected_rle_len :: "object_header \<Rightarrow> nat" where
  "expected_rle_len h = unat (declared_data_length h) - 4"

record object_fragment =
  fragment_object_id :: u16
  fragment_version :: u8
  fragment_pos :: fragment_position
  fragment_header :: "object_header option"
  rle_bytes :: "u8 list"

definition parse_ods :: "u8 list \<Rightarrow> segment_parse_error + object_fragment" where
  "parse_ods bytes =
     and_then (get_u16 (new_byte_reader ObjectDefinition bytes)) (\<lambda>(i, r).
     and_then (get_u8 r) (\<lambda>(v, r).
     and_then (get_u8 r) (\<lambda>(flags, r).
       let p = position_from_flags flags in
       and_then
         (if starts_object p
          then and_then (get_u24 r) (\<lambda>(len, r).
               and_then (get_u16 r) (\<lambda>(w, r).
               and_then (get_u16 r) (\<lambda>(h, r).
                 if w = 0 \<or> h = 0 then Inl ZeroObjectSize
                 else Inr (Some \<lparr>declared_data_length = len, header_width = w, header_height = h\<rparr>, r))))
          else Inr (None, r))
         (\<lambda>(header, r).
            Inr \<lparr>fragment_object_id = i, fragment_version = v, fragment_pos = p,
                 fragment_header = header, rle_bytes = rest_bytes r\<rparr>))))"

section \<open>Compositions\<close>

datatype composition_state = Normal | AcquisitionPoint | EpochStart | Unknown_State u8

definition state_from_byte :: "u8 \<Rightarrow> composition_state" where
  "state_from_byte b =
     (if b = 0 then Normal else if b = 0x40 then AcquisitionPoint else if b = 0x80 then EpochStart
      else Unknown_State b)"

fun state_to_byte :: "composition_state \<Rightarrow> u8" where
  "state_to_byte Normal = 0"
| "state_to_byte AcquisitionPoint = 0x40"
| "state_to_byte EpochStart = 0x80"
| "state_to_byte (Unknown_State b) = b"

datatype palette_update = FullComposition | PaletteOnly

record crop_rect =
  crop_x :: u16
  crop_y :: u16
  crop_width :: u16
  crop_height :: u16

record composition_object =
  co_object_id :: u16
  co_window_id :: u8
  co_forced :: picture_forced_flag
  co_x :: u16
  co_y :: u16
  co_crop :: "crop_rect option"

record presentation_composition =
  pcs_reference_size :: picture_reference_size
  pcs_composition_number :: u16
  pcs_state :: composition_state
  pcs_palette_update :: palette_update
  pcs_palette_id :: u8
  pcs_objects :: "composition_object list"

definition MAX_REFERENCE_WIDTH :: u16 where "MAX_REFERENCE_WIDTH = 4096"
definition MAX_REFERENCE_HEIGHT :: u16 where "MAX_REFERENCE_HEIGHT = 2304"
definition FLAG_CROPPED :: u8 where "FLAG_CROPPED = 0x80"
definition FLAG_FORCED :: u8 where "FLAG_FORCED = 0x40"
definition PALETTE_UPDATE_FLAG :: u8 where "PALETTE_UPDATE_FLAG = 0x80"

definition parse_object :: "composition_object payload_parser" where
  "parse_object r =
     and_then (get_u16 r) (\<lambda>(i, r).
     and_then (get_u8 r) (\<lambda>(w, r).
     and_then (get_u8 r) (\<lambda>(flags, r).
     and_then (get_u16 r) (\<lambda>(x, r).
     and_then (get_u16 r) (\<lambda>(y, r).
     and_then
       (if and flags FLAG_CROPPED \<noteq> 0
        then and_then (get_u16 r) (\<lambda>(cx, r).
             and_then (get_u16 r) (\<lambda>(cy, r).
             and_then (get_u16 r) (\<lambda>(cw, r).
             and_then (get_u16 r) (\<lambda>(ch, r).
               Inr (Some \<lparr>crop_x = cx, crop_y = cy, crop_width = cw, crop_height = ch\<rparr>, r)))))
        else Inr (None, r))
       (\<lambda>(crop, r).
          Inr (\<lparr>co_object_id = i, co_window_id = w,
                co_forced = (if and flags FLAG_FORCED \<noteq> 0 then Forced else Regular),
                co_x = x, co_y = y, co_crop = crop\<rparr>, r)))))))"

fun parse_composition_objects :: "nat \<Rightarrow> composition_object list payload_parser" where
  "parse_composition_objects 0 r = Inr ([], r)"
| "parse_composition_objects (Suc n) r =
     and_then (parse_object r) (\<lambda>(obj, r).
     and_then (parse_composition_objects n r) (\<lambda>(objs, r). Inr (obj # objs, r)))"

definition parse_pcs :: "u8 list \<Rightarrow> segment_parse_error + presentation_composition" where
  "parse_pcs bytes =
     and_then (get_u16 (new_byte_reader PresentationComposition bytes)) (\<lambda>(raw_width, r).
     and_then (get_u16 r) (\<lambda>(raw_height, r).
       if raw_width = 0 \<or> raw_height = 0 then Inl ZeroVideoSize
       else if MAX_REFERENCE_WIDTH < raw_width \<or> MAX_REFERENCE_HEIGHT < raw_height
       then Inl (OversizedVideoSize raw_width raw_height)
       else
         and_then (get_u8 r) (\<lambda>(_, r).
         and_then (get_u16 r) (\<lambda>(number, r).
         and_then (get_u8 r) (\<lambda>(st, r).
         and_then (get_u8 r) (\<lambda>(update, r).
         and_then (get_u8 r) (\<lambda>(pid, r).
         and_then (get_u8 r) (\<lambda>(n, r).
         and_then (parse_composition_objects (unat n) r) (\<lambda>(objs, r).
           Inr \<lparr>pcs_reference_size = \<lparr>ref_width = ucast raw_width, ref_height = ucast raw_height\<rparr>,
                pcs_composition_number = number, pcs_state = state_from_byte st,
                pcs_palette_update =
                  (if update = PALETTE_UPDATE_FLAG then PaletteOnly else FullComposition),
                pcs_palette_id = pid, pcs_objects = objs\<rparr>)))))))))"

section \<open>The reader in the parser calculus\<close>

definition reader_in_range :: "byte_reader \<Rightarrow> bool" where
  "reader_in_range r \<longleftrightarrow> rd_position r \<le> length (rd_bytes r)"

abbreviation reads_bytes where "reads_bytes \<equiv> reads rest_bytes reader_in_range"

lemma new_byte_reader [simp]:
  "reader_in_range (new_byte_reader k bytes)" "rest_bytes (new_byte_reader k bytes) = bytes"
  by (simp_all add: new_byte_reader_def reader_in_range_def rest_bytes_def)

lemma length_rest_bytes: "length (rest_bytes r) = remaining r"
  by (simp add: rest_bytes_def remaining_def)

lemma take_bytesD:
  "reader_in_range r \<Longrightarrow> take_bytes n r = Inr (bs, s) \<Longrightarrow>
     length bs = n \<and> rest_bytes r = bs @ rest_bytes s \<and> reader_in_range s"
  by (auto simp: take_bytes_def rest_bytes_def reader_in_range_def remaining_def split: if_splits)
    (metis append_take_drop_id drop_drop add.commute)

lemma consumes_take:
  "consumes rest_bytes reader_in_range (take_bytes n) (\<lambda>bs x. x = bs \<and> length bs = n)"
  by (rule consumesI) (auto dest: take_bytesD)

lemma reads_take: "length bs = n \<Longrightarrow> reads_bytes (take_bytes n) bs bs"
  unfolding reads_def
proof (intro allI impI)
  fix r rest
  assume a: "length bs = n" "reader_in_range r" "rest_bytes r = bs @ rest"
  let ?s = "r\<lparr>rd_position := rd_position r + n\<rparr>"
  have "rest_bytes ?s = rest"
    using a(1,3) by (simp add: rest_bytes_def) (metis append_eq_conv_conj add.commute drop_drop)
  moreover have "n \<le> remaining r" using a by (metis length_append length_rest_bytes le_add1)
  then have "reader_in_range ?s" using a(2) by (simp add: reader_in_range_def remaining_def)
  ultimately show "\<exists>s. take_bytes n r = Inr (bs, s) \<and> reader_in_range s \<and> rest_bytes s = rest"
    using a \<open>n \<le> remaining r\<close> by (simp add: take_bytes_def) (simp add: rest_bytes_def)
qed

lemma reads_u8: "reads_bytes get_u8 [b] b"
  unfolding get_u8_def [abs_def]
  using reads_map [OF reads_take [of "[b]" 1], of "\<lambda>raw. raw ! 0"] by simp

lemma reads_u16: "reads_bytes get_u16 (u16_bytes w) w"
proof -
  obtain a b where ab: "u16_bytes w = [a, b]" "u16_be a b = w" using u16_bytes_eq by blast
  then show ?thesis
    unfolding get_u16_def [abs_def]
    using reads_map [OF reads_take [of "[a, b]" 2], of "\<lambda>raw. u16_be (raw ! 0) (raw ! 1)"] by simp
qed

definition u24_bytes :: "u32 \<Rightarrow> u8 list" where
  "u24_bytes w = drop 1 (u32_bytes w)"

lemma be_value_zero: "be_value (0 # bs) = be_value bs"
  by (simp add: be_value_def)

lemma reads_u24:
  assumes "w < 2 ^ 24"
  shows "reads_bytes get_u24 (u24_bytes w) w"
proof -
  obtain a b c d where w: "u32_bytes w = [a, b, c, d]" "u32_be a b c d = w" by (rule u32_bytes_cases)
  have "be_value (u32_bytes w) = unat w"
    using unsigned_less [of w, where ?'a = nat] by (simp add: u32_bytes_def be_value_be_bytes)
  then have "unat w = 2 ^ 24 * unat a + be_value [b, c, d]"
    by (simp add: w be_value_def)
  moreover have "unat w < 2 ^ 24" using assms by (simp add: word_less_nat_alt)
  ultimately have "unat a = 0" by simp
  then have "a = 0" by (simp add: unat_eq_zero)
  with w show ?thesis
    unfolding get_u24_def [abs_def] u24_bytes_def
    using reads_map [OF reads_take [of "[b, c, d]" 3], of "\<lambda>raw. u32_be 0 (raw ! 0) (raw ! 1) (raw ! 2)"]
    by (simp add: numeral_2_eq_2)
qed

lemma reads_start:
  assumes "reads_bytes p bs x"
  shows "\<exists>s. p (new_byte_reader k (bs @ rest)) = Inr (x, s) \<and> reader_in_range s \<and> rest_bytes s = rest"
  using readsD [OF assms, of "new_byte_reader k (bs @ rest)" rest] by simp

lemma consumes_u8: "consumes rest_bytes reader_in_range get_u8 (\<lambda>bs x. bs = [x])"
  unfolding get_u8_def [abs_def]
  by (rule consumes_weaken, rule consumes_map, rule consumes_take) (auto simp: length_Suc_conv)

lemma consumes_u16: "consumes rest_bytes reader_in_range get_u16 (\<lambda>bs x. bs = u16_bytes x)"
  unfolding get_u16_def [abs_def]
  by (rule consumes_weaken, rule consumes_map, rule consumes_take)
    (auto simp: length_Suc_conv numeral_2_eq_2 u16_bytes_be)

lemma u24_bytes_be: "u24_bytes (u32_be 0 a b c) = [a, b, c]" "u32_be 0 a b c < 2 ^ 24"
proof -
  show "u24_bytes (u32_be 0 a b c) = [a, b, c]" by (simp add: u24_bytes_def u32_bytes_be)
  have "be_value [a, b, c] < 2 ^ 24" using be_value_less [of "[a, b, c]"] by simp
  then show "u32_be 0 a b c < 2 ^ 24"
    by (simp add: u32_be_def be_value_zero word_less_nat_alt unat_of_nat)
qed

lemma consumes_u24:
  "consumes rest_bytes reader_in_range get_u24 (\<lambda>bs x. bs = u24_bytes x \<and> x < 2 ^ 24)"
  unfolding get_u24_def [abs_def]
  by (rule consumes_weaken, rule consumes_map, rule consumes_take)
    (use u24_bytes_be in \<open>auto simp: length_Suc_conv numeral_3_eq_3\<close>)

section \<open>Windows\<close>

definition window_bytes :: "window_definition \<Rightarrow> u8 list" where
  "window_bytes w = [window_id w] @ u16_bytes (window_x w) @ u16_bytes (window_y w) @
     u16_bytes (window_width w) @ u16_bytes (window_height w)"

definition encode_wds_payload :: "window_definition list \<Rightarrow> u8 list" where
  "encode_wds_payload ws =
     [if length ws < 256 then of_nat (length ws) else 255] @ concat (map window_bytes (take 255 ws))"

lemma reads_windows: "reads_bytes (read_windows (length ws)) (concat (map window_bytes ws)) ws"
proof (induction ws)
  case Nil
  then show ?case using reads_return [of rest_bytes reader_in_range "[]"] by simp
next
  case (Cons w ws)
  let ?f = "\<lambda>i x y wd h vs. \<lparr>window_id = i, window_x = x, window_y = y, window_width = wd, window_height = h\<rparr> # vs"
  have "reads_bytes (read_windows (Suc (length ws)))
      ([window_id w] @ u16_bytes (window_x w) @ u16_bytes (window_y w) @ u16_bytes (window_width w) @
        u16_bytes (window_height w) @ concat (map window_bytes ws))
      (?f (window_id w) (window_x w) (window_y w) (window_width w) (window_height w) ws)"
    unfolding read_windows.simps [abs_def]
    by (rule reads_bind [OF reads_u8] reads_bind [OF reads_u16] reads_map [OF Cons.IH])+
  moreover have "?f (window_id w) (window_x w) (window_y w) (window_width w) (window_height w) ws = w # ws"
    by (cases w) simp
  ultimately show ?case by (simp add: window_bytes_def [of w] del: read_windows.simps)
qed

lemma consumes_windows:
  "consumes rest_bytes reader_in_range (read_windows n)
     (\<lambda>bs ws. length ws = n \<and> bs = concat (map window_bytes ws))"
proof (induction n)
  case 0
  then show ?case using consumes_return [of rest_bytes reader_in_range "[]"]
    by (auto elim: consumes_weaken)
next
  case (Suc n)
  show ?case
    unfolding read_windows.simps [abs_def]
    apply (rule consumes_weaken)
     apply (rule consumes_u8 consumes_u16 Suc.IH consumes_map consumes_bind)+
    by (auto simp: window_bytes_def)
qed

lemma parse_wds_iff:
  "parse_wds bytes = Inr ws \<longleftrightarrow> length ws < 256 \<and> (\<exists>rest. bytes = encode_wds_payload ws @ rest)"
proof
  assume p: "parse_wds bytes = Inr ws"
  then obtain n r s where n: "get_u8 (new_byte_reader WindowDefinition bytes) = Inr (n, r)"
    "read_windows (unat n) r = Inr (ws, s)"
    by (auto simp: parse_wds_def and_then_Inr_iff)
  from consumes_u8 _ n(1) have r: "reader_in_range r" "bytes = [n] @ rest_bytes r"
    by (rule consumesE, simp_all)+
  from consumes_windows r(1) n(2) have s: "length ws = unat n"
    "rest_bytes r = concat (map window_bytes ws) @ rest_bytes s"
    by (rule consumesE, simp_all)+
  have "unat n < 256" by (rule unat_u8_less)
  with s(1) have "length ws < 256" "take 255 ws = ws" "of_nat (length ws) = n" by simp_all
  with r s show "length ws < 256 \<and> (\<exists>rest. bytes = encode_wds_payload ws @ rest)"
    by (simp add: encode_wds_payload_def)
next
  assume a: "length ws < 256 \<and> (\<exists>rest. bytes = encode_wds_payload ws @ rest)"
  then obtain rest where b: "bytes = [of_nat (length ws)] @ concat (map window_bytes ws) @ rest"
    by (auto simp: encode_wds_payload_def)
  let ?n = "of_nat (length ws) :: u8"
  have "unat ?n = length ws" using a by (simp add: unat_of_nat)
  moreover obtain r where "get_u8 (new_byte_reader WindowDefinition bytes) = Inr (?n, r)"
    "reader_in_range r" "rest_bytes r = concat (map window_bytes ws) @ rest"
    using reads_start [OF reads_u8, of WindowDefinition ?n] by (auto simp: b)
  moreover from readsD [OF reads_windows this(2,3)] obtain s where
    "read_windows (length ws) r = Inr (ws, s)" by blast
  ultimately show "parse_wds bytes = Inr ws" by (simp add: parse_wds_def)
qed

section \<open>Palettes\<close>

definition entry_bytes :: "palette_entry_ycbcr \<Rightarrow> u8 list" where
  "entry_bytes e = [entry_index e, luma e, cr e, cb e, entry_alpha e]"

lemma read_entries_ok:
  "reader_in_range r \<Longrightarrow> \<exists>es s. read_entries r acc = Inr (acc @ es, s) \<and> reader_in_range s \<and>
     remaining s < ENTRY_LEN \<and> rest_bytes r = concat (map entry_bytes es) @ rest_bytes s"
proof (induction r acc rule: read_entries.induct)
  case (1 r acc)
  show ?case
  proof (cases "ENTRY_LEN \<le> remaining r")
    case False
    with "1.prems" show ?thesis by (intro exI [of _ "[]"] exI [of _ r]) (simp add: read_entries.simps [of r])
  next
    case True
    then obtain raw t where raw: "take_bytes ENTRY_LEN r = Inr (raw, t)"
      by (auto simp: take_bytes_def)
    with "1.prems" have t: "length raw = 5" "rest_bytes r = raw @ rest_bytes t" "reader_in_range t"
      using take_bytesD by (auto simp: ENTRY_LEN_def)
    let ?e = "\<lparr>entry_index = raw ! 0, luma = raw ! 1, cb = raw ! 3, cr = raw ! 2, entry_alpha = raw ! 4\<rparr>"
    obtain a b c d e where "raw = [a, b, c, d, e]" using t(1)
      by (auto simp: numeral_eq_Suc length_Suc_conv)
    then have "entry_bytes ?e = raw" by (simp add: entry_bytes_def numeral_eq_Suc)
    with "1.IH" [OF True raw refl t(3)] t True raw show ?thesis
      by (auto simp: read_entries.simps [of r])
  qed
qed

lemma length_entry_bytes: "length (entry_bytes e) = 5"
  by (simp add: entry_bytes_def)

lemma entry_bytes_inject: "entry_bytes e = entry_bytes f \<longleftrightarrow> e = f"
  by (cases e; cases f) (auto simp: entry_bytes_def)

lemma entries_bytes_inject:
  "concat (map entry_bytes es) @ xs = concat (map entry_bytes fs) @ ys \<Longrightarrow> length xs < 5 \<Longrightarrow> length ys < 5 \<Longrightarrow>
     es = fs \<and> xs = ys"
proof (induction es arbitrary: fs)
  case Nil
  then show ?case by (cases fs) (auto simp: entry_bytes_def)
next
  case (Cons e es)
  then obtain f fs' where fs: "fs = f # fs'" by (cases fs) (auto simp: entry_bytes_def)
  with Cons.prems(1) have "entry_bytes e = entry_bytes f"
    "concat (map entry_bytes es) @ xs = concat (map entry_bytes fs') @ ys"
    using append_eq_append_conv [of "entry_bytes e" "entry_bytes f"] by (simp_all add: fs length_entry_bytes)
  with Cons fs show ?case by (auto simp: entry_bytes_inject)
qed

lemma parse_pds_iff:
  "parse_pds bytes = Inr p \<longleftrightarrow>
     trailing_partial_bytes p < ENTRY_LEN \<and>
     (\<exists>tail. length tail = trailing_partial_bytes p \<and>
        bytes = [pd_palette_id p, pd_version p] @ concat (map entry_bytes (pd_entries p)) @ tail)"
proof (cases "2 \<le> length bytes")
  case False
  have "\<exists>e. parse_pds bytes = Inl e"
  proof (cases bytes)
    case (Cons b bs)
    with False have "bs = []" by (cases bs) auto
    with Cons show ?thesis
      by (simp add: parse_pds_def get_u8_def take_bytes_def new_byte_reader_def remaining_def)
  qed (simp add: parse_pds_def get_u8_def take_bytes_def new_byte_reader_def remaining_def)
  with False show ?thesis by auto
next
  case True
  then obtain i v body where bytes: "bytes = [i, v] @ body"
    by (metis append_Cons append_Nil Suc_le_length_iff numeral_2_eq_2)
  then obtain r where r: "get_u8 (new_byte_reader PaletteDefinition bytes) = Inr (i, r)"
    "reader_in_range r" "rest_bytes r = [v] @ body"
    using reads_start [OF reads_u8, of PaletteDefinition i "[v] @ body"] by auto
  from readsD [OF reads_u8 r(2,3)] obtain s where s: "get_u8 r = Inr (v, s)"
    "reader_in_range s" "rest_bytes s = body" by blast
  from read_entries_ok [OF s(2), of "[]"] obtain es t where t: "read_entries s [] = Inr (es, t)"
    "reader_in_range t" "remaining t < ENTRY_LEN" "body = concat (map entry_bytes es) @ rest_bytes t"
    by (auto simp: s(3))
  have p: "parse_pds bytes = Inr \<lparr>pd_palette_id = i, pd_version = v, pd_entries = es,
      trailing_partial_bytes = remaining t\<rparr>"
    by (simp add: parse_pds_def r s t)
  show ?thesis
  proof
    assume "parse_pds bytes = Inr p"
    with p t show "trailing_partial_bytes p < ENTRY_LEN \<and> (\<exists>tail. length tail = trailing_partial_bytes p \<and>
        bytes = [pd_palette_id p, pd_version p] @ concat (map entry_bytes (pd_entries p)) @ tail)"
      by (auto simp: bytes length_rest_bytes intro!: exI [of _ "rest_bytes t"])
  next
    assume a: "trailing_partial_bytes p < ENTRY_LEN \<and> (\<exists>tail. length tail = trailing_partial_bytes p \<and>
        bytes = [pd_palette_id p, pd_version p] @ concat (map entry_bytes (pd_entries p)) @ tail)"
    then obtain tail where tail: "length tail = trailing_partial_bytes p" "i = pd_palette_id p"
      "v = pd_version p" "body = concat (map entry_bytes (pd_entries p)) @ tail"
      by (auto simp: bytes)
    have "es = pd_entries p \<and> rest_bytes t = tail"
    proof (rule entries_bytes_inject)
      show "concat (map entry_bytes es) @ rest_bytes t = concat (map entry_bytes (pd_entries p)) @ tail"
        using t(4) tail(4) by simp
    qed (use t(3) a tail(1) in \<open>simp_all add: ENTRY_LEN_def length_rest_bytes\<close>)
    with p tail show "parse_pds bytes = Inr p" by (auto simp flip: length_rest_bytes)
  qed
qed

section \<open>Objects\<close>

definition object_header_bytes :: "object_header option \<Rightarrow> u8 list" where
  "object_header_bytes h =
     (case h of None \<Rightarrow> []
      | Some h \<Rightarrow> u24_bytes (declared_data_length h) @ u16_bytes (header_width h) @ u16_bytes (header_height h))"

definition object_header_ok :: "fragment_position \<Rightarrow> object_header option \<Rightarrow> bool" where
  "object_header_ok p h \<longleftrightarrow>
     (case h of None \<Rightarrow> \<not> starts_object p
      | Some h \<Rightarrow> starts_object p \<and> declared_data_length h < 2 ^ 24 \<and> header_width h \<noteq> 0 \<and> header_height h \<noteq> 0)"

definition parse_object_header :: "fragment_position \<Rightarrow> object_header option payload_parser" where
  "parse_object_header p r =
     (if starts_object p
      then and_then (get_u24 r) (\<lambda>(len, r).
           and_then (get_u16 r) (\<lambda>(w, r).
           and_then (get_u16 r) (\<lambda>(h, r).
             if w = 0 \<or> h = 0 then Inl ZeroObjectSize
             else Inr (Some \<lparr>declared_data_length = len, header_width = w, header_height = h\<rparr>, r))))
      else Inr (None, r))"

lemma reads_object_header:
  assumes "object_header_ok p h"
  shows "reads_bytes (parse_object_header p) (object_header_bytes h) h"
proof (cases h)
  case None
  with assms reads_return [of rest_bytes reader_in_range None] show ?thesis
    by (simp add: parse_object_header_def [abs_def] object_header_ok_def object_header_bytes_def)
next
  case (Some k)
  let ?f = "\<lambda>len w v. Some \<lparr>declared_data_length = len, header_width = w, header_height = v\<rparr>"
  have ok: "starts_object p" "declared_data_length k < 2 ^ 24" "\<not> (header_width k = 0 \<or> header_height k = 0)"
    using assms by (simp_all add: Some object_header_ok_def)
  have end_: "reads_bytes (\<lambda>r. if header_width k = 0 \<or> header_height k = 0 then Inl ZeroObjectSize
      else Inr (?f (declared_data_length k) (header_width k) (header_height k), r)) [] h"
    using ok(3) reads_return [of rest_bytes reader_in_range h] by (cases k) (simp add: Some)
  have "reads_bytes (parse_object_header p)
      (u24_bytes (declared_data_length k) @ u16_bytes (header_width k) @ u16_bytes (header_height k)) h"
    unfolding parse_object_header_def [abs_def] using ok(1)
    by (simp only: if_True)
      (rule reads_bind [OF reads_u24 [OF ok(2)]] reads_bind [OF reads_u16] reads_bind_end [OF reads_u16] end_)+
  then show ?thesis by (simp add: Some object_header_bytes_def)
qed

lemma consumes_object_header:
  "consumes rest_bytes reader_in_range (parse_object_header p)
     (\<lambda>bs h. object_header_ok p h \<and> bs = object_header_bytes h)"
  unfolding parse_object_header_def [abs_def]
  apply (rule consumes_weaken)
   apply (rule consumes_u16 consumes_u24 consumes_return consumes_error consumes_map consumes_If consumes_bind)+
  by (auto simp: object_header_ok_def object_header_bytes_def split: if_splits)

lemma parse_ods_eq:
  "parse_ods bytes =
     and_then (get_u16 (new_byte_reader ObjectDefinition bytes)) (\<lambda>(i, r).
     and_then (get_u8 r) (\<lambda>(v, r).
     and_then (get_u8 r) (\<lambda>(flags, r).
     and_then (parse_object_header (position_from_flags flags) r) (\<lambda>(header, r).
       Inr \<lparr>fragment_object_id = i, fragment_version = v, fragment_pos = position_from_flags flags,
            fragment_header = header, rle_bytes = rest_bytes r\<rparr>))))"
  by (simp add: parse_ods_def parse_object_header_def Let_def)

lemma parse_ods_iff:
  "parse_ods bytes = Inr f \<longleftrightarrow>
     object_header_ok (fragment_pos f) (fragment_header f) \<and>
     (\<exists>flags. position_from_flags flags = fragment_pos f \<and>
        bytes = u16_bytes (fragment_object_id f) @ [fragment_version f, flags] @
          object_header_bytes (fragment_header f) @ rle_bytes f)"
    (is "_ \<longleftrightarrow> ?ok")
proof
  assume "parse_ods bytes = Inr f"
  then obtain r1 flags r2 r3 r4 where
    r1: "get_u16 (new_byte_reader ObjectDefinition bytes) = Inr (fragment_object_id f, r1)" and
    r2: "get_u8 r1 = Inr (fragment_version f, r2)" and r3: "get_u8 r2 = Inr (flags, r3)" and
    r4: "parse_object_header (position_from_flags flags) r3 = Inr (fragment_header f, r4)" and
    f: "fragment_pos f = position_from_flags flags" "rle_bytes f = rest_bytes r4"
    by (auto simp: parse_ods_eq and_then_Inr_iff)
  from consumes_u16 _ r1 have 1: "reader_in_range r1" "bytes = u16_bytes (fragment_object_id f) @ rest_bytes r1"
    by (rule consumesE, simp_all)+
  from consumes_u8 1(1) r2 have 2: "reader_in_range r2" "rest_bytes r1 = [fragment_version f] @ rest_bytes r2"
    by (rule consumesE, simp_all)+
  from consumes_u8 2(1) r3 have 3: "reader_in_range r3" "rest_bytes r2 = [flags] @ rest_bytes r3"
    by (rule consumesE, simp_all)+
  from consumes_object_header 3(1) r4 have 4: "object_header_ok (fragment_pos f) (fragment_header f)"
    "rest_bytes r3 = object_header_bytes (fragment_header f) @ rest_bytes r4"
    by (rule consumesE, simp_all add: f)+
  show ?ok using 1 2 3 4 f by auto
next
  assume ?ok
  then obtain flags where ok: "object_header_ok (fragment_pos f) (fragment_header f)"
    "position_from_flags flags = fragment_pos f"
    "bytes = u16_bytes (fragment_object_id f) @ [fragment_version f] @ [flags] @
       object_header_bytes (fragment_header f) @ rle_bytes f" by auto
  from reads_start [OF reads_u16, of ObjectDefinition] obtain r1 where
    1: "get_u16 (new_byte_reader ObjectDefinition bytes) = Inr (fragment_object_id f, r1)" "reader_in_range r1"
       "rest_bytes r1 = [fragment_version f] @ [flags] @ object_header_bytes (fragment_header f) @ rle_bytes f"
    unfolding ok(3) by blast
  from readsD [OF reads_u8 1(2,3)] obtain r2 where
    2: "get_u8 r1 = Inr (fragment_version f, r2)" "reader_in_range r2"
       "rest_bytes r2 = [flags] @ object_header_bytes (fragment_header f) @ rle_bytes f" by blast
  from readsD [OF reads_u8 2(2,3)] obtain r3 where
    3: "get_u8 r2 = Inr (flags, r3)" "reader_in_range r3"
       "rest_bytes r3 = object_header_bytes (fragment_header f) @ rle_bytes f" by blast
  from readsD [OF reads_object_header [OF ok(1)] 3(2,3)] obtain r4 where
    4: "parse_object_header (fragment_pos f) r3 = Inr (fragment_header f, r4)" "rest_bytes r4 = rle_bytes f" by blast
  show "parse_ods bytes = Inr f"
    by (cases f) (use 1 2 3 4 ok(2) in \<open>simp add: parse_ods_eq\<close>)
qed

section \<open>Compositions\<close>

definition crop_bytes :: "crop_rect option \<Rightarrow> u8 list" where
  "crop_bytes c =
     (case c of None \<Rightarrow> []
      | Some c \<Rightarrow> u16_bytes (crop_x c) @ u16_bytes (crop_y c) @ u16_bytes (crop_width c) @ u16_bytes (crop_height c))"

definition object_flags :: "composition_object \<Rightarrow> u8" where
  "object_flags obj =
     (let flags = (if co_crop obj \<noteq> None then or 0 0x80 else 0) in
      if co_forced obj = Forced then or flags 0x40 else flags)"

definition composition_object_bytes :: "composition_object \<Rightarrow> u8 list" where
  "composition_object_bytes obj =
     u16_bytes (co_object_id obj) @ [co_window_id obj] @ [object_flags obj] @
     u16_bytes (co_x obj) @ u16_bytes (co_y obj) @ crop_bytes (co_crop obj)"

definition parse_crop :: "bool \<Rightarrow> crop_rect option payload_parser" where
  "parse_crop present r =
     (if present
      then and_then (get_u16 r) (\<lambda>(cx, r).
           and_then (get_u16 r) (\<lambda>(cy, r).
           and_then (get_u16 r) (\<lambda>(cw, r).
           and_then (get_u16 r) (\<lambda>(ch, r).
             Inr (Some \<lparr>crop_x = cx, crop_y = cy, crop_width = cw, crop_height = ch\<rparr>, r)))))
      else Inr (None, r))"

lemma parse_object_eq:
  "parse_object r =
     and_then (get_u16 r) (\<lambda>(i, r).
     and_then (get_u8 r) (\<lambda>(w, r).
     and_then (get_u8 r) (\<lambda>(flags, r).
     and_then (get_u16 r) (\<lambda>(x, r).
     and_then (get_u16 r) (\<lambda>(y, r).
     and_then (parse_crop (and flags FLAG_CROPPED \<noteq> 0) r) (\<lambda>(crop, r).
          Inr (\<lparr>co_object_id = i, co_window_id = w,
                co_forced = (if and flags FLAG_FORCED \<noteq> 0 then Forced else Regular),
                co_x = x, co_y = y, co_crop = crop\<rparr>, r)))))))"
  by (simp add: parse_object_def parse_crop_def)

lemma reads_crop: "reads_bytes (parse_crop (c \<noteq> None)) (crop_bytes c) c"
proof (cases c)
  case None
  then show ?thesis using reads_return [of rest_bytes reader_in_range None]
    by (simp add: parse_crop_def [abs_def] crop_bytes_def)
next
  case (Some k)
  have "reads_bytes (parse_crop True) (u16_bytes (crop_x k) @ u16_bytes (crop_y k) @ u16_bytes (crop_width k) @
      u16_bytes (crop_height k)) (Some \<lparr>crop_x = crop_x k, crop_y = crop_y k, crop_width = crop_width k,
        crop_height = crop_height k\<rparr>)"
    unfolding parse_crop_def [abs_def] if_True
    by (rule reads_bind [OF reads_u16] reads_map [OF reads_u16])+
  then show ?thesis by (cases k) (simp add: Some crop_bytes_def)
qed

lemma object_flags:
  "and (object_flags obj) FLAG_CROPPED \<noteq> 0 \<longleftrightarrow> co_crop obj \<noteq> None"
  "(if and (object_flags obj) FLAG_FORCED \<noteq> 0 then Forced else Regular) = co_forced obj"
  by (cases "co_forced obj"; simp add: object_flags_def FLAG_CROPPED_def FLAG_FORCED_def)+

lemma reads_object: "reads_bytes parse_object (composition_object_bytes obj) obj"
proof -
  let ?f = "\<lambda>crop. \<lparr>co_object_id = co_object_id obj, co_window_id = co_window_id obj,
      co_forced = (if and (object_flags obj) FLAG_FORCED \<noteq> 0 then Forced else Regular),
      co_x = co_x obj, co_y = co_y obj, co_crop = crop\<rparr>"
  have crop: "reads_bytes (parse_crop (and (object_flags obj) FLAG_CROPPED \<noteq> 0)) (crop_bytes (co_crop obj)) (co_crop obj)"
    by (simp only: object_flags reads_crop)
  have "reads_bytes parse_object (composition_object_bytes obj) (?f (co_crop obj))"
    unfolding parse_object_eq [abs_def] composition_object_bytes_def
    by (rule reads_bind [OF reads_u16] reads_bind [OF reads_u8] reads_map [OF crop])+
  moreover have "?f (co_crop obj) = obj"
    by (subst object_flags(2)) (cases obj, simp)
  ultimately show ?thesis by simp
qed

lemma reads_objects:
  "reads_bytes (parse_composition_objects (length objs)) (concat (map composition_object_bytes objs)) objs"
proof (induction objs)
  case Nil
  then show ?case using reads_return [of rest_bytes reader_in_range "[]"] by simp
next
  case (Cons obj objs)
  have "reads_bytes (parse_composition_objects (Suc (length objs)))
      (composition_object_bytes obj @ concat (map composition_object_bytes objs)) (obj # objs)"
    unfolding parse_composition_objects.simps [abs_def]
    by (rule reads_bind [OF reads_object] reads_map [OF Cons.IH])+
  then show ?case by (simp del: parse_composition_objects.simps)
qed

section \<open>Display sets for the encoder\<close>

record palette_color_spec =
  color_index :: u8
  color_rgba :: "u8 \<times> u8 \<times> u8 \<times> u8"

record palette_spec =
  ps_palette_id :: u8
  ps_version :: u8
  ps_colors :: "palette_color_spec list"

record object_image_spec =
  image_object_id :: u16
  image_width :: u16
  image_height :: u16
  image_indices :: "u8 list"
  max_rle_bytes_per_fragment :: "nat option"

record display_set_spec =
  ds_reference_width :: u16
  ds_reference_height :: u16
  ds_state :: composition_state
  ds_palette_only :: bool
  ds_palette_id :: u8
  ds_windows :: "window_definition list"
  ds_palettes :: "palette_spec list"
  ds_images :: "object_image_spec list"
  ds_composition :: "composition_object list"

definition encode_pcs_payload :: "display_set_spec \<Rightarrow> u16 \<Rightarrow> u8 list" where
  "encode_pcs_payload spec number =
     u16_bytes (ds_reference_width spec) @ u16_bytes (ds_reference_height spec) @ [0x10] @ u16_bytes number @
     [state_to_byte (ds_state spec)] @ [if ds_palette_only spec then 0x80 else 0] @ [ds_palette_id spec] @
     [if length (ds_composition spec) < 256 then of_nat (length (ds_composition spec)) else 255] @
     concat (map composition_object_bytes (take 255 (ds_composition spec)))"

lemma state_round_trip [simp]: "state_to_byte (state_from_byte b) = b"
  by (simp add: state_from_byte_def)

lemma object_count:
  "unat (if length xs < 256 then of_nat (length xs) else 255 :: u8) = length (take 255 xs)"
  by (simp add: unat_of_nat min_def)

text \<open>What the decoder sees of a display set.\<close>

definition pcs_of_spec :: "display_set_spec \<Rightarrow> u16 \<Rightarrow> presentation_composition" where
  "pcs_of_spec spec number =
     \<lparr>pcs_reference_size = \<lparr>ref_width = ucast (ds_reference_width spec),
                            ref_height = ucast (ds_reference_height spec)\<rparr>,
      pcs_composition_number = number,
      pcs_state = state_from_byte (state_to_byte (ds_state spec)),
      pcs_palette_update = (if ds_palette_only spec then PaletteOnly else FullComposition),
      pcs_palette_id = ds_palette_id spec,
      pcs_objects = take 255 (ds_composition spec)\<rparr>"

definition reference_size_ok :: "u16 \<Rightarrow> u16 \<Rightarrow> bool" where
  "reference_size_ok w h \<longleftrightarrow> 0 < w \<and> w \<le> MAX_REFERENCE_WIDTH \<and> 0 < h \<and> h \<le> MAX_REFERENCE_HEIGHT"

lemma parse_pcs_encode:
  assumes "reference_size_ok (ds_reference_width spec) (ds_reference_height spec)"
  shows "parse_pcs (encode_pcs_payload spec number) = Inr (pcs_of_spec spec number)"
proof -
  let ?n = "if length (ds_composition spec) < 256 then of_nat (length (ds_composition spec)) else 255 :: u8"
  let ?tail = "concat (map composition_object_bytes (take 255 (ds_composition spec)))"
  have objs: "reads_bytes (parse_composition_objects (unat ?n)) ?tail (take 255 (ds_composition spec))"
    unfolding object_count by (rule reads_objects)
  have ok: "\<not> (ds_reference_width spec = 0 \<or> ds_reference_height spec = 0)"
    "\<not> (MAX_REFERENCE_WIDTH < ds_reference_width spec \<or> MAX_REFERENCE_HEIGHT < ds_reference_height spec)"
    using assms by (auto simp: reference_size_ok_def)
  from reads_start [OF reads_u16, of PresentationComposition] obtain r1 where
    1: "get_u16 (new_byte_reader PresentationComposition (encode_pcs_payload spec number)) =
          Inr (ds_reference_width spec, r1)" "reader_in_range r1"
       "rest_bytes r1 = drop 2 (encode_pcs_payload spec number)"
    unfolding encode_pcs_payload_def by fastforce
  then have "rest_bytes r1 = u16_bytes (ds_reference_height spec) @ drop 4 (encode_pcs_payload spec number)"
    by (simp add: encode_pcs_payload_def)
  from readsD [OF reads_u16 1(2) this] obtain r2 where
    2: "get_u16 r1 = Inr (ds_reference_height spec, r2)" "reader_in_range r2"
       "rest_bytes r2 = ([0x10] @ u16_bytes number @ [state_to_byte (ds_state spec)] @
          [if ds_palette_only spec then 0x80 else 0] @ [ds_palette_id spec] @ [?n] @ ?tail) @ []"
    by (auto simp: encode_pcs_payload_def)
  let ?body = "\<lambda>r. and_then (get_u8 r) (\<lambda>(_, r). and_then (get_u16 r) (\<lambda>(number, r).
      and_then (get_u8 r) (\<lambda>(st, r). and_then (get_u8 r) (\<lambda>(update, r).
      and_then (get_u8 r) (\<lambda>(pid, r). and_then (get_u8 r) (\<lambda>(n, r).
      and_then (parse_composition_objects (unat n) r) (\<lambda>(objs, r).
        Inr ((number, st, update, pid, objs), r))))))))"
  have "reads_bytes ?body ([0x10] @ u16_bytes number @ [state_to_byte (ds_state spec)] @
      [if ds_palette_only spec then 0x80 else 0] @ [ds_palette_id spec] @ [?n] @ ?tail)
      (number, state_to_byte (ds_state spec), if ds_palette_only spec then 0x80 else 0, ds_palette_id spec,
       take 255 (ds_composition spec))"
    by (rule reads_bind [OF reads_u8] reads_bind [OF reads_u16] reads_map [OF objs])+
  from readsD [OF this 2(2,3)] obtain s where
    "?body r2 = Inr ((number, state_to_byte (ds_state spec), if ds_palette_only spec then 0x80 else 0,
       ds_palette_id spec, take 255 (ds_composition spec)), s)" by blast
  then show ?thesis
    using 1(1) 2(1) ok
    by (auto simp: parse_pcs_def and_then_Inr_iff pcs_of_spec_def PALETTE_UPDATE_FLAG_def split: prod.splits if_splits)
      (rule exI [of _ 0], simp)
qed

end
