(* ===== verification/Pgs_Color.thy ===== *)
theory Pgs_Color
  imports Pgs_Payload
begin

text \<open>
  Colours of PGS palettes (crate \<open>subtitle-pgs\<close>): the single precision arithmetic that
  \<open>color.rs\<close> uses, the conversions between YCbCr and RGB, and \<open>PaletteDefinition::to_palette\<close> of
  \<open>pds.rs\<close>. A finite \<open>f32\<close> is an integer times a power of two; every operation rounds the exact
  result to 24 significant bits, to nearest and ties to even. The values of this program stay far
  away from overflow and from subnormal numbers.
\<close>

section \<open>Single precision\<close>

datatype f32 = F32 (mantissa: int) (exponent: int)

fun bit_length :: "nat \<Rightarrow> nat" where
  "bit_length n = (if n = 0 then 0 else Suc (bit_length (n div 2)))"

declare bit_length.simps [simp del]

definition round_shift :: "int \<Rightarrow> nat \<Rightarrow> int" where
  "round_shift m k =
     (let q = m div 2 ^ k; r = m mod 2 ^ k; half = 2 ^ (k - 1) in
      if half < r \<or> r = half \<and> odd q then q + 1 else q)"

definition f32_rounded :: "int \<Rightarrow> int \<Rightarrow> f32" where
  "f32_rounded m e =
     (let k = bit_length (nat \<bar>m\<bar>) - 24 in
      if k = 0 then F32 m e else F32 (round_shift m k) (e + int k))"

definition f32_of_int :: "int \<Rightarrow> f32" where
  "f32_of_int n = f32_rounded n 0"

text \<open>The exact quotient is cut after 64 binary places; a last bit records whether it was longer.\<close>

definition f32_ratio :: "int \<Rightarrow> int \<Rightarrow> int \<Rightarrow> f32" where
  "f32_ratio n d e =
     f32_rounded (2 * (n * 2 ^ 64 div d) + of_bool (n * 2 ^ 64 mod d \<noteq> 0)) (e - 65)"

text \<open>A decimal literal, in thousandths.\<close>

definition f32_thousandths :: "int \<Rightarrow> f32" where
  "f32_thousandths n = f32_ratio n 1000 0"

fun f32_mul :: "f32 \<Rightarrow> f32 \<Rightarrow> f32" where
  "f32_mul (F32 a i) (F32 b j) = f32_rounded (a * b) (i + j)"

fun f32_add :: "f32 \<Rightarrow> f32 \<Rightarrow> f32" where
  "f32_add (F32 a i) (F32 b j) =
     (let e = min i j in f32_rounded (a * 2 ^ nat (i - e) + b * 2 ^ nat (j - e)) e)"

fun f32_neg :: "f32 \<Rightarrow> f32" where
  "f32_neg (F32 a i) = F32 (- a) i"

definition f32_sub :: "f32 \<Rightarrow> f32 \<Rightarrow> f32" where
  "f32_sub x y = f32_add x (f32_neg y)"

fun f32_div :: "f32 \<Rightarrow> f32 \<Rightarrow> f32" where
  "f32_div (F32 a i) (F32 b j) = f32_ratio a b (i - j)"

text \<open>\<open>f32::round\<close>: to the nearest integer, halves away from zero.\<close>

fun f32_round :: "f32 \<Rightarrow> int" where
  "f32_round (F32 m e) =
     (if 0 \<le> e then m * 2 ^ nat e
      else sgn m * ((\<bar>m\<bar> + 2 ^ (nat (- e) - 1)) div 2 ^ nat (- e)))"

section \<open>Colour matrices\<close>

datatype pgs_color_matrix = Bt601 | Bt709

definition MAX_BT601_HEIGHT :: u32 where "MAX_BT601_HEIGHT = 576"

definition for_reference_height :: "u32 \<Rightarrow> pgs_color_matrix" where
  "for_reference_height height = (if height \<le> MAX_BT601_HEIGHT then Bt601 else Bt709)"

fun coefficients :: "pgs_color_matrix \<Rightarrow> f32 \<times> f32 \<times> f32 \<times> f32" where
  "coefficients Bt601 =
     (f32_thousandths 1596, f32_thousandths 392, f32_thousandths 813, f32_thousandths 2017)"
| "coefficients Bt709 =
     (f32_thousandths 1793, f32_thousandths 213, f32_thousandths 533, f32_thousandths 2112)"

definition clamp_to_u8 :: "f32 \<Rightarrow> u8" where
  "clamp_to_u8 v = of_int (min 255 (max 0 (f32_round v)))"

definition f32_from_u8 :: "u8 \<Rightarrow> f32" where
  "f32_from_u8 b = f32_of_int (uint b)"

definition ycbcr_to_rgb :: "pgs_color_matrix \<Rightarrow> u8 \<Rightarrow> u8 \<Rightarrow> u8 \<Rightarrow> u8 \<times> u8 \<times> u8" where
  "ycbcr_to_rgb matrix y b r =
     (let (cr_to_red, cb_to_green, cr_to_green, cb_to_blue) = coefficients matrix;
          scaled_luma = f32_mul (f32_thousandths 1164) (f32_sub (f32_from_u8 y) (f32_of_int 16));
          cb_centered = f32_sub (f32_from_u8 b) (f32_of_int 128);
          cr_centered = f32_sub (f32_from_u8 r) (f32_of_int 128)
      in (clamp_to_u8 (f32_add scaled_luma (f32_mul cr_to_red cr_centered)),
          clamp_to_u8 (f32_sub (f32_sub scaled_luma (f32_mul cb_to_green cb_centered))
                               (f32_mul cr_to_green cr_centered)),
          clamp_to_u8 (f32_add scaled_luma (f32_mul cb_to_blue cb_centered))))"

type_synonym weights = "(f32 \<times> f32 \<times> f32) \<times> (f32 \<times> f32) \<times> f32 \<times> f32"

fun forward_weights :: "pgs_color_matrix \<Rightarrow> weights" where
  "forward_weights Bt601 =
     ((f32_thousandths 65481, f32_thousandths 128553, f32_thousandths 24966),
      (f32_thousandths (- 37797), f32_thousandths (- 74203)),
      f32_thousandths (- 93786), f32_thousandths (- 18214))"
| "forward_weights Bt709 =
     ((f32_thousandths 46559, f32_thousandths 156629, f32_thousandths 15812),
      (f32_thousandths (- 25664), f32_thousandths (- 86336)),
      f32_thousandths (- 101730), f32_thousandths (- 10270))"

definition rgb_to_ycbcr :: "pgs_color_matrix \<Rightarrow> u8 \<Rightarrow> u8 \<Rightarrow> u8 \<Rightarrow> u8 \<times> u8 \<times> u8" where
  "rgb_to_ycbcr matrix rd gn bl =
     (let r = f32_from_u8 rd; g = f32_from_u8 gn; b = f32_from_u8 bl;
          ((yr, yg, yb), (cbr, cbg), crg, crb) = forward_weights matrix;
          y = f32_add (f32_of_int 16)
            (f32_div (f32_add (f32_add (f32_mul yr r) (f32_mul yg g)) (f32_mul yb b)) (f32_of_int 255));
          u = f32_add (f32_of_int 128)
            (f32_div (f32_add (f32_add (f32_mul cbr r) (f32_mul cbg g)) (f32_mul (f32_of_int 112) b))
              (f32_of_int 255));
          v = f32_add (f32_of_int 128)
            (f32_div (f32_add (f32_add (f32_mul (f32_of_int 112) r) (f32_mul crg g)) (f32_mul crb b))
              (f32_of_int 255))
      in (clamp_to_u8 y, clamp_to_u8 u, clamp_to_u8 v))"

section \<open>Palettes\<close>

definition entry_color :: "pgs_color_matrix \<Rightarrow> palette_entry_ycbcr \<Rightarrow> palette_color" where
  "entry_color matrix e =
     (let (r, g, b) = ycbcr_to_rgb matrix (luma e) (cb e) (cr e) in
      \<lparr>color_red = r, color_green = g, color_blue = b, color_alpha = entry_alpha e\<rparr>)"

definition to_palette :: "pgs_color_matrix \<Rightarrow> palette_definition \<Rightarrow> picture_palette" where
  "to_palette matrix p =
     foldl (\<lambda>colors e. colors[unat (entry_index e) := entry_color matrix e])
       (replicate PALETTE_LEN TRANSPARENT) (pd_entries p)"

lemma bit_length_eval:
  "bit_length 0 = 0" "bit_length 1 = 1" "bit_length (Suc 0) = 1"
  "bit_length (numeral (num.Bit0 k)) = Suc (bit_length (numeral k))"
  "bit_length (numeral (num.Bit1 k)) = Suc (bit_length (numeral k))"
  by (simp_all add: bit_length.simps [of 0] bit_length.simps [of 1] bit_length.simps [of "Suc 0"]
      bit_length.simps [of "numeral (num.Bit0 k)"] bit_length.simps [of "numeral (num.Bit1 k)"])

lemmas f32_eval =
  f32_rounded_def f32_of_int_def f32_ratio_def f32_thousandths_def f32_sub_def round_shift_def
  bit_length_eval clamp_to_u8_def f32_from_u8_def

text \<open>The vectors of the tests of \<open>color.rs\<close>.\<close>

lemma sample_literal: "f32_thousandths 1164 = F32 9764340 (- 23)"
  by (simp add: f32_eval Let_def)

lemma sample_red: "ycbcr_to_rgb Bt601 81 90 240 = (254, 0, 0)"
  by (simp add: ycbcr_to_rgb_def f32_eval Let_def)

lemma sample_white: "ycbcr_to_rgb Bt709 235 128 128 = (255, 255, 255)"
  by (simp add: ycbcr_to_rgb_def f32_eval Let_def)

section \<open>Rounding\<close>

lemma bit_length_bounds: "n < 2 ^ bit_length n" "0 < n \<Longrightarrow> 2 ^ (bit_length n - 1) \<le> n"
proof (induction n rule: bit_length.induct)
  case (1 n)
  case 1
  then show ?case using "1.IH"(1) by (subst bit_length.simps) auto
next
  case (1 n)
  case 2
  show ?case
  proof (cases "n div 2 = 0")
    case True
    with 2 have "n = 1" by auto
    then show ?thesis by (simp add: bit_length_eval)
  next
    case False
    obtain b where b: "bit_length (n div 2) = Suc b" using False by (simp add: bit_length.simps [of "n div 2"])
    have "bit_length n = Suc (bit_length (n div 2))" using 2 by (simp add: bit_length.simps [of n])
    moreover have "2 ^ b \<le> n div 2" using "1.IH"(2) 2 False b by simp
    then have "2 * 2 ^ b \<le> n" by linarith
    ultimately show ?thesis by (simp add: b)
  qed
qed

text \<open>The rounded mantissa is within half a unit of the exact one, and a tie gives an even one.\<close>

lemma round_shift_nearest:
  assumes "0 < k"
  shows "2 * \<bar>round_shift m k * 2 ^ k - m\<bar> \<le> 2 ^ k"
    and "2 * \<bar>round_shift m k * 2 ^ k - m\<bar> = 2 ^ k \<Longrightarrow> even (round_shift m k)"
proof -
  let ?q = "m div 2 ^ k" and ?r = "m mod 2 ^ k" and ?h = "2 ^ (k - 1) :: int"
  have m: "m = ?q * 2 ^ k + ?r" by (rule div_mult_mod_eq [symmetric])
  have r: "0 \<le> ?r" "?r < 2 ^ k" by simp_all
  have h: "2 ^ k = 2 * ?h" using assms by (cases k) simp_all
  have "round_shift m k * 2 ^ k - m = (if ?h < ?r \<or> ?r = ?h \<and> odd ?q then 2 ^ k - ?r else - ?r)"
    using m by (simp add: round_shift_def Let_def algebra_simps)
  then have err: "\<bar>round_shift m k * 2 ^ k - m\<bar> = (if ?h < ?r \<or> ?r = ?h \<and> odd ?q then 2 ^ k - ?r else ?r)"
    using r(1) abs_of_nonneg [of "2 ^ k - ?r"] r(2) by (simp add: less_imp_le)
  then show "2 * \<bar>round_shift m k * 2 ^ k - m\<bar> \<le> 2 ^ k"
    using h by (simp split: if_splits)
  assume "2 * \<bar>round_shift m k * 2 ^ k - m\<bar> = 2 ^ k"
  with err h have "?r = ?h" by (simp split: if_splits)
  then show "even (round_shift m k)" by (simp add: round_shift_def Let_def)
qed

section \<open>Palettes have 256 colours\<close>

lemma length_to_palette [simp]: "length (to_palette matrix p) = PALETTE_LEN"
proof -
  have "length (foldl (\<lambda>colors e. colors[unat (entry_index e) := entry_color matrix e]) cs es) = length cs" for cs es
    by (induction es arbitrary: cs) auto
  then show ?thesis by (simp add: to_palette_def)
qed

text \<open>The last entry of an index counts; an index without entry is transparent.\<close>

lemma to_palette_color:
  "palette_color_at (to_palette matrix p) index =
     (case find (\<lambda>e. entry_index e = index) (rev (pd_entries p)) of
        Some e \<Rightarrow> entry_color matrix e | None \<Rightarrow> TRANSPARENT)"
proof -
  have "foldl (\<lambda>colors e. colors[unat (entry_index e) := entry_color matrix e]) cs es ! unat index =
      (case find (\<lambda>e. entry_index e = index) (rev es) of Some e \<Rightarrow> entry_color matrix e | None \<Rightarrow> cs ! unat index)"
    if "length cs = PALETTE_LEN" for cs es
  proof (induction es rule: rev_induct)
    case (snoc e es)
    have "length (foldl (\<lambda>colors e. colors[unat (entry_index e) := entry_color matrix e]) cs es) = PALETTE_LEN"
      using that by (induction es rule: rev_induct) auto
    with snoc unat_u8_less [of "entry_index e"] show ?case
      by (auto simp: nth_list_update PALETTE_LEN_def word_unat_eq_iff)
  qed simp
  then show ?thesis
    using unat_u8_less [of index] by (simp add: to_palette_def palette_color_at_def PALETTE_LEN_def split: option.splits)
qed

end
