(* ===== verification/Pgs_Decoder.thy ===== *)
theory Pgs_Decoder
  imports Pgs_Color "HOL-Library.AList"
begin

text \<open>
  The track decoder of crate \<open>subtitle-pgs\<close> (\<open>decoder/mod.rs\<close>, \<open>compose.rs\<close>, \<open>epoch.rs\<close>, \<open>objects.rs\<close>,
  \<open>stats.rs\<close>): segments are collected into display sets, object fragments are joined, a finished set
  is applied to the state of the epoch and becomes a composition with its cues. Counters are \<open>u64\<close>.
  \<open>decoder_inv\<close> is the invariant of the state: limits are kept, the stored byte count is exact, and
  before an entry point the epoch is empty.
\<close>

section \<open>Statistics and limits\<close>

record pgs_decoder_limits =
  max_object_rle_bytes :: nat
  max_epoch_rle_bytes :: nat

record pgs_decode_statistics =
  blocks_with_framing_errors :: u64
  malformed_segments :: u64
  unknown_segments :: u64
  orphan_segments :: u64
  implicit_end_sets :: u64
  display_sets_applied :: u64
  compositions_emitted :: u64
  sets_ignored_until_entry_point :: u64
  compositions_skipped_missing_resource :: u64
  objects_dropped_no_visible_area :: u64
  incomplete_objects :: u64
  orphan_object_fragments :: u64
  restarted_objects :: u64
  object_length_mismatches :: u64
  objects_rejected_over_limit :: u64
  oversized_reference_frames :: u64
  objects_larger_than_reference_frame :: u64
  palettes_with_partial_trailing_entry :: u64
  unknown_composition_states :: u64
  discontinuities :: u64

definition default_statistics :: pgs_decode_statistics where
  "default_statistics =
     \<lparr>blocks_with_framing_errors = 0, malformed_segments = 0, unknown_segments = 0, orphan_segments = 0,
      implicit_end_sets = 0, display_sets_applied = 0, compositions_emitted = 0,
      sets_ignored_until_entry_point = 0, compositions_skipped_missing_resource = 0,
      objects_dropped_no_visible_area = 0, incomplete_objects = 0, orphan_object_fragments = 0,
      restarted_objects = 0, object_length_mismatches = 0, objects_rejected_over_limit = 0,
      oversized_reference_frames = 0, objects_larger_than_reference_frame = 0,
      palettes_with_partial_trailing_entry = 0, unknown_composition_states = 0, discontinuities = 0\<rparr>"

section \<open>Joining fragments\<close>

record assembled_object =
  ao_object_id :: u16
  ao_width :: u16
  ao_height :: u16
  ao_rle_bytes :: "u8 list"

record in_progress =
  ip_width :: u16
  ip_height :: u16
  ip_expected_rle_len :: nat
  ip_bytes :: "u8 list"

type_synonym object_assembler = "(u16 \<times> in_progress) list"

definition begin_object :: "object_fragment \<Rightarrow> pgs_decoder_limits \<Rightarrow> object_assembler \<Rightarrow> pgs_decode_statistics \<Rightarrow>
    bool \<times> object_assembler \<times> pgs_decode_statistics" where
  "begin_object fragment limits a st =
     (case fragment_header fragment of
        None \<Rightarrow> (True, a, st)
      | Some header \<Rightarrow>
          let i = fragment_object_id fragment;
              st = (if map_of a i \<noteq> None then st\<lparr>restarted_objects := restarted_objects st + 1\<rparr> else st);
              a = AList.delete i a
          in if max_object_rle_bytes limits < expected_rle_len header
             then (False, a, st\<lparr>objects_rejected_over_limit := objects_rejected_over_limit st + 1\<rparr>)
             else (True,
                   AList.update i \<lparr>ip_width = header_width header, ip_height = header_height header,
                                   ip_expected_rle_len = expected_rle_len header, ip_bytes = []\<rparr> a,
                   st))"

definition feed :: "object_fragment \<Rightarrow> pgs_decoder_limits \<Rightarrow> object_assembler \<Rightarrow> pgs_decode_statistics \<Rightarrow>
    assembled_object option \<times> object_assembler \<times> pgs_decode_statistics" where
  "feed fragment limits a st =
     (let i = fragment_object_id fragment in
      case begin_object fragment limits a st of (accepted, a, st) \<Rightarrow>
      if \<not> accepted then (None, a, st)
      else
        case map_of a i of
          None \<Rightarrow>
            (None, a,
             if fragment_header fragment = None
             then st\<lparr>orphan_object_fragments := orphan_object_fragments st + 1\<rparr> else st)
        | Some current \<Rightarrow>
            if max_object_rle_bytes limits < usize_saturating_add (length (ip_bytes current)) (length (rle_bytes fragment))
            then (None, AList.delete i a,
                  st\<lparr>objects_rejected_over_limit := objects_rejected_over_limit st + 1\<rparr>)
            else
              let current = current\<lparr>ip_bytes := ip_bytes current @ rle_bytes fragment\<rparr>;
                  a = AList.update i current a
              in if \<not> ends_object (fragment_pos fragment) then (None, a, st)
                 else
                   (Some \<lparr>ao_object_id = i, ao_width = ip_width current, ao_height = ip_height current,
                          ao_rle_bytes = ip_bytes current\<rparr>,
                    AList.delete i a,
                    if length (ip_bytes current) \<noteq> ip_expected_rle_len current
                    then st\<lparr>object_length_mismatches := object_length_mismatches st + 1\<rparr> else st))"

definition discard_unfinished :: "object_assembler \<Rightarrow> nat \<times> object_assembler" where
  "discard_unfinished a = (length a, [])"

section \<open>The state of an epoch\<close>

record epoch_state =
  epoch_windows :: "u8 \<rightharpoonup> window_definition"
  epoch_palettes :: "u8 \<rightharpoonup> picture_palette"
  epoch_objects :: "u16 \<rightharpoonup> indexed_picture"
  last_composition_objects :: "composition_object list"
  epoch_rle_bytes :: nat

definition empty_epoch :: epoch_state where
  "empty_epoch = \<lparr>epoch_windows = Map.empty, epoch_palettes = Map.empty, epoch_objects = Map.empty,
                  last_composition_objects = [], epoch_rle_bytes = 0\<rparr>"

definition try_insert_object :: "u16 \<Rightarrow> indexed_picture \<Rightarrow> nat \<Rightarrow> epoch_state \<Rightarrow> bool \<times> epoch_state" where
  "try_insert_object i picture limit ep =
     (let replaced = (case epoch_objects ep i of None \<Rightarrow> 0 | Some existing \<Rightarrow> encoded_len existing);
          new_total = usize_saturating_add (epoch_rle_bytes ep - replaced) (encoded_len picture)
      in if limit < new_total then (False, ep)
         else (True, ep\<lparr>epoch_rle_bytes := new_total, epoch_objects := (epoch_objects ep)(i \<mapsto> picture)\<rparr>))"

section \<open>Composing cues\<close>

definition rect_from_u16 :: "u16 \<Rightarrow> u16 \<Rightarrow> u16 \<Rightarrow> u16 \<Rightarrow> picture_rect option" where
  "rect_from_u16 x y w h =
     (if w = 0 \<or> h = 0 then None
      else Some \<lparr>rect_x = ucast x, rect_y = ucast y, rect_width = ucast w, rect_height = ucast h\<rparr>)"

definition window_rect :: "window_definition \<Rightarrow> picture_rect option" where
  "window_rect w = rect_from_u16 (window_x w) (window_y w) (window_width w) (window_height w)"

record placement =
  placed_origin :: picture_position
  placed_region :: picture_rect

definition place_object ::
    "composition_object \<Rightarrow> picture_rect \<Rightarrow> picture_rect option option \<Rightarrow> placement option" where
  "place_object obj picture window =
     Option.bind
       (case co_crop obj of
          Some crop \<Rightarrow> rect_from_u16 (crop_x crop) (crop_y crop) (crop_width crop) (crop_height crop)
        | None \<Rightarrow> Some picture) (\<lambda>wanted.
     Option.bind (intersection wanted picture) (\<lambda>region.
       let screen = \<lparr>rect_x = ucast (co_x obj), rect_y = ucast (co_y obj), rect_width = rect_width region,
                     rect_height = rect_height region\<rparr> in
       Option.bind
         (case window of
            None \<Rightarrow> Some screen
          | Some w \<Rightarrow> Option.bind w (intersection screen)) (\<lambda>clipped.
         let shift_x = rect_x clipped - rect_x screen; shift_y = rect_y clipped - rect_y screen in
         Some \<lparr>placed_origin = \<lparr>pos_x = rect_x clipped, pos_y = rect_y clipped\<rparr>,
               placed_region = \<lparr>rect_x = rect_x region + shift_x, rect_y = rect_y region + shift_y,
                                rect_width = rect_width clipped, rect_height = rect_height clipped\<rparr>\<rparr>)))"

definition object_cue :: "presentation_composition \<Rightarrow> epoch_state \<Rightarrow> picture_palette \<Rightarrow> indexed_picture \<Rightarrow>
    composition_object \<Rightarrow> subtitle_picture_cue option" where
  "object_cue pcs ep palette picture obj =
     (case place_object obj (full_rect picture) (map_option window_rect (epoch_windows ep (co_window_id obj))) of
        None \<Rightarrow> None
      | Some p \<Rightarrow>
          (case new_picture_cue (pcs_reference_size pcs) (placed_origin p) (placed_region p) picture palette
                  (co_forced obj) of
             Inl e \<Rightarrow> None
           | Inr cue \<Rightarrow> Some cue))"

fun object_cues :: "presentation_composition \<Rightarrow> epoch_state \<Rightarrow> picture_palette \<Rightarrow> composition_object list \<Rightarrow>
    pgs_decode_statistics \<Rightarrow> subtitle_picture_cue list \<times> pgs_decode_statistics" where
  "object_cues pcs ep palette [] st = ([], st)"
| "object_cues pcs ep palette (obj # objs) st =
     (case epoch_objects ep (co_object_id obj) of
        None \<Rightarrow> object_cues pcs ep palette objs st
      | Some picture \<Rightarrow>
          (case object_cue pcs ep palette picture obj of
             None \<Rightarrow>
               object_cues pcs ep palette objs
                 (st\<lparr>objects_dropped_no_visible_area := objects_dropped_no_visible_area st + 1\<rparr>)
           | Some cue \<Rightarrow>
               (case object_cues pcs ep palette objs st of (cues, st) \<Rightarrow> (cue # cues, st))))"

definition compose :: "presentation_composition \<Rightarrow> epoch_state \<Rightarrow> pgs_decode_statistics \<Rightarrow>
    subtitle_picture_cue list option \<times> epoch_state \<times> pgs_decode_statistics" where
  "compose pcs ep st =
     (let objs = (case pcs_palette_update pcs of
                    PaletteOnly \<Rightarrow> last_composition_objects ep
                  | FullComposition \<Rightarrow> pcs_objects pcs);
          skipped = st\<lparr>compositions_skipped_missing_resource := compositions_skipped_missing_resource st + 1\<rparr>
      in if objs = [] then (Some [], ep\<lparr>last_composition_objects := objs\<rparr>, st)
         else
           case epoch_palettes ep (pcs_palette_id pcs) of
             None \<Rightarrow> (None, ep, skipped)
           | Some palette \<Rightarrow>
               if list_ex (\<lambda>obj. epoch_objects ep (co_object_id obj) = None) objs then (None, ep, skipped)
               else
                 case object_cues pcs ep palette objs st of (cues, st) \<Rightarrow>
                   (Some cues, ep\<lparr>last_composition_objects := objs\<rparr>, st))"

section \<open>The decoder\<close>

record pgs_composition =
  comp_start :: subtitle_time
  comp_cues :: "subtitle_picture_cue list"

datatype set_disposition = Apply_Set | IgnoreUntilEntryPoint

record pending_set =
  pending_start :: subtitle_time
  pending_pcs :: presentation_composition
  disposition :: set_disposition
  pending_windows :: "window_definition list"
  pending_palettes :: "(u8 \<times> picture_palette) list"
  pending_objects :: "assembled_object list"

record pgs_track_decoder =
  decoder_limits :: pgs_decoder_limits
  decoder_stats :: pgs_decode_statistics
  epoch :: epoch_state
  assembler :: object_assembler
  pending :: "pending_set option"
  awaiting_entry_point :: bool

definition new_decoder :: "pgs_decoder_limits \<Rightarrow> pgs_track_decoder" where
  "new_decoder limits =
     \<lparr>decoder_limits = limits, decoder_stats = default_statistics, epoch = empty_epoch, assembler = [],
      pending = None, awaiting_entry_point = True\<rparr>"

abbreviation counting :: "(pgs_decode_statistics \<Rightarrow> pgs_decode_statistics) \<Rightarrow> pgs_track_decoder \<Rightarrow> pgs_track_decoder" where
  "counting f d \<equiv> d\<lparr>decoder_stats := f (decoder_stats d)\<rparr>"

definition reset_after_discontinuity :: "pgs_track_decoder \<Rightarrow> pgs_track_decoder" where
  "reset_after_discontinuity d =
     counting (\<lambda>st. st\<lparr>discontinuities := discontinuities st + 1\<rparr>)
       (d\<lparr>pending := None, assembler := snd (discard_unfinished (assembler d)), epoch := empty_epoch,
          awaiting_entry_point := True\<rparr>)"

definition store_object :: "assembled_object \<Rightarrow> picture_reference_size \<Rightarrow> pgs_track_decoder \<Rightarrow> pgs_track_decoder" where
  "store_object obj reference d =
     (if ref_width reference < ucast (ao_width obj) \<or> ref_height reference < ucast (ao_height obj)
      then counting (\<lambda>st. st\<lparr>objects_larger_than_reference_frame := objects_larger_than_reference_frame st + 1\<rparr>) d
      else if ao_width obj = 0 \<or> ao_height obj = 0
      then counting (\<lambda>st. st\<lparr>malformed_segments := malformed_segments st + 1\<rparr>) d
      else
        case try_insert_object (ao_object_id obj)
               \<lparr>pic_width = ucast (ao_width obj), pic_height = ucast (ao_height obj),
                pic_encoding = HdmvRle (ao_rle_bytes obj)\<rparr>
               (max_epoch_rle_bytes (decoder_limits d)) (epoch d) of
          (True, ep) \<Rightarrow> d\<lparr>epoch := ep\<rparr>
        | (False, ep) \<Rightarrow>
            counting (\<lambda>st. st\<lparr>objects_rejected_over_limit := objects_rejected_over_limit st + 1\<rparr>) (d\<lparr>epoch := ep\<rparr>))"

definition is_entry_point :: "composition_state \<Rightarrow> bool" where
  "is_entry_point s \<longleftrightarrow> s = EpochStart \<or> s = AcquisitionPoint"

definition insert_windows :: "window_definition list \<Rightarrow> epoch_state \<Rightarrow> epoch_state" where
  "insert_windows ws ep = ep\<lparr>epoch_windows := foldl (\<lambda>m w. m(window_id w \<mapsto> w)) (epoch_windows ep) ws\<rparr>"

definition insert_palettes :: "(u8 \<times> picture_palette) list \<Rightarrow> epoch_state \<Rightarrow> epoch_state" where
  "insert_palettes ps ep = ep\<lparr>epoch_palettes := foldl (\<lambda>m (i, p). m(i \<mapsto> p)) (epoch_palettes ep) ps\<rparr>"

definition apply_set :: "pending_set \<Rightarrow> pgs_track_decoder \<Rightarrow> pgs_composition option \<times> pgs_track_decoder" where
  "apply_set s d =
     (let pcs = pending_pcs s;
          d = (if pcs_state pcs = EpochStart then d\<lparr>epoch := empty_epoch\<rparr> else d);
          d = (if is_entry_point (pcs_state pcs) then d\<lparr>awaiting_entry_point := False\<rparr> else d);
          d = d\<lparr>epoch := insert_palettes (pending_palettes s) (insert_windows (pending_windows s) (epoch d))\<rparr>;
          d = fold (\<lambda>obj. store_object obj (pcs_reference_size pcs)) (pending_objects s) d;
          d = counting (\<lambda>st. st\<lparr>display_sets_applied := display_sets_applied st + 1\<rparr>) d
      in case compose pcs (epoch d) (decoder_stats d) of (cues, ep, st) \<Rightarrow>
           (Some \<lparr>comp_start = pending_start s, comp_cues = case_option [] (\<lambda>c. c) cues\<rparr>,
            d\<lparr>epoch := ep, decoder_stats := st\<lparr>compositions_emitted := compositions_emitted st + 1\<rparr>\<rparr>))"

definition handle_end :: "pgs_track_decoder \<Rightarrow> pgs_composition option \<times> pgs_track_decoder" where
  "handle_end d =
     (case pending d of
        None \<Rightarrow> (None, counting (\<lambda>st. st\<lparr>orphan_segments := orphan_segments st + 1\<rparr>) d)
      | Some s \<Rightarrow>
          case discard_unfinished (assembler d) of (unfinished, a) \<Rightarrow>
            let d = d\<lparr>pending := None, assembler := a\<rparr> in
            if disposition s = IgnoreUntilEntryPoint then (None, d)
            else apply_set s
              (counting (\<lambda>st. st\<lparr>incomplete_objects := incomplete_objects st + of_nat unfinished\<rparr>) d))"

definition classify :: "presentation_composition \<Rightarrow> pgs_track_decoder \<Rightarrow> set_disposition \<times> pgs_track_decoder" where
  "classify pcs d =
     (if is_entry_point (pcs_state pcs) then (Apply_Set, d)
      else
        let d = (case pcs_state pcs of
                   Unknown_State b \<Rightarrow>
                     counting (\<lambda>st. st\<lparr>unknown_composition_states := unknown_composition_states st + 1\<rparr>) d
                 | _ \<Rightarrow> d)
        in if awaiting_entry_point d
           then (IgnoreUntilEntryPoint,
                 counting (\<lambda>st. st\<lparr>sets_ignored_until_entry_point := sets_ignored_until_entry_point st + 1\<rparr>) d)
           else (Apply_Set, d))"

definition handle_pcs :: "subtitle_time \<Rightarrow> u8 list \<Rightarrow> pgs_track_decoder \<Rightarrow> pgs_composition option \<times> pgs_track_decoder" where
  "handle_pcs block_time bytes d =
     (case (if pending d \<noteq> None
            then handle_end (counting (\<lambda>st. st\<lparr>implicit_end_sets := implicit_end_sets st + 1\<rparr>) d)
            else (None, d)) of (implicit, d) \<Rightarrow>
      (implicit,
       case parse_pcs bytes of
         Inr pcs \<Rightarrow>
           (case classify pcs d of (disp, d) \<Rightarrow>
              d\<lparr>pending := Some \<lparr>pending_start = block_time, pending_pcs = pcs, disposition = disp,
                                 pending_windows = [], pending_palettes = [], pending_objects = []\<rparr>\<rparr>)
       | Inl (OversizedVideoSize w h) \<Rightarrow>
           counting (\<lambda>st. st\<lparr>oversized_reference_frames := oversized_reference_frames st + 1\<rparr>) d
       | Inl e \<Rightarrow> counting (\<lambda>st. st\<lparr>malformed_segments := malformed_segments st + 1\<rparr>) d))"

abbreviation malformed :: "pgs_track_decoder \<Rightarrow> pgs_track_decoder" where
  "malformed \<equiv> counting (\<lambda>st. st\<lparr>malformed_segments := malformed_segments st + 1\<rparr>)"

definition handle_resource :: "segment \<Rightarrow> pgs_track_decoder \<Rightarrow> pgs_track_decoder" where
  "handle_resource s d =
     (case pending d of
        None \<Rightarrow> counting (\<lambda>st. st\<lparr>orphan_segments := orphan_segments st + 1\<rparr>) d
      | Some ps \<Rightarrow>
          if disposition ps = IgnoreUntilEntryPoint then d
          else
            case kind s of
              WindowDefinition \<Rightarrow>
                (case parse_wds (payload s) of
                   Inr ws \<Rightarrow> d\<lparr>pending := Some (ps\<lparr>pending_windows := pending_windows ps @ ws\<rparr>)\<rparr>
                 | Inl e \<Rightarrow> malformed d)
            | PaletteDefinition \<Rightarrow>
                (case parse_pds (payload s) of
                   Inr p \<Rightarrow>
                     let d = (if 0 < trailing_partial_bytes p
                              then counting (\<lambda>st. st\<lparr>palettes_with_partial_trailing_entry :=
                                                  palettes_with_partial_trailing_entry st + 1\<rparr>) d
                              else d);
                         matrix = for_reference_height (ref_height (pcs_reference_size (pending_pcs ps)))
                     in d\<lparr>pending := Some (ps\<lparr>pending_palettes :=
                            pending_palettes ps @ [(pd_palette_id p, to_palette matrix p)]\<rparr>)\<rparr>
                 | Inl e \<Rightarrow> malformed d)
            | ObjectDefinition \<Rightarrow>
                (case parse_ods (payload s) of
                   Inr fragment \<Rightarrow>
                     (case feed fragment (decoder_limits d) (assembler d) (decoder_stats d) of (done, a, st) \<Rightarrow>
                        let d = d\<lparr>assembler := a, decoder_stats := st\<rparr> in
                        case done of
                          None \<Rightarrow> d
                        | Some obj \<Rightarrow> d\<lparr>pending := Some (ps\<lparr>pending_objects := pending_objects ps @ [obj]\<rparr>)\<rparr>)
                 | Inl e \<Rightarrow> malformed d)
            | _ \<Rightarrow> d)"

definition handle_segment :: "subtitle_time \<Rightarrow> segment \<Rightarrow> pgs_track_decoder \<Rightarrow> pgs_composition option \<times> pgs_track_decoder" where
  "handle_segment block_time s d =
     (case kind s of
        PresentationComposition \<Rightarrow> handle_pcs block_time (payload s) d
      | EndOfDisplaySet \<Rightarrow> handle_end d
      | Unknown_Kind b \<Rightarrow> (None, counting (\<lambda>st. st\<lparr>unknown_segments := unknown_segments st + 1\<rparr>) d)
      | _ \<Rightarrow> (None, handle_resource s d))"

fun handle_segments :: "subtitle_time \<Rightarrow> segment list \<Rightarrow> pgs_track_decoder \<Rightarrow> pgs_composition list \<times> pgs_track_decoder" where
  "handle_segments block_time [] d = ([], d)"
| "handle_segments block_time (s # ss) d =
     (case handle_segment block_time s d of (c, d) \<Rightarrow>
      case handle_segments block_time ss d of (cs, d) \<Rightarrow> (case_option cs (\<lambda>c. c # cs) c, d))"

definition push_block :: "subtitle_time \<Rightarrow> u8 list \<Rightarrow> pgs_track_decoder \<Rightarrow> pgs_composition list \<times> pgs_track_decoder" where
  "push_block block_time bytes d =
     (let split = split_block bytes;
          d = (if framing_error split \<noteq> None
               then counting (\<lambda>st. st\<lparr>blocks_with_framing_errors := blocks_with_framing_errors st + 1\<rparr>) d
               else d)
      in handle_segments block_time (segments split) d)"

section \<open>Placement\<close>

text \<open>What a placed object shows at a position of the screen, and what it should show: the object lies
  at its position, the pixel must be inside the crop rectangle and the picture, and inside the window
  where one is known. A rectangle without area shows nothing.\<close>

definition placed_pixel :: "placement option \<Rightarrow> nat \<Rightarrow> nat \<Rightarrow> (nat \<times> nat) option" where
  "placed_pixel placed x y =
     (case placed of
        None \<Rightarrow> None
      | Some p \<Rightarrow>
          let ox = unat (pos_x (placed_origin p)); oy = unat (pos_y (placed_origin p)); r = placed_region p in
          if ox \<le> x \<and> x < ox + unat (rect_width r) \<and> oy \<le> y \<and> y < oy + unat (rect_height r)
          then Some (unat (rect_x r) + (x - ox), unat (rect_y r) + (y - oy)) else None)"

definition covers_opt :: "picture_rect option \<Rightarrow> nat \<Rightarrow> nat \<Rightarrow> bool" where
  "covers_opt r x y = (case r of None \<Rightarrow> False | Some r \<Rightarrow> covers r x y)"

definition wanted_rect :: "composition_object \<Rightarrow> indexed_picture \<Rightarrow> picture_rect option" where
  "wanted_rect obj picture =
     (case co_crop obj of
        None \<Rightarrow> Some (full_rect picture)
      | Some c \<Rightarrow> rect_from_u16 (crop_x c) (crop_y c) (crop_width c) (crop_height c))"

definition object_pixel ::
    "composition_object \<Rightarrow> indexed_picture \<Rightarrow> picture_rect option option \<Rightarrow> nat \<Rightarrow> nat \<Rightarrow> (nat \<times> nat) option" where
  "object_pixel obj picture window x y =
     (case wanted_rect obj picture of
        None \<Rightarrow> None
      | Some w \<Rightarrow>
          let px = unat (rect_x w) + (x - unat (co_x obj)); py = unat (rect_y w) + (y - unat (co_y obj)) in
          if unat (co_x obj) \<le> x \<and> unat (co_y obj) \<le> y \<and> covers w px py \<and> covers (full_rect picture) px py \<and>
             (window = None \<or> covers_opt (the window) x y)
          then Some (px, py) else None)"

lemma intersection_full_rect:
  assumes "intersection w (full_rect p) = Some r"
  shows "rect_x r = rect_x w" "rect_y r = rect_y w" "rect_ok r"
    "unat (rect_x r) + unat (rect_width r) \<le> unat (pic_width p)"
    "unat (rect_y r) + unat (rect_height r) \<le> unat (pic_height p)"
proof -
  show "rect_x r = rect_x w" "rect_y r = rect_y w"
    using assms by (auto simp: intersection_def full_rect_def Let_def max_def split: option.splits)
  show ok: "rect_ok r" by (rule intersection_covers [OF assms])
  have "contains_rect (full_rect p) r"
    using intersection_covers(2) [OF assms] by (simp add: contains_rect_iff [OF ok])
  then show "unat (rect_x r) + unat (rect_width r) \<le> unat (pic_width p)"
    "unat (rect_y r) + unat (rect_height r) \<le> unat (pic_height p)"
    by (simp_all add: contains_full_rect [OF ok])
qed

text \<open>Two rectangles with the same pixels have the same corners, so a clipped rectangle lies in the
  other one.\<close>

lemma intersection_inside:
  assumes "intersection a b = Some c"
  shows "rect_x a \<le> rect_x c" "rect_y a \<le> rect_y c"
    "unat (rect_x c) + unat (rect_width c) \<le> unat (rect_x a) + unat (rect_width a)"
    "unat (rect_y c) + unat (rect_height c) \<le> unat (rect_y a) + unat (rect_height a)"
  using assms axis_Some
  by (auto simp: intersection_axis split: option.splits)

definition place_clipped :: "composition_object \<Rightarrow> picture_rect \<Rightarrow> picture_rect \<Rightarrow> placement" where
  "place_clipped obj region clipped =
     \<lparr>placed_origin = \<lparr>pos_x = rect_x clipped, pos_y = rect_y clipped\<rparr>,
      placed_region = \<lparr>rect_x = rect_x region + (rect_x clipped - ucast (co_x obj)),
                       rect_y = rect_y region + (rect_y clipped - ucast (co_y obj)),
                       rect_width = rect_width clipped, rect_height = rect_height clipped\<rparr>\<rparr>"

definition screen_rect :: "composition_object \<Rightarrow> picture_rect \<Rightarrow> picture_rect" where
  "screen_rect obj region =
     \<lparr>rect_x = ucast (co_x obj), rect_y = ucast (co_y obj), rect_width = rect_width region,
      rect_height = rect_height region\<rparr>"

lemma place_object_cases:
  "place_object obj (full_rect picture) window =
     (case wanted_rect obj picture of
        None \<Rightarrow> None
      | Some w \<Rightarrow>
          (case intersection w (full_rect picture) of
             None \<Rightarrow> None
           | Some region \<Rightarrow>
               (case window of
                  None \<Rightarrow> Some (place_clipped obj region (screen_rect obj region))
                | Some win \<Rightarrow>
                    map_option (place_clipped obj region)
                      (Option.bind win (intersection (screen_rect obj region))))))"
  by (cases "co_crop obj")
    (auto simp: place_object_def wanted_rect_def place_clipped_def screen_rect_def Let_def
      split: option.splits bind_splits)

lemma unat_shift:
  assumes "q \<le> x" and "unat r + (unat x - unat q) < 2 ^ LENGTH('a)"
  shows "unat (r + (x - q) :: 'a::len word) = unat r + (unat x - unat q)"
proof -
  have "unat (x - q) = unat x - unat q" using assms(1) by (simp add: unat_sub)
  with assms(2) show ?thesis by (simp add: unat_word_ariths)
qed

lemma unat_ucast_up: "unat (ucast (w :: u16) :: u32) = unat w"
  using unsigned_less [of w, where ?'a = nat] by (simp add: unsigned_ucast_eq take_bit_nat_eq_self)

lemma place_clipped_region:
  assumes region: "intersection w (full_rect picture) = Some region"
    and ok: "rect_ok c" and inside: "ucast (co_x obj) \<le> rect_x c" "ucast (co_y obj) \<le> rect_y c"
    "unat (rect_x c) + unat (rect_width c) \<le> unat (co_x obj) + unat (rect_width region)"
    "unat (rect_y c) + unat (rect_height c) \<le> unat (co_y obj) + unat (rect_height region)"
  shows "unat (rect_x (placed_region (place_clipped obj region c))) =
      unat (rect_x region) + (unat (rect_x c) - unat (co_x obj))"
    and "unat (rect_y (placed_region (place_clipped obj region c))) =
      unat (rect_y region) + (unat (rect_y c) - unat (co_y obj))"
    and "rect_ok (placed_region (place_clipped obj region c))"
    and "contains_rect (full_rect picture) (placed_region (place_clipped obj region c))"
proof -
  let ?p = "placed_region (place_clipped obj region c)"
  note r = intersection_full_rect [OF region]
  have pos: "0 < unat (rect_width c)" "0 < unat (rect_height c)"
    using ok by (simp_all add: rect_ok_def unat_gt_0)
  have less: "unat (pic_width picture) < 2 ^ 32" "unat (pic_height picture) < 2 ^ 32"
    using unsigned_less [of "pic_width picture", where ?'a = nat]
      unsigned_less [of "pic_height picture", where ?'a = nat] by simp_all
  have le: "unat (co_x obj) \<le> unat (rect_x c)" "unat (co_y obj) \<le> unat (rect_y c)"
    using inside(1,2) by (simp_all add: word_le_nat_alt unat_ucast_up)
  have x: "unat (rect_x region) + (unat (rect_x c) - unat (co_x obj)) < 2 ^ 32"
    and y: "unat (rect_y region) + (unat (rect_y c) - unat (co_y obj)) < 2 ^ 32"
    using inside(3,4) r(4,5) less le pos by linarith+
  show px: "unat (rect_x ?p) = unat (rect_x region) + (unat (rect_x c) - unat (co_x obj))"
    using unat_shift [OF inside(1), of "rect_x region"] x by (simp add: place_clipped_def unat_ucast_up)
  show py: "unat (rect_y ?p) = unat (rect_y region) + (unat (rect_y c) - unat (co_y obj))"
    using unat_shift [OF inside(2), of "rect_y region"] y by (simp add: place_clipped_def unat_ucast_up)
  have wh: "rect_width ?p = rect_width c" "rect_height ?p = rect_height c"
    by (simp_all add: place_clipped_def)
  show pok: "rect_ok ?p" using ok by (simp add: rect_ok_def wh)
  show "contains_rect (full_rect picture) ?p"
    unfolding contains_full_rect [OF pok] px py wh using inside(3,4) r(4,5) le by linarith
qed

lemma covers_screen:
  assumes region: "intersection w (full_rect picture) = Some region"
  shows "covers (screen_rect obj region) x y \<longleftrightarrow>
     unat (co_x obj) \<le> x \<and> unat (co_y obj) \<le> y \<and>
     covers w (unat (rect_x w) + (x - unat (co_x obj))) (unat (rect_y w) + (y - unat (co_y obj))) \<and>
     covers (full_rect picture) (unat (rect_x w) + (x - unat (co_x obj))) (unat (rect_y w) + (y - unat (co_y obj)))"
proof -
  let ?px = "unat (rect_x w) + (x - unat (co_x obj))" and ?py = "unat (rect_y w) + (y - unat (co_y obj))"
  have "covers (screen_rect obj region) x y \<longleftrightarrow>
      unat (co_x obj) \<le> x \<and> unat (co_y obj) \<le> y \<and> covers region ?px ?py"
    using intersection_full_rect(1,2) [OF region] by (auto simp: covers_def screen_rect_def unat_ucast_up)
  then show ?thesis by (simp add: intersection_covers(2) [OF region])
qed

lemma placed_pixel_clipped:
  assumes region: "intersection w (full_rect picture) = Some region"
    and ok: "rect_ok c" and inside: "ucast (co_x obj) \<le> rect_x c" "ucast (co_y obj) \<le> rect_y c"
    "unat (rect_x c) + unat (rect_width c) \<le> unat (co_x obj) + unat (rect_width region)"
    "unat (rect_y c) + unat (rect_height c) \<le> unat (co_y obj) + unat (rect_height region)"
  shows "placed_pixel (Some (place_clipped obj region c)) x y =
    (if covers c x y
     then Some (unat (rect_x w) + (x - unat (co_x obj)), unat (rect_y w) + (y - unat (co_y obj))) else None)"
proof -
  have le: "unat (co_x obj) \<le> unat (rect_x c)" "unat (co_y obj) \<le> unat (rect_y c)"
    using inside(1,2) by (simp_all add: word_le_nat_alt unat_ucast_up)
  note p = place_clipped_region [OF assms] and r = intersection_full_rect [OF region]
  have "placed_origin (place_clipped obj region c) = \<lparr>pos_x = rect_x c, pos_y = rect_y c\<rparr>"
    "rect_width (placed_region (place_clipped obj region c)) = rect_width c"
    "rect_height (placed_region (place_clipped obj region c)) = rect_height c"
    by (simp_all add: place_clipped_def)
  with le show ?thesis by (auto simp: placed_pixel_def covers_def p(1,2) r(1,2) Let_def)
qed

lemma screen_rect_inside:
  assumes "intersection w (full_rect picture) = Some region"
  shows "rect_ok (screen_rect obj region)"
    and "unat (rect_x (screen_rect obj region)) = unat (co_x obj)"
    and "unat (rect_y (screen_rect obj region)) = unat (co_y obj)"
  using intersection_full_rect(3) [OF assms] by (simp_all add: screen_rect_def rect_ok_def unat_ucast_up)

text \<open>The rectangle on the screen that is left after clipping, if any.\<close>

definition clipped_rect :: "composition_object \<Rightarrow> picture_rect \<Rightarrow> picture_rect option option \<Rightarrow> picture_rect option" where
  "clipped_rect obj region window =
     (case window of
        None \<Rightarrow> Some (screen_rect obj region)
      | Some win \<Rightarrow> Option.bind win (intersection (screen_rect obj region)))"

lemma place_object_clipped:
  "place_object obj (full_rect picture) window =
     (case Option.bind (wanted_rect obj picture) (\<lambda>w. intersection w (full_rect picture)) of
        None \<Rightarrow> None
      | Some region \<Rightarrow> map_option (place_clipped obj region) (clipped_rect obj region window))"
  by (auto simp: place_object_cases clipped_rect_def split: option.splits bind_splits)

lemma clipped_rect_inside:
  assumes "intersection w (full_rect picture) = Some region" and "clipped_rect obj region window = Some c"
  shows "rect_ok c" "ucast (co_x obj) \<le> rect_x c" "ucast (co_y obj) \<le> rect_y c"
    "unat (rect_x c) + unat (rect_width c) \<le> unat (co_x obj) + unat (rect_width region)"
    "unat (rect_y c) + unat (rect_height c) \<le> unat (co_y obj) + unat (rect_height region)"
proof -
  let ?s = "screen_rect obj region"
  have "rect_ok c \<and> rect_x ?s \<le> rect_x c \<and> rect_y ?s \<le> rect_y c \<and>
      unat (rect_x c) + unat (rect_width c) \<le> unat (rect_x ?s) + unat (rect_width ?s) \<and>
      unat (rect_y c) + unat (rect_height c) \<le> unat (rect_y ?s) + unat (rect_height ?s)"
  proof (cases window)
    case None
    then show ?thesis using assms(2) screen_rect_inside(1) [OF assms(1), of obj]
      by (auto simp: clipped_rect_def)
  next
    case (Some win)
    then obtain r where "intersection ?s r = Some c"
      using assms(2) by (auto simp: clipped_rect_def bind_eq_Some_conv)
    from intersection_inside [OF this] intersection_covers(1) [OF this] show ?thesis by simp
  qed
  then show "rect_ok c" "ucast (co_x obj) \<le> rect_x c" "ucast (co_y obj) \<le> rect_y c"
    "unat (rect_x c) + unat (rect_width c) \<le> unat (co_x obj) + unat (rect_width region)"
    "unat (rect_y c) + unat (rect_height c) \<le> unat (co_y obj) + unat (rect_height region)"
    by (simp_all add: screen_rect_def unat_ucast_up)
qed

lemma clipped_rect_covers:
  "covers_opt (clipped_rect obj region window) x y \<longleftrightarrow>
     covers (screen_rect obj region) x y \<and> (window = None \<or> covers_opt (the window) x y)"
proof (cases window)
  case (Some win)
  show ?thesis
  proof (cases win)
    case (Some r)
    show ?thesis
    proof (cases "intersection (screen_rect obj region) r")
      case None
      from intersection_None [OF this, of x y] None Some \<open>window = Some win\<close> show ?thesis
        by (auto simp: clipped_rect_def covers_opt_def)
    next
      case (Some c)
      from intersection_covers(2) [OF this, of x y] Some \<open>win = Some r\<close> \<open>window = Some win\<close> show ?thesis
        by (simp add: clipped_rect_def covers_opt_def)
    qed
  qed (simp add: clipped_rect_def covers_opt_def Some)
qed (simp add: clipped_rect_def covers_opt_def)

lemma place_object_pixels:
  "placed_pixel (place_object obj (full_rect picture) window) x y = object_pixel obj picture window x y"
proof (cases "wanted_rect obj picture")
  case None
  then show ?thesis by (simp add: place_object_clipped object_pixel_def placed_pixel_def)
next
  case w: (Some w)
  let ?px = "unat (rect_x w) + (x - unat (co_x obj))" and ?py = "unat (rect_y w) + (y - unat (co_y obj))"
  show ?thesis
  proof (cases "intersection w (full_rect picture)")
    case None
    from intersection_None [OF this, of ?px ?py] w None show ?thesis
      by (auto simp: place_object_clipped object_pixel_def placed_pixel_def Let_def)
  next
    case region: (Some region)
    have "object_pixel obj picture window x y =
        (if covers_opt (clipped_rect obj region window) x y then Some (?px, ?py) else None)"
      by (simp add: object_pixel_def w Let_def clipped_rect_covers covers_screen [OF region])
    moreover have "placed_pixel (place_object obj (full_rect picture) window) x y =
        (if covers_opt (clipped_rect obj region window) x y then Some (?px, ?py) else None)"
    proof (cases "clipped_rect obj region window")
      case None
      then show ?thesis by (simp add: place_object_clipped w region placed_pixel_def covers_opt_def)
    next
      case (Some c)
      from placed_pixel_clipped [OF region clipped_rect_inside [OF region Some]] show ?thesis
        by (simp add: place_object_clipped w region Some covers_opt_def)
    qed
    ultimately show ?thesis by simp
  qed
qed

lemma place_object_region:
  assumes "place_object obj (full_rect picture) window = Some p"
  shows "rect_ok (placed_region p)" and "contains_rect (full_rect picture) (placed_region p)"
proof -
  from assms obtain w region c where "wanted_rect obj picture = Some w"
    and region: "intersection w (full_rect picture) = Some region"
    and c: "clipped_rect obj region window = Some c" and p: "p = place_clipped obj region c"
    by (auto simp: place_object_clipped split: option.splits bind_splits)
  from place_clipped_region(3,4) [OF region clipped_rect_inside [OF region c]]
  show "rect_ok (placed_region p)" and "contains_rect (full_rect picture) (placed_region p)"
    by (simp_all add: p)
qed

section \<open>The invariant\<close>

definition limits_ok :: "pgs_decoder_limits \<Rightarrow> bool" where
  "limits_ok l \<longleftrightarrow> max_object_rle_bytes l < usize_max \<and> max_epoch_rle_bytes l < usize_max"

definition stored_picture_ok :: "pgs_decoder_limits \<Rightarrow> indexed_picture \<Rightarrow> bool" where
  "stored_picture_ok l p \<longleftrightarrow> picture_ok p \<and> encoded_len p \<le> max_object_rle_bytes l"

definition stored_bytes :: "(u16 \<rightharpoonup> indexed_picture) \<Rightarrow> nat" where
  "stored_bytes m = (\<Sum>i \<in> dom m. encoded_len (the (m i)))"

definition epoch_inv :: "pgs_decoder_limits \<Rightarrow> epoch_state \<Rightarrow> bool" where
  "epoch_inv l ep \<longleftrightarrow>
     epoch_rle_bytes ep = stored_bytes (epoch_objects ep) \<and> epoch_rle_bytes ep \<le> max_epoch_rle_bytes l \<and>
     finite (dom (epoch_objects ep)) \<and>
     (\<forall>p \<in> ran (epoch_objects ep). stored_picture_ok l p) \<and>
     (\<forall>p \<in> ran (epoch_palettes ep). length p = PALETTE_LEN)"

definition in_progress_ok :: "pgs_decoder_limits \<Rightarrow> in_progress \<Rightarrow> bool" where
  "in_progress_ok l p \<longleftrightarrow>
     length (ip_bytes p) \<le> max_object_rle_bytes l \<and> ip_expected_rle_len p \<le> max_object_rle_bytes l \<and>
     ip_width p \<noteq> 0 \<and> ip_height p \<noteq> 0"

definition assembler_inv :: "pgs_decoder_limits \<Rightarrow> object_assembler \<Rightarrow> bool" where
  "assembler_inv l a \<longleftrightarrow> distinct (map fst a) \<and> (\<forall>(i, p) \<in> set a. in_progress_ok l p)"

definition assembled_ok :: "pgs_decoder_limits \<Rightarrow> assembled_object \<Rightarrow> bool" where
  "assembled_ok l obj \<longleftrightarrow>
     length (ao_rle_bytes obj) \<le> max_object_rle_bytes l \<and> ao_width obj \<noteq> 0 \<and> ao_height obj \<noteq> 0"

definition pending_inv :: "pgs_decoder_limits \<Rightarrow> bool \<Rightarrow> pending_set \<Rightarrow> bool" where
  "pending_inv l awaiting ps \<longleftrightarrow>
     (\<forall>obj \<in> set (pending_objects ps). assembled_ok l obj) \<and>
     (\<forall>(i, p) \<in> set (pending_palettes ps). length p = PALETTE_LEN) \<and>
     (disposition ps = IgnoreUntilEntryPoint \<longleftrightarrow> awaiting \<and> \<not> is_entry_point (pcs_state (pending_pcs ps)))"

definition decoder_inv :: "pgs_track_decoder \<Rightarrow> bool" where
  "decoder_inv d \<longleftrightarrow>
     limits_ok (decoder_limits d) \<and> epoch_inv (decoder_limits d) (epoch d) \<and>
     assembler_inv (decoder_limits d) (assembler d) \<and>
     (\<forall>ps. pending d = Some ps \<longrightarrow> pending_inv (decoder_limits d) (awaiting_entry_point d) ps) \<and>
     (pending d = None \<longrightarrow> assembler d = []) \<and>
     (awaiting_entry_point d \<longrightarrow> epoch d = empty_epoch)"

lemma empty_epoch_inv [simp]: "epoch_inv l empty_epoch"
  by (simp add: epoch_inv_def empty_epoch_def stored_bytes_def)

lemma assembler_inv_Nil [simp]: "assembler_inv l []"
  by (simp add: assembler_inv_def)

lemma decoder_inv_counting [simp]: "decoder_inv (d\<lparr>decoder_stats := st\<rparr>) = decoder_inv d"
  by (simp add: decoder_inv_def)

lemma new_decoder_inv: "limits_ok l \<Longrightarrow> decoder_inv (new_decoder l)"
  by (simp add: decoder_inv_def new_decoder_def)

lemma reset_inv: "decoder_inv d \<Longrightarrow> decoder_inv (reset_after_discontinuity d)"
  by (simp add: decoder_inv_def reset_after_discontinuity_def discard_unfinished_def)

lemma assembler_inv_delete: "assembler_inv l a \<Longrightarrow> assembler_inv l (AList.delete i a)"
  by (auto simp: assembler_inv_def AList.delete_eq distinct_map_filter)

lemma assembler_inv_update:
  assumes "assembler_inv l a" and "in_progress_ok l p"
  shows "assembler_inv l (AList.update i p a)"
proof -
  have "distinct (map fst (AList.update i p a))"
    using assms(1) by (simp add: assembler_inv_def distinct_update)
  moreover have "set (AList.update i p a) \<subseteq> insert (i, p) (set a)"
    by (induction a) auto
  ultimately show ?thesis using assms by (auto simp: assembler_inv_def)
qed

lemma assembler_inv_lookup: "assembler_inv l a \<Longrightarrow> map_of a i = Some p \<Longrightarrow> in_progress_ok l p"
  by (auto simp: assembler_inv_def dest: map_of_SomeD)

lemma begin_object_inv:
  assumes "assembler_inv l a" and "object_header_ok (fragment_pos f) (fragment_header f)"
    and "begin_object f l a st = (accepted, a', st')"
  shows "assembler_inv l a'"
  using assms assembler_inv_delete [of l a "fragment_object_id f"]
  by (auto simp: begin_object_def object_header_ok_def in_progress_ok_def Let_def
      intro!: assembler_inv_update split: option.splits if_splits)

lemma usize_saturating_le: "usize_saturating_add a b \<le> n \<Longrightarrow> n < usize_max \<Longrightarrow> a + b \<le> n"
  by (simp add: usize_saturating_add_def min_def split: if_splits)

lemma feed_inv:
  assumes "limits_ok l" and "assembler_inv l a" and "object_header_ok (fragment_pos f) (fragment_header f)"
    and "feed f l a st = (done, a', st')"
  shows "assembler_inv l a'" and "done = Some obj \<Longrightarrow> assembled_ok l obj"
proof -
  let ?i = "fragment_object_id f"
  obtain accepted a1 st1 where b: "begin_object f l a st = (accepted, a1, st1)" by (cases "begin_object f l a st") auto
  from begin_object_inv [OF assms(2,3) this] have a1: "assembler_inv l a1" .
  have "assembler_inv l a' \<and> (\<forall>obj. done = Some obj \<longrightarrow> assembled_ok l obj)"
  proof (cases "map_of a1 ?i")
    case None
    with assms(4) a1 show ?thesis by (auto simp: feed_def b Let_def split: if_splits)
  next
    case (Some p)
    have p: "in_progress_ok l p" using assembler_inv_lookup [OF a1 Some] .
    let ?p = "p\<lparr>ip_bytes := ip_bytes p @ rle_bytes f\<rparr>"
    have grown: "in_progress_ok l ?p"
      if "\<not> max_object_rle_bytes l < usize_saturating_add (length (ip_bytes p)) (length (rle_bytes f))"
      using usize_saturating_le [of "length (ip_bytes p)" "length (rle_bytes f)" "max_object_rle_bytes l"] that p assms(1)
      by (simp add: in_progress_ok_def limits_ok_def)
    from assms(4) a1 grown Some show ?thesis
      by (auto simp: feed_def b Let_def assembled_ok_def in_progress_ok_def
          intro!: assembler_inv_delete assembler_inv_update split: if_splits)
  qed
  then show "assembler_inv l a'" and "done = Some obj \<Longrightarrow> assembled_ok l obj" by blast+
qed

lemma stored_bytes_update:
  assumes "finite (dom m)"
  shows "stored_bytes (m(i \<mapsto> p)) = stored_bytes m - (case m i of None \<Rightarrow> 0 | Some q \<Rightarrow> encoded_len q) + encoded_len p"
proof (cases "m i")
  case None
  then have "i \<notin> dom m" by auto
  then have "(\<Sum>j \<in> dom m. encoded_len (the ((m(i \<mapsto> p)) j))) = stored_bytes m"
    unfolding stored_bytes_def by (intro sum.cong) auto
  with \<open>i \<notin> dom m\<close> assms None show ?thesis by (simp add: stored_bytes_def)
next
  case (Some q)
  then have i: "i \<in> dom m" by auto
  have "stored_bytes m = encoded_len q + (\<Sum>j \<in> dom m - {i}. encoded_len (the (m j)))"
    using sum.remove [OF assms i, of "\<lambda>j. encoded_len (the (m j))"] Some by (simp add: stored_bytes_def)
  moreover have "stored_bytes (m(i \<mapsto> p)) = encoded_len p + (\<Sum>j \<in> dom m - {i}. encoded_len (the (m j)))"
    using sum.remove [of "dom (m(i \<mapsto> p))" i "\<lambda>j. encoded_len (the ((m(i \<mapsto> p)) j))"] assms i
    by (simp add: stored_bytes_def insert_absorb)
  ultimately show ?thesis using Some by simp
qed

lemma try_insert_object_inv:
  assumes "limits_ok l" and "epoch_inv l ep" and "stored_picture_ok l p"
    and "try_insert_object i p (max_epoch_rle_bytes l) ep = (b, ep')"
  shows "epoch_inv l ep'"
proof (cases b)
  case True
  let ?replaced = "case epoch_objects ep i of None \<Rightarrow> 0 | Some existing \<Rightarrow> encoded_len existing"
  let ?total = "usize_saturating_add (epoch_rle_bytes ep - ?replaced) (encoded_len p)"
  have ep': "ep' = ep\<lparr>epoch_rle_bytes := ?total, epoch_objects := (epoch_objects ep)(i \<mapsto> p)\<rparr>"
    and limit: "?total \<le> max_epoch_rle_bytes l"
    using assms(4) True by (auto simp: try_insert_object_def Let_def split: if_splits)
  with assms(1) have "?total = epoch_rle_bytes ep - ?replaced + encoded_len p"
    by (simp add: usize_saturating_add_def limits_ok_def min_def split: if_splits)
  with limit assms(2,3) show ?thesis
    using stored_bytes_update [of "epoch_objects ep" i p]
    by (auto simp: epoch_inv_def ep' ran_def split: if_splits)
next
  case False
  with assms show ?thesis by (auto simp: try_insert_object_def Let_def split: if_splits)
qed

lemma store_object_inv:
  assumes "limits_ok (decoder_limits d)" and "epoch_inv (decoder_limits d) (epoch d)" and "assembled_ok (decoder_limits d) obj"
  shows "\<exists>ep st. store_object obj reference d = d\<lparr>epoch := ep, decoder_stats := st\<rparr> \<and> epoch_inv (decoder_limits d) ep"
proof -
  let ?p = "\<lparr>pic_width = ucast (ao_width obj), pic_height = ucast (ao_height obj), pic_encoding = HdmvRle (ao_rle_bytes obj)\<rparr>"
  have ok: "stored_picture_ok (decoder_limits d) ?p" if "ao_width obj \<noteq> 0" "ao_height obj \<noteq> 0"
    using assms(3) that
    by (simp add: stored_picture_ok_def picture_ok_def assembled_ok_def encoded_len_def unat_ucast_up
        flip: unat_eq_zero)
  obtain b ep where t: "try_insert_object (ao_object_id obj) ?p (max_epoch_rle_bytes (decoder_limits d)) (epoch d) = (b, ep)"
    by (cases "try_insert_object (ao_object_id obj) ?p (max_epoch_rle_bytes (decoder_limits d)) (epoch d)") auto
  have same: "d\<lparr>decoder_stats := st\<rparr> = d\<lparr>epoch := epoch d, decoder_stats := st\<rparr>" for st
    by (cases d) simp
  show ?thesis
  proof (cases "ref_width reference < ucast (ao_width obj) \<or> ref_height reference < ucast (ao_height obj)
      \<or> ao_width obj = 0 \<or> ao_height obj = 0")
    case True
    then have "\<exists>st. store_object obj reference d = d\<lparr>decoder_stats := st\<rparr>"
      by (auto simp: store_object_def)
    with assms(2) same show ?thesis by metis
  next
    case False
    from try_insert_object_inv [OF assms(1,2) ok t] False have "epoch_inv (decoder_limits d) ep" by simp
    moreover have "\<exists>st. store_object obj reference d = d\<lparr>epoch := ep, decoder_stats := st\<rparr>"
      using False t by (cases b; cases d) (auto simp: store_object_def)
    ultimately show ?thesis by blast
  qed
qed

lemma store_objects_inv:
  "limits_ok (decoder_limits d) \<Longrightarrow> epoch_inv (decoder_limits d) (epoch d) \<Longrightarrow>
     (\<forall>obj \<in> set objs. assembled_ok (decoder_limits d) obj) \<Longrightarrow>
     \<exists>ep st. fold (\<lambda>obj. store_object obj reference) objs d = d\<lparr>epoch := ep, decoder_stats := st\<rparr> \<and>
       epoch_inv (decoder_limits d) ep"
proof (induction objs arbitrary: d)
  case Nil
  then show ?case by (intro exI [of _ "epoch d"] exI [of _ "decoder_stats d"]) simp
next
  case (Cons obj objs)
  then obtain ep st where s: "store_object obj reference d = d\<lparr>epoch := ep, decoder_stats := st\<rparr>"
    "epoch_inv (decoder_limits d) ep"
    using store_object_inv [of d obj reference] by auto
  with Cons.IH [of "d\<lparr>epoch := ep, decoder_stats := st\<rparr>"] Cons.prems show ?case by simp
qed

lemma insert_windows_inv: "epoch_inv l (insert_windows ws ep) = epoch_inv l ep"
  by (simp add: epoch_inv_def insert_windows_def)

lemma insert_palettes_inv:
  assumes "epoch_inv l ep" and "\<forall>(i, p) \<in> set ps. length p = PALETTE_LEN"
  shows "epoch_inv l (insert_palettes ps ep)"
proof -
  have "\<forall>p \<in> ran (foldl (\<lambda>m (i, p). m(i \<mapsto> p)) m ps). length p = PALETTE_LEN"
    if "\<forall>p \<in> ran m. length p = PALETTE_LEN" for m :: "u8 \<rightharpoonup> picture_palette"
    using assms(2) that
  proof (induction ps arbitrary: m)
    case (Cons x ps)
    obtain i p where x: "x = (i, p)" by (cases x)
    have "\<forall>q \<in> ran (m(i \<mapsto> p)). length q = PALETTE_LEN"
      using Cons.prems x by (auto simp: ran_def)
    with Cons.IH [of "m(i \<mapsto> p)"] Cons.prems x show ?case by (simp add: fun_upd_def)
  qed simp
  from this [of "epoch_palettes ep"] assms(1) show ?thesis by (simp add: epoch_inv_def insert_palettes_def)
qed

lemma object_cues_ok:
  assumes "epoch_inv l ep" and "length palette = PALETTE_LEN"
  shows "\<forall>cue \<in> set (fst (object_cues pcs ep palette objs st)). cue_ok cue \<and> cue_reference_size cue = pcs_reference_size pcs"
proof (induction objs arbitrary: st)
  case (Cons obj objs)
  have "cue_ok cue \<and> cue_reference_size cue = pcs_reference_size pcs"
    if pic: "epoch_objects ep (co_object_id obj) = Some picture" and cue: "object_cue pcs ep palette picture obj = Some cue"
    for picture cue
  proof -
    from pic have "picture_ok picture"
      using assms(1) by (auto simp: epoch_inv_def stored_picture_ok_def ran_def)
    moreover from cue obtain p where
      "place_object obj (full_rect picture) (map_option window_rect (epoch_windows ep (co_window_id obj))) = Some p"
      "new_picture_cue (pcs_reference_size pcs) (placed_origin p) (placed_region p) picture palette (co_forced obj) = Inr cue"
      by (auto simp: object_cue_def split: option.splits sum.splits)
    ultimately show ?thesis
      using place_object_region assms(2) by (auto simp: new_picture_cue_def cue_ok_def split: if_splits)
  qed
  note head = this
  show ?case
  proof (cases "epoch_objects ep (co_object_id obj)")
    case None
    with Cons.IH show ?thesis by simp
  next
    case pic: (Some picture)
    show ?thesis
    proof (cases "object_cue pcs ep palette picture obj")
      case None
      with pic Cons.IH show ?thesis by simp
    next
      case (Some cue)
      obtain cues st' where "object_cues pcs ep palette objs st = (cues, st')" by (cases "object_cues pcs ep palette objs st")
      with pic Some head [OF pic Some] Cons.IH [of st] show ?thesis by simp
    qed
  qed
qed simp

lemma compose_inv:
  assumes "epoch_inv l ep" and "compose pcs ep st = (cues, ep', st')"
  shows "epoch_inv l ep'"
    and "cues = Some cs \<Longrightarrow> cue \<in> set cs \<Longrightarrow> cue_ok cue \<and> cue_reference_size cue = pcs_reference_size pcs"
proof -
  show "epoch_inv l ep'"
    using assms by (auto simp: compose_def Let_def epoch_inv_def split: option.splits if_splits prod.splits)
  assume "cues = Some cs" "cue \<in> set cs"
  with assms(2) obtain palette objs where "epoch_palettes ep (pcs_palette_id pcs) = Some palette"
    "cue \<in> set (fst (object_cues pcs ep palette objs st))"
    by (auto simp: compose_def Let_def split: if_splits option.splits prod.splits) (metis fst_conv)+
  moreover from this(1) assms(1) have "length palette = PALETTE_LEN" by (auto simp: epoch_inv_def ran_def)
  ultimately show "cue_ok cue \<and> cue_reference_size cue = pcs_reference_size pcs"
    using object_cues_ok [OF assms(1)] by blast
qed


section \<open>Every step keeps the invariant\<close>

definition composition_ok :: "pgs_composition \<Rightarrow> bool" where
  "composition_ok c \<longleftrightarrow> (\<forall>cue \<in> set (comp_cues c). cue_ok cue)"

definition step_ok :: "pgs_composition option \<times> pgs_track_decoder \<Rightarrow> bool" where
  "step_ok r \<longleftrightarrow> decoder_inv (snd r) \<and> (case fst r of None \<Rightarrow> True | Some c \<Rightarrow> composition_ok c)"

definition enter_set :: "pending_set \<Rightarrow> pgs_track_decoder \<Rightarrow> pgs_track_decoder" where
  "enter_set s d =
     (let d = (if pcs_state (pending_pcs s) = EpochStart then d\<lparr>epoch := empty_epoch\<rparr> else d) in
      if is_entry_point (pcs_state (pending_pcs s)) then d\<lparr>awaiting_entry_point := False\<rparr> else d)"

definition load_set :: "pending_set \<Rightarrow> pgs_track_decoder \<Rightarrow> pgs_track_decoder" where
  "load_set s d =
     (let d = d\<lparr>epoch := insert_palettes (pending_palettes s) (insert_windows (pending_windows s) (epoch d))\<rparr> in
      fold (\<lambda>obj. store_object obj (pcs_reference_size (pending_pcs s))) (pending_objects s) d)"

lemma apply_set_eq:
  "apply_set s d =
     (let d = counting (\<lambda>st. st\<lparr>display_sets_applied := display_sets_applied st + 1\<rparr>) (load_set s (enter_set s d)) in
      case compose (pending_pcs s) (epoch d) (decoder_stats d) of (cues, ep, st) \<Rightarrow>
        (Some \<lparr>comp_start = pending_start s, comp_cues = case_option [] (\<lambda>c. c) cues\<rparr>,
         d\<lparr>epoch := ep, decoder_stats := st\<lparr>compositions_emitted := compositions_emitted st + 1\<rparr>\<rparr>))"
  by (simp add: apply_set_def enter_set_def load_set_def Let_def)

lemma load_set_inv:
  assumes "limits_ok (decoder_limits d)" and "epoch_inv (decoder_limits d) (epoch d)"
    and "pending_inv (decoder_limits d) awaiting s"
  shows "\<exists>ep st. load_set s d = d\<lparr>epoch := ep, decoder_stats := st\<rparr> \<and> epoch_inv (decoder_limits d) ep"
proof -
  let ?ep = "insert_palettes (pending_palettes s) (insert_windows (pending_windows s) (epoch d))"
  have "epoch_inv (decoder_limits d) ?ep"
    using assms(2,3) by (intro insert_palettes_inv) (simp_all add: insert_windows_inv pending_inv_def)
  with store_objects_inv [of "d\<lparr>epoch := ?ep\<rparr>" "pending_objects s" "pcs_reference_size (pending_pcs s)"] assms
  show ?thesis by (auto simp: load_set_def pending_inv_def)
qed

lemma apply_set_ok:
  assumes "decoder_inv d" and "pending d = None" and "pending_inv (decoder_limits d) (awaiting_entry_point d) s"
    and "disposition s = Apply_Set"
  shows "step_ok (apply_set s d)"
proof -
  let ?d1 = "enter_set s d" and ?l = "decoder_limits d"
  have entered: "\<not> awaiting_entry_point ?d1" "pending ?d1 = None" "decoder_limits ?d1 = ?l"
    "assembler ?d1 = assembler d" "epoch_inv ?l (epoch ?d1)"
    using assms by (auto simp: enter_set_def Let_def pending_inv_def decoder_inv_def is_entry_point_def)
  with load_set_inv [of ?d1 "awaiting_entry_point d" s] assms obtain ep st where
    load: "load_set s ?d1 = ?d1\<lparr>epoch := ep, decoder_stats := st\<rparr>" and ep: "epoch_inv ?l ep"
    by (auto simp: decoder_inv_def)
  let ?st = "st\<lparr>display_sets_applied := display_sets_applied st + 1\<rparr>"
  obtain cues ep' st' where c: "compose (pending_pcs s) ep ?st = (cues, ep', st')"
    by (cases "compose (pending_pcs s) ep ?st") auto
  have "\<forall>cue \<in> set (case_option [] (\<lambda>c. c) cues). cue_ok cue"
    using compose_inv(2) [OF ep c] by (auto split: option.splits)
  moreover have "decoder_inv (?d1\<lparr>epoch := ep', decoder_stats := st''\<rparr>)" for st''
    using entered compose_inv(1) [OF ep c] assms(1,2) by (simp add: decoder_inv_def)
  ultimately show ?thesis
    by (simp add: apply_set_eq load c step_ok_def composition_ok_def Let_def)
qed

lemma handle_end_ok:
  assumes "decoder_inv d"
  shows "step_ok (handle_end d)" and "pending (snd (handle_end d)) = None"
proof -
  have "step_ok (handle_end d) \<and> pending (snd (handle_end d)) = None"
  proof (cases "pending d")
    case None
    with assms show ?thesis by (simp add: handle_end_def step_ok_def)
  next
    case (Some s)
    let ?d = "d\<lparr>pending := None, assembler := []\<rparr>"
    have inv: "decoder_inv ?d" using assms by (simp add: decoder_inv_def)
    have s: "pending_inv (decoder_limits d) (awaiting_entry_point d) s"
      using assms Some by (simp add: decoder_inv_def)
    show ?thesis
    proof (cases "disposition s")
      case Apply_Set
      let ?e = "counting (\<lambda>st. st\<lparr>incomplete_objects := incomplete_objects st + of_nat (length (assembler d))\<rparr>) ?d"
      have "step_ok (apply_set s ?e)"
        using inv s Apply_Set by (intro apply_set_ok) simp_all
      moreover have "pending (snd (apply_set s ?e)) = None"
      proof -
        have "pending (load_set s e) = pending e" for e
        proof -
          have "pending (fold (\<lambda>obj. store_object obj r) objs e) = pending e" for objs r and e :: pgs_track_decoder
            by (induction objs arbitrary: e) (auto simp: store_object_def split: prod.splits bool.splits)
          then show ?thesis by (simp add: load_set_def)
        qed
        then show ?thesis by (simp add: apply_set_eq enter_set_def Let_def split: prod.splits)
      qed
      ultimately show ?thesis using Some Apply_Set
        by (simp add: handle_end_def discard_unfinished_def)
    next
      case IgnoreUntilEntryPoint
      with inv Some show ?thesis by (simp add: handle_end_def discard_unfinished_def step_ok_def)
    qed
  qed
  then show "step_ok (handle_end d)" and "pending (snd (handle_end d)) = None" by blast+
qed


lemma handle_pcs_ok:
  assumes "decoder_inv d"
  shows "step_ok (handle_pcs t bytes d)"
proof -
  let ?r = "if pending d \<noteq> None
      then handle_end (counting (\<lambda>st. st\<lparr>implicit_end_sets := implicit_end_sets st + 1\<rparr>) d) else (None, d)"
  obtain c e where ce: "?r = (c, e)" by (cases ?r)
  have "step_ok ?r" using assms handle_end_ok(1) by (simp add: step_ok_def [of "(None, d)"])
  then have e: "decoder_inv e" "case c of None \<Rightarrow> True | Some c \<Rightarrow> composition_ok c"
    unfolding ce by (simp_all add: step_ok_def)
  have "decoder_inv (snd (handle_pcs t bytes d))"
  proof (cases "parse_pcs bytes")
    case (Inl x)
    with e(1) show ?thesis
      by (cases x) (simp_all add: handle_pcs_def ce del: not_None_eq)
  next
    case (Inr pcs)
    obtain disp f where cf: "classify pcs e = (disp, f)" by (cases "classify pcs e")
    then have "\<exists>st. f = e\<lparr>decoder_stats := st\<rparr>"
      by (auto simp: classify_def Let_def split: if_splits composition_state.splits)
        (metis pgs_track_decoder.surjective pgs_track_decoder.update_convs(2))+
    then obtain st where f: "f = e\<lparr>decoder_stats := st\<rparr>" by blast
    have "disp = IgnoreUntilEntryPoint \<longleftrightarrow> awaiting_entry_point e \<and> \<not> is_entry_point (pcs_state pcs)"
      using cf by (auto simp: classify_def Let_def split: if_splits composition_state.splits)
    with e(1) have "decoder_inv (f\<lparr>pending := Some \<lparr>pending_start = t, pending_pcs = pcs, disposition = disp,
        pending_windows = [], pending_palettes = [], pending_objects = []\<rparr>\<rparr>)"
      by (auto simp: f decoder_inv_def pending_inv_def)
    with Inr show ?thesis by (simp add: handle_pcs_def ce cf del: not_None_eq)
  qed
  moreover have "fst (handle_pcs t bytes d) = c" by (simp add: handle_pcs_def ce del: not_None_eq)
  ultimately show ?thesis using e(2) by (simp add: step_ok_def)
qed

lemma set_pending_inv:
  assumes "decoder_inv d" and "pending_inv (decoder_limits d) (awaiting_entry_point d) s"
  shows "decoder_inv (d\<lparr>pending := Some s\<rparr>)"
  using assms by (simp add: decoder_inv_def)

lemma handle_resource_inv:
  assumes "decoder_inv d"
  shows "decoder_inv (handle_resource s d)"
proof (cases "pending d")
  case (Some ps)
  then have ps: "pending_inv (decoder_limits d) (awaiting_entry_point d) ps"
    using assms by (simp add: decoder_inv_def)
  show ?thesis
  proof (cases "disposition ps = IgnoreUntilEntryPoint")
    case active: False
    show ?thesis
    proof (cases "kind s")
      case WindowDefinition
      with Some active ps assms show ?thesis
        by (auto simp: handle_resource_def pending_inv_def intro!: set_pending_inv split: sum.splits)
    next
      case PaletteDefinition
      with Some active ps assms show ?thesis
        by (auto simp: handle_resource_def pending_inv_def Let_def intro!: set_pending_inv split: sum.splits)
    next
      case ObjectDefinition
      show ?thesis
      proof (cases "parse_ods (payload s)")
        case (Inr f)
        then have f: "object_header_ok (fragment_pos f) (fragment_header f)" by (simp add: parse_ods_iff)
        obtain out a st where feed: "feed f (decoder_limits d) (assembler d) (decoder_stats d) = (out, a, st)"
          by (cases "feed f (decoder_limits d) (assembler d) (decoder_stats d)") auto
        have l: "limits_ok (decoder_limits d)" "assembler_inv (decoder_limits d) (assembler d)"
          using assms by (simp_all add: decoder_inv_def)
        note fed = feed_inv [OF l f feed]
        have d: "decoder_inv (d\<lparr>assembler := a, decoder_stats := st\<rparr>)"
          using assms fed(1) Some by (simp add: decoder_inv_def)
        show ?thesis
        proof (cases out)
          case None
          with Some active ObjectDefinition Inr d feed show ?thesis by (simp add: handle_resource_def)
        next
          case obj: (Some obj)
          from fed(2) [OF obj] ps have
            "pending_inv (decoder_limits d) (awaiting_entry_point d) (ps\<lparr>pending_objects := pending_objects ps @ [obj]\<rparr>)"
            by (auto simp: pending_inv_def)
          with set_pending_inv [OF d] Some active ObjectDefinition Inr feed obj show ?thesis
            by (simp add: handle_resource_def)
        qed
      qed (use Some active ObjectDefinition assms in \<open>simp add: handle_resource_def\<close>)
    qed (use Some active assms in \<open>simp_all add: handle_resource_def\<close>)
  qed (use Some assms in \<open>simp add: handle_resource_def\<close>)
qed (use assms in \<open>simp add: handle_resource_def\<close>)

lemma handle_segment_ok: "decoder_inv d \<Longrightarrow> step_ok (handle_segment t s d)"
  using handle_pcs_ok [of d t "payload s"] handle_end_ok(1) [of d] handle_resource_inv [of d s]
  by (cases "kind s") (simp_all add: handle_segment_def step_ok_def [of "(None, x)" for x])

lemma handle_segments_ok:
  "decoder_inv d \<Longrightarrow> handle_segments t ss d = (cs, e) \<Longrightarrow> decoder_inv e \<and> (\<forall>c \<in> set cs. composition_ok c)"
proof (induction ss arbitrary: d cs e)
  case (Cons s ss)
  obtain c f where cf: "handle_segment t s d = (c, f)" by (cases "handle_segment t s d")
  obtain cs' e' where ce: "handle_segments t ss f = (cs', e')" by (cases "handle_segments t ss f")
  have "decoder_inv f" "case c of None \<Rightarrow> True | Some c \<Rightarrow> composition_ok c"
    using handle_segment_ok [OF Cons.prems(1), of t s] by (simp_all add: cf step_ok_def)
  with Cons.IH [OF _ ce] Cons.prems(2) cf ce show ?case by (auto split: option.splits)
qed simp

lemma push_block_inv:
  "decoder_inv d \<Longrightarrow> push_block t bytes d = (cs, e) \<Longrightarrow> decoder_inv e \<and> (\<forall>c \<in> set cs. composition_ok c)"
  by (auto simp: push_block_def Let_def dest!: handle_segments_ok [rotated] split: if_splits)

section \<open>Histories of a decoder\<close>

datatype decoder_call = Push_Block subtitle_time "u8 list" | Discontinuity

fun decoder_step :: "decoder_call \<Rightarrow> pgs_track_decoder \<Rightarrow> pgs_composition list \<times> pgs_track_decoder" where
  "decoder_step (Push_Block t bytes) d = push_block t bytes d"
| "decoder_step Discontinuity d = ([], reset_after_discontinuity d)"

fun decoder_run :: "decoder_call list \<Rightarrow> pgs_track_decoder \<Rightarrow> pgs_composition list \<times> pgs_track_decoder" where
  "decoder_run [] d = ([], d)"
| "decoder_run (c # cs) d =
     (case decoder_step c d of (out, d) \<Rightarrow> case decoder_run cs d of (outs, d) \<Rightarrow> (out @ outs, d))"

lemma decoder_run_inv:
  "decoder_inv d \<Longrightarrow> decoder_run calls d = (cs, e) \<Longrightarrow> decoder_inv e \<and> (\<forall>c \<in> set cs. composition_ok c)"
proof (induction calls arbitrary: d cs e)
  case (Cons call calls)
  obtain out f where f: "decoder_step call d = (out, f)" by (cases "decoder_step call d")
  obtain outs g where g: "decoder_run calls f = (outs, g)" by (cases "decoder_run calls f")
  have "decoder_inv f \<and> (\<forall>c \<in> set out. composition_ok c)"
    using f Cons.prems(1) push_block_inv [of d _ _ out f] reset_inv by (cases call) auto
  with Cons.IH [OF _ g] Cons.prems(2) f g show ?case by auto
qed simp

section \<open>What is decoded does not depend on the counters\<close>

definition alike :: "pgs_track_decoder \<Rightarrow> pgs_track_decoder \<Rightarrow> bool" where
  "alike d e \<longleftrightarrow>
     decoder_limits d = decoder_limits e \<and> epoch d = epoch e \<and> assembler d = assembler e \<and>
     pending d = pending e \<and> awaiting_entry_point d = awaiting_entry_point e"

definition alike_result :: "'a \<times> pgs_track_decoder \<Rightarrow> 'a \<times> pgs_track_decoder \<Rightarrow> bool" where
  "alike_result r q \<longleftrightarrow> fst r = fst q \<and> alike (snd r) (snd q)"

lemma alike_refl [simp]: "alike d d"
  by (simp add: alike_def)

lemma alike_counting [simp]:
  "alike (d\<lparr>decoder_stats := st\<rparr>) e = alike d e" "alike d (e\<lparr>decoder_stats := st\<rparr>) = alike d e"
  by (simp_all add: alike_def)

lemma alike_resultI: "fst r = fst q \<Longrightarrow> alike (snd r) (snd q) \<Longrightarrow> alike_result r q"
  by (simp add: alike_result_def)

lemma object_cues_stats: "fst (object_cues pcs ep palette objs st) = fst (object_cues pcs ep palette objs st')"
  by (induction objs arbitrary: st st') (simp_all split: option.splits prod.splits, metis fst_conv)

lemma compose_stats:
  "fst (compose pcs ep st) = fst (compose pcs ep st')" "fst (snd (compose pcs ep st)) = fst (snd (compose pcs ep st'))"
  by (auto simp: compose_def Let_def case_prod_beta split: option.splits intro: object_cues_stats)

lemma feed_stats:
  "fst (feed f l a st) = fst (feed f l a st')" "fst (snd (feed f l a st)) = fst (snd (feed f l a st'))"
proof -
  have b: "fst (begin_object f l a st) = fst (begin_object f l a st')"
    "fst (snd (begin_object f l a st)) = fst (snd (begin_object f l a st'))"
    by (simp_all add: begin_object_def Let_def split: option.splits)
  obtain x y z where 1: "begin_object f l a st = (x, y, z)" by (cases "begin_object f l a st") auto
  obtain z' where 2: "begin_object f l a st' = (x, y, z')"
    using b by (cases "begin_object f l a st'") (auto simp: 1)
  show "fst (feed f l a st) = fst (feed f l a st')" "fst (snd (feed f l a st)) = fst (snd (feed f l a st'))"
    by (simp_all add: feed_def 1 2 Let_def split: option.splits)
qed

lemma store_object_alike: "alike d e \<Longrightarrow> alike (store_object obj r d) (store_object obj r e)"
  by (auto simp: store_object_def alike_def split: prod.splits bool.splits)

lemma store_objects_alike:
  "alike d e \<Longrightarrow> alike (fold (\<lambda>obj. store_object obj r) objs d) (fold (\<lambda>obj. store_object obj r) objs e)"
  by (induction objs arbitrary: d e) (simp_all add: store_object_alike)

lemma apply_set_alike:
  assumes "alike d e"
  shows "alike_result (apply_set s d) (apply_set s e)"
proof -
  have "alike (enter_set s d) (enter_set s e)"
    using assms by (auto simp: enter_set_def alike_def Let_def)
  then have load: "alike (load_set s (enter_set s d)) (load_set s (enter_set s e))" (is "alike ?d ?e")
    unfolding load_set_def Let_def by (intro store_objects_alike) (simp add: alike_def)
  have ep: "epoch ?e = epoch ?d" using load by (simp add: alike_def)
  obtain cues ep' st where c: "compose (pending_pcs s) (epoch ?d)
      ((decoder_stats ?d)\<lparr>display_sets_applied := display_sets_applied (decoder_stats ?d) + 1\<rparr>) = (cues, ep', st)"
    by (metis prod_cases3)
  obtain st' where "compose (pending_pcs s) (epoch ?d)
      ((decoder_stats ?e)\<lparr>display_sets_applied := display_sets_applied (decoder_stats ?e) + 1\<rparr>) = (cues, ep', st')"
    using compose_stats [of "pending_pcs s" "epoch ?d"] c by (metis fst_conv prod_cases3 snd_conv)
  with c load ep show ?thesis
    by (simp add: apply_set_eq Let_def alike_result_def) (simp add: alike_def)
qed

lemma handle_end_alike:
  assumes "alike d e"
  shows "alike_result (handle_end d) (handle_end e)"
proof (cases "pending d")
  case None
  then have "pending e = None" using assms by (simp add: alike_def)
  with None assms show ?thesis by (simp add: handle_end_def alike_result_def)
next
  case (Some s)
  then have e: "pending e = Some s" "assembler e = assembler d" using assms by (simp_all add: alike_def)
  have "alike (d\<lparr>pending := None, assembler := []\<rparr>) (e\<lparr>pending := None, assembler := []\<rparr>)"
    using assms by (simp add: alike_def)
  with Some e show ?thesis
    by (simp add: handle_end_def discard_unfinished_def Let_def apply_set_alike)
      (simp add: alike_result_def)
qed

lemma classify_alike:
  assumes "alike d e"
  shows "alike_result (classify pcs d) (classify pcs e)"
  using assms
  by (auto simp: classify_def alike_result_def Let_def alike_def split: composition_state.splits)

lemma handle_pcs_alike:
  assumes "alike d e"
  shows "alike_result (handle_pcs t bytes d) (handle_pcs t bytes e)"
proof -
  let ?r = "\<lambda>d. if pending d \<noteq> None
      then handle_end (counting (\<lambda>st. st\<lparr>implicit_end_sets := implicit_end_sets st + 1\<rparr>) d) else (None, d)"
  have "alike_result (?r d) (?r e)"
    using assms handle_end_alike by (auto simp: alike_result_def [of "(None, d)"] simp: alike_def)
  moreover obtain c d' where d': "?r d = (c, d')" by (cases "?r d")
  ultimately obtain e' where e': "?r e = (c, e')" and a: "alike d' e'"
    by (cases "?r e") (simp only: alike_result_def fst_conv snd_conv)
  show ?thesis
  proof (cases "parse_pcs bytes")
    case (Inl x)
    with a show ?thesis
      by (cases x) (simp_all add: handle_pcs_def d' e' alike_result_def del: not_None_eq)
  next
    case (Inr pcs)
    obtain disp f where f: "classify pcs d' = (disp, f)" by (cases "classify pcs d'")
    then obtain g where g: "classify pcs e' = (disp, g)" and fg: "alike f g"
      using classify_alike [OF a, of pcs] by (cases "classify pcs e'") (simp add: alike_result_def)
    from fg have "alike (f\<lparr>pending := p\<rparr>) (g\<lparr>pending := p\<rparr>)" for p by (simp add: alike_def)
    with Inr f g show ?thesis by (simp add: handle_pcs_def d' e' alike_result_def del: not_None_eq)
  qed
qed

lemma alike_pending: "alike d e \<Longrightarrow> alike (d\<lparr>pending := p\<rparr>) (e\<lparr>pending := p\<rparr>)"
  by (simp add: alike_def)

lemma handle_resource_alike:
  assumes "alike d e"
  shows "alike (handle_resource s d) (handle_resource s e)"
proof (cases "pending d")
  case None
  then have "pending e = None" using assms by (simp add: alike_def)
  with None assms show ?thesis by (simp add: handle_resource_def)
next
  case (Some ps)
  then have e: "pending e = Some ps" "assembler e = assembler d" "decoder_limits e = decoder_limits d"
    using assms by (simp_all add: alike_def)
  have a: "alike (d\<lparr>assembler := b\<rparr>) (e\<lparr>assembler := b\<rparr>)" for b using assms by (simp add: alike_def)
  show ?thesis
  proof (cases "kind s = ObjectDefinition \<and> disposition ps \<noteq> IgnoreUntilEntryPoint \<and> (\<exists>f. parse_ods (payload s) = Inr f)")
    case True
    then obtain f where f: "parse_ods (payload s) = Inr f" by blast
    obtain x y z where x: "feed f (decoder_limits d) (assembler d) (decoder_stats d) = (x, y, z)"
      by (metis prod_cases3)
    obtain z' where "feed f (decoder_limits d) (assembler d) (decoder_stats e) = (x, y, z')"
      using x feed_stats [of f "decoder_limits d" "assembler d"] by (metis fst_conv prod_cases3 snd_conv)
    with x True f Some e a [of y] show ?thesis
      by (cases x) (simp_all add: handle_resource_def Let_def alike_def)
  next
    case False
    with Some e assms show ?thesis
      by (auto simp: handle_resource_def Let_def alike_pending split: segment_kind.splits sum.splits)
  qed
qed

lemma handle_segment_alike: "alike d e \<Longrightarrow> alike_result (handle_segment t s d) (handle_segment t s e)"
  using handle_pcs_alike handle_end_alike handle_resource_alike
  by (cases "kind s") (auto simp: handle_segment_def alike_result_def [of "(None, x)" for x])

lemma handle_segments_alike: "alike d e \<Longrightarrow> alike_result (handle_segments t ss d) (handle_segments t ss e)"
proof (induction ss arbitrary: d e)
  case (Cons s ss)
  obtain c f where f: "handle_segment t s d = (c, f)" by (cases "handle_segment t s d")
  obtain g where g: "handle_segment t s e = (c, g)" and fg: "alike f g"
    using handle_segment_alike [OF Cons.prems, of t s] f by (cases "handle_segment t s e") (simp add: alike_result_def)
  from Cons.IH [OF fg] f g show ?case by (auto simp: alike_result_def split: prod.splits option.splits)
qed (simp add: alike_result_def)

lemma decoder_step_alike: "alike d e \<Longrightarrow> alike_result (decoder_step c d) (decoder_step c e)"
  by (cases c) (auto simp: push_block_def Let_def handle_segments_alike, simp add: alike_result_def alike_def
      reset_after_discontinuity_def discard_unfinished_def)

lemma decoder_run_alike: "alike d e \<Longrightarrow> alike_result (decoder_run calls d) (decoder_run calls e)"
proof (induction calls arbitrary: d e)
  case (Cons c calls)
  obtain out f where f: "decoder_step c d = (out, f)" by (cases "decoder_step c d")
  obtain g where g: "decoder_step c e = (out, g)" and fg: "alike f g"
    using decoder_step_alike [OF Cons.prems, of c] f by (cases "decoder_step c e") (simp add: alike_result_def)
  from Cons.IH [OF fg] f g show ?case by (auto simp: alike_result_def split: prod.splits)
qed (simp add: alike_result_def)

text \<open>After a seek the decoder behaves like a new one.\<close>

lemma seek_forgets:
  "fst (decoder_run calls (reset_after_discontinuity d)) = fst (decoder_run calls (new_decoder (decoder_limits d)))"
proof -
  have "alike (reset_after_discontinuity d) (new_decoder (decoder_limits d))"
    by (simp add: alike_def reset_after_discontinuity_def new_decoder_def discard_unfinished_def)
  from decoder_run_alike [OF this, of calls] show ?thesis by (simp add: alike_result_def)
qed

end
