(* ===== verification/Pgs_Picture.thy ===== *)
theory Pgs_Picture
  imports Pgs_Color
begin

text \<open>
  From a cue to pixels (\<open>picture_decode.rs\<close> of crate \<open>subtitle-pgs\<close>): the run-length data is decoded
  to palette indices, the visible region is cut out, and every index becomes a premultiplied colour.
  For a cue that satisfies its construction check no index is out of range, and each pixel of the
  result is the colour of the corresponding index.
\<close>

record premultiplied_rgba_image =
  img_width :: u32
  img_height :: u32
  img_pixels :: "u8 list"

definition image_pixel :: "premultiplied_rgba_image \<Rightarrow> u32 \<Rightarrow> u32 \<Rightarrow> (u8 \<times> u8 \<times> u8 \<times> u8) option" where
  "image_pixel img x y =
     (if img_width img \<le> x \<or> img_height img \<le> y then None
      else
        let offset = (unat y * unat (img_width img) + unat x) * 4 in
        if offset + 4 \<le> length (img_pixels img)
        then Some (img_pixels img ! offset, img_pixels img ! (offset + 1), img_pixels img ! (offset + 2),
                   img_pixels img ! (offset + 3))
        else None)"

record decoded_picture =
  dp_image :: premultiplied_rgba_image
  dp_report :: rle_report

datatype picture_decode_error = TooLarge u64 u64

definition premultiply :: "u8 \<Rightarrow> u8 \<Rightarrow> u8" where
  "premultiply channel a = ucast ((ucast channel * ucast a + 127) div 255 :: u16)"

definition rgba_bytes :: "palette_color \<Rightarrow> u8 list" where
  "rgba_bytes c = [premultiply (color_red c) (color_alpha c), premultiply (color_green c) (color_alpha c),
     premultiply (color_blue c) (color_alpha c), color_alpha c]"

text \<open>A range of a slice: out of range panics.\<close>

definition slice_range :: "nat \<Rightarrow> nat \<Rightarrow> 'a list \<Rightarrow> 'a list run" where
  "slice_range from len xs = (if from + len \<le> length xs then Some (take len (drop from xs)) else None)"

fun region_rows :: "picture_palette \<Rightarrow> u8 list \<Rightarrow> nat \<Rightarrow> nat \<Rightarrow> nat \<Rightarrow> nat list \<Rightarrow> u8 list run" where
  "region_rows palette ixs width x w [] = Some []"
| "region_rows palette ixs width x w (y # ys) =
     (case slice_range (y * width + x) w ixs of
        None \<Rightarrow> None
      | Some line \<Rightarrow>
          map_option (\<lambda>rest. concat (map (\<lambda>i. rgba_bytes (palette_color_at palette i)) line) @ rest)
            (region_rows palette ixs width x w ys))"

text \<open>The other encodings of the non-exhaustive enum do not exist, so \<open>UnsupportedEncoding\<close> never arises;
  \<open>usize\<close> holds any \<open>u32\<close>.\<close>

definition decode_picture_rgba ::
    "subtitle_picture_cue \<Rightarrow> u64 \<Rightarrow> (picture_decode_error + decoded_picture) run" where
  "decode_picture_rgba cue limit =
     (let picture = cue_picture cue;
          pixels = ucast (pic_width picture) * ucast (pic_height picture) :: u64
      in if limit < pixels then Some (Inl (TooLarge pixels limit))
         else
           let width = unat (pic_width picture); height = unat (pic_height picture);
               region = cue_visible_region cue in
           case decode_hdmv_rle (encoding_bytes (pic_encoding picture)) width height of
             None \<Rightarrow> None
           | Some d \<Rightarrow>
               map_option (\<lambda>rgba. Inr \<lparr>
                   dp_image = \<lparr>img_width = rect_width region, img_height = rect_height region, img_pixels = rgba\<rparr>,
                   dp_report = di_report d\<rparr>)
                 (region_rows (cue_palette cue) (di_indices d) width (unat (rect_x region))
                   (unat (rect_width region))
                   [unat (rect_y region)..<unat (rect_y region) + unat (rect_height region)]))"

section \<open>Premultiplication\<close>

text \<open>The product fits into 16 bits; the result is the rounded quotient and at most the alpha.\<close>

lemma unat_premultiply: "unat (premultiply c a) = (unat c * unat a + 127) div 255"
proof -
  have "unat c * unat a \<le> 255 * 255"
    using unat_u8_less [of c] unat_u8_less [of a] by (intro mult_le_mono) simp_all
  then have b: "unat c * unat a + 127 < 2 ^ 16" by simp
  let ?p = "ucast c * ucast a + 127 :: u16"
  have p: "?p = of_nat (unat c * unat a + 127)" by simp
  have "unat ?p = unat c * unat a + 127"
    using b by (subst p) (simp only: unat_of_nat take_bit_nat_eq_self len_of_numeral_defs, simp)
  moreover from this have "unat (?p div 255) = (unat c * unat a + 127) div 255" by (simp add: unat_div)
  moreover have "(unat c * unat a + 127) div 255 < 2 ^ 8"
    using \<open>unat c * unat a \<le> 255 * 255\<close> by simp
  ultimately show ?thesis by (simp add: premultiply_def unsigned_ucast_eq take_bit_nat_eq_self)
qed

lemma premultiply_le_alpha: "premultiply c a \<le> a"
proof -
  have "unat c * unat a + 127 < 255 * unat a + 255"
  proof -
    have "unat c \<le> 255" using unat_u8_less [of c] by simp
    then have "unat c * unat a \<le> 255 * unat a" by (rule mult_le_mono1)
    then show ?thesis by linarith
  qed
  then have "(unat c * unat a + 127) div 255 < unat a + 1" by (simp add: div_less_iff_less_mult)
  then show ?thesis by (simp add: word_le_nat_alt unat_premultiply)
qed


section \<open>Every pixel is the colour of its index\<close>

lemma length_rgba_bytes [simp]: "length (rgba_bytes c) = 4"
  by (simp add: rgba_bytes_def)

lemma concat_chunks_nth:
  "(\<And>x. x \<in> set xs \<Longrightarrow> length (f x) = n) \<Longrightarrow> i < length xs \<Longrightarrow> j < n \<Longrightarrow>
     concat (map f xs) ! (i * n + j) = f (xs ! i) ! j"
proof (induction xs arbitrary: i)
  case (Cons x xs)
  then show ?case by (cases i) (simp_all add: nth_append)
qed simp

lemma length_concat_chunks:
  "(\<And>x. x \<in> set xs \<Longrightarrow> length (f x) = n) \<Longrightarrow> length (concat (map f xs)) = length xs * n"
  by (induction xs) simp_all

lemma region_rows_eq:
  assumes "\<And>y. y \<in> set ys \<Longrightarrow> y * width + x + w \<le> length ixs"
  shows "region_rows palette ixs width x w ys =
    Some (concat (map (\<lambda>y. concat (map (\<lambda>i. rgba_bytes (palette_color_at palette i))
      (take w (drop (y * width + x) ixs)))) ys))"
  using assms by (induction ys) (auto simp: slice_range_def)

lemma row_in_range:
  assumes "x + w \<le> width" and "(y :: nat) < height"
  shows "y * width + x + w \<le> width * height"
proof -
  have "y * width + width \<le> height * width"
    using assms(2) mult_le_mono1 [of "Suc y" height width] by simp
  with assms(1) show ?thesis by (simp add: mult.commute)
qed

definition cue_index :: "subtitle_picture_cue \<Rightarrow> u8 list \<Rightarrow> nat \<Rightarrow> nat \<Rightarrow> u8" where
  "cue_index cue ixs x y =
     ixs ! ((unat (rect_y (cue_visible_region cue)) + y) * unat (pic_width (cue_picture cue)) +
            unat (rect_x (cue_visible_region cue)) + x)"

text \<open>The pixels are stored row by row: pixel \<open>(x, y)\<close> at \<open>4 * (y * width + x)\<close>.\<close>

lemma region_pixel:
  assumes "xx < unat (img_width img)" and "yy < unat (img_height img)"
    and pixels: "img_pixels img = concat (map (\<lambda>y. concat (map (\<lambda>i. rgba_bytes (f i)) (line y))) ys)"
    and len: "length ys = unat (img_height img)" "\<And>y. y \<in> set ys \<Longrightarrow> length (line y) = unat (img_width img)"
  shows "image_pixel img (of_nat xx) (of_nat yy) =
    (case rgba_bytes (f (line (ys ! yy) ! xx)) of [r, g, b, a] \<Rightarrow> Some (r, g, b, a) | _ \<Rightarrow> None)"
proof -
  let ?w = "unat (img_width img)" and ?h = "unat (img_height img)"
  let ?row = "\<lambda>y. concat (map (\<lambda>i. rgba_bytes (f i)) (line y))"
  have unats: "unat (of_nat xx :: u32) = xx" "unat (of_nat yy :: u32) = yy"
    using assms(1,2) unsigned_less [of "img_width img", where ?'a = nat] unsigned_less [of "img_height img", where ?'a = nat]
    by (simp_all add: unat_of_nat)
  have row_len: "length (?row y) = ?w * 4" if "y \<in> set ys" for y
    using length_concat_chunks [of "line y" "\<lambda>i. rgba_bytes (f i)" 4] len(2) [OF that] by simp
  have total: "length (img_pixels img) = ?h * (?w * 4)"
    using length_concat_chunks [of ys ?row "?w * 4"] row_len by (simp add: pixels len(1))
  have "yy \<in> {..<?h}" using assms(2) by simp
  then have y: "ys ! yy \<in> set ys" using len(1) by simp
  have at: "img_pixels img ! ((yy * ?w + xx) * 4 + j) = rgba_bytes (f (line (ys ! yy) ! xx)) ! j" if "j < 4" for j
  proof -
    have "xx * 4 + j < ?w * 4" using assms(1) that by simp
    then have "img_pixels img ! (yy * (?w * 4) + (xx * 4 + j)) = ?row (ys ! yy) ! (xx * 4 + j)"
      unfolding pixels using concat_chunks_nth [of ys ?row "?w * 4" yy "xx * 4 + j"] row_len assms(2) len(1) by simp
    also have "\<dots> = rgba_bytes (f (line (ys ! yy) ! xx)) ! j"
      using concat_chunks_nth [of "line (ys ! yy)" "\<lambda>i. rgba_bytes (f i)" 4 xx j] len(2) [OF y] assms(1) that by simp
    finally show ?thesis by (simp add: algebra_simps)
  qed
  have "(yy * ?w + xx) * 4 + 4 \<le> ?h * (?w * 4)"
  proof -
    have "yy * ?w + xx + 1 \<le> ?h * ?w"
      using row_in_range [of xx 1 ?w yy ?h] assms(1,2) by (simp add: mult.commute)
    then have "(yy * ?w + xx + 1) * 4 \<le> ?h * ?w * 4" by (rule mult_le_mono1)
    then show ?thesis by (simp add: algebra_simps)
  qed
  moreover have "\<not> img_width img \<le> of_nat xx" "\<not> img_height img \<le> of_nat yy"
    using assms(1,2) by (simp_all add: word_le_nat_alt unats)
  ultimately show ?thesis
    using at [of 0] at [of 1] at [of 2] at [of 3]
    by (simp add: image_pixel_def Let_def unats total rgba_bytes_def)
qed

definition premultiplied :: "palette_color \<Rightarrow> u8 \<times> u8 \<times> u8 \<times> u8" where
  "premultiplied c = (premultiply (color_red c) (color_alpha c), premultiply (color_green c) (color_alpha c),
     premultiply (color_blue c) (color_alpha c), color_alpha c)"

theorem decode_picture_pixels:
  assumes "cue_ok cue" and "pic_width (cue_picture cue) = w" "pic_height (cue_picture cue) = h"
    and "unat w * unat h \<le> unat limit"
  shows "\<exists>d img. decode_hdmv_rle (encoding_bytes (pic_encoding (cue_picture cue))) (unat w) (unat h) = Some d \<and>
    decode_picture_rgba cue limit = Some (Inr \<lparr>dp_image = img, dp_report = di_report d\<rparr>) \<and>
    img_width img = rect_width (cue_visible_region cue) \<and> img_height img = rect_height (cue_visible_region cue) \<and>
    (\<forall>x < unat (img_width img). \<forall>y < unat (img_height img).
       image_pixel img (of_nat x) (of_nat y) =
         Some (premultiplied (palette_color_at (cue_palette cue) (cue_index cue (di_indices d) x y))))"
proof -
  let ?r = "cue_visible_region cue"
  let ?x = "unat (rect_x ?r)" and ?y = "unat (rect_y ?r)" and ?w = "unat (rect_width ?r)" and ?h = "unat (rect_height ?r)"
  let ?f = "palette_color_at (cue_palette cue)"
  have limit: "unat w * unat h < 2 ^ 64"
    using assms(4) unsigned_less [of limit, where ?'a = nat] by simp
  then have "unat w * unat h \<le> usize_max" by (simp add: usize_max_def)
  from decode_total [OF this] obtain d where
    d: "decode_hdmv_rle (encoding_bytes (pic_encoding (cue_picture cue))) (unat w) (unat h) = Some d"
       "length (di_indices d) = unat w * unat h" by blast
  have fits: "?x + ?w \<le> unat w" "?y + ?h \<le> unat h"
    using assms(1-3) by (auto simp: cue_ok_def contains_full_rect)
  let ?ys = "[?y..<?y + ?h]"
  let ?line = "\<lambda>y. take ?w (drop (y * unat w + ?x) (di_indices d))"
  have range: "y * unat w + ?x + ?w \<le> length (di_indices d)" if "y \<in> set ?ys" for y
    using row_in_range [OF fits(1), of y "unat h"] that fits(2) by (simp add: d(2))
  have rows: "region_rows (cue_palette cue) (di_indices d) (unat w) ?x ?w ?ys =
      Some (concat (map (\<lambda>y. concat (map (\<lambda>i. rgba_bytes (?f i)) (?line y))) ?ys))"
    using range by (rule region_rows_eq)
  let ?img = "\<lparr>img_width = rect_width ?r, img_height = rect_height ?r,
      img_pixels = concat (map (\<lambda>y. concat (map (\<lambda>i. rgba_bytes (?f i)) (?line y))) ?ys)\<rparr>"
  have "unat (ucast w * ucast h :: u64) = unat w * unat h"
  proof -
    have "(ucast w * ucast h :: u64) = of_nat (unat w * unat h)" by simp
    then show ?thesis using limit by (simp only: unat_of_nat take_bit_nat_eq_self len_of_numeral_defs) simp
  qed
  then have "\<not> limit < ucast w * ucast h" using assms(4) by (simp add: word_less_nat_alt)
  then have run: "decode_picture_rgba cue limit = Some (Inr \<lparr>dp_image = ?img, dp_report = di_report d\<rparr>)"
    using rows d(1) assms(2,3) by (simp add: decode_picture_rgba_def Let_def)
  have "image_pixel ?img (of_nat x) (of_nat y) =
      Some (premultiplied (?f (cue_index cue (di_indices d) x y)))" if "x < ?w" "y < ?h" for x y
  proof -
    have "image_pixel ?img (of_nat x) (of_nat y) =
        (case rgba_bytes (?f (?line (?ys ! y) ! x)) of [r, g, b, a] \<Rightarrow> Some (r, g, b, a) | _ \<Rightarrow> None)"
    proof (rule region_pixel)
      fix z
      assume "z \<in> set ?ys"
      from range [OF this] show "length (?line z) = unat (img_width ?img)" by simp
    qed (use that in simp_all)
    moreover have "?line (?ys ! y) ! x = cue_index cue (di_indices d) x y"
      using that range [of "?ys ! y"] assms(2) by (simp add: cue_index_def add.assoc)
    ultimately show ?thesis by (simp add: rgba_bytes_def premultiplied_def)
  qed
  with d run show ?thesis by (intro exI [of _ d] exI [of _ ?img]) simp
qed

end
