(* ===== verification/Pgs_Builder.thy ===== *)
theory Pgs_Builder
  imports Pgs_Decoder Pgs_Picture
begin

text \<open>
  The stream builder of crate \<open>subtitle-pgs\<close> (\<open>stream_builder.rs\<close>), the encoder with which the tests
  exercise the decoder: a display set becomes segments, a stream becomes Matroska blocks or a \<open>.sup\<close>
  file. It is the reference for the decoder as a whole: the block of a display set that opens an epoch
  is decoded to one composition, and every pixel that its cues show is the colour of the pixel of the
  described image, at the described place.
\<close>

section \<open>Encoding a display set\<close>

definition encode_color :: "pgs_color_matrix \<Rightarrow> palette_color_spec \<Rightarrow> palette_entry_ycbcr" where
  "encode_color matrix c =
     (let (r, g, b, a) = color_rgba c; (y, u, v) = rgb_to_ycbcr matrix r g b in
      \<lparr>entry_index = color_index c, luma = y, cb = u, cr = v, entry_alpha = a\<rparr>)"

definition encode_pds_payload :: "palette_spec \<Rightarrow> pgs_color_matrix \<Rightarrow> u8 list" where
  "encode_pds_payload p matrix =
     [ps_palette_id p, ps_version p] @ concat (map (\<lambda>c. entry_bytes (encode_color matrix c)) (ps_colors p))"

text \<open>\<open>slice::chunks\<close>\<close>

function slice_chunks :: "nat \<Rightarrow> 'a list \<Rightarrow> 'a list list" where
  "slice_chunks n xs = (if n = 0 \<or> xs = [] then [] else take n xs # slice_chunks n (drop n xs))"
  by pat_completeness auto

termination
  by (relation "measure (\<lambda>(n, xs). length xs)") auto

declare slice_chunks.simps [simp del]

definition fragment_flags :: "bool \<Rightarrow> bool \<Rightarrow> u8" where
  "fragment_flags is_first is_last =
     (case (is_first, is_last) of
        (True, True) \<Rightarrow> 0xC0 | (True, False) \<Rightarrow> 0x80 | (False, True) \<Rightarrow> 0x40 | (False, False) \<Rightarrow> 0)"

definition ods_payload :: "object_image_spec \<Rightarrow> u32 \<Rightarrow> bool \<Rightarrow> bool \<Rightarrow> u8 list \<Rightarrow> u8 list" where
  "ods_payload img declared is_first is_last chunk =
     u16_bytes (image_object_id img) @ [0] @ [fragment_flags is_first is_last] @
     (if is_first then u24_bytes declared @ u16_bytes (image_width img) @ u16_bytes (image_height img) else []) @
     chunk"

fun ods_payloads :: "object_image_spec \<Rightarrow> u32 \<Rightarrow> bool \<Rightarrow> u8 list list \<Rightarrow> u8 list list" where
  "ods_payloads img declared first [] = []"
| "ods_payloads img declared first (chunk # chunks) =
     ods_payload img declared first (chunks = []) chunk # ods_payloads img declared False chunks"

definition ods_chunks :: "object_image_spec \<Rightarrow> u8 list list" where
  "ods_chunks img =
     (let rle = encode_rle (image_indices img) (image_width img) (image_height img);
          chunk_len = max (case_option usize_max (\<lambda>n. n) (max_rle_bytes_per_fragment img)) 1;
          chunk_len = min chunk_len (65535 - 11)
      in if rle = [] then [[]] else slice_chunks chunk_len rle)"

definition declared_length :: "object_image_spec \<Rightarrow> u32" where
  "declared_length img =
     (let n = length (encode_rle (image_indices img) (image_width img) (image_height img)) + 4 in
      if n < 2 ^ 32 then of_nat n else 0x00FFFFFF)"

definition encode_ods_segments :: "object_image_spec \<Rightarrow> u8 list list" where
  "encode_ods_segments img =
     map (encode_segment ObjectDefinition) (ods_payloads img (declared_length img) True (ods_chunks img))"

definition spec_matrix :: "display_set_spec \<Rightarrow> pgs_color_matrix" where
  "spec_matrix spec = for_reference_height (ucast (ds_reference_height spec))"

definition encode_display_set_segments :: "display_set_spec \<Rightarrow> u16 \<Rightarrow> u8 list list" where
  "encode_display_set_segments spec number =
     [encode_segment PresentationComposition (encode_pcs_payload spec number)] @
     (if ds_windows spec = [] then []
      else [encode_segment WindowDefinition (encode_wds_payload (ds_windows spec))]) @
     map (\<lambda>p. encode_segment PaletteDefinition (encode_pds_payload p (spec_matrix spec))) (ds_palettes spec) @
     concat (map encode_ods_segments (ds_images spec)) @
     [encode_segment EndOfDisplaySet []]"

section \<open>Streams\<close>

type_synonym pgs_stream_builder = "(subtitle_time \<times> u8 list list) list"

definition push_display_set :: "subtitle_time \<Rightarrow> display_set_spec \<Rightarrow> pgs_stream_builder \<Rightarrow> pgs_stream_builder" where
  "push_display_set time spec b =
     b @ [(time, encode_display_set_segments spec (of_nat (length b mod (65535 + 1))))]"

definition block_payloads :: "pgs_stream_builder \<Rightarrow> (subtitle_time \<times> u8 list) list" where
  "block_payloads b = map (\<lambda>(time, segs). (time, concat segs)) b"

text \<open>The microseconds are an \<open>i64\<close>; the product wraps as in a release build.\<close>

definition sup_ticks :: "subtitle_time \<Rightarrow> u32" where
  "sup_ticks time =
     (let product = signed_take_bit 63 (max time 0 * 9); ticks = sgn product * (\<bar>product\<bar> div 100) in
      if 0 \<le> ticks \<and> ticks < 2 ^ 32 then of_int ticks else - 1)"

definition to_sup_bytes :: "pgs_stream_builder \<Rightarrow> u8 list" where
  "to_sup_bytes b =
     concat (map (\<lambda>(time, segs).
       concat (map (\<lambda>s. SUP_MAGIC @ u32_bytes (sup_ticks time) @ u32_bytes 0 @ s) segs)) b)"

section \<open>The segments of a display set\<close>

definition pcs_segment :: "display_set_spec \<Rightarrow> u16 \<Rightarrow> segment" where
  "pcs_segment spec number = \<lparr>kind = PresentationComposition, payload = encode_pcs_payload spec number\<rparr>"

definition wds_segments :: "display_set_spec \<Rightarrow> segment list" where
  "wds_segments spec =
     (if ds_windows spec = [] then []
      else [\<lparr>kind = WindowDefinition, payload = encode_wds_payload (ds_windows spec)\<rparr>])"

definition pds_segment :: "pgs_color_matrix \<Rightarrow> palette_spec \<Rightarrow> segment" where
  "pds_segment matrix p = \<lparr>kind = PaletteDefinition, payload = encode_pds_payload p matrix\<rparr>"

definition ods_segments :: "object_image_spec \<Rightarrow> segment list" where
  "ods_segments img =
     map (\<lambda>bytes. \<lparr>kind = ObjectDefinition, payload = bytes\<rparr>)
       (ods_payloads img (declared_length img) True (ods_chunks img))"

definition end_segment :: segment where
  "end_segment = \<lparr>kind = EndOfDisplaySet, payload = []\<rparr>"

definition display_set_segments :: "display_set_spec \<Rightarrow> u16 \<Rightarrow> segment list" where
  "display_set_segments spec number =
     [pcs_segment spec number] @ wds_segments spec @ map (pds_segment (spec_matrix spec)) (ds_palettes spec) @
     concat (map ods_segments (ds_images spec)) @ [end_segment]"

lemma encode_display_set_segments_eq:
  "encode_display_set_segments spec number = map segment_bytes (display_set_segments spec number)"
proof -
  have "encode_ods_segments img = map segment_bytes (ods_segments img)" for img
    by (simp add: encode_ods_segments_def ods_segments_def segment_bytes_def)
  then have ods: "concat (map encode_ods_segments images) = map segment_bytes (concat (map ods_segments images))" for images
    by (induction images) simp_all
  show ?thesis
    unfolding encode_display_set_segments_def display_set_segments_def map_append ods
    by (simp add: pcs_segment_def wds_segments_def pds_segment_def end_segment_def segment_bytes_def)
qed

text \<open>The limits of the encoding: at most 13106 colours fit into a palette segment.\<close>

definition palette_spec_ok :: "palette_spec \<Rightarrow> bool" where
  "palette_spec_ok p \<longleftrightarrow> 2 + 5 * length (ps_colors p) < 2 ^ 16"

lemma length_concat_const: "list_all (\<lambda>x. length (f x) = n) xs \<Longrightarrow> length (concat (map f xs)) = n * length xs"
  by (induction xs) simp_all

lemma length_concat_le: "list_all (\<lambda>x. length (f x) \<le> n) xs \<Longrightarrow> length (concat (map f xs)) \<le> n * length xs"
  by (induction xs) simp_all

lemma length_pds_payload: "length (encode_pds_payload p matrix) = 2 + 5 * length (ps_colors p)"
  using length_concat_const [of "\<lambda>c. entry_bytes (encode_color matrix c)" 5 "ps_colors p"]
  by (simp add: encode_pds_payload_def length_entry_bytes list_all_iff)

lemma length_wds_payload: "length (encode_wds_payload ws) < 2 ^ 16"
proof -
  have "length (concat (map window_bytes (take 255 ws))) = 9 * length (take 255 ws)"
    by (rule length_concat_const) (simp add: window_bytes_def list_all_iff)
  then show ?thesis by (simp add: encode_wds_payload_def)
qed

lemma length_pcs_payload: "length (encode_pcs_payload spec number) < 2 ^ 16"
proof -
  have "length (concat (map composition_object_bytes (take 255 (ds_composition spec)))) \<le>
      16 * length (take 255 (ds_composition spec))"
    by (rule length_concat_le) (auto simp: composition_object_bytes_def crop_bytes_def list_all_iff split: option.splits)
  then show ?thesis by (simp add: encode_pcs_payload_def)
qed

lemma slice_chunks_ok:
  "0 < n \<Longrightarrow> concat (slice_chunks n xs) = xs" "list_all (\<lambda>c. length c \<le> n) (slice_chunks n xs)"
  "0 < n \<Longrightarrow> xs \<noteq> [] \<Longrightarrow> slice_chunks n xs \<noteq> []"
proof (induction n xs rule: slice_chunks.induct)
  case (1 n xs)
  {
    case 1
    with "1.IH" show ?case by (subst slice_chunks.simps) simp
  next
    case 2
    with "1.IH" show ?case by (subst slice_chunks.simps) auto
  next
    case 3
    then show ?case by (subst slice_chunks.simps) simp
  }
qed

lemma ods_chunks_ok:
  "concat (ods_chunks img) = encode_rle (image_indices img) (image_width img) (image_height img)"
  "list_all (\<lambda>c. length c \<le> 65524) (ods_chunks img)" "ods_chunks img \<noteq> []"
proof -
  let ?rle = "encode_rle (image_indices img) (image_width img) (image_height img)"
  let ?n = "min (max (case_option usize_max (\<lambda>n. n) (max_rle_bytes_per_fragment img)) 1) 65524"
  have "list_all (\<lambda>c. length c \<le> 65524) (slice_chunks ?n ?rle)"
    using slice_chunks_ok(2) [of ?n ?rle] by (auto simp: list_all_iff)
  then show "concat (ods_chunks img) = ?rle" "list_all (\<lambda>c. length c \<le> 65524) (ods_chunks img)"
    "ods_chunks img \<noteq> []"
    using slice_chunks_ok(1,3) [of ?n ?rle] by (simp_all add: ods_chunks_def Let_def)
qed

lemma length_ods_payload: "length chunk \<le> 65524 \<Longrightarrow> length (ods_payload img declared is_first is_last chunk) < 2 ^ 16"
  by (simp add: ods_payload_def u24_bytes_def u32_bytes_def)

lemma ods_payloads_length:
  "list_all (\<lambda>c. length c \<le> 65524) cs \<Longrightarrow>
     list_all (\<lambda>bytes. length bytes < 2 ^ 16) (ods_payloads img declared first cs)"
proof (induction cs arbitrary: first)
  case (Cons c cs)
  then show ?case using length_ods_payload [of c] by simp
qed simp

lemma display_set_segments_ok:
  assumes "list_all palette_spec_ok (ds_palettes spec)"
  shows "list_all segment_ok (display_set_segments spec number)"
proof -
  have "list_all segment_ok (ods_segments img)" for img
    using ods_payloads_length [OF ods_chunks_ok(2), of img "declared_length img" True]
    by (simp add: ods_segments_def list_all_iff segment_ok_def kind_from_byte_def)
  then have ods: "list_all segment_ok (concat (map ods_segments (ds_images spec)))"
    by (simp add: list_all_iff)
  have pds: "list_all segment_ok (map (pds_segment (spec_matrix spec)) (ds_palettes spec))"
    using assms by (simp add: list_all_iff palette_spec_ok_def pds_segment_def segment_ok_def kind_from_byte_def
        length_pds_payload)
  have "segment_ok (pcs_segment spec number)" "list_all segment_ok (wds_segments spec)" "segment_ok end_segment"
    using length_pcs_payload [of spec number] length_wds_payload [of "ds_windows spec"]
    by (simp_all add: pcs_segment_def wds_segments_def end_segment_def segment_ok_def kind_from_byte_def)
  with pds ods show ?thesis by (simp add: display_set_segments_def)
qed

lemma display_set_block:
  assumes "list_all palette_spec_ok (ds_palettes spec)"
  shows "split_block (concat (encode_display_set_segments spec number)) =
    \<lparr>segments = display_set_segments spec number, framing_error = None\<rparr>"
proof (rule split_block_bytes)
  show ok: "list_all segment_ok (display_set_segments spec number)"
    using assms by (rule display_set_segments_ok)
  let ?bytes = "concat (map segment_bytes (display_set_segments spec number))"
  have "segment_bytes (pcs_segment spec number) =
      0x16 # be_bytes 2 (length (encode_pcs_payload spec number)) @ encode_pcs_payload spec number"
    using ok by (subst segment_bytes_eq) (simp_all add: display_set_segments_def pcs_segment_def)
  then obtain rest where "?bytes = 0x16 # rest" by (simp add: display_set_segments_def)
  then have "take 2 ?bytes \<noteq> SUP_MAGIC" by (cases rest) (simp_all add: SUP_MAGIC_def)
  then show "skip_sup_prefix (concat (encode_display_set_segments spec number)) = ?bytes"
    by (simp add: encode_display_set_segments_eq skip_sup_prefix_def)
qed

lemma sup_file_records:
  assumes "list_all (list_all segment_ok) (map snd sets)"
    and "b = map (\<lambda>(time, segs). (time, map segment_bytes segs)) sets"
  shows "read_sup (to_sup_bytes b) =
    Inr (concat (map (\<lambda>(time, segs). map (\<lambda>s. sup_record (sup_ticks time, 0, s)) segs) sets))"
proof -
  let ?rs = "concat (map (\<lambda>(time, segs). map (\<lambda>s. (sup_ticks time, 0, s)) segs) sets)"
  have "list_all sup_record_ok ?rs"
    using assms(1) by (fastforce simp: list_all_iff sup_record_ok_def)
  moreover have "to_sup_bytes b = concat (map sup_record_bytes ?rs)"
    unfolding assms(2) to_sup_bytes_def
    by (induction sets) (auto simp: sup_record_bytes_def comp_def)
  moreover have "concat (map (\<lambda>(time, segs). map (\<lambda>s. sup_record (sup_ticks time, 0, s)) segs) sets) = map sup_record ?rs"
    by (induction sets) auto
  ultimately show ?thesis by (auto simp: read_sup_iff intro!: exI [of _ ?rs])
qed

section \<open>Loading the resources of a set\<close>

lemma handle_segments_append:
  "handle_segments t (xs @ ys) d =
     (case handle_segments t xs d of (cs, d) \<Rightarrow> case handle_segments t ys d of (cs', d) \<Rightarrow> (cs @ cs', d))"
  by (induction xs arbitrary: d) (auto split: prod.splits option.splits)

text \<open>The segments change only the pending set, the assembler and the counters.\<close>

definition loads :: "pgs_decoder_limits \<Rightarrow> segment list \<Rightarrow> (pending_set \<Rightarrow> pending_set) \<Rightarrow> bool" where
  "loads l segs f \<longleftrightarrow>
     (\<forall>d ps t. decoder_limits d = l \<longrightarrow> pending d = Some ps \<longrightarrow> disposition ps = Apply_Set \<longrightarrow>
        disposition (f ps) = Apply_Set \<and>
        (\<exists>a st. handle_segments t segs d =
           ([], d\<lparr>pending := Some (f ps), assembler := a, decoder_stats := st\<rparr>)))"

lemma loadsI:
  assumes "\<And>d ps t. decoder_limits d = l \<Longrightarrow> pending d = Some ps \<Longrightarrow> disposition ps = Apply_Set \<Longrightarrow>
      disposition (f ps) = Apply_Set \<and>
      (\<exists>a st. handle_segments t segs d = ([], d\<lparr>pending := Some (f ps), assembler := a, decoder_stats := st\<rparr>))"
  shows "loads l segs f"
  using assms unfolding loads_def by blast

lemma loadsD:
  assumes "loads l segs f" and "decoder_limits d = l" and "pending d = Some ps" and "disposition ps = Apply_Set"
  shows "\<exists>a st. handle_segments t segs d = ([], d\<lparr>pending := Some (f ps), assembler := a, decoder_stats := st\<rparr>)"
  using assms unfolding loads_def by blast

lemma loads_pureI:
  assumes "\<And>d ps t. pending d = Some ps \<Longrightarrow> disposition ps = Apply_Set \<Longrightarrow>
      disposition (f ps) = Apply_Set \<and> handle_segments t segs d = ([], d\<lparr>pending := Some (f ps)\<rparr>)"
  shows "loads l segs f"
proof (rule loadsI)
  fix d :: pgs_track_decoder and ps t
  assume d: "pending d = Some ps" "disposition ps = Apply_Set"
  have "d\<lparr>pending := Some (f ps)\<rparr> =
      d\<lparr>pending := Some (f ps), assembler := assembler d, decoder_stats := decoder_stats d\<rparr>"
    by (cases d) simp
  with assms [OF d, of t] show "disposition (f ps) = Apply_Set \<and>
      (\<exists>a st. handle_segments t segs d = ([], d\<lparr>pending := Some (f ps), assembler := a, decoder_stats := st\<rparr>))"
    by metis
qed

lemma loads_Nil: "loads l [] (\<lambda>ps. ps)"
  by (rule loads_pureI) simp

lemma loads_append:
  assumes "loads l xs f" and "loads l ys g"
  shows "loads l (xs @ ys) (\<lambda>ps. g (f ps))"
proof (rule loadsI)
  fix d :: pgs_track_decoder and ps t
  assume d: "decoder_limits d = l" "pending d = Some ps" "disposition ps = Apply_Set"
  with assms(1) obtain a st where f: "disposition (f ps) = Apply_Set"
    "handle_segments t xs d = ([], d\<lparr>pending := Some (f ps), assembler := a, decoder_stats := st\<rparr>)"
    unfolding loads_def by blast
  let ?d = "d\<lparr>pending := Some (f ps), assembler := a, decoder_stats := st\<rparr>"
  have "decoder_limits ?d = l" "pending ?d = Some (f ps)" using d by simp_all
  with assms(2) f(1) obtain b st' where g: "disposition (g (f ps)) = Apply_Set"
    "handle_segments t ys ?d = ([], ?d\<lparr>pending := Some (g (f ps)), assembler := b, decoder_stats := st'\<rparr>)"
    unfolding loads_def by blast
  with f show "disposition (g (f ps)) = Apply_Set \<and>
      (\<exists>a st. handle_segments t (xs @ ys) d = ([], d\<lparr>pending := Some (g (f ps)), assembler := a, decoder_stats := st\<rparr>))"
    by (auto simp: handle_segments_append)
qed

lemma loads_concat:
  assumes "\<And>x. x \<in> set xs \<Longrightarrow> loads l (segs x) (f x)"
  shows "loads l (concat (map segs xs)) (\<lambda>ps. foldl (\<lambda>ps x. f x ps) ps xs)"
  using assms
proof (induction xs)
  case Nil
  then show ?case using loads_Nil by simp
next
  case (Cons x xs)
  then show ?case using loads_append [of l "segs x" "f x" "concat (map segs xs)"] by simp
qed

definition add_windows :: "window_definition list \<Rightarrow> pending_set \<Rightarrow> pending_set" where
  "add_windows ws ps = ps\<lparr>pending_windows := pending_windows ps @ ws\<rparr>"

definition add_palette :: "u8 \<times> picture_palette \<Rightarrow> pending_set \<Rightarrow> pending_set" where
  "add_palette p ps = ps\<lparr>pending_palettes := pending_palettes ps @ [p]\<rparr>"

definition add_object :: "assembled_object \<Rightarrow> pending_set \<Rightarrow> pending_set" where
  "add_object obj ps = ps\<lparr>pending_objects := pending_objects ps @ [obj]\<rparr>"

lemma parse_wds_encode: "parse_wds (encode_wds_payload ws) = Inr (take 255 ws)"
proof -
  have "encode_wds_payload (take 255 ws) = encode_wds_payload ws"
    by (auto simp: encode_wds_payload_def min_def)
  then show ?thesis by (simp add: parse_wds_iff exI [of _ "[]"])
qed

lemma loads_wds: "loads l (wds_segments spec) (add_windows (take 255 (ds_windows spec)))"
proof (rule loads_pureI)
  fix d :: pgs_track_decoder and ps t
  assume d: "pending d = Some ps" "disposition ps = Apply_Set"
  let ?f = "add_windows (take 255 (ds_windows spec))"
  have "handle_segments t (wds_segments spec) d = ([], d\<lparr>pending := Some (?f ps)\<rparr>)"
    using d by (cases d) (auto simp: wds_segments_def handle_segment_def handle_resource_def parse_wds_encode add_windows_def)
  then show "disposition (?f ps) = Apply_Set \<and> handle_segments t (wds_segments spec) d = ([], d\<lparr>pending := Some (?f ps)\<rparr>)"
    using d(2) by (simp add: add_windows_def)
qed

definition palette_of_spec :: "pgs_color_matrix \<Rightarrow> palette_spec \<Rightarrow> palette_definition" where
  "palette_of_spec matrix p =
     \<lparr>pd_palette_id = ps_palette_id p, pd_version = ps_version p,
      pd_entries = map (encode_color matrix) (ps_colors p), trailing_partial_bytes = 0\<rparr>"

lemma parse_pds_encode: "parse_pds (encode_pds_payload p matrix) = Inr (palette_of_spec matrix p)"
  by (simp add: parse_pds_iff palette_of_spec_def encode_pds_payload_def comp_def ENTRY_LEN_def)

definition set_matrix :: "pending_set \<Rightarrow> pgs_color_matrix" where
  "set_matrix ps = for_reference_height (ref_height (pcs_reference_size (pending_pcs ps)))"

lemma loads_pds:
  "loads l [pds_segment matrix p]
     (\<lambda>ps. add_palette (ps_palette_id p, to_palette (set_matrix ps) (palette_of_spec matrix p)) ps)"
proof (rule loads_pureI)
  fix d :: pgs_track_decoder and ps t
  assume d: "pending d = Some ps" "disposition ps = Apply_Set"
  let ?f = "\<lambda>ps. add_palette (ps_palette_id p, to_palette (set_matrix ps) (palette_of_spec matrix p)) ps"
  have "handle_segments t [pds_segment matrix p] d = ([], d\<lparr>pending := Some (?f ps)\<rparr>)"
    using d by (simp add: pds_segment_def handle_segment_def handle_resource_def parse_pds_encode
        add_palette_def set_matrix_def Let_def palette_of_spec_def)
  then show "disposition (?f ps) = Apply_Set \<and> handle_segments t [pds_segment matrix p] d = ([], d\<lparr>pending := Some (?f ps)\<rparr>)"
    using d(2) by (simp add: add_palette_def)
qed

section \<open>Joining the fragments of an image\<close>

definition fragment_of :: "object_image_spec \<Rightarrow> u32 \<Rightarrow> bool \<Rightarrow> bool \<Rightarrow> u8 list \<Rightarrow> object_fragment" where
  "fragment_of img declared is_first is_last chunk =
     \<lparr>fragment_object_id = image_object_id img, fragment_version = 0,
      fragment_pos = position_from_flags (fragment_flags is_first is_last),
      fragment_header =
        (if is_first then Some \<lparr>declared_data_length = declared, header_width = image_width img,
                               header_height = image_height img\<rparr> else None),
      rle_bytes = chunk\<rparr>"

lemma fragment_position:
  "starts_object (position_from_flags (fragment_flags is_first is_last)) = is_first"
  "ends_object (position_from_flags (fragment_flags is_first is_last)) = is_last"
  by (cases is_first; cases is_last;
      simp add: fragment_flags_def position_from_flags_def starts_object_def ends_object_def)+

lemma parse_ods_encode:
  assumes "image_width img \<noteq> 0" and "image_height img \<noteq> 0" and "declared < 2 ^ 24"
  shows "parse_ods (ods_payload img declared is_first is_last chunk) = Inr (fragment_of img declared is_first is_last chunk)"
  using assms
  by (auto simp: parse_ods_iff fragment_of_def object_header_ok_def fragment_position ods_payload_def
      object_header_bytes_def intro!: exI [of _ "fragment_flags is_first is_last"])

definition fits :: "pgs_decoder_limits \<Rightarrow> nat \<Rightarrow> bool" where
  "fits l n \<longleftrightarrow> n \<le> max_object_rle_bytes l \<and> max_object_rle_bytes l < usize_max"

lemma fits_saturating: "fits l (m + n) \<Longrightarrow> \<not> max_object_rle_bytes l < usize_saturating_add m n"
  by (simp add: fits_def usize_saturating_add_def)

lemma feed_fragment:
  assumes b: "begin_object f l a st = (True, a1, st1)" and p: "map_of a1 (fragment_object_id f) = Some p"
    and fits: "fits l (length (ip_bytes p) + length (rle_bytes f))"
  shows "\<not> ends_object (fragment_pos f) \<Longrightarrow>
      \<exists>a'. feed f l a st = (None, a', st1) \<and>
        map_of a' (fragment_object_id f) = Some (p\<lparr>ip_bytes := ip_bytes p @ rle_bytes f\<rparr>)"
    and "ends_object (fragment_pos f) \<Longrightarrow>
      \<exists>a' st'. feed f l a st = (Some \<lparr>ao_object_id = fragment_object_id f, ao_width = ip_width p,
        ao_height = ip_height p, ao_rle_bytes = ip_bytes p @ rle_bytes f\<rparr>, a', st')"
  using fits_saturating [OF fits] by (simp_all add: feed_def b p Let_def AList.update_conv')

lemma handle_ods_segment:
  assumes "pending d = Some ps" and "disposition ps = Apply_Set" and "parse_ods bytes = Inr f"
    and "feed f (decoder_limits d) (assembler d) (decoder_stats d) = (out, a, st)"
  shows "handle_segment t \<lparr>kind = ObjectDefinition, payload = bytes\<rparr> d =
    (None, (d\<lparr>pending := Some (case out of None \<Rightarrow> ps | Some obj \<Rightarrow> add_object obj ps), assembler := a,
              decoder_stats := st\<rparr>))"
  using assms by (cases d) (simp add: handle_segment_def handle_resource_def add_object_def split: option.splits)

definition ods_segment :: "u8 list \<Rightarrow> segment" where
  "ods_segment bytes = \<lparr>kind = ObjectDefinition, payload = bytes\<rparr>"

definition joined :: "in_progress \<Rightarrow> object_image_spec \<Rightarrow> u8 list \<Rightarrow> assembled_object" where
  "joined p img bytes =
     \<lparr>ao_object_id = image_object_id img, ao_width = ip_width p, ao_height = ip_height p,
      ao_rle_bytes = ip_bytes p @ bytes\<rparr>"

lemma begin_continuation: "begin_object (fragment_of img declared False is_last chunk) l a st = (True, a, st)"
  by (simp add: begin_object_def fragment_of_def)

lemma joined_step:
  assumes img: "image_width img \<noteq> 0" "image_height img \<noteq> 0" "declared < 2 ^ 24"
    and d: "pending d = Some ps" "disposition ps = Apply_Set"
    and b: "begin_object (fragment_of img declared is_first is_last c) (decoder_limits d) (assembler d) (decoder_stats d) =
        (True, a1, st1)"
    and p: "map_of a1 (image_object_id img) = Some p"
    and fits: "fits (decoder_limits d) (length (ip_bytes p) + length c)"
  shows "\<not> is_last \<Longrightarrow> \<exists>a'. handle_segment t (ods_segment (ods_payload img declared is_first is_last c)) d =
      (None, d\<lparr>pending := Some ps, assembler := a', decoder_stats := st1\<rparr>) \<and>
      map_of a' (image_object_id img) = Some (p\<lparr>ip_bytes := ip_bytes p @ c\<rparr>)"
    and "is_last \<Longrightarrow> \<exists>a' st'. handle_segment t (ods_segment (ods_payload img declared is_first is_last c)) d =
      (None, d\<lparr>pending := Some (add_object (joined p img c) ps), assembler := a', decoder_stats := st'\<rparr>)"
proof -
  let ?f = "fragment_of img declared is_first is_last c"
  have f: "fragment_object_id ?f = image_object_id img" "rle_bytes ?f = c" "ends_object (fragment_pos ?f) = is_last"
    by (simp_all add: fragment_of_def fragment_position)
  note fed = feed_fragment [OF b, unfolded f, OF p fits]
  note step = handle_ods_segment [OF d parse_ods_encode [OF img], of is_first is_last c]
  show "\<exists>a'. handle_segment t (ods_segment (ods_payload img declared is_first is_last c)) d =
      (None, d\<lparr>pending := Some ps, assembler := a', decoder_stats := st1\<rparr>) \<and>
      map_of a' (image_object_id img) = Some (p\<lparr>ip_bytes := ip_bytes p @ c\<rparr>)" if "\<not> is_last"
    using fed(1) [OF that] step unfolding ods_segment_def by fastforce
  show "\<exists>a' st'. handle_segment t (ods_segment (ods_payload img declared is_first is_last c)) d =
      (None, d\<lparr>pending := Some (add_object (joined p img c) ps), assembler := a', decoder_stats := st'\<rparr>)" if is_last
    using fed(2) [OF that] step unfolding ods_segment_def joined_def by fastforce
qed

lemma fits_mono: "fits l n \<Longrightarrow> m \<le> n \<Longrightarrow> fits l m"
  by (simp add: fits_def)

lemma joined_rest:
  assumes img: "image_width img \<noteq> 0" "image_height img \<noteq> 0" "declared < 2 ^ 24"
  shows "cs \<noteq> [] \<Longrightarrow> pending d = Some ps \<Longrightarrow> disposition ps = Apply_Set \<Longrightarrow>
     begin_object (fragment_of img declared is_first (tl cs = []) (hd cs)) (decoder_limits d) (assembler d)
       (decoder_stats d) = (True, a1, st1) \<Longrightarrow>
     map_of a1 (image_object_id img) = Some p \<Longrightarrow>
     fits (decoder_limits d) (length (ip_bytes p) + length (concat cs)) \<Longrightarrow>
     \<exists>a st. handle_segments t (map ods_segment (ods_payloads img declared is_first cs)) d =
       ([], d\<lparr>pending := Some (add_object (joined p img (concat cs)) ps), assembler := a, decoder_stats := st\<rparr>)"
proof (induction cs arbitrary: d is_first a1 st1 p)
  case (Cons c cs)
  have fits: "fits (decoder_limits d) (length (ip_bytes p) + length c)"
    using Cons.prems(6) by (rule fits_mono) simp
  show ?case
  proof (cases "cs = []")
    case True
    with Cons.prems(4) have "begin_object (fragment_of img declared is_first True c) (decoder_limits d) (assembler d)
        (decoder_stats d) = (True, a1, st1)" by simp
    from joined_step(2) [OF img Cons.prems(2,3) this Cons.prems(5) fits TrueI, of t] obtain a' st' where
      "handle_segment t (ods_segment (ods_payload img declared is_first True c)) d =
        (None, d\<lparr>pending := Some (add_object (joined p img c) ps), assembler := a', decoder_stats := st'\<rparr>)"
      by blast
    with True show ?thesis by auto
  next
    case False
    with Cons.prems(4) have "begin_object (fragment_of img declared is_first False c) (decoder_limits d) (assembler d)
        (decoder_stats d) = (True, a1, st1)" by simp
    from joined_step(1) [OF img Cons.prems(2,3) this Cons.prems(5) fits, of t] obtain a' where
      step: "handle_segment t (ods_segment (ods_payload img declared is_first False c)) d =
        (None, d\<lparr>pending := Some ps, assembler := a', decoder_stats := st1\<rparr>)"
      and a': "map_of a' (image_object_id img) = Some (p\<lparr>ip_bytes := ip_bytes p @ c\<rparr>)" by blast
    let ?d = "d\<lparr>pending := Some ps, assembler := a', decoder_stats := st1\<rparr>" and ?p = "p\<lparr>ip_bytes := ip_bytes p @ c\<rparr>"
    have "\<exists>a st. handle_segments t (map ods_segment (ods_payloads img declared False cs)) ?d =
        ([], ?d\<lparr>pending := Some (add_object (joined ?p img (concat cs)) ps), assembler := a, decoder_stats := st\<rparr>)"
      by (rule Cons.IH [where ?a1.0 = a' and ?st1.0 = st1])
        (use False Cons.prems(3,6) a' in \<open>simp_all add: begin_continuation add.assoc\<close>)
    with step False show ?thesis by (auto simp: joined_def)
  qed
qed simp

definition image_spec_ok :: "pgs_decoder_limits \<Rightarrow> object_image_spec \<Rightarrow> bool" where
  "image_spec_ok l img \<longleftrightarrow>
     image_width img \<noteq> 0 \<and> image_height img \<noteq> 0 \<and>
     length (image_indices img) = unat (image_width img) * unat (image_height img) \<and>
     (let n = length (encode_rle (image_indices img) (image_width img) (image_height img)) in
      n \<le> max_object_rle_bytes l \<and> n + 4 < 2 ^ 24)"

definition assembled_of :: "object_image_spec \<Rightarrow> assembled_object" where
  "assembled_of img =
     \<lparr>ao_object_id = image_object_id img, ao_width = image_width img, ao_height = image_height img,
      ao_rle_bytes = encode_rle (image_indices img) (image_width img) (image_height img)\<rparr>"

lemma loads_ods:
  assumes "limits_ok l" and "image_spec_ok l img"
  shows "loads l (ods_segments img) (add_object (assembled_of img))"
proof (rule loadsI)
  fix d :: pgs_track_decoder and ps t
  assume d: "decoder_limits d = l" "pending d = Some ps" "disposition ps = Apply_Set"
  let ?cs = "ods_chunks img" and ?decl = "declared_length img"
  let ?rle = "encode_rle (image_indices img) (image_width img) (image_height img)"
  let ?f = "fragment_of img ?decl True (tl ?cs = []) (hd ?cs)"
  have len: "length ?rle \<le> max_object_rle_bytes l" "length ?rle + 4 < 2 ^ 24"
    using assms(2) by (simp_all add: image_spec_ok_def Let_def)
  have decl: "unat ?decl = length ?rle + 4"
  proof -
    have "?decl = of_nat (length ?rle + 4)" using len(2) by (simp add: declared_length_def Let_def)
    then show ?thesis using len(2) by (simp only: unat_of_nat) simp
  qed
  have img: "image_width img \<noteq> 0" "image_height img \<noteq> 0" "?decl < 2 ^ 24"
    using assms(2) len(2) decl by (simp_all add: image_spec_ok_def word_less_nat_alt)
  let ?p = "\<lparr>ip_width = image_width img, ip_height = image_height img, ip_expected_rle_len = length ?rle, ip_bytes = []\<rparr>"
  obtain a1 st1 where b: "begin_object ?f (decoder_limits d) (assembler d) (decoder_stats d) = (True, a1, st1)"
    and p: "map_of a1 (image_object_id img) = Some ?p"
    using len(1) d(1) decl by (auto simp: begin_object_def fragment_of_def expected_rle_len_def Let_def AList.update_conv')
  have "fits (decoder_limits d) (length (ip_bytes ?p) + length (concat ?cs))"
    using assms(1) len(1) d(1) by (simp add: fits_def limits_ok_def ods_chunks_ok)
  from joined_rest [OF img ods_chunks_ok(3) d(2,3) b p this, of t]
  show "disposition (add_object (assembled_of img) ps) = Apply_Set \<and>
      (\<exists>a st. handle_segments t (ods_segments img) d =
        ([], d\<lparr>pending := Some (add_object (assembled_of img) ps), assembler := a, decoder_stats := st\<rparr>))"
    using d(3) by (simp add: ods_segments_def ods_segment_def [abs_def] joined_def assembled_of_def ods_chunks_ok)
      (simp add: add_object_def)
qed

section \<open>Applying the set\<close>

definition spec_palettes :: "display_set_spec \<Rightarrow> (u8 \<times> picture_palette) list" where
  "spec_palettes spec =
     map (\<lambda>p. (ps_palette_id p, to_palette (spec_matrix spec) (palette_of_spec (spec_matrix spec) p))) (ds_palettes spec)"

definition spec_pending :: "subtitle_time \<Rightarrow> display_set_spec \<Rightarrow> u16 \<Rightarrow> pending_set" where
  "spec_pending t spec number =
     \<lparr>pending_start = t, pending_pcs = pcs_of_spec spec number, disposition = Apply_Set,
      pending_windows = take 255 (ds_windows spec), pending_palettes = spec_palettes spec,
      pending_objects = map assembled_of (ds_images spec)\<rparr>"

definition picture_of :: "object_image_spec \<Rightarrow> indexed_picture" where
  "picture_of img =
     \<lparr>pic_width = ucast (image_width img), pic_height = ucast (image_height img),
      pic_encoding = HdmvRle (encode_rle (image_indices img) (image_width img) (image_height img))\<rparr>"

definition spec_objects :: "object_image_spec list \<Rightarrow> u16 \<rightharpoonup> indexed_picture" where
  "spec_objects imgs = foldl (\<lambda>m img. m(image_object_id img \<mapsto> picture_of img)) Map.empty imgs"

definition rle_total :: "object_image_spec list \<Rightarrow> nat" where
  "rle_total imgs = sum_list (map (\<lambda>img. encoded_len (picture_of img)) imgs)"

definition spec_epoch :: "display_set_spec \<Rightarrow> epoch_state" where
  "spec_epoch spec =
     \<lparr>epoch_windows = foldl (\<lambda>m w. m(window_id w \<mapsto> w)) Map.empty (take 255 (ds_windows spec)),
      epoch_palettes = foldl (\<lambda>m (i, p). m(i \<mapsto> p)) Map.empty (spec_palettes spec),
      epoch_objects = spec_objects (ds_images spec), last_composition_objects = [],
      epoch_rle_bytes = rle_total (ds_images spec)\<rparr>"

text \<open>A display set that opens an epoch, fits into the limits and refers to its own resources.\<close>

definition spec_ok :: "pgs_decoder_limits \<Rightarrow> display_set_spec \<Rightarrow> bool" where
  "spec_ok l spec \<longleftrightarrow>
     limits_ok l \<and> reference_size_ok (ds_reference_width spec) (ds_reference_height spec) \<and>
     ds_state spec = EpochStart \<and> \<not> ds_palette_only spec \<and>
     length (ds_composition spec) \<le> 255 \<and> length (ds_windows spec) \<le> 255 \<and>
     list_all palette_spec_ok (ds_palettes spec) \<and> ds_palette_id spec \<in> ps_palette_id ` set (ds_palettes spec) \<and>
     list_all (\<lambda>img. image_spec_ok l img \<and> image_width img \<le> ds_reference_width spec \<and>
                     image_height img \<le> ds_reference_height spec) (ds_images spec) \<and>
     distinct (map image_object_id (ds_images spec)) \<and> rle_total (ds_images spec) \<le> max_epoch_rle_bytes l \<and>
     co_object_id ` set (ds_composition spec) \<subseteq> image_object_id ` set (ds_images spec)"

lemma loads_all:
  assumes "limits_ok l" and "list_all (image_spec_ok l) (ds_images spec)"
  shows "loads l (wds_segments spec @ map (pds_segment (spec_matrix spec)) (ds_palettes spec) @
      concat (map ods_segments (ds_images spec)))
    (\<lambda>ps. foldl (\<lambda>ps img. add_object (assembled_of img) ps)
       (foldl (\<lambda>ps p. add_palette (ps_palette_id p, to_palette (set_matrix ps) (palette_of_spec (spec_matrix spec) p)) ps)
         (add_windows (take 255 (ds_windows spec)) ps) (ds_palettes spec)) (ds_images spec))"
proof -
  have "map (pds_segment (spec_matrix spec)) (ds_palettes spec) =
      concat (map (\<lambda>p. [pds_segment (spec_matrix spec) p]) (ds_palettes spec))"
    by (induction "ds_palettes spec") simp_all
  then show ?thesis
    using assms(2)
    by (simp only:) (intro loads_append loads_wds loads_concat loads_pds loads_ods assms(1), simp add: list_all_iff)
qed

lemma foldl_add_objects:
  "foldl (\<lambda>ps img. add_object (assembled_of img) ps) ps imgs =
     ps\<lparr>pending_objects := pending_objects ps @ map assembled_of imgs\<rparr>"
  by (induction imgs arbitrary: ps) (simp_all add: add_object_def)

lemma foldl_add_palettes:
  "foldl (\<lambda>ps p. add_palette (ps_palette_id p, to_palette (set_matrix ps) (palette_of_spec m p)) ps) ps pals =
     ps\<lparr>pending_palettes := pending_palettes ps @
        map (\<lambda>p. (ps_palette_id p, to_palette (set_matrix ps) (palette_of_spec m p))) pals\<rparr>"
proof (induction pals arbitrary: ps)
  case (Cons p pals)
  have "set_matrix (add_palette x ps) = set_matrix ps" for x by (simp add: set_matrix_def add_palette_def)
  with Cons.IH show ?case by (simp add: add_palette_def)
qed simp

lemma load_display_set:
  assumes "spec_ok (decoder_limits d) spec" and "pending d = None"
  shows "\<exists>a st. handle_segments t (butlast (display_set_segments spec number)) d =
    ([], d\<lparr>pending := Some (spec_pending t spec number), assembler := a, decoder_stats := st\<rparr>)"
proof -
  let ?l = "decoder_limits d"
  have ok: "limits_ok ?l" "list_all (image_spec_ok ?l) (ds_images spec)"
    using assms(1) by (simp_all add: spec_ok_def list_all_iff)
  let ?ps = "\<lparr>pending_start = t, pending_pcs = pcs_of_spec spec number, disposition = Apply_Set,
      pending_windows = [], pending_palettes = [], pending_objects = []\<rparr>"
  have pcs: "parse_pcs (encode_pcs_payload spec number) = Inr (pcs_of_spec spec number)"
    using assms(1) by (intro parse_pcs_encode) (simp add: spec_ok_def)
  have "pcs_state (pcs_of_spec spec number) = EpochStart"
    using assms(1) by (simp add: pcs_of_spec_def spec_ok_def state_from_byte_def)
  with pcs assms(2) have head: "handle_segments t [pcs_segment spec number] d = ([], d\<lparr>pending := Some ?ps\<rparr>)"
    by (simp add: pcs_segment_def handle_segment_def handle_pcs_def classify_def is_entry_point_def)
  have matrix: "set_matrix (add_windows ws ?ps) = spec_matrix spec" for ws
    by (simp add: set_matrix_def add_windows_def spec_matrix_def pcs_of_spec_def)
  let ?rest = "wds_segments spec @ map (pds_segment (spec_matrix spec)) (ds_palettes spec) @
      concat (map ods_segments (ds_images spec))"
  let ?d = "d\<lparr>pending := Some ?ps\<rparr>"
  have "\<exists>a st. handle_segments t ?rest ?d = ([], ?d\<lparr>pending := Some (foldl (\<lambda>ps img. add_object (assembled_of img) ps)
      (foldl (\<lambda>ps p. add_palette (ps_palette_id p, to_palette (set_matrix ps) (palette_of_spec (spec_matrix spec) p)) ps)
         (add_windows (take 255 (ds_windows spec)) ?ps) (ds_palettes spec)) (ds_images spec)),
      assembler := a, decoder_stats := st\<rparr>)"
    by (rule loadsD [OF loads_all [OF ok]]) simp_all
  then obtain a st where "handle_segments t ?rest ?d = ([], ?d\<lparr>pending := Some (spec_pending t spec number),
      assembler := a, decoder_stats := st\<rparr>)"
    unfolding foldl_add_objects foldl_add_palettes matrix
    by (auto simp: add_windows_def spec_pending_def spec_palettes_def)
  moreover have "butlast (display_set_segments spec number) = [pcs_segment spec number] @ ?rest"
    by (simp add: display_set_segments_def butlast_append)
  moreover have "handle_segments t ([pcs_segment spec number] @ ?rest) d = handle_segments t ?rest ?d"
    unfolding handle_segments_append [of t "[pcs_segment spec number]" ?rest] head by (simp split: prod.splits)
  ultimately show ?thesis by auto
qed

text \<open>The objects of the set are new to the epoch and fit into its limit.\<close>

lemma store_spec_objects:
  assumes "max_epoch_rle_bytes (decoder_limits d) < usize_max"
  shows "distinct (map image_object_id imgs) \<Longrightarrow> image_object_id ` set imgs \<inter> dom (epoch_objects (epoch d)) = {} \<Longrightarrow>
     list_all (\<lambda>img. image_width img \<noteq> 0 \<and> image_height img \<noteq> 0 \<and>
       ucast (image_width img) \<le> ref_width ref \<and> ucast (image_height img) \<le> ref_height ref) imgs \<Longrightarrow>
     epoch_rle_bytes (epoch d) + rle_total imgs \<le> max_epoch_rle_bytes (decoder_limits d) \<Longrightarrow>
     fold (\<lambda>obj. store_object obj ref) (map assembled_of imgs) d =
       d\<lparr>epoch := (epoch d)\<lparr>
         epoch_objects := foldl (\<lambda>m img. m(image_object_id img \<mapsto> picture_of img)) (epoch_objects (epoch d)) imgs,
         epoch_rle_bytes := epoch_rle_bytes (epoch d) + rle_total imgs\<rparr>\<rparr>"
  using assms
proof (induction imgs arbitrary: d)
  case Nil
  then show ?case by (cases d) (simp add: rle_total_def)
next
  case (Cons img imgs)
  let ?ep = "(epoch d)\<lparr>epoch_objects := (epoch_objects (epoch d))(image_object_id img \<mapsto> picture_of img),
      epoch_rle_bytes := epoch_rle_bytes (epoch d) + encoded_len (picture_of img)\<rparr>"
  have total: "epoch_rle_bytes (epoch d) + (encoded_len (picture_of img) + rle_total imgs) \<le> max_epoch_rle_bytes (decoder_limits d)"
    using Cons.prems(4) by (simp add: rle_total_def)
  have "image_object_id img \<notin> dom (epoch_objects (epoch d))" using Cons.prems(2) by simp
  then have fresh: "epoch_objects (epoch d) (image_object_id img) = None" by (simp add: domIff)
  have "try_insert_object (image_object_id img) (picture_of img) (max_epoch_rle_bytes (decoder_limits d)) (epoch d) =
      (True, ?ep)"
    using total fresh Cons.prems(5) by (cases "epoch d") (simp add: try_insert_object_def Let_def usize_saturating_add_def)
  moreover have "\<not> (ref_width ref < ucast (image_width img) \<or> ref_height ref < ucast (image_height img))"
    using Cons.prems(3) by (simp add: not_less)
  ultimately have s: "store_object (assembled_of img) ref d = d\<lparr>epoch := ?ep\<rparr>"
    using Cons.prems(3) by (simp add: store_object_def assembled_of_def picture_of_def)
  let ?d = "d\<lparr>epoch := ?ep\<rparr>"
  have "distinct (map image_object_id imgs)" using Cons.prems(1) by simp
  moreover have "image_object_id ` set imgs \<inter> dom (epoch_objects (epoch ?d)) = {}"
    using Cons.prems(1,2) by (auto simp del: fun_upd_apply)
  moreover have "epoch_rle_bytes (epoch ?d) + rle_total imgs \<le> max_epoch_rle_bytes (decoder_limits ?d)"
    using total by simp
  ultimately have "fold (\<lambda>obj. store_object obj ref) (map assembled_of imgs) ?d =
      ?d\<lparr>epoch := (epoch ?d)\<lparr>
         epoch_objects := foldl (\<lambda>m img. m(image_object_id img \<mapsto> picture_of img)) (epoch_objects (epoch ?d)) imgs,
         epoch_rle_bytes := epoch_rle_bytes (epoch ?d) + rle_total imgs\<rparr>\<rparr>"
    using Cons.IH [of ?d] Cons.prems(3,5) by (simp del: fun_upd_apply)
  then show ?case by (simp add: s rle_total_def add.assoc del: fun_upd_apply)
qed

lemma foldl_update_map_of: "foldl (\<lambda>m x. m(f x \<mapsto> g x)) m xs = m ++ map_of (rev (map (\<lambda>x. (f x, g x)) xs))"
  by (induction xs arbitrary: m) (simp_all add: map_add_upd_left)

lemma foldl_update_dom: "dom (foldl (\<lambda>m x. m(f x \<mapsto> g x)) m xs) = dom m \<union> f ` set xs"
  by (induction xs arbitrary: m) auto

lemma ucast_le_up: "(ucast (v :: u16) :: u32) \<le> ucast (w :: u16) \<longleftrightarrow> v \<le> w"
  by (simp add: word_le_nat_alt unat_ucast_up)

lemma load_spec_epoch:
  assumes ok: "spec_ok (decoder_limits d) spec" and "epoch d = empty_epoch"
  shows "load_set (spec_pending t spec number) d = d\<lparr>epoch := spec_epoch spec\<rparr>"
proof -
  let ?ref = "pcs_reference_size (pcs_of_spec spec number)"
  let ?ep = "insert_palettes (spec_palettes spec) (insert_windows (take 255 (ds_windows spec)) empty_epoch)"
  have "fold (\<lambda>obj. store_object obj ?ref) (map assembled_of (ds_images spec)) (d\<lparr>epoch := ?ep\<rparr>) =
      (d\<lparr>epoch := ?ep\<rparr>)\<lparr>epoch := ?ep\<lparr>
        epoch_objects := foldl (\<lambda>m img. m(image_object_id img \<mapsto> picture_of img)) (epoch_objects ?ep) (ds_images spec),
        epoch_rle_bytes := epoch_rle_bytes ?ep + rle_total (ds_images spec)\<rparr>\<rparr>"
    using store_spec_objects [of "d\<lparr>epoch := ?ep\<rparr>" "ds_images spec" ?ref] ok
    by (simp add: spec_ok_def limits_ok_def insert_palettes_def insert_windows_def empty_epoch_def pcs_of_spec_def
        list_all_iff image_spec_ok_def ucast_le_up)
  with assms(2) show ?thesis
    by (cases d) (simp add: load_set_def spec_pending_def spec_epoch_def spec_objects_def insert_palettes_def
        insert_windows_def empty_epoch_def)
qed

section \<open>What the composition shows\<close>

text \<open>The colour that a cue paints at a position of the screen, through the picture decoder of
  \<open>picture_decode.rs\<close>, and the colour that the description asks for.\<close>

definition cue_shows :: "u64 \<Rightarrow> subtitle_picture_cue \<Rightarrow> nat \<Rightarrow> nat \<Rightarrow> (u8 \<times> u8 \<times> u8 \<times> u8) option" where
  "cue_shows limit cue x y =
     (let ox = unat (pos_x (cue_origin cue)); oy = unat (pos_y (cue_origin cue)); r = cue_visible_region cue in
      if ox \<le> x \<and> x < ox + unat (rect_width r) \<and> oy \<le> y \<and> y < oy + unat (rect_height r)
      then
        case decode_picture_rgba cue limit of
          Some (Inr d) \<Rightarrow> image_pixel (dp_image d) (of_nat (x - ox)) (of_nat (y - oy))
        | _ \<Rightarrow> None
      else None)"

definition spec_window :: "display_set_spec \<Rightarrow> u8 \<Rightarrow> window_definition option" where
  "spec_window spec i = map_of (rev (map (\<lambda>w. (window_id w, w)) (ds_windows spec))) i"

definition spec_palette :: "display_set_spec \<Rightarrow> picture_palette option" where
  "spec_palette spec = map_of (rev (spec_palettes spec)) (ds_palette_id spec)"

definition spec_shows :: "display_set_spec \<Rightarrow> composition_object \<Rightarrow> nat \<Rightarrow> nat \<Rightarrow> (u8 \<times> u8 \<times> u8 \<times> u8) option" where
  "spec_shows spec obj x y =
     (case (find (\<lambda>img. image_object_id img = co_object_id obj) (ds_images spec), spec_palette spec) of
        (Some img, Some palette) \<Rightarrow>
          (case object_pixel obj (picture_of img) (map_option window_rect (spec_window spec (co_window_id obj))) x y of
             None \<Rightarrow> None
           | Some (px, py) \<Rightarrow>
               Some (premultiplied (palette_color_at palette
                 (image_indices img ! (py * unat (image_width img) + px)))))
      | _ \<Rightarrow> None)"

lemma cue_shows_placed:
  assumes "image_spec_ok l img" and "unat (image_width img) * unat (image_height img) \<le> unat limit"
    and "length palette = PALETTE_LEN" and "rect_ok (placed_region p)"
    and "contains_rect (full_rect (picture_of img)) (placed_region p)"
  shows "cue_shows limit \<lparr>cue_reference_size = ref, cue_origin = placed_origin p, cue_visible_region = placed_region p,
      cue_picture = picture_of img, cue_palette = palette, cue_forced = forced\<rparr> x y =
    map_option (\<lambda>(px, py). premultiplied (palette_color_at palette
      (image_indices img ! (py * unat (image_width img) + px)))) (placed_pixel (Some p) x y)"
    (is "cue_shows limit ?cue x y = _")
proof -
  let ?w = "ucast (image_width img) :: u32" and ?h = "ucast (image_height img) :: u32"
  let ?ox = "unat (pos_x (placed_origin p))" and ?oy = "unat (pos_y (placed_origin p))"
  have img: "length (image_indices img) = unat (image_width img) * unat (image_height img)"
    "image_width img \<noteq> 0" "image_height img \<noteq> 0"
    using assms(1) by (simp_all add: image_spec_ok_def)
  have "picture_ok (picture_of img)"
    using img by (simp add: picture_ok_def picture_of_def unat_ucast_up flip: unat_eq_zero)
  then have "cue_ok ?cue" using assms(3-5) by (simp add: cue_ok_def)
  from decode_picture_pixels [OF this, of ?w ?h limit] assms(2) obtain d im where
    d: "decode_hdmv_rle (encode_rle (image_indices img) (image_width img) (image_height img))
      (unat (image_width img)) (unat (image_height img)) = Some d"
    and run: "decode_picture_rgba ?cue limit = Some (Inr \<lparr>dp_image = im, dp_report = di_report d\<rparr>)"
    and size: "img_width im = rect_width (placed_region p)" "img_height im = rect_height (placed_region p)"
    and pixel: "\<And>x y. x < unat (img_width im) \<Longrightarrow> y < unat (img_height im) \<Longrightarrow> image_pixel im (of_nat x) (of_nat y) =
         Some (premultiplied (palette_color_at palette (cue_index ?cue (di_indices d) x y)))"
    by (auto simp: picture_of_def unat_ucast_up)
  have ixs: "di_indices d = image_indices img"
    using encode_decode [OF img(1)] d by auto
  show ?thesis
  proof (cases "?ox \<le> x \<and> x < ?ox + unat (rect_width (placed_region p)) \<and>
      ?oy \<le> y \<and> y < ?oy + unat (rect_height (placed_region p))")
    case True
    then have "x - ?ox < unat (img_width im)" "y - ?oy < unat (img_height im)" by (auto simp: size)
    from pixel [OF this] True run ixs show ?thesis
      by (simp add: cue_shows_def placed_pixel_def Let_def cue_index_def picture_of_def unat_ucast_up add.assoc)
  next
    case False
    then show ?thesis by (auto simp: cue_shows_def placed_pixel_def Let_def)
  qed
qed

lemma object_cue_shows:
  assumes "image_spec_ok l img" and "unat (image_width img) * unat (image_height img) \<le> unat limit"
    and "length palette = PALETTE_LEN"
  shows "Option.bind (object_cue pcs ep palette (picture_of img) obj) (\<lambda>cue. cue_shows limit cue x y) =
    map_option (\<lambda>(px, py). premultiplied (palette_color_at palette
      (image_indices img ! (py * unat (image_width img) + px))))
      (object_pixel obj (picture_of img) (map_option window_rect (epoch_windows ep (co_window_id obj))) x y)"
proof -
  let ?win = "map_option window_rect (epoch_windows ep (co_window_id obj))"
  show ?thesis
  proof (cases "place_object obj (full_rect (picture_of img)) ?win")
    case None
    then show ?thesis by (simp add: object_cue_def flip: place_object_pixels) (simp add: placed_pixel_def)
  next
    case (Some p)
    note region = place_object_region [OF Some]
    have "object_cue pcs ep palette (picture_of img) obj =
      Some \<lparr>cue_reference_size = pcs_reference_size pcs, cue_origin = placed_origin p, cue_visible_region = placed_region p,
        cue_picture = picture_of img, cue_palette = palette, cue_forced = co_forced obj\<rparr>"
      using region(2) by (simp add: object_cue_def Some new_picture_cue_def)
    then show ?thesis
      using cue_shows_placed [OF assms region] by (simp add: Some flip: place_object_pixels)
  qed
qed

lemma object_cues_filter:
  assumes "list_all (\<lambda>obj. epoch_objects ep (co_object_id obj) \<noteq> None) objs"
  shows "fst (object_cues pcs ep palette objs st) =
    List.map_filter (\<lambda>obj. object_cue pcs ep palette (the (epoch_objects ep (co_object_id obj))) obj) objs"
  using assms
proof (induction objs arbitrary: st)
  case (Cons obj objs)
  then show ?case
    by (auto simp: map_filter_simps case_prod_beta split: option.splits)
qed (simp add: map_filter_simps)

lemma map_filter_bind: "List.map_filter f (List.map_filter g xs) = List.map_filter (\<lambda>x. Option.bind (g x) f) xs"
  by (induction xs) (simp_all add: map_filter_simps split: option.splits)

lemma map_filter_cong: "(\<And>x. x \<in> set xs \<Longrightarrow> f x = g x) \<Longrightarrow> List.map_filter f xs = List.map_filter g xs"
  by (induction xs) (simp_all add: map_filter_simps split: option.splits)

lemma spec_objects_find:
  assumes "distinct (map image_object_id imgs)"
  shows "spec_objects imgs i = map_option picture_of (find (\<lambda>img. image_object_id img = i) imgs)"
proof -
  have "map_of (rev (map (\<lambda>img. (image_object_id img, picture_of img)) imgs)) =
      map_of (map (\<lambda>img. (image_object_id img, picture_of img)) imgs)"
    using assms by (intro map_of_inject_set [THEN iffD2]) (simp_all add: comp_def rev_map flip: rev_map)
  then have "spec_objects imgs = map_of (map (\<lambda>img. (image_object_id img, picture_of img)) imgs)"
    by (simp add: spec_objects_def foldl_update_map_of)
  moreover have "map_of (map (\<lambda>img. (image_object_id img, picture_of img)) imgs) i =
      map_option picture_of (find (\<lambda>img. image_object_id img = i) imgs)"
    by (induction imgs) auto
  ultimately show ?thesis by simp
qed

lemma spec_epoch_lookups:
  assumes "spec_ok l spec"
  shows "epoch_windows (spec_epoch spec) = spec_window spec"
    and "epoch_palettes (spec_epoch spec) (ds_palette_id spec) = spec_palette spec"
    and "\<exists>palette. spec_palette spec = Some palette \<and> length palette = PALETTE_LEN"
proof -
  have "foldl (\<lambda>m (i, p). m(i \<mapsto> p)) Map.empty ps = map_of (rev ps)" for ps :: "(u8 \<times> picture_palette) list"
    using foldl_update_map_of [of fst snd Map.empty ps] by (simp add: case_prod_beta')
  then show "epoch_palettes (spec_epoch spec) (ds_palette_id spec) = spec_palette spec"
    by (simp add: spec_epoch_def spec_palette_def)
  show "epoch_windows (spec_epoch spec) = spec_window spec"
    using assms by (simp add: spec_epoch_def spec_window_def [abs_def] foldl_update_map_of spec_ok_def)
  have "ds_palette_id spec \<in> fst ` set (rev (spec_palettes spec))"
    using assms by (simp add: spec_ok_def spec_palettes_def image_image)
  then obtain palette where p: "spec_palette spec = Some palette"
    unfolding spec_palette_def by (metis domD dom_map_of_conv_image_fst)
  then have "(ds_palette_id spec, palette) \<in> set (rev (spec_palettes spec))"
    unfolding spec_palette_def by (rule map_of_SomeD)
  then have "length palette = PALETTE_LEN" by (auto simp: spec_palettes_def length_to_palette)
  with p show "\<exists>palette. spec_palette spec = Some palette \<and> length palette = PALETTE_LEN" by blast
qed

definition small_images :: "u64 \<Rightarrow> display_set_spec \<Rightarrow> bool" where
  "small_images limit spec \<longleftrightarrow>
     list_all (\<lambda>img. unat (image_width img) * unat (image_height img) \<le> unat limit) (ds_images spec)"

lemma compose_spec:
  assumes ok: "spec_ok l spec" and small: "small_images limit spec"
  shows "\<exists>cues ep st'. compose (pcs_of_spec spec number) (spec_epoch spec) st = (Some cues, ep, st') \<and>
    (\<forall>x y. List.map_filter (\<lambda>cue. cue_shows limit cue x y) cues =
      List.map_filter (\<lambda>obj. spec_shows spec obj x y) (ds_composition spec))"
proof -
  let ?pcs = "pcs_of_spec spec number" and ?ep = "spec_epoch spec" and ?objs = "ds_composition spec"
  obtain palette where p: "spec_palette spec = Some palette" "length palette = PALETTE_LEN"
    using spec_epoch_lookups(3) [OF ok] by blast
  have found: "\<exists>img. find (\<lambda>img. image_object_id img = co_object_id obj) (ds_images spec) = Some img \<and>
      image_spec_ok l img \<and> unat (image_width img) * unat (image_height img) \<le> unat limit \<and>
      epoch_objects ?ep (co_object_id obj) = Some (picture_of img)" if "obj \<in> set ?objs" for obj
  proof -
    have "co_object_id obj \<in> image_object_id ` set (ds_images spec)" using ok that by (auto simp: spec_ok_def)
    then obtain img where img: "find (\<lambda>img. image_object_id img = co_object_id obj) (ds_images spec) = Some img"
      by (cases "find (\<lambda>img. image_object_id img = co_object_id obj) (ds_images spec)") (auto simp: find_None_iff)
    then have "img \<in> set (ds_images spec)" by (auto simp: find_Some_iff)
    with img ok small show ?thesis
      by (auto simp: spec_ok_def small_images_def list_all_iff spec_epoch_def spec_objects_find)
  qed
  have pcs: "pcs_palette_update ?pcs = FullComposition" "pcs_objects ?pcs = ?objs" "pcs_palette_id ?pcs = ds_palette_id spec"
    using ok by (simp_all add: pcs_of_spec_def spec_ok_def)
  let ?cues = "fst (object_cues ?pcs ?ep palette ?objs st)"
  have "\<exists>ep st'. compose ?pcs ?ep st = (Some ?cues, ep, st')"
  proof -
    have "\<not> list_ex (\<lambda>obj. epoch_objects ?ep (co_object_id obj) = None) ?objs"
      using found by (fastforce simp: list_ex_iff)
    then show ?thesis
      using p(1) spec_epoch_lookups(2) [OF ok] by (auto simp: compose_def Let_def pcs case_prod_beta)
  qed
  moreover have "List.map_filter (\<lambda>cue. cue_shows limit cue x y) ?cues =
      List.map_filter (\<lambda>obj. spec_shows spec obj x y) ?objs" for x y
  proof -
    have cues: "?cues = List.map_filter (\<lambda>obj. object_cue ?pcs ?ep palette (the (epoch_objects ?ep (co_object_id obj))) obj) ?objs"
      using found by (intro object_cues_filter) (fastforce simp: list_all_iff)
    have painted: "Option.bind (object_cue ?pcs ?ep palette (the (epoch_objects ?ep (co_object_id obj))) obj)
        (\<lambda>cue. cue_shows limit cue x y) = spec_shows spec obj x y" if obj: "obj \<in> set ?objs" for obj
    proof -
      obtain img where img: "find (\<lambda>img. image_object_id img = co_object_id obj) (ds_images spec) = Some img"
        "image_spec_ok l img" "unat (image_width img) * unat (image_height img) \<le> unat limit"
        "epoch_objects ?ep (co_object_id obj) = Some (picture_of img)"
        using found [OF obj] by blast
      from object_cue_shows [OF img(2,3) p(2)] img(1,4) p(1) spec_epoch_lookups(1) [OF ok] show ?thesis
        by (auto simp: spec_shows_def split: option.splits)
    qed
    show ?thesis unfolding cues map_filter_bind by (rule map_filter_cong) (rule painted)
  qed
  ultimately show ?thesis by blast
qed

text \<open>Encoding a display set that opens an epoch and decoding its block: one composition at the time of
  the block, and at each position of the screen its cues paint, in order, the colours that the
  description asks for.\<close>

theorem push_display_set_shown:
  assumes ok: "spec_ok (decoder_limits d) spec" and idle: "pending d = None" and small: "small_images limit spec"
  shows "\<exists>cues d'. push_block t (concat (encode_display_set_segments spec number)) d =
      ([\<lparr>comp_start = t, comp_cues = cues\<rparr>], d') \<and>
    (\<forall>x y. List.map_filter (\<lambda>cue. cue_shows limit cue x y) cues =
      List.map_filter (\<lambda>obj. spec_shows spec obj x y) (ds_composition spec))"
proof -
  let ?ps = "spec_pending t spec number"
  obtain a st where load: "handle_segments t (butlast (display_set_segments spec number)) d =
      ([], d\<lparr>pending := Some ?ps, assembler := a, decoder_stats := st\<rparr>)"
    using load_display_set [OF ok idle, of t number] by blast
  let ?d = "d\<lparr>pending := Some ?ps, assembler := a, decoder_stats := st\<rparr>"
  have ps: "disposition ?ps = Apply_Set" "pending_start ?ps = t" "pending_pcs ?ps = pcs_of_spec spec number"
    by (simp_all add: spec_pending_def)
  define e0 where "e0 = counting (\<lambda>st. st\<lparr>incomplete_objects := incomplete_objects st + of_nat (length a)\<rparr>)
      (?d\<lparr>pending := None, assembler := []\<rparr>)"
  define e where "e = enter_set ?ps e0"
  have "pcs_state (pcs_of_spec spec number) = EpochStart"
    using ok by (simp add: pcs_of_spec_def spec_ok_def state_from_byte_def)
  then have e: "epoch e = empty_epoch" "decoder_limits e = decoder_limits d"
    by (simp_all add: e_def e0_def enter_set_def ps is_entry_point_def)
  have loaded: "load_set ?ps e = e\<lparr>epoch := spec_epoch spec\<rparr>"
    using load_spec_epoch [of e spec t number] ok e by simp
  obtain cues ep st' where c: "compose (pcs_of_spec spec number) (spec_epoch spec)
      ((decoder_stats e)\<lparr>display_sets_applied := display_sets_applied (decoder_stats e) + 1\<rparr>) = (Some cues, ep, st')"
    and painted: "\<forall>x y. List.map_filter (\<lambda>cue. cue_shows limit cue x y) cues =
      List.map_filter (\<lambda>obj. spec_shows spec obj x y) (ds_composition spec)"
    using compose_spec [OF ok small] by blast
  have "handle_end ?d = apply_set ?ps e0"
    by (simp add: handle_end_def discard_unfinished_def Let_def ps e0_def)
  then have "\<exists>d'. handle_end ?d = (Some \<lparr>comp_start = t, comp_cues = cues\<rparr>, d')"
    using c by (simp add: apply_set_eq Let_def ps loaded flip: e_def)
  then obtain d' where last_step: "handle_segments t [end_segment] ?d = ([\<lparr>comp_start = t, comp_cues = cues\<rparr>], d')"
    by (auto simp: end_segment_def handle_segment_def)
  have split_last: "display_set_segments spec number = butlast (display_set_segments spec number) @ [end_segment]"
    by (simp add: display_set_segments_def butlast_append)
  have "handle_segments t (display_set_segments spec number) d = ([\<lparr>comp_start = t, comp_cues = cues\<rparr>], d')"
    by (subst split_last, subst handle_segments_append) (simp only: load last_step prod.case append_Nil)
  moreover have "split_block (concat (encode_display_set_segments spec number)) =
      \<lparr>segments = display_set_segments spec number, framing_error = None\<rparr>"
    using ok by (intro display_set_block) (simp add: spec_ok_def)
  ultimately show ?thesis using painted by (simp add: push_block_def)
qed

end
