(* ===== verification/Ac3_Syncframe.thy ===== *)
theory Ac3_Syncframe
  imports Bit_Stream
begin

text \<open>
  The header of an AC-3 or E-AC-3 syncframe (crate \<open>ac3-syncframe\<close>): the bit reader with its exact
  truncation error, the tables of A/52, the channel maps and the header parser of both syntaxes.
  What is proved is what a streaming consumer needs. The outcome of a parse never changes when
  bytes are appended to the buffer, except that a truncation is resolved, and a truncation names
  exactly the number of bytes that resolves it.
\<close>

section \<open>Errors\<close>

datatype syncframe_header_error =
    Truncated nat nat
  | MissingSyncWord
  | UnsupportedBitstreamId u8
  | ReservedSampleRateCode
  | ReservedFrameSizeCode u8
  | ReservedStreamType
  | FrameShorterThanHeader nat nat
  | AccessUnitTooLong nat

fun is_truncation :: "syncframe_header_error \<Rightarrow> bool" where
  "is_truncation (Truncated available required) = True"
| "is_truncation _ = False"

type_synonym 'a header_result = "syncframe_header_error + 'a"

section \<open>The bit reader\<close>

record ac3_bit_reader =
  ar_bytes :: "u8 list"
  bit_position :: nat

type_synonym 'a header_parser = "ac3_bit_reader \<Rightarrow> ('a \<times> ac3_bit_reader) header_result"

definition new_ac3_reader :: "u8 list \<Rightarrow> ac3_bit_reader" where
  "new_ac3_reader bytes = \<lparr>ar_bytes = bytes, bit_position = 0\<rparr>"

definition div_ceil :: "nat \<Rightarrow> nat \<Rightarrow> nat" where
  "div_ceil a b = (if a mod b = 0 then a div b else a div b + 1)"

fun collect_bits :: "u8 list \<Rightarrow> nat list \<Rightarrow> u16 \<Rightarrow> u16" where
  "collect_bits bytes [] v = v"
| "collect_bits bytes (i # is) v =
     (let byte = bytes ! (i div 8); b = and (drop_bit (7 - i mod 8) byte) 1
      in collect_bits bytes is (or (push_bit 1 v) (ucast b)))"

definition ac3_read_bits :: "nat \<Rightarrow> u16 header_parser" where
  "ac3_read_bits bit_count r =
     (let end_bit = bit_position r + bit_count; required = div_ceil end_bit 8 in
      if length (ar_bytes r) < required then Inl (Truncated (length (ar_bytes r)) required)
      else Inr (collect_bits (ar_bytes r) [bit_position r..<end_bit] 0,
                r\<lparr>bit_position := end_bit\<rparr>))"

definition read_flag :: "bool header_parser" where
  "read_flag r = and_then (ac3_read_bits 1 r) (\<lambda>(v, r). Inr (v = 1, r))"

text \<open>\<open>u8::try_from(v).unwrap_or(u8::MAX)\<close>\<close>

definition read_u8 :: "nat \<Rightarrow> u8 header_parser" where
  "read_u8 bit_count r =
     and_then (ac3_read_bits bit_count r) (\<lambda>(v, r). Inr (if v \<le> 255 then ucast v else 255, r))"

definition skip_bits :: "nat \<Rightarrow> unit header_parser" where
  "skip_bits bit_count r = and_then (ac3_read_bits bit_count r) (\<lambda>(_, r). Inr ((), r))"

definition consumed_bytes :: "ac3_bit_reader \<Rightarrow> nat" where
  "consumed_bytes r = div_ceil (bit_position r) 8"

section \<open>Tables\<close>

definition SAMPLES_PER_AUDIO_BLOCK :: u32 where "SAMPLES_PER_AUDIO_BLOCK = 256"
definition AC3_AUDIO_BLOCKS_PER_SYNCFRAME :: u32 where "AC3_AUDIO_BLOCKS_PER_SYNCFRAME = 6"

definition SAMPLE_RATE_BY_FSCOD :: "u32 list" where
  "SAMPLE_RATE_BY_FSCOD = [48000, 44100, 32000]"

definition REDUCED_SAMPLE_RATE_BY_FSCOD2 :: "u32 list" where
  "REDUCED_SAMPLE_RATE_BY_FSCOD2 = [24000, 22050, 16000]"

definition AUDIO_BLOCKS_BY_NUMBLKSCOD :: "u32 list" where
  "AUDIO_BLOCKS_BY_NUMBLKSCOD = [1, 2, 3, 6]"

definition NOMINAL_BITRATE_KBPS_BY_HALF_FRMSIZECOD :: "u32 list" where
  "NOMINAL_BITRATE_KBPS_BY_HALF_FRMSIZECOD =
     [32, 40, 48, 56, 64, 80, 96, 112, 128, 160, 192, 224, 256, 320, 384, 448, 512, 576, 640]"

definition BYTES_PER_WORD :: nat where "BYTES_PER_WORD = 2"

definition sample_rate_from_fscod :: "u8 \<Rightarrow> u32 header_result" where
  "sample_rate_from_fscod fscod =
     ok_or ReservedSampleRateCode (slice_get SAMPLE_RATE_BY_FSCOD (unat fscod))"

definition reduced_sample_rate_from_fscod2 :: "u8 \<Rightarrow> u32 header_result" where
  "reduced_sample_rate_from_fscod2 fscod2 =
     ok_or ReservedSampleRateCode (slice_get REDUCED_SAMPLE_RATE_BY_FSCOD2 (unat fscod2))"

definition audio_blocks_from_numblkscod :: "u8 \<Rightarrow> u32" where
  "audio_blocks_from_numblkscod numblkscod =
     (case slice_get AUDIO_BLOCKS_BY_NUMBLKSCOD (unat numblkscod) of
        Some blocks \<Rightarrow> blocks | None \<Rightarrow> AC3_AUDIO_BLOCKS_PER_SYNCFRAME)"

definition is_multiple_of :: "'a::len word \<Rightarrow> 'a word \<Rightarrow> bool" where
  "is_multiple_of a b = (if b = 0 then a = 0 else a mod b = 0)"

definition ac3_frame_length_bytes :: "u32 \<Rightarrow> u8 \<Rightarrow> nat header_result" where
  "ac3_frame_length_bytes sample_rate_hz frame_size_code =
     and_then (ok_or (ReservedFrameSizeCode frame_size_code)
         (slice_get NOMINAL_BITRATE_KBPS_BY_HALF_FRMSIZECOD (unat (frame_size_code div 2))))
       (\<lambda>bitrate_kbps.
          let exact_words_numerator = bitrate_kbps * 96000;
              words_rounded_down = exact_words_numerator div sample_rate_hz;
              has_remainder = (\<not> is_multiple_of exact_words_numerator sample_rate_hz);
              padding_word = of_bool (has_remainder \<and> \<not> is_multiple_of frame_size_code 2);
              words = unat (words_rounded_down + padding_word)
          in Inr (words * BYTES_PER_WORD))"

section \<open>Channel maps\<close>

type_synonym location_set = u16

definition PAIR_LOCATION_INDICES :: "nat list" where
  "PAIR_LOCATION_INDICES = [5, 6, 9, 10, 11, 13]"

definition LOCATION_COUNT :: nat where "LOCATION_COUNT = 16"

definition location_bit :: "nat \<Rightarrow> u16" where
  "location_bit index = push_bit (LOCATION_COUNT - 1 - index) 1"

definition contains_location :: "location_set \<Rightarrow> nat \<Rightarrow> bool" where
  "contains_location m index \<longleftrightarrow> and m (location_bit index) \<noteq> 0"

definition with_location :: "location_set \<Rightarrow> nat \<Rightarrow> location_set" where
  "with_location m index = or m (location_bit index)"

definition union_locations :: "location_set \<Rightarrow> location_set \<Rightarrow> location_set" where
  "union_locations a b = or a b"

definition LOW_FREQUENCY_EFFECTS :: nat where "LOW_FREQUENCY_EFFECTS = 15"

definition from_coding_mode :: "nat list \<Rightarrow> bool \<Rightarrow> location_set" where
  "from_coding_mode full_bandwidth low_frequency_effects =
     (let locations = foldl with_location 0 full_bandwidth in
      if low_frequency_effects then with_location locations LOW_FREQUENCY_EFFECTS else locations)"

definition locations_channel_count :: "location_set \<Rightarrow> nat" where
  "locations_channel_count m =
     sum_list (map (\<lambda>index. if index \<in> set PAIR_LOCATION_INDICES then 2 else 1)
       (filter (contains_location m) [0..<LOCATION_COUNT]))"

text \<open>Left 0, centre 1, right 2, left surround 3, right surround 4, centre surround 7.\<close>

definition coding_mode_locations :: "u8 \<Rightarrow> nat list" where
  "coding_mode_locations acmod =
     (if acmod = 0 then [0, 2] else if acmod = 1 then [1] else if acmod = 2 then [0, 2]
      else if acmod = 3 then [0, 1, 2] else if acmod = 4 then [0, 2, 7]
      else if acmod = 5 then [0, 1, 2, 7] else if acmod = 6 then [0, 2, 3, 4]
      else [0, 1, 2, 3, 4])"

section \<open>The header\<close>

definition FULL_RATE_AC3_BITSTREAM_ID :: u8 where "FULL_RATE_AC3_BITSTREAM_ID = 8"
definition MAX_AC3_BITSTREAM_ID :: u8 where "MAX_AC3_BITSTREAM_ID = 10"
definition BITSTREAM_ID_BYTE_OFFSET :: nat where "BITSTREAM_ID_BYTE_OFFSET = 5"
definition BITSTREAM_ID_PROBE_BYTES :: nat where
  "BITSTREAM_ID_PROBE_BYTES = BITSTREAM_ID_BYTE_OFFSET + 1"
definition EAC3_REDUCED_RATE_FSCOD :: u8 where "EAC3_REDUCED_RATE_FSCOD = 3"
definition SYNC_WORD :: "u8 list" where "SYNC_WORD = [0x0B, 0x77]"

definition is_eac3_bitstream_id :: "u8 \<Rightarrow> bool" where
  "is_eac3_bitstream_id b \<longleftrightarrow> 11 \<le> b \<and> b \<le> 16"

datatype syncframe_codec = Codec_Ac3 | Codec_Enhanced_Ac3

datatype audio_coding_mode =
    DualMono | Mono | Stereo | ThreeFront | TwoFrontOneSurround | ThreeFrontOneSurround
  | TwoFrontTwoSurround | ThreeFrontTwoSurround

definition from_acmod :: "u8 \<Rightarrow> audio_coding_mode" where
  "from_acmod a =
     (if a = 0 then DualMono else if a = 1 then Mono else if a = 2 then Stereo
      else if a = 3 then ThreeFront else if a = 4 then TwoFrontOneSurround
      else if a = 5 then ThreeFrontOneSurround else if a = 6 then TwoFrontTwoSurround
      else ThreeFrontTwoSurround)"

fun acmod :: "audio_coding_mode \<Rightarrow> u8" where
  "acmod DualMono = 0"
| "acmod Mono = 1"
| "acmod Stereo = 2"
| "acmod ThreeFront = 3"
| "acmod TwoFrontOneSurround = 4"
| "acmod ThreeFrontOneSurround = 5"
| "acmod TwoFrontTwoSurround = 6"
| "acmod ThreeFrontTwoSurround = 7"

fun full_bandwidth_channel_count :: "audio_coding_mode \<Rightarrow> nat" where
  "full_bandwidth_channel_count Mono = 1"
| "full_bandwidth_channel_count DualMono = 2"
| "full_bandwidth_channel_count Stereo = 2"
| "full_bandwidth_channel_count ThreeFront = 3"
| "full_bandwidth_channel_count TwoFrontOneSurround = 3"
| "full_bandwidth_channel_count ThreeFrontOneSurround = 4"
| "full_bandwidth_channel_count TwoFrontTwoSurround = 4"
| "full_bandwidth_channel_count ThreeFrontTwoSurround = 5"

definition has_center_mix_level :: "audio_coding_mode \<Rightarrow> bool" where
  "has_center_mix_level m \<longleftrightarrow> and (acmod m) 1 \<noteq> 0 \<and> acmod m \<noteq> 1"

definition has_surround_mix_level :: "audio_coding_mode \<Rightarrow> bool" where
  "has_surround_mix_level m \<longleftrightarrow> and (acmod m) 4 \<noteq> 0"

datatype low_frequency_effects = Lfe_Present | Lfe_Absent

definition lfe_from_flag :: "bool \<Rightarrow> low_frequency_effects" where
  "lfe_from_flag lfeon = (if lfeon then Lfe_Present else Lfe_Absent)"

fun lfe_channel_count :: "low_frequency_effects \<Rightarrow> nat" where
  "lfe_channel_count Lfe_Present = 1"
| "lfe_channel_count Lfe_Absent = 0"

datatype eac3_stream_type = Independent | Dependent | Ac3Convertible

datatype dependent_channel_map = FromCodingMode | Explicit_Map location_set

record eac3_substream =
  stream_type :: eac3_stream_type
  substream_id :: u8
  channel_map :: dependent_channel_map

definition PRIMARY_SUBSTREAM :: u8 where "PRIMARY_SUBSTREAM = 0"

definition is_independent :: "eac3_substream \<Rightarrow> bool" where
  "is_independent s \<longleftrightarrow> stream_type s = Independent \<or> stream_type s = Ac3Convertible"

datatype syncframe_layout = Layout_Ac3 | Layout_Enhanced_Ac3 eac3_substream

record syncframe_header =
  frame_layout :: syncframe_layout
  bitstream_id :: u8
  frame_length_bytes :: nat
  sample_rate_hz :: u32
  samples_per_frame :: u32
  coding_mode :: audio_coding_mode
  lfe :: low_frequency_effects

fun layout_codec :: "syncframe_layout \<Rightarrow> syncframe_codec" where
  "layout_codec Layout_Ac3 = Codec_Ac3"
| "layout_codec (Layout_Enhanced_Ac3 s) = Codec_Enhanced_Ac3"

definition header_codec :: "syncframe_header \<Rightarrow> syncframe_codec" where
  "header_codec h = layout_codec (frame_layout h)"

definition header_substream :: "syncframe_header \<Rightarrow> eac3_substream option" where
  "header_substream h =
     (case frame_layout h of Layout_Ac3 \<Rightarrow> None | Layout_Enhanced_Ac3 s \<Rightarrow> Some s)"

definition header_channel_count :: "syncframe_header \<Rightarrow> nat" where
  "header_channel_count h =
     full_bandwidth_channel_count (coding_mode h) + lfe_channel_count (lfe h)"

definition channel_locations :: "syncframe_header \<Rightarrow> location_set" where
  "channel_locations h =
     (let own = from_coding_mode (coding_mode_locations (acmod (coding_mode h))) (lfe h = Lfe_Present)
      in case frame_layout h of
           Layout_Enhanced_Ac3 s \<Rightarrow>
             (case channel_map s of Explicit_Map m \<Rightarrow> m | FromCodingMode \<Rightarrow> own)
         | Layout_Ac3 \<Rightarrow> own)"

definition starts_access_unit :: "syncframe_header \<Rightarrow> bool" where
  "starts_access_unit h =
     (case frame_layout h of
        Layout_Ac3 \<Rightarrow> True
      | Layout_Enhanced_Ac3 s \<Rightarrow> is_independent s \<and> substream_id s = PRIMARY_SUBSTREAM)"

text \<open>\<open>bitstream_id.saturating_sub(8)\<close>\<close>

definition reduced_rate_shift :: "u8 \<Rightarrow> nat" where
  "reduced_rate_shift b = unat b - unat FULL_RATE_AC3_BITSTREAM_ID"

definition finish_header :: "syncframe_header \<Rightarrow> nat \<Rightarrow> syncframe_header header_result" where
  "finish_header h header_bytes =
     (if frame_length_bytes h < header_bytes
      then Inl (FrameShorterThanHeader (frame_length_bytes h) header_bytes)
      else Inr h)"

definition skip_if :: "bool \<Rightarrow> nat \<Rightarrow> unit header_parser" where
  "skip_if c bit_count r = (if c then skip_bits bit_count r else Inr ((), r))"

text \<open>The fields of the AC-3 header up to \<open>lfeon\<close>.\<close>

definition ac3_fields :: "(u8 \<times> u8 \<times> audio_coding_mode \<times> bool) header_parser" where
  "ac3_fields r =
     and_then (skip_bits 16 r) (\<lambda>(_, r).
     and_then (skip_bits 16 r) (\<lambda>(_, r).
     and_then (read_u8 2 r) (\<lambda>(fscod, r).
     and_then (read_u8 6 r) (\<lambda>(frame_size_code, r).
     and_then (skip_bits 5 r) (\<lambda>(_, r).
     and_then (skip_bits 3 r) (\<lambda>(_, r).
     and_then (read_u8 3 r) (\<lambda>(a, r).
       let mode = from_acmod a in
       and_then (skip_if (has_center_mix_level mode) 2 r) (\<lambda>(_, r).
       and_then (skip_if (has_surround_mix_level mode) 2 r) (\<lambda>(_, r).
       and_then (skip_if (mode = Stereo) 2 r) (\<lambda>(_, r).
       and_then (read_flag r) (\<lambda>(lfeon, r).
         Inr ((fscod, frame_size_code, mode, lfeon), r))))))))))))"

definition parse_ac3_header :: "u8 list \<Rightarrow> u8 \<Rightarrow> syncframe_header header_result" where
  "parse_ac3_header bytes b =
     and_then (ac3_fields (new_ac3_reader bytes)) (\<lambda>((fscod, frame_size_code, mode, lfeon), r).
     and_then (sample_rate_from_fscod fscod) (\<lambda>table_rate.
     and_then (ac3_frame_length_bytes table_rate frame_size_code) (\<lambda>len.
       finish_header
         \<lparr>frame_layout = Layout_Ac3, bitstream_id = b, frame_length_bytes = len,
          sample_rate_hz = drop_bit (reduced_rate_shift b) table_rate,
          samples_per_frame = AC3_AUDIO_BLOCKS_PER_SYNCFRAME * SAMPLES_PER_AUDIO_BLOCK,
          coding_mode = mode, lfe = lfe_from_flag lfeon\<rparr>
         (consumed_bytes r))))"

definition skip_dialogue_normalization_and_compression :: "unit header_parser" where
  "skip_dialogue_normalization_and_compression r =
     and_then (skip_bits 5 r) (\<lambda>(_, r).
     and_then (read_flag r) (\<lambda>(compre, r). skip_if compre 8 r))"

definition read_dependent_channel_map :: "audio_coding_mode \<Rightarrow> dependent_channel_map header_parser" where
  "read_dependent_channel_map mode r =
     and_then (skip_dialogue_normalization_and_compression r) (\<lambda>(_, r).
     and_then (if mode = DualMono then skip_dialogue_normalization_and_compression r
               else Inr ((), r)) (\<lambda>(_, r).
     and_then (read_flag r) (\<lambda>(chanmape, r).
       if chanmape then and_then (ac3_read_bits 16 r) (\<lambda>(m, r). Inr (Explicit_Map m, r))
       else Inr (FromCodingMode, r))))"

text \<open>\<open>strmtyp\<close>; the value 3 is an error that ends the parse.\<close>

definition eac3_stream_type_of :: "u8 \<Rightarrow> eac3_stream_type header_result" where
  "eac3_stream_type_of t =
     (if t = 0 then Inr Independent else if t = 1 then Inr Dependent
      else if t = 2 then Inr Ac3Convertible else Inl ReservedStreamType)"

definition eac3_rate_and_blocks :: "(u32 \<times> u32) header_parser" where
  "eac3_rate_and_blocks r =
     and_then (read_u8 2 r) (\<lambda>(fscod, r).
       if fscod = EAC3_REDUCED_RATE_FSCOD
       then and_then (read_u8 2 r) (\<lambda>(fscod2, r).
            and_then (reduced_sample_rate_from_fscod2 fscod2) (\<lambda>rate.
              Inr ((rate, AC3_AUDIO_BLOCKS_PER_SYNCFRAME), r)))
       else and_then (read_u8 2 r) (\<lambda>(numblkscod, r).
            and_then (sample_rate_from_fscod fscod) (\<lambda>rate.
              Inr ((rate, audio_blocks_from_numblkscod numblkscod), r))))"

definition eac3_fields :: "u8 \<Rightarrow> syncframe_header header_parser" where
  "eac3_fields b r =
     and_then (skip_bits 16 r) (\<lambda>(_, r).
     and_then (read_u8 2 r) (\<lambda>(t, r).
     and_then (eac3_stream_type_of t) (\<lambda>strmtyp.
     and_then (read_u8 3 r) (\<lambda>(substreamid, r).
     and_then (ac3_read_bits 11 r) (\<lambda>(frmsiz, r).
     and_then (eac3_rate_and_blocks r) (\<lambda>((rate, audio_blocks), r).
     and_then (read_u8 3 r) (\<lambda>(a, r).
       let mode = from_acmod a in
       and_then (read_flag r) (\<lambda>(lfeon, r).
       and_then (skip_bits 5 r) (\<lambda>(_, r).
       and_then (if strmtyp = Dependent then read_dependent_channel_map mode r
                 else Inr (FromCodingMode, r)) (\<lambda>(cmap, r).
         Inr (\<lparr>frame_layout = Layout_Enhanced_Ac3
                 \<lparr>stream_type = strmtyp, substream_id = substreamid, channel_map = cmap\<rparr>,
               bitstream_id = b, frame_length_bytes = (unat frmsiz + 1) * 2,
               sample_rate_hz = rate,
               samples_per_frame = audio_blocks * SAMPLES_PER_AUDIO_BLOCK,
               coding_mode = mode, lfe = lfe_from_flag lfeon\<rparr>, r)))))))))))"

definition parse_eac3_header :: "u8 list \<Rightarrow> u8 \<Rightarrow> syncframe_header header_result" where
  "parse_eac3_header bytes b =
     and_then (eac3_fields b (new_ac3_reader bytes)) (\<lambda>(h, r). finish_header h (consumed_bytes r))"

definition parse_syncframe_header :: "u8 list \<Rightarrow> syncframe_header header_result" where
  "parse_syncframe_header bytes =
     (if length bytes < length SYNC_WORD then Inl (Truncated (length bytes) (length SYNC_WORD))
      else if take (length SYNC_WORD) bytes \<noteq> SYNC_WORD then Inl MissingSyncWord
      else case slice_get bytes BITSTREAM_ID_BYTE_OFFSET of
        None \<Rightarrow> Inl (Truncated (length bytes) BITSTREAM_ID_PROBE_BYTES)
      | Some byte \<Rightarrow>
          let b = drop_bit 3 byte in
          if b \<le> MAX_AC3_BITSTREAM_ID then parse_ac3_header bytes b
          else if is_eac3_bitstream_id b then parse_eac3_header bytes b
          else Inl (UnsupportedBitstreamId b))"

section \<open>Appending bytes to the buffer\<close>

definition extends :: "ac3_bit_reader \<Rightarrow> ac3_bit_reader \<Rightarrow> bool" where
  "extends r r' \<longleftrightarrow>
     bit_position r' = bit_position r \<and> (\<exists>extra. ar_bytes r' = ar_bytes r @ extra)"

text \<open>A success or a final error is the same in every longer buffer, and a truncation names the
  available bytes and the least number of bytes that ends it.\<close>

definition stable_result :: "('a \<Rightarrow> 'b \<Rightarrow> bool) \<Rightarrow> nat \<Rightarrow> nat \<Rightarrow> 'a header_result \<Rightarrow> 'b header_result \<Rightarrow> bool" where
  "stable_result R n m x y \<longleftrightarrow>
     (case x of
        Inr a \<Rightarrow> (\<exists>b. y = Inr b \<and> R a b)
      | Inl (Truncated available required) \<Rightarrow>
          available = n \<and> n < required \<and> (m < required \<longrightarrow> y = Inl (Truncated m required))
      | Inl e \<Rightarrow> y = Inl e)"

fun continues ::
    "ac3_bit_reader \<Rightarrow> ac3_bit_reader \<Rightarrow> 'a \<times> ac3_bit_reader \<Rightarrow> 'a \<times> ac3_bit_reader \<Rightarrow> bool" where
  "continues r r' (a, s) (b, t) \<longleftrightarrow>
     a = b \<and> extends s t \<and> ar_bytes s = ar_bytes r \<and> ar_bytes t = ar_bytes r' \<and>
     bit_position r \<le> bit_position s"

definition stable_parser :: "'a header_parser \<Rightarrow> bool" where
  "stable_parser p \<longleftrightarrow>
     (\<forall>r r'. extends r r' \<longrightarrow>
        stable_result (continues r r') (length (ar_bytes r)) (length (ar_bytes r')) (p r) (p r'))"

lemma stable_resultI:
  assumes "\<And>a. x = Inr a \<Longrightarrow> \<exists>b. y = Inr b \<and> R a b"
    and "\<And>av rq. x = Inl (Truncated av rq) \<Longrightarrow>
           av = n \<and> n < rq \<and> (m < rq \<longrightarrow> y = Inl (Truncated m rq))"
    and "\<And>e. x = Inl e \<Longrightarrow> \<not> is_truncation e \<Longrightarrow> y = Inl e"
  shows "stable_result R n m x y"
proof (cases x)
  case (Inl e)
  then show ?thesis using assms(2,3) by (cases e) (simp_all add: stable_result_def)
next
  case (Inr a)
  then show ?thesis using assms(1) by (simp add: stable_result_def)
qed

lemma stable_resultD:
  assumes "stable_result R n m x y"
  shows "x = Inr a \<Longrightarrow> \<exists>b. y = Inr b \<and> R a b"
    and "x = Inl (Truncated av rq) \<Longrightarrow> av = n \<and> n < rq \<and> (m < rq \<longrightarrow> y = Inl (Truncated m rq))"
    and "x = Inl e \<Longrightarrow> \<not> is_truncation e \<Longrightarrow> y = Inl e"
  using assms by (cases e; simp add: stable_result_def)+

lemma stable_parserD:
  "stable_parser p \<Longrightarrow> extends r r' \<Longrightarrow>
     stable_result (continues r r') (length (ar_bytes r)) (length (ar_bytes r')) (p r) (p r')"
  by (simp add: stable_parser_def)

lemma stable_parser_success:
  assumes "stable_parser p" and "extends r r'" and "p r = Inr (a, s)"
  obtains t where "p r' = Inr (a, t)" and "continues r r' (a, s) (a, t)"
  using stable_resultD(1) [OF stable_parserD [OF assms(1,2)] assms(3)] by auto

lemma stable_return [intro]: "stable_parser (\<lambda>r. Inr (x, r))"
  by (auto simp: stable_parser_def stable_result_def)

lemma stable_error [intro]: "\<not> is_truncation e \<Longrightarrow> stable_parser (\<lambda>r. Inl e)"
  by (cases e) (auto simp: stable_parser_def stable_result_def)

lemma stable_result_trans:
  assumes "stable_result (continues s t) (length (ar_bytes s)) (length (ar_bytes t)) x y"
    and "continues r r' (a, s) (a, t)"
  shows "stable_result (continues r r') (length (ar_bytes r)) (length (ar_bytes r')) x y"
  using assms by (auto simp: stable_result_def split: sum.splits syncframe_header_error.splits)

lemma stable_bind [intro]:
  assumes p: "stable_parser p" and g: "\<And>x. stable_parser (\<lambda>r. g x r)"
  shows "stable_parser (\<lambda>r. and_then (p r) (\<lambda>(x, r). g x r))"
  unfolding stable_parser_def
proof (intro allI impI)
  fix r r'
  assume r: "extends r r'"
  show "stable_result (continues r r') (length (ar_bytes r)) (length (ar_bytes r'))
          (and_then (p r) (\<lambda>(x, r). g x r)) (and_then (p r') (\<lambda>(x, r). g x r))"
  proof (cases "p r")
    case (Inl e)
    show ?thesis
    proof (rule stable_resultI)
      fix av rq
      assume "and_then (p r) (\<lambda>(x, r). g x r) = Inl (Truncated av rq)"
      then have "p r = Inl (Truncated av rq)" by (simp add: Inl)
      from stable_resultD(2) [OF stable_parserD [OF p r] this]
      show "av = length (ar_bytes r) \<and> length (ar_bytes r) < rq \<and> (length (ar_bytes r') < rq \<longrightarrow>
          and_then (p r') (\<lambda>(x, r). g x r) = Inl (Truncated (length (ar_bytes r')) rq))"
        by simp
    next
      fix d
      assume "and_then (p r) (\<lambda>(x, r). g x r) = Inl d" and "\<not> is_truncation d"
      then have "p r' = Inl d" using stable_resultD(3) [OF stable_parserD [OF p r]] by (simp add: Inl)
      then show "and_then (p r') (\<lambda>(x, r). g x r) = Inl d" by simp
    qed (simp add: Inl)
  next
    case (Inr as)
    obtain a s where as: "as = (a, s)" by (cases as)
    from p r Inr [unfolded as] obtain t where t: "p r' = Inr (a, t)" "continues r r' (a, s) (a, t)"
      by (rule stable_parser_success)
    then have "extends s t" by simp
    from stable_result_trans [OF stable_parserD [OF g [of a] this] t(2)] show ?thesis
      by (simp add: Inr as t)
  qed
qed

lemma stable_pure [intro]:
  assumes "\<And>e. q = Inl e \<Longrightarrow> \<not> is_truncation e" and "\<And>x. stable_parser (\<lambda>r. g x r)"
  shows "stable_parser (\<lambda>r. and_then q (\<lambda>x. g x r))"
  using assms stable_error by (cases q) auto

lemma stable_prod [intro]:
  "(\<And>a b. stable_parser (g a b)) \<Longrightarrow> stable_parser (case_prod g x)"
  by (cases x) simp

lemma stable_If [intro]:
  "stable_parser p \<Longrightarrow> stable_parser q \<Longrightarrow> stable_parser (\<lambda>r. if c then p r else q r)"
  by (cases c) simp_all

lemma collect_bits_append:
  "(\<forall>i \<in> set is. i < 8 * length bytes) \<Longrightarrow>
     collect_bits (bytes @ extra) is v = collect_bits bytes is v"
  by (induction "is" arbitrary: v) (auto simp: Let_def nth_append)

lemma div_ceil_less_iff: "n < div_ceil e 8 \<longleftrightarrow> 8 * n < e"
proof -
  have e: "e = 8 * (e div 8) + e mod 8" "e mod 8 < 8" by simp_all
  show ?thesis
  proof (cases "e mod 8 = 0")
    case True
    with e show ?thesis unfolding div_ceil_def by auto
  next
    case False
    then show ?thesis using e unfolding div_ceil_def if_not_P [OF False] by linarith
  qed
qed

lemma stable_read_bits [intro]: "stable_parser (ac3_read_bits n)"
  unfolding stable_parser_def
proof (intro allI impI)
  fix r r'
  assume "extends r r'"
  then obtain extra where pos: "bit_position r' = bit_position r" and bytes: "ar_bytes r' = ar_bytes r @ extra"
    by (auto simp: extends_def)
  let ?e = "bit_position r + n"
  show "stable_result (continues r r')
          (length (ar_bytes r)) (length (ar_bytes r')) (ac3_read_bits n r) (ac3_read_bits n r')"
  proof (cases "length (ar_bytes r) < div_ceil ?e 8")
    case True
    then show ?thesis by (auto simp: stable_result_def ac3_read_bits_def Let_def pos)
  next
    case False
    then have e: "?e \<le> 8 * length (ar_bytes r)" by (simp add: div_ceil_less_iff)
    then have "\<not> length (ar_bytes r') < div_ceil ?e 8" by (simp add: div_ceil_less_iff bytes)
    moreover have "collect_bits (ar_bytes r') [bit_position r..<?e] 0 =
        collect_bits (ar_bytes r) [bit_position r..<?e] 0"
      unfolding bytes by (rule collect_bits_append) (use e in auto)
    ultimately show ?thesis using False bytes
      by (auto simp: stable_result_def ac3_read_bits_def Let_def pos extends_def)
  qed
qed

lemma stable_read_u8 [intro]: "stable_parser (read_u8 n)"
  unfolding read_u8_def [abs_def] by (intro stable_bind stable_read_bits stable_return)

lemma stable_read_flag [intro]: "stable_parser read_flag"
  unfolding read_flag_def [abs_def] by (intro stable_bind stable_read_bits stable_return)

lemma stable_skip_bits [intro]: "stable_parser (skip_bits n)"
  unfolding skip_bits_def [abs_def] by (intro stable_bind stable_read_bits stable_return)

lemma stable_skip_if [intro]: "stable_parser (skip_if c n)"
  unfolding skip_if_def [abs_def] by (intro stable_If stable_skip_bits stable_return)

lemma stable_ac3_fields: "stable_parser ac3_fields"
  unfolding ac3_fields_def [abs_def] Let_def
  by (intro stable_bind stable_skip_bits stable_read_u8 stable_skip_if stable_read_flag stable_return)

lemma stable_skip_dialnorm: "stable_parser skip_dialogue_normalization_and_compression"
  unfolding skip_dialogue_normalization_and_compression_def [abs_def]
  by (intro stable_bind stable_skip_bits stable_skip_if stable_read_flag)

lemma stable_dependent_map: "stable_parser (read_dependent_channel_map mode)"
  unfolding read_dependent_channel_map_def [abs_def]
  by (intro stable_bind stable_skip_dialnorm stable_If stable_read_flag stable_read_bits stable_return)

lemma rate_error_final:
  "sample_rate_from_fscod c = Inl e \<Longrightarrow> \<not> is_truncation e"
  "reduced_sample_rate_from_fscod2 c = Inl e \<Longrightarrow> \<not> is_truncation e"
  "eac3_stream_type_of t = Inl e \<Longrightarrow> \<not> is_truncation e"
  "ac3_frame_length_bytes r z = Inl e \<Longrightarrow> \<not> is_truncation e"
  by (auto simp: sample_rate_from_fscod_def reduced_sample_rate_from_fscod2_def eac3_stream_type_of_def
      ac3_frame_length_bytes_def and_then_Inl_iff Let_def split: if_splits)

lemma stable_rate_and_blocks: "stable_parser eac3_rate_and_blocks"
  unfolding eac3_rate_and_blocks_def [abs_def]
  by (intro stable_bind stable_If stable_pure stable_read_u8 stable_return)
    (auto dest: rate_error_final)

lemma stable_eac3_fields: "stable_parser (eac3_fields b)"
  unfolding eac3_fields_def [abs_def] Let_def
  apply (intro stable_bind stable_skip_bits stable_read_u8 stable_pure stable_read_bits
      stable_rate_and_blocks stable_read_flag stable_If stable_dependent_map stable_return stable_prod)
  by (auto dest: rate_error_final)

section \<open>The header parser is stable under appended bytes\<close>

lemma extends_new_reader: "extends (new_ac3_reader bytes) (new_ac3_reader (bytes @ extra))"
  by (simp add: extends_def new_ac3_reader_def)

lemma stable_result_bind:
  assumes "stable_result R n m x y"
    and "\<And>a b. R a b \<Longrightarrow> stable_result S n m (f a) (g b)"
  shows "stable_result S n m (and_then x f) (and_then y g)"
proof (cases x)
  case (Inl e)
  with assms(1) show ?thesis by (cases e) (auto simp: stable_result_def)
next
  case (Inr a)
  with assms(1) obtain b where "y = Inr b" "R a b" by (auto simp: stable_result_def)
  with Inr assms(2) show ?thesis by simp
qed

lemma stable_result_pure:
  "(\<And>e. x = Inl e \<Longrightarrow> \<not> is_truncation e) \<Longrightarrow> stable_result (=) n m x x"
  by (rule stable_resultI) auto

lemma stable_finish:
  "stable_result (=) n m (finish_header h k) (finish_header h k)"
  by (rule stable_result_pure) (auto simp: finish_header_def split: if_splits)

lemma stable_new_reader:
  "stable_parser p \<Longrightarrow>
     stable_result (continues (new_ac3_reader bytes) (new_ac3_reader (bytes @ extra)))
       (length bytes) (length (bytes @ extra))
       (p (new_ac3_reader bytes)) (p (new_ac3_reader (bytes @ extra)))"
  using stable_parserD [OF _ extends_new_reader] by (fastforce simp: new_ac3_reader_def)

lemma consumed_continues: "continues r r' (a, s) (b, t) \<Longrightarrow> a = b \<and> consumed_bytes s = consumed_bytes t"
  by (simp add: extends_def consumed_bytes_def)

lemma stable_ac3_header:
  "stable_result (=) (length bytes) (length (bytes @ extra))
     (parse_ac3_header bytes b) (parse_ac3_header (bytes @ extra) b)"
  unfolding parse_ac3_header_def
proof (rule stable_result_bind [OF stable_new_reader [OF stable_ac3_fields]], goal_cases)
  case (1 x y)
  obtain f z m l s where x: "x = ((f, z, m, l), s)" by (metis prod.exhaust)
  obtain a t where "y = (a, t)" by (cases y)
  with 1 consumed_continues have y: "y = ((f, z, m, l), t)" and k: "consumed_bytes t = consumed_bytes s"
    unfolding x by metis+
  show ?case
    unfolding x y prod.case k
    by (rule stable_result_pure)
      (auto simp: and_then_Inl_iff finish_header_def dest: rate_error_final split: if_splits)
qed

lemma stable_eac3_header:
  "stable_result (=) (length bytes) (length (bytes @ extra))
     (parse_eac3_header bytes b) (parse_eac3_header (bytes @ extra) b)"
  unfolding parse_eac3_header_def
  by (rule stable_result_bind [OF stable_new_reader [OF stable_eac3_fields]])
    (use consumed_continues stable_finish in fastforce)

lemma parse_syncframe_header_eq:
  "parse_syncframe_header bytes =
     (if length bytes < 2 then Inl (Truncated (length bytes) 2)
      else if take 2 bytes \<noteq> SYNC_WORD then Inl MissingSyncWord
      else if length bytes < 6 then Inl (Truncated (length bytes) 6)
      else let b = drop_bit 3 (bytes ! 5) in
        if b \<le> MAX_AC3_BITSTREAM_ID then parse_ac3_header bytes b
        else if is_eac3_bitstream_id b then parse_eac3_header bytes b
        else Inl (UnsupportedBitstreamId b))"
proof -
  have "length SYNC_WORD = 2" by (simp add: SYNC_WORD_def)
  moreover have "slice_get bytes BITSTREAM_ID_BYTE_OFFSET = (if length bytes < 6 then None else Some (bytes ! 5))"
    by (auto simp: slice_get_def BITSTREAM_ID_BYTE_OFFSET_def)
  ultimately show ?thesis
    by (simp add: parse_syncframe_header_def BITSTREAM_ID_PROBE_BYTES_def BITSTREAM_ID_BYTE_OFFSET_def)
qed

lemma stable_syncframe_header:
  "stable_result (=) (length bytes) (length (bytes @ extra))
     (parse_syncframe_header bytes) (parse_syncframe_header (bytes @ extra))"
proof -
  consider "length bytes < 2" | "2 \<le> length bytes" "take 2 bytes \<noteq> SYNC_WORD"
    | "2 \<le> length bytes" "take 2 bytes = SYNC_WORD" "length bytes < 6"
    | "6 \<le> length bytes" "take 2 bytes = SYNC_WORD" by linarith
  then show ?thesis
  proof cases
    case 4
    then have "take 2 (bytes @ extra) = SYNC_WORD" "(bytes @ extra) ! 5 = bytes ! 5"
      by (simp_all add: nth_append)
    with 4 show ?thesis
      using stable_ac3_header stable_eac3_header
        stable_result_pure [where x = "Inl (UnsupportedBitstreamId (drop_bit 3 (bytes ! 5))) ::
            syncframe_header header_result"]
      by (simp add: parse_syncframe_header_eq Let_def)
  qed (simp_all add: parse_syncframe_header_eq stable_result_def)
qed

text \<open>The three consequences the consumers use.\<close>

lemma header_success_stable:
  "parse_syncframe_header bytes = Inr h \<Longrightarrow> parse_syncframe_header (bytes @ extra) = Inr h"
  using stable_resultD(1) [OF stable_syncframe_header] by blast

lemma header_error_stable:
  "parse_syncframe_header bytes = Inl e \<Longrightarrow> \<not> is_truncation e \<Longrightarrow>
     parse_syncframe_header (bytes @ extra) = Inl e"
  using stable_resultD(3) [OF stable_syncframe_header] by blast

lemma header_truncated:
  "parse_syncframe_header bytes = Inl (Truncated available required) \<Longrightarrow>
     available = length bytes \<and> length bytes < required \<and>
     (length (bytes @ extra) < required \<longrightarrow>
        parse_syncframe_header (bytes @ extra) = Inl (Truncated (length (bytes @ extra)) required))"
  using stable_resultD(2) [OF stable_syncframe_header] by blast

section \<open>The length of a frame\<close>

lemma read_bits_position: "ac3_read_bits n r = Inr (v, s) \<Longrightarrow> bit_position s = bit_position r + n"
  by (auto simp: ac3_read_bits_def Let_def split: if_splits)

lemma field_positions:
  "skip_bits n r = Inr (u, s) \<Longrightarrow> bit_position s = bit_position r + n"
  "read_u8 n r = Inr (x, s) \<Longrightarrow> bit_position s = bit_position r + n"
  "read_flag r = Inr (b, s) \<Longrightarrow> bit_position s = bit_position r + 1"
  by (auto simp: skip_bits_def read_u8_def read_flag_def and_then_Inr_iff dest: read_bits_position)

lemma finish_header_Inr: "finish_header h n = Inr g \<longleftrightarrow> g = h \<and> n \<le> frame_length_bytes h"
  by (auto simp: finish_header_def)

lemma stable_advances:
  "stable_parser p \<Longrightarrow> p r = Inr (x, s) \<Longrightarrow> bit_position r \<le> bit_position s"
  using stable_parser_success [of p r r x s] by (auto simp: extends_def)

lemma bind_advances:
  assumes "and_then (skip_bits n r) (\<lambda>(x, r). g x r) = Inr (y, t)"
    and "\<And>x. stable_parser (\<lambda>r. g x r)"
  shows "bit_position r + n \<le> bit_position t"
  using assms(1) stable_advances [OF assms(2)] field_positions(1)
  by (fastforce simp: and_then_Inr_iff)

lemma ac3_fields_position: "ac3_fields r = Inr (x, s) \<Longrightarrow> bit_position r + 16 \<le> bit_position s"
  unfolding ac3_fields_def Let_def
  by (erule bind_advances)
    (intro stable_bind stable_skip_bits stable_read_u8 stable_skip_if stable_read_flag stable_return)

lemma eac3_fields_position: "eac3_fields b r = Inr (x, s) \<Longrightarrow> bit_position r + 16 \<le> bit_position s"
  unfolding eac3_fields_def Let_def
  by (erule bind_advances)
    (intro stable_bind stable_skip_bits stable_read_u8 stable_pure stable_read_bits
      stable_rate_and_blocks stable_read_flag stable_If stable_dependent_map stable_return
      stable_prod; auto dest: rate_error_final)

lemma header_length_bounds:
  assumes "parse_syncframe_header bytes = Inr h"
  shows "2 \<le> frame_length_bytes h"
proof -
  from assms consider b where "parse_ac3_header bytes b = Inr h" | b where "parse_eac3_header bytes b = Inr h"
    by (auto simp: parse_syncframe_header_eq Let_def split: if_splits)
  then obtain r where "16 \<le> bit_position r" "consumed_bytes r \<le> frame_length_bytes h"
  proof cases
    case 1
    then show ?thesis using that ac3_fields_position [of "new_ac3_reader bytes"]
      by (fastforce simp: parse_ac3_header_def and_then_Inr_iff finish_header_Inr new_ac3_reader_def)
  next
    case 2
    then show ?thesis using that eac3_fields_position [of _ "new_ac3_reader bytes"]
      by (fastforce simp: parse_eac3_header_def and_then_Inr_iff finish_header_Inr new_ac3_reader_def)
  qed
  then have "2 \<le> div_ceil (bit_position r) 8" "div_ceil (bit_position r) 8 \<le> frame_length_bytes h"
    using div_ceil_less_iff [of 1 "bit_position r"] by (simp_all add: consumed_bytes_def)
  then show ?thesis by simp
qed
end
