(* ===== verification/Ac3_Access_Unit.thy ===== *)
theory Ac3_Access_Unit
  imports Ac3_Syncframe
begin

text \<open>
  Syncframes in a byte stream (crate \<open>ac3-syncframe\<close>, modules \<open>search\<close> and \<open>access_unit\<close>): the search
  for the first syncframe in a buffer, and the assembly of one access unit at its start.
  The search is compared with a recursive reference and shown to be independent of how the stream
  is cut into buffers; an assembled access unit is described by the list of its headers, and what
  the assembler reports is shown to be stable under appended bytes.
\<close>

section \<open>The search\<close>

datatype syncframe_search =
    Found nat syncframe_header
  | Search_Need_More_Data nat

text \<open>\<open>slice::windows\<close>\<close>

definition slice_windows :: "nat \<Rightarrow> 'a list \<Rightarrow> 'a list list" where
  "slice_windows n xs = map (\<lambda>i. take n (drop i xs)) [0..<length xs + 1 - n]"

definition find_sync_word :: "u8 list \<Rightarrow> nat option" where
  "find_sync_word bytes = position (\<lambda>w. w = SYNC_WORD) (slice_windows (length SYNC_WORD) bytes)"

definition discardable_tail_start :: "u8 list \<Rightarrow> nat" where
  "discardable_tail_start bytes =
     (if bytes \<noteq> [] \<and> last bytes = hd SYNC_WORD then length bytes - 1 else length bytes)"

lemma find_sync_word_SomeD:
  assumes "find_sync_word bytes = Some i"
  shows "i + 2 \<le> length bytes" and "take 2 (drop i bytes) = SYNC_WORD"
    and "\<And>j. j < i \<Longrightarrow> take 2 (drop j bytes) \<noteq> SYNC_WORD"
proof -
  have "length SYNC_WORD = 2" by (simp add: SYNC_WORD_def)
  with assms have "position (\<lambda>w. w = SYNC_WORD) (slice_windows 2 bytes) = Some i"
    by (simp add: find_sync_word_def)
  from position_SomeD [OF this] show "i + 2 \<le> length bytes" "take 2 (drop i bytes) = SYNC_WORD"
    "\<And>j. j < i \<Longrightarrow> take 2 (drop j bytes) \<noteq> SYNC_WORD"
    by (auto simp: slice_windows_def)
qed

lemma find_sync_word_NoneD:
  assumes "find_sync_word bytes = None" and "i + 2 \<le> length bytes"
  shows "take 2 (drop i bytes) \<noteq> SYNC_WORD"
proof -
  have "length SYNC_WORD = 2" by (simp add: SYNC_WORD_def)
  with assms(1) have "\<forall>w \<in> set (slice_windows 2 bytes). w \<noteq> SYNC_WORD"
    by (simp add: find_sync_word_def position_None_iff)
  with assms(2) show ?thesis by (auto simp: slice_windows_def)
qed

text \<open>The loop of \<open>locate_syncframe\<close> from a candidate offset on.\<close>

function locate_from :: "u8 list \<Rightarrow> nat \<Rightarrow> syncframe_search" where
  "locate_from bytes candidate =
     (case find_sync_word (drop candidate bytes) of
        None \<Rightarrow> Search_Need_More_Data (discardable_tail_start bytes)
      | Some relative \<Rightarrow>
          let offset = candidate + relative in
          (case parse_syncframe_header (drop offset bytes) of
             Inr header \<Rightarrow> Found offset header
           | Inl e \<Rightarrow> if is_truncation e then Search_Need_More_Data offset
                      else locate_from bytes (offset + 1)))"
  by pat_completeness auto

termination
proof (relation "measure (\<lambda>(bytes, candidate). length bytes - candidate)")
  fix bytes :: "u8 list" and candidate relative offset
  assume "find_sync_word (drop candidate bytes) = Some relative" "offset = candidate + relative"
  with find_sync_word_SomeD(1) [of "drop candidate bytes" relative]
  show "((bytes, offset + 1), (bytes, candidate)) \<in> measure (\<lambda>(bytes, candidate). length bytes - candidate)"
    by auto
qed simp

definition locate_syncframe :: "u8 list \<Rightarrow> syncframe_search" where
  "locate_syncframe bytes = locate_from bytes 0"

declare locate_from.simps [simp del]

section \<open>The reference search\<close>

text \<open>Position by position: a header is found, a final error or a byte that cannot begin a sync word
  is passed over, and a header that the end of the buffer cuts stops the search.\<close>

fun search_shift :: "nat \<Rightarrow> syncframe_search \<Rightarrow> syncframe_search" where
  "search_shift d (Found offset h) = Found (d + offset) h"
| "search_shift d (Search_Need_More_Data offset) = Search_Need_More_Data (d + offset)"

definition may_begin_sync :: "u8 list \<Rightarrow> bool" where
  "may_begin_sync bytes \<longleftrightarrow> take 2 bytes = SYNC_WORD \<or> bytes = [hd SYNC_WORD]"

fun search_spec :: "u8 list \<Rightarrow> syncframe_search" where
  "search_spec [] = Search_Need_More_Data 0"
| "search_spec (b # bs) =
     (case parse_syncframe_header (b # bs) of
        Inr h \<Rightarrow> Found 0 h
      | Inl e \<Rightarrow>
          if is_truncation e \<and> may_begin_sync (b # bs) then Search_Need_More_Data 0
          else search_shift 1 (search_spec bs))"

lemma search_shift_shift: "search_shift a (search_shift b s) = search_shift (a + b) s"
  by (cases s) simp_all

lemma search_shift_0 [simp]: "search_shift 0 s = s"
  by (cases s) simp_all

lemma no_sync_no_header:
  assumes "take 2 bytes \<noteq> SYNC_WORD"
  shows "\<exists>e. parse_syncframe_header bytes = Inl e"
  using assms by (simp add: parse_syncframe_header_eq)

lemma search_spec_skip:
  assumes "i \<le> length bytes" and "\<And>j. j < i \<Longrightarrow> \<not> may_begin_sync (drop j bytes)"
  shows "search_spec bytes = search_shift i (search_spec (drop i bytes))"
  using assms
proof (induction i)
  case (Suc i)
  then obtain b bs where bs: "drop i bytes = b # bs"
    by (cases "drop i bytes") auto
  then have rest: "drop (Suc i) bytes = bs" by (metis drop_Suc tl_drop list.sel(3))
  have no: "\<not> may_begin_sync (b # bs)" using Suc.prems(2) [of i] by (simp add: bs)
  then have "take 2 (b # bs) \<noteq> SYNC_WORD" by (simp add: may_begin_sync_def)
  from no_sync_no_header [OF this] no have "search_spec (b # bs) = search_shift 1 (search_spec bs)"
    by auto
  moreover have "search_spec bytes = search_shift i (search_spec (b # bs))"
    using Suc by (simp add: bs)
  ultimately show ?case by (simp add: rest search_shift_shift)
qed simp

lemma may_begin_sync_iff:
  "may_begin_sync (b # bs) \<longleftrightarrow> b = 0x0B \<and> (bs = [] \<or> hd bs = 0x77)"
  by (cases bs) (auto simp: may_begin_sync_def SYNC_WORD_def)

lemma short_header: "length bytes < 2 \<Longrightarrow> parse_syncframe_header bytes = Inl (Truncated (length bytes) 2)"
  by (simp add: parse_syncframe_header_eq)

lemma search_spec_tail:
  assumes "find_sync_word bytes = None" and "bytes \<noteq> []"
  shows "search_spec bytes = Search_Need_More_Data (discardable_tail_start bytes)"
proof -
  let ?n = "length bytes - 1"
  have last: "drop ?n bytes = [last bytes]"
    using assms(2) by (metis append_butlast_last_id append_eq_conv_conj length_butlast)
  have "search_spec bytes = search_shift ?n (search_spec (drop ?n bytes))"
  proof (rule search_spec_skip)
    fix j assume j: "j < ?n"
    then have "drop j bytes \<noteq> [hd SYNC_WORD]"
      by (metis One_nat_def diff_diff_cancel length_Cons length_drop less_imp_le_nat list.size(3)
          less_diff_conv less_irrefl_nat diff_le_self plus_1_eq_Suc add.commute order_less_le_trans)
    with find_sync_word_NoneD [OF assms(1), of j] j show "\<not> may_begin_sync (drop j bytes)"
      by (simp add: may_begin_sync_def)
  qed simp
  also have "search_spec (drop ?n bytes) =
      Search_Need_More_Data (if last bytes = hd SYNC_WORD then 0 else 1)"
    unfolding last by (simp add: short_header may_begin_sync_iff SYNC_WORD_def)
  finally show ?thesis
    using assms(2) by (cases bytes rule: rev_cases) (auto simp: discardable_tail_start_def)
qed

lemma locate_from_spec:
  "candidate < length bytes \<or> bytes = [] \<and> candidate = 0 \<Longrightarrow>
     locate_from bytes candidate = search_shift candidate (search_spec (drop candidate bytes))"
proof (induction bytes candidate rule: locate_from.induct)
  case (1 bytes candidate)
  let ?xs = "drop candidate bytes"
  show ?case
  proof (cases "find_sync_word ?xs")
    case None
    show ?thesis
    proof (cases "bytes = []")
      case True
      with 1 show ?thesis by (simp add: locate_from.simps None [unfolded True] discardable_tail_start_def
            find_sync_word_def slice_windows_def SYNC_WORD_def)
    next
      case False
      with 1 have xs: "?xs \<noteq> []" and c: "candidate < length bytes" by auto
      have "candidate + discardable_tail_start ?xs = discardable_tail_start bytes"
        using xs c by (auto simp: discardable_tail_start_def last_drop)
      with search_spec_tail [OF None xs] show ?thesis by (simp add: locate_from.simps None)
    qed
  next
    case (Some i)
    note sync = find_sync_word_SomeD [OF Some]
    let ?o = "candidate + i"
    have "search_spec ?xs = search_shift i (search_spec (drop i ?xs))"
    proof (rule search_spec_skip)
      fix j assume j: "j < i"
      with sync(1) have "length (drop j ?xs) \<noteq> 1" by simp
      then have "drop j ?xs \<noteq> [hd SYNC_WORD]" by (metis One_nat_def length_Cons list.size(3))
      with sync(3) [OF j] show "\<not> may_begin_sync (drop j ?xs)" by (simp add: may_begin_sync_def)
    qed (use sync(1) in simp)
    then have spec: "search_shift candidate (search_spec ?xs) = search_shift ?o (search_spec (drop ?o bytes))"
      by (simp add: search_shift_shift add.commute)
    obtain b bs where bs: "drop ?o bytes = b # bs"
      using sync(1) by (cases "drop ?o bytes") auto
    have rest: "drop (Suc ?o) bytes = bs"
      by (metis bs drop_Suc tl_drop list.sel(3))
    have sync_begin: "may_begin_sync (b # bs)"
      using sync(2) bs by (simp add: may_begin_sync_def add.commute)
    show ?thesis
    proof (cases "parse_syncframe_header (drop ?o bytes)")
      case (Inr h)
      then show ?thesis using spec by (simp add: locate_from.simps Some bs)
    next
      case (Inl e)
      show ?thesis
      proof (cases "is_truncation e")
        case True
        then show ?thesis using spec Inl sync_begin by (simp add: locate_from.simps Some bs)
      next
        case False
        have "?o + 1 < length bytes" using sync(1) by simp
        with 1(1) [OF Some refl Inl False] have "locate_from bytes (?o + 1) =
            search_shift (?o + 1) (search_spec bs)" by (simp add: rest)
        then show ?thesis using spec Inl False
          by (simp add: locate_from.simps [of bytes candidate] Some bs search_shift_shift)
      qed
    qed
  qed
qed

lemma locate_syncframe_spec: "locate_syncframe bytes = search_spec bytes"
  using locate_from_spec [of 0 bytes] by (auto simp: locate_syncframe_def)

text \<open>Cutting the stream anywhere does not change what is found.\<close>

lemma search_spec_append:
  "case search_spec bytes of
     Found offset h \<Rightarrow> offset < length bytes \<and> search_spec (bytes @ extra) = Found offset h
   | Search_Need_More_Data d \<Rightarrow> d \<le> length bytes \<and>
       search_spec (bytes @ extra) = search_shift d (search_spec (drop d bytes @ extra))"
proof (induction bytes)
  case (Cons b bs)
  have skip: "?case" if s: "search_spec (b # bs) = search_shift 1 (search_spec bs)"
    and t: "search_spec (b # bs @ extra) = search_shift 1 (search_spec (bs @ extra))"
    using Cons.IH by (cases "search_spec bs") (simp_all add: s t search_shift_shift del: search_spec.simps)
  show ?case
  proof (cases "parse_syncframe_header (b # bs)")
    case (Inr h)
    from header_success_stable [OF this, of extra] Inr show ?thesis by simp
  next
    case (Inl e)
    show ?thesis
    proof (cases "may_begin_sync (b # bs)")
      case False
      then have "\<not> may_begin_sync (b # bs @ extra)"
        by (cases bs) (auto simp: may_begin_sync_iff)
      with False show ?thesis
        using no_sync_no_header [of "b # bs"] no_sync_no_header [of "b # bs @ extra"]
        by (intro skip) (auto simp: may_begin_sync_def)
    next
      case sync_begin: True
      show ?thesis
      proof (cases "is_truncation e")
        case True
        with Inl sync_begin show ?thesis by simp
      next
        case False
        from header_error_stable [OF Inl False, of extra] Inl False show ?thesis
          by (intro skip) simp_all
      qed
    qed
  qed
qed simp

lemma locate_streaming:
  "case locate_syncframe bytes of
     Found offset h \<Rightarrow> locate_syncframe (bytes @ extra) = Found offset h
   | Search_Need_More_Data d \<Rightarrow> d \<le> length bytes \<and>
       locate_syncframe (bytes @ extra) = search_shift d (locate_syncframe (drop d bytes @ extra))"
  using search_spec_append [of bytes extra]
  by (auto simp: locate_syncframe_spec split: syncframe_search.splits)

text \<open>What is found is the first position of the buffer that holds a header, in any continuation.\<close>

fun search_position :: "syncframe_search \<Rightarrow> nat" where
  "search_position (Found offset h) = offset"
| "search_position (Search_Need_More_Data d) = d"

definition never_header :: "u8 list \<Rightarrow> bool" where
  "never_header bytes \<longleftrightarrow> (\<forall>extra h. parse_syncframe_header (bytes @ extra) \<noteq> Inr h)"

lemma search_spec_first:
  "i < search_position (search_spec bytes) \<Longrightarrow> never_header (drop i bytes)"
proof (induction bytes arbitrary: i)
  case (Cons b bs)
  then obtain e where e: "parse_syncframe_header (b # bs) = Inl e"
    and skip: "\<not> (is_truncation e \<and> may_begin_sync (b # bs))"
    by (auto split: sum.splits if_splits)
  have s: "search_spec (b # bs) = search_shift 1 (search_spec bs)" using e skip by auto
  show ?case
  proof (cases i)
    case (Suc j)
    with Cons.prems s Cons.IH [of j] show ?thesis by (cases "search_spec bs") simp_all
  next
    case 0
    have "parse_syncframe_header (b # bs @ extra) \<noteq> Inr h" for extra h
    proof (cases "may_begin_sync (b # bs)")
      case False
      then have "\<not> may_begin_sync (b # bs @ extra)" by (cases bs) (auto simp: may_begin_sync_iff)
      then show ?thesis using no_sync_no_header [of "b # bs @ extra"] by (auto simp: may_begin_sync_def)
    next
      case True
      with skip header_error_stable [OF e, of extra] show ?thesis by simp
    qed
    then show ?thesis by (simp add: 0 never_header_def)
  qed
qed simp

lemma search_spec_found:
  "search_spec bytes = Found offset h \<Longrightarrow> parse_syncframe_header (drop offset bytes) = Inr h"
proof (induction bytes arbitrary: offset)
  case (Cons b bs)
  show ?case
  proof (cases "parse_syncframe_header (b # bs)")
    case (Inr g)
    with Cons.prems show ?thesis by auto
  next
    case (Inl e)
    with Cons.prems obtain k where "search_spec bs = Found k h" "offset = Suc k"
      by (cases "search_spec bs") (auto split: if_splits)
    with Cons.IH show ?thesis by simp
  qed
qed simp

section \<open>Access units\<close>

definition MAX_SYNCFRAMES_PER_ACCESS_UNIT :: nat where "MAX_SYNCFRAMES_PER_ACCESS_UNIT = 64"

datatype stream_continuation = MoreBytesMayFollow | EndOfStream

record access_unit =
  primary_header :: syncframe_header
  unit_codec :: syncframe_codec
  total_length_bytes :: nat
  primary_program_length_bytes :: nat
  syncframe_count :: nat
  primary_program_locations :: location_set
  has_additional_programs :: bool

datatype access_unit_scan =
    Complete_Unit access_unit
  | Scan_Need_More_Data
  | OrphanSyncframe syncframe_header nat

definition presentation_channel_count :: "access_unit \<Rightarrow> nat" where
  "presentation_channel_count u = locations_channel_count (primary_program_locations u)"

record access_unit_assembly =
  as_primary_header :: syncframe_header
  as_codec :: syncframe_codec
  as_total_length_bytes :: nat
  as_primary_program_length_bytes :: nat
  as_syncframe_count :: nat
  as_primary_program_locations :: location_set
  as_has_additional_programs :: bool

definition start_assembly :: "syncframe_header \<Rightarrow> access_unit_assembly" where
  "start_assembly h =
     \<lparr>as_primary_header = h, as_codec = header_codec h,
      as_total_length_bytes = frame_length_bytes h,
      as_primary_program_length_bytes = frame_length_bytes h, as_syncframe_count = 1,
      as_primary_program_locations = channel_locations h, as_has_additional_programs = False\<rparr>"

definition append_syncframe ::
    "access_unit_assembly \<Rightarrow> syncframe_header \<Rightarrow> access_unit_assembly header_result" where
  "append_syncframe a h =
     (if MAX_SYNCFRAMES_PER_ACCESS_UNIT \<le> as_syncframe_count a
      then Inl (AccessUnitTooLong MAX_SYNCFRAMES_PER_ACCESS_UNIT)
      else
        let independent = (case header_substream h of Some s \<Rightarrow> is_independent s | None \<Rightarrow> False);
            a = a\<lparr>as_has_additional_programs := as_has_additional_programs a \<or> independent\<rparr>;
            a = (if \<not> as_has_additional_programs a
                 then a\<lparr>as_primary_program_length_bytes :=
                          as_primary_program_length_bytes a + frame_length_bytes h,
                        as_primary_program_locations :=
                          union_locations (as_primary_program_locations a) (channel_locations h),
                        as_codec := (if header_codec h = Codec_Enhanced_Ac3 then Codec_Enhanced_Ac3
                                     else as_codec a)\<rparr>
                 else a)
        in Inr (a\<lparr>as_total_length_bytes := as_total_length_bytes a + frame_length_bytes h,
                  as_syncframe_count := as_syncframe_count a + 1\<rparr>))"

definition finish_assembly :: "access_unit_assembly \<Rightarrow> access_unit" where
  "finish_assembly a =
     \<lparr>primary_header = as_primary_header a, unit_codec = as_codec a,
      total_length_bytes = as_total_length_bytes a,
      primary_program_length_bytes = as_primary_program_length_bytes a,
      syncframe_count = as_syncframe_count a,
      primary_program_locations = as_primary_program_locations a,
      has_additional_programs = as_has_additional_programs a\<rparr>"

definition parse_header_or_wait ::
    "u8 list \<Rightarrow> stream_continuation \<Rightarrow> syncframe_header option header_result" where
  "parse_header_or_wait bytes continuation =
     (case parse_syncframe_header bytes of
        Inr h \<Rightarrow> Inr (Some h)
      | Inl e \<Rightarrow> if is_truncation e \<and> continuation = MoreBytesMayFollow then Inr None else Inl e)"

definition first_frame_is_complete ::
    "u8 list \<Rightarrow> syncframe_header \<Rightarrow> stream_continuation \<Rightarrow> bool header_result" where
  "first_frame_is_complete bytes h continuation =
     (if frame_length_bytes h \<le> length bytes then Inr True
      else case continuation of
        MoreBytesMayFollow \<Rightarrow> Inr False
      | EndOfStream \<Rightarrow> Inl (Truncated (length bytes) (frame_length_bytes h)))"

lemma append_syncframe_count:
  "append_syncframe a h = Inr b \<Longrightarrow>
     as_syncframe_count a < MAX_SYNCFRAMES_PER_ACCESS_UNIT \<and>
     as_syncframe_count b = as_syncframe_count a + 1 \<and>
     as_total_length_bytes b = as_total_length_bytes a + frame_length_bytes h"
  by (auto simp: append_syncframe_def Let_def split: if_splits)

text \<open>The loop of \<open>scan_access_unit\<close>. Every iteration that goes on has appended a syncframe, and
  the limit on their number bounds the loop.\<close>

function scan_loop ::
    "u8 list \<Rightarrow> stream_continuation \<Rightarrow> access_unit_assembly \<Rightarrow> access_unit_scan header_result" where
  "scan_loop bytes continuation a =
     (if as_total_length_bytes a < length bytes then
        let remainder = drop (as_total_length_bytes a) bytes in
        case parse_syncframe_header remainder of
          Inl e \<Rightarrow>
            if is_truncation e \<and> continuation = MoreBytesMayFollow then Inr Scan_Need_More_Data
            else Inr (Complete_Unit (finish_assembly a))
        | Inr h \<Rightarrow>
            if starts_access_unit h then Inr (Complete_Unit (finish_assembly a))
            else if length remainder < frame_length_bytes h
            then Inr (case continuation of
                        MoreBytesMayFollow \<Rightarrow> Scan_Need_More_Data
                      | EndOfStream \<Rightarrow> Complete_Unit (finish_assembly a))
            else case append_syncframe a h of
                   Inl e \<Rightarrow> Inl e
                 | Inr b \<Rightarrow> scan_loop bytes continuation b
      else
        case continuation of
          MoreBytesMayFollow \<Rightarrow> Inr Scan_Need_More_Data
        | EndOfStream \<Rightarrow> Inr (Complete_Unit (finish_assembly a)))"
  by pat_completeness auto

termination
  by (relation "measure (\<lambda>(bytes, continuation, a). MAX_SYNCFRAMES_PER_ACCESS_UNIT - as_syncframe_count a)")
    (auto dest: append_syncframe_count)

declare scan_loop.simps [simp del]

definition scan_access_unit ::
    "u8 list \<Rightarrow> stream_continuation \<Rightarrow> access_unit_scan header_result" where
  "scan_access_unit bytes continuation =
     and_then (parse_header_or_wait bytes continuation) (\<lambda>first. case first of
       None \<Rightarrow> Inr Scan_Need_More_Data
     | Some h \<Rightarrow>
         and_then (first_frame_is_complete bytes h continuation) (\<lambda>complete.
           if \<not> complete then Inr Scan_Need_More_Data
           else if \<not> starts_access_unit h then Inr (OrphanSyncframe h (frame_length_bytes h))
           else scan_loop bytes continuation (start_assembly h)))"

section \<open>An access unit is a run of syncframes\<close>

fun frames_at :: "u8 list \<Rightarrow> syncframe_header list \<Rightarrow> bool" where
  "frames_at bytes [] \<longleftrightarrow> True"
| "frames_at bytes (h # hs) \<longleftrightarrow>
     parse_syncframe_header bytes = Inr h \<and> frame_length_bytes h \<le> length bytes \<and>
     frames_at (drop (frame_length_bytes h) bytes) hs"

definition frames_length :: "syncframe_header list \<Rightarrow> nat" where
  "frames_length hs = sum_list (map frame_length_bytes hs)"

definition opens_program :: "syncframe_header \<Rightarrow> bool" where
  "opens_program h \<longleftrightarrow> (\<exists>s. frame_layout h = Layout_Enhanced_Ac3 s \<and> is_independent s)"

text \<open>What follows the unit: the next unit, damage, or what the end of the stream has cut off.\<close>

definition unit_ends :: "stream_continuation \<Rightarrow> u8 list \<Rightarrow> bool" where
  "unit_ends continuation rest \<longleftrightarrow>
     (case parse_syncframe_header rest of
        Inl e \<Rightarrow> continuation = EndOfStream \<or> \<not> is_truncation e
      | Inr g \<Rightarrow> starts_access_unit g \<or>
          continuation = EndOfStream \<and> length rest < frame_length_bytes g)"

text \<open>The unit of a first header \<open>h\<close> and the headers \<open>hs\<close> after it; the primary program ends before the
  first header of \<open>hs\<close> that opens another program.\<close>

definition primary_program :: "syncframe_header \<Rightarrow> syncframe_header list \<Rightarrow> syncframe_header list" where
  "primary_program h hs = h # takeWhile (\<lambda>g. \<not> opens_program g) hs"

definition unit_of :: "syncframe_header \<Rightarrow> syncframe_header list \<Rightarrow> access_unit" where
  "unit_of h hs =
     (let program = primary_program h hs in
      \<lparr>primary_header = h,
       unit_codec = (if \<exists>g \<in> set program. header_codec g = Codec_Enhanced_Ac3
                     then Codec_Enhanced_Ac3 else Codec_Ac3),
       total_length_bytes = frames_length (h # hs),
       primary_program_length_bytes = frames_length program,
       syncframe_count = length (h # hs),
       primary_program_locations = foldl union_locations 0 (map channel_locations program),
       has_additional_programs = (\<exists>g \<in> set hs. opens_program g)\<rparr>)"

definition access_unit_at ::
    "u8 list \<Rightarrow> stream_continuation \<Rightarrow> syncframe_header \<Rightarrow> syncframe_header list \<Rightarrow> bool" where
  "access_unit_at bytes continuation h hs \<longleftrightarrow>
     frames_at bytes (h # hs) \<and> starts_access_unit h \<and> (\<forall>g \<in> set hs. \<not> starts_access_unit g) \<and>
     length (h # hs) \<le> MAX_SYNCFRAMES_PER_ACCESS_UNIT \<and>
     unit_ends continuation (drop (frames_length (h # hs)) bytes)"

definition extend_assembly :: "access_unit_assembly \<Rightarrow> syncframe_header \<Rightarrow> access_unit_assembly" where
  "extend_assembly a h =
     (let additional = as_has_additional_programs a \<or> opens_program h in
      \<lparr>as_primary_header = as_primary_header a,
       as_codec = (if \<not> additional \<and> header_codec h = Codec_Enhanced_Ac3 then Codec_Enhanced_Ac3
                   else as_codec a),
       as_total_length_bytes = as_total_length_bytes a + frame_length_bytes h,
       as_primary_program_length_bytes =
         as_primary_program_length_bytes a + (if additional then 0 else frame_length_bytes h),
       as_syncframe_count = as_syncframe_count a + 1,
       as_primary_program_locations =
         (if additional then as_primary_program_locations a
          else union_locations (as_primary_program_locations a) (channel_locations h)),
       as_has_additional_programs = additional\<rparr>)"

lemma append_syncframe_eq:
  "append_syncframe a h =
     (if MAX_SYNCFRAMES_PER_ACCESS_UNIT \<le> as_syncframe_count a
      then Inl (AccessUnitTooLong MAX_SYNCFRAMES_PER_ACCESS_UNIT) else Inr (extend_assembly a h))"
proof -
  have "(case header_substream h of Some s \<Rightarrow> is_independent s | None \<Rightarrow> False) = opens_program h"
    by (auto simp: header_substream_def opens_program_def split: syncframe_layout.splits)
  then show ?thesis
    by (simp add: append_syncframe_def extend_assembly_def Let_def)
qed

lemma extend_assembly_fields [simp]:
  "as_syncframe_count (extend_assembly a h) = Suc (as_syncframe_count a)"
  "as_total_length_bytes (extend_assembly a h) = as_total_length_bytes a + frame_length_bytes h"
  by (simp_all add: extend_assembly_def Let_def)

lemma frames_length_simps [simp]:
  "frames_length [] = 0" "frames_length (h # hs) = frame_length_bytes h + frames_length hs"
  "frames_length (hs @ gs) = frames_length hs + frames_length gs"
  by (simp_all add: frames_length_def)

lemma empty_header: "parse_syncframe_header [] = Inl (Truncated 0 2)"
  by (simp add: parse_syncframe_header_eq)

lemma scan_loop_eq:
  "scan_loop bytes continuation a =
     (let rest = drop (as_total_length_bytes a) bytes in
      if unit_ends continuation rest then Inr (Complete_Unit (finish_assembly a))
      else case parse_syncframe_header rest of
        Inl e \<Rightarrow> Inr Scan_Need_More_Data
      | Inr h \<Rightarrow>
          if length rest < frame_length_bytes h then Inr Scan_Need_More_Data
          else if MAX_SYNCFRAMES_PER_ACCESS_UNIT \<le> as_syncframe_count a
          then Inl (AccessUnitTooLong MAX_SYNCFRAMES_PER_ACCESS_UNIT)
          else scan_loop bytes continuation (extend_assembly a h))"
proof (cases "as_total_length_bytes a < length bytes")
  case True
  then show ?thesis
    by (cases "parse_syncframe_header (drop (as_total_length_bytes a) bytes)"; cases continuation)
      (auto simp: scan_loop.simps [of bytes _ a] unit_ends_def Let_def append_syncframe_eq)
next
  case False
  then show ?thesis
    by (cases continuation)
      (simp_all add: scan_loop.simps [of bytes _ a] unit_ends_def empty_header)
qed

lemma scan_loop_complete_run:
  "scan_loop bytes continuation a = Inr (Complete_Unit u) \<Longrightarrow>
     \<exists>hs. frames_at (drop (as_total_length_bytes a) bytes) hs \<and>
          (\<forall>g \<in> set hs. \<not> starts_access_unit g) \<and>
          (hs = [] \<or> as_syncframe_count a + length hs \<le> MAX_SYNCFRAMES_PER_ACCESS_UNIT) \<and>
          unit_ends continuation (drop (as_total_length_bytes a + frames_length hs) bytes) \<and>
          u = finish_assembly (foldl extend_assembly a hs)"
proof (induction bytes continuation a rule: scan_loop.induct)
  case (1 bytes continuation a)
  let ?rest = "drop (as_total_length_bytes a) bytes"
  show ?case
  proof (cases "unit_ends continuation ?rest")
    case True
    with "1.prems" show ?thesis by (intro exI [of _ "[]"]) (simp add: scan_loop_eq [of _ _ a])
  next
    case False
    with "1.prems" obtain h where h: "parse_syncframe_header ?rest = Inr h"
      "frame_length_bytes h \<le> length ?rest" "as_syncframe_count a < MAX_SYNCFRAMES_PER_ACCESS_UNIT"
      "scan_loop bytes continuation (extend_assembly a h) = Inr (Complete_Unit u)"
      by (auto simp: scan_loop_eq [of _ _ a] Let_def not_less split: sum.splits if_splits)
    have nostart: "\<not> starts_access_unit h" using False h(1) by (simp add: unit_ends_def)
    have inside: "as_total_length_bytes a < length bytes"
      using h(1) empty_header by (metis Inl_Inr_False drop_all linorder_not_less)
    have append: "append_syncframe a h = Inr (extend_assembly a h)"
      using h(3) by (simp add: append_syncframe_eq)
    from "1.IH" [OF inside refl h(1) nostart _ append h(4)] h(2)
    obtain hs where "frames_at (drop (frame_length_bytes h) ?rest) hs"
      "\<forall>g \<in> set hs. \<not> starts_access_unit g"
      "hs = [] \<or> Suc (as_syncframe_count a) + length hs \<le> MAX_SYNCFRAMES_PER_ACCESS_UNIT"
      "unit_ends continuation (drop (as_total_length_bytes a + frame_length_bytes h + frames_length hs) bytes)"
      "u = finish_assembly (foldl extend_assembly (extend_assembly a h) hs)"
      by (auto simp: add.commute add.left_commute)
    with h nostart show ?thesis
      by (intro exI [of _ "h # hs"]) (auto simp: add.assoc)
  qed
qed

lemma scan_loop_run_complete:
  assumes "frames_at (drop (as_total_length_bytes a) bytes) hs"
    and "\<forall>g \<in> set hs. \<not> starts_access_unit g"
    and "as_syncframe_count a + length hs \<le> MAX_SYNCFRAMES_PER_ACCESS_UNIT"
    and "unit_ends continuation (drop (as_total_length_bytes a + frames_length hs) bytes)"
  shows "scan_loop bytes continuation a = Inr (Complete_Unit (finish_assembly (foldl extend_assembly a hs)))"
  using assms
proof (induction hs arbitrary: a)
  case Nil
  then show ?case by (simp add: scan_loop_eq [of _ _ a])
next
  case (Cons h hs)
  from Cons.prems have "\<not> unit_ends continuation (drop (as_total_length_bytes a) bytes)"
    by (auto simp: unit_ends_def)
  with Cons.prems Cons.IH [of "extend_assembly a h"] show ?case
    by (simp add: scan_loop_eq [of _ _ a] add.commute add.left_commute)
qed

lemma start_assembly_fields [simp]:
  "as_total_length_bytes (start_assembly h) = frame_length_bytes h"
  "as_syncframe_count (start_assembly h) = 1"
  by (simp_all add: start_assembly_def)

definition extend_unit :: "access_unit \<Rightarrow> syncframe_header \<Rightarrow> access_unit" where
  "extend_unit u h =
     (let additional = has_additional_programs u \<or> opens_program h in
      \<lparr>primary_header = primary_header u,
       unit_codec = (if \<not> additional \<and> header_codec h = Codec_Enhanced_Ac3 then Codec_Enhanced_Ac3
                     else unit_codec u),
       total_length_bytes = total_length_bytes u + frame_length_bytes h,
       primary_program_length_bytes =
         primary_program_length_bytes u + (if additional then 0 else frame_length_bytes h),
       syncframe_count = syncframe_count u + 1,
       primary_program_locations =
         (if additional then primary_program_locations u
          else union_locations (primary_program_locations u) (channel_locations h)),
       has_additional_programs = additional\<rparr>)"

lemma finish_extend: "finish_assembly (extend_assembly a g) = extend_unit (finish_assembly a) g"
  by (simp add: finish_assembly_def extend_assembly_def extend_unit_def Let_def)

lemma takeWhile_all: "\<forall>x \<in> set xs. P x \<Longrightarrow> takeWhile P xs = xs"
  by (induction xs) auto

lemma extend_unit_of: "extend_unit (unit_of h hs) g = unit_of h (hs @ [g])"
proof (cases "(\<exists>f \<in> set hs. opens_program f) \<or> opens_program g")
  case True
  then have "primary_program h (hs @ [g]) = primary_program h hs"
    by (auto simp: primary_program_def takeWhile_append takeWhile_all)
  with True show ?thesis by (auto simp: unit_of_def extend_unit_def Let_def)
next
  case False
  then have "primary_program h (hs @ [g]) = primary_program h hs @ [g]"
    by (simp add: primary_program_def takeWhile_append2 takeWhile_all)
  with False show ?thesis by (auto simp: unit_of_def extend_unit_def Let_def)
qed

lemma finish_is_unit_of:
  "finish_assembly (foldl extend_assembly (start_assembly h) hs) = unit_of h hs"
proof (induction hs rule: rev_induct)
  case Nil
  show ?case
    by (cases "header_codec h")
      (simp_all add: finish_assembly_def start_assembly_def unit_of_def primary_program_def
        union_locations_def)
next
  case (snoc g hs)
  then show ?case by (simp add: finish_extend extend_unit_of)
qed

theorem scan_access_unit_complete_iff:
  "scan_access_unit bytes continuation = Inr (Complete_Unit u) \<longleftrightarrow>
     (\<exists>h hs. access_unit_at bytes continuation h hs \<and> u = unit_of h hs)"
proof
  assume "scan_access_unit bytes continuation = Inr (Complete_Unit u)"
  then obtain h where h: "parse_syncframe_header bytes = Inr h" "frame_length_bytes h \<le> length bytes"
    "starts_access_unit h" "scan_loop bytes continuation (start_assembly h) = Inr (Complete_Unit u)"
    by (auto simp: scan_access_unit_def parse_header_or_wait_def first_frame_is_complete_def
        and_then_Inr_iff split: sum.splits if_splits stream_continuation.splits)
  from scan_loop_complete_run [OF h(4)] obtain hs where
    "frames_at (drop (frame_length_bytes h) bytes) hs" "\<forall>g \<in> set hs. \<not> starts_access_unit g"
    "hs = [] \<or> 1 + length hs \<le> MAX_SYNCFRAMES_PER_ACCESS_UNIT"
    "unit_ends continuation (drop (frame_length_bytes h + frames_length hs) bytes)"
    "u = finish_assembly (foldl extend_assembly (start_assembly h) hs)"
    by (auto simp: start_assembly_def)
  with h(1-3) show "\<exists>h hs. access_unit_at bytes continuation h hs \<and> u = unit_of h hs"
    by (intro exI [of _ h] exI [of _ hs])
      (auto simp: access_unit_at_def finish_is_unit_of MAX_SYNCFRAMES_PER_ACCESS_UNIT_def)
next
  assume "\<exists>h hs. access_unit_at bytes continuation h hs \<and> u = unit_of h hs"
  then obtain h hs where u: "access_unit_at bytes continuation h hs" "u = unit_of h hs" by blast
  have "scan_loop bytes continuation (start_assembly h) = Inr (Complete_Unit u)"
    using u scan_loop_run_complete [of "start_assembly h" bytes hs continuation]
    by (simp add: access_unit_at_def finish_is_unit_of)
  with u(1) show "scan_access_unit bytes continuation = Inr (Complete_Unit u)"
    by (simp add: access_unit_at_def scan_access_unit_def parse_header_or_wait_def
        first_frame_is_complete_def)
qed

section \<open>A decision is final\<close>

lemma unit_ends_append:
  assumes "unit_ends MoreBytesMayFollow rest"
  shows "unit_ends continuation (rest @ extra)"
proof (cases "parse_syncframe_header rest")
  case (Inl e)
  with assms header_error_stable [OF Inl, of extra] show ?thesis by (simp add: unit_ends_def)
next
  case (Inr g)
  with assms header_success_stable [OF Inr, of extra] show ?thesis by (simp add: unit_ends_def)
qed

lemma scan_loop_append:
  assumes "scan_loop bytes MoreBytesMayFollow a = r" and "r \<noteq> Inr Scan_Need_More_Data"
    and "as_total_length_bytes a \<le> length bytes"
  shows "scan_loop (bytes @ extra) continuation a = r"
  using assms
proof (induction bytes MoreBytesMayFollow a rule: scan_loop.induct)
  case (1 bytes a)
  let ?rest = "drop (as_total_length_bytes a) bytes"
  have rest: "drop (as_total_length_bytes a) (bytes @ extra) = ?rest @ extra"
    using "1.prems"(3) by simp
  show ?case
  proof (cases "unit_ends MoreBytesMayFollow ?rest")
    case True
    with "1.prems" unit_ends_append [OF True] show ?thesis
      by (simp add: scan_loop_eq [of _ _ a] rest)
  next
    case False
    with "1.prems" obtain h where h: "parse_syncframe_header ?rest = Inr h"
      "frame_length_bytes h \<le> length ?rest" "\<not> starts_access_unit h"
      by (auto simp: scan_loop_eq [of _ _ a] Let_def not_less unit_ends_def split: sum.splits if_splits)
    note hx = header_success_stable [OF h(1), of extra]
    have ends: "\<not> unit_ends continuation (?rest @ extra)"
      using h hx by (simp add: unit_ends_def)
    show ?thesis
    proof (cases "MAX_SYNCFRAMES_PER_ACCESS_UNIT \<le> as_syncframe_count a")
      case True
      with False h hx ends "1.prems" show ?thesis
        by (simp add: scan_loop_eq [of _ _ a] rest Let_def)
    next
      case room: False
      then have append: "append_syncframe a h = Inr (extend_assembly a h)"
        by (simp add: append_syncframe_eq)
      have inside: "as_total_length_bytes a < length bytes"
        using h(1) empty_header by (metis Inl_Inr_False drop_all linorder_not_less)
      have step: "scan_loop bytes MoreBytesMayFollow a = scan_loop bytes MoreBytesMayFollow (extend_assembly a h)"
        using False h room by (simp add: scan_loop_eq [of _ _ a])
      have "scan_loop (bytes @ extra) continuation (extend_assembly a h) = r"
        using "1.hyps" [OF inside refl h(1,3) _ append] h(2) "1.prems" step inside by auto
      moreover have "\<not> length bytes + length extra - as_total_length_bytes a < frame_length_bytes h"
        using h(2) "1.prems"(3) by simp
      ultimately show ?thesis using h hx ends room "1.prems"(3)
        by (simp add: scan_loop_eq [of _ _ a])
    qed
  qed
qed

theorem scan_access_unit_stable:
  assumes "scan_access_unit bytes MoreBytesMayFollow = r" and "r \<noteq> Inr Scan_Need_More_Data"
  shows "scan_access_unit (bytes @ extra) continuation = r"
proof (cases "parse_syncframe_header bytes")
  case (Inl e)
  with assms header_error_stable [OF Inl, of extra] show ?thesis
    by (auto simp: scan_access_unit_def parse_header_or_wait_def split: if_splits)
next
  case (Inr h)
  note hx = header_success_stable [OF this, of extra]
  show ?thesis
  proof (cases "frame_length_bytes h \<le> length bytes")
    case False
    with assms Inr show ?thesis
      by (auto simp: scan_access_unit_def parse_header_or_wait_def first_frame_is_complete_def)
  next
    case True
    show ?thesis
    proof (cases "starts_access_unit h")
      case False
      with assms Inr hx True show ?thesis
        by (auto simp: scan_access_unit_def parse_header_or_wait_def first_frame_is_complete_def)
    next
      case starts: True
      with assms(1) Inr True have "scan_loop bytes MoreBytesMayFollow (start_assembly h) = r"
        by (simp add: scan_access_unit_def parse_header_or_wait_def first_frame_is_complete_def)
      from scan_loop_append [OF this assms(2), of extra continuation] True
      have "scan_loop (bytes @ extra) continuation (start_assembly h) = r"
        by (simp add: start_assembly_def)
      with hx True starts show ?thesis
        by (simp add: scan_access_unit_def parse_header_or_wait_def first_frame_is_complete_def)
    qed
  qed
qed

text \<open>At the end of the stream a decision is always reached.\<close>

lemma scan_loop_end: "scan_loop bytes EndOfStream a \<noteq> Inr Scan_Need_More_Data"
proof (induction bytes EndOfStream a rule: scan_loop.induct)
  case (1 bytes a)
  show ?case
    by (subst scan_loop.simps) (auto simp: Let_def split: sum.splits dest: "1.hyps")
qed

theorem scan_access_unit_end: "scan_access_unit bytes EndOfStream \<noteq> Inr Scan_Need_More_Data"
  using scan_loop_end
  by (auto simp: scan_access_unit_def parse_header_or_wait_def first_frame_is_complete_def
      and_then_Inr_iff split: sum.splits if_splits)

section \<open>Bounds\<close>

lemma frames_at_length: "frames_at bytes hs \<Longrightarrow> frames_length hs \<le> length bytes"
  by (induction hs arbitrary: bytes) fastforce+

lemma primary_program_length: "frames_length (primary_program h hs) \<le> frames_length (h # hs)"
proof -
  have "frames_length (takeWhile P gs) \<le> frames_length gs" for P gs
    by (metis frames_length_simps(3) le_add1 takeWhile_dropWhile_id)
  then show ?thesis by (simp add: primary_program_def)
qed

theorem access_unit_bounds:
  assumes "scan_access_unit bytes continuation = Inr (Complete_Unit u)"
  shows "0 < primary_program_length_bytes u"
    and "primary_program_length_bytes u \<le> total_length_bytes u"
    and "total_length_bytes u \<le> length bytes"
    and "syncframe_count u \<le> MAX_SYNCFRAMES_PER_ACCESS_UNIT"
proof -
  from assms obtain h hs where u: "access_unit_at bytes continuation h hs" "u = unit_of h hs"
    by (auto simp: scan_access_unit_complete_iff)
  then have frames: "frames_at bytes (h # hs)" by (simp add: access_unit_at_def)
  then have "2 \<le> frame_length_bytes h" by (auto intro: header_length_bounds)
  then show "0 < primary_program_length_bytes u"
    by (simp add: u(2) unit_of_def Let_def primary_program_def)
  show "primary_program_length_bytes u \<le> total_length_bytes u"
    using primary_program_length by (simp add: u(2) unit_of_def Let_def)
  show "total_length_bytes u \<le> length bytes"
    using frames_at_length [OF frames] by (simp add: u(2) unit_of_def Let_def)
  show "syncframe_count u \<le> MAX_SYNCFRAMES_PER_ACCESS_UNIT"
    using u by (simp add: unit_of_def Let_def access_unit_at_def)
qed
end
