(* ===== verification/Vp9_Header.thy ===== *)
theory Vp9_Header
  imports Bit_Stream
begin

text \<open>
  The VP9 uncompressed header (crate \<open>vp9-parser\<close>): the bit reader with its byte and bit cursor, and
  the parser of the header fields in the order of the code. A failed read ends the parse, so a
  failure carries no reader.
  The specification is the syntax of the format as data (\<open>vp9_syntax\<close>), its bits (\<open>header_bits\<close>)
  and what the parser reports of it (\<open>header_info\<close>).
\<close>

section \<open>The bit reader\<close>

record bit_reader =
  br_data :: "u8 list"
  byte_offset :: nat
  bit_offset :: u8

definition new_bit_reader :: "u8 list \<Rightarrow> bit_reader" where
  "new_bit_reader bytes = \<lparr>br_data = bytes, byte_offset = 0, bit_offset = 0\<rparr>"

definition read_bit :: "bit_reader \<Rightarrow> (u8 \<times> bit_reader) option" where
  "read_bit br =
     (if length (br_data br) \<le> byte_offset br then None
      else let byte = br_data br ! byte_offset br;
               b = and (drop_bit (unat (7 - bit_offset br)) byte) 1;
               next_bit = bit_offset br + 1
           in Some (b, if next_bit = 8
                       then br\<lparr>bit_offset := 0, byte_offset := byte_offset br + 1\<rparr>
                       else br\<lparr>bit_offset := next_bit\<rparr>))"

text \<open>The loop of \<open>read_bits\<close>: \<open>n\<close> further bits are shifted into \<open>v\<close>.\<close>

fun read_bits_loop :: "nat \<Rightarrow> u32 \<Rightarrow> bit_reader \<Rightarrow> (u32 \<times> bit_reader) option" where
  "read_bits_loop 0 v br = Some (v, br)"
| "read_bits_loop (Suc n) v br =
     (case read_bit br of None \<Rightarrow> None
      | Some (b, br) \<Rightarrow> read_bits_loop n (or (push_bit 1 v) (ucast b)) br)"

definition read_bits :: "u8 \<Rightarrow> bit_reader \<Rightarrow> (u32 \<times> bit_reader) option" where
  "read_bits n br = (if 32 < n then None else read_bits_loop (unat n) 0 br)"

definition read_literal :: "u8 \<Rightarrow> bit_reader \<Rightarrow> (u32 \<times> bit_reader) option" where
  "read_literal n br = read_bits n br"

definition eof :: "bit_reader \<Rightarrow> bool" where
  "eof br = (length (br_data br) \<le> byte_offset br)"

section \<open>The header parser\<close>

definition FRAME_MARKER :: u32 where "FRAME_MARKER = 2"
definition SYNC_CODE :: u32 where "SYNC_CODE = 0x498342"
definition COLOR_SPACE_SRGB :: u32 where "COLOR_SPACE_SRGB = 7"

record vp9_frame_info =
  keyframe :: bool
  width :: u32
  height :: u32
  render_width :: u32
  render_height :: u32
  show_frame :: bool
  profile :: u8
  show_existing_frame :: bool
  bit_depth :: "u8 option"
  subsampling_x :: "bool option"
  subsampling_y :: "bool option"
  color_space :: "u8 option"
  color_range_full :: "bool option"
  refresh_frame_flags :: u8
  ref_frame_idx :: "u8 list"
  ref_frame_sign_bias :: "u8 list"

datatype parse_error =
    InsufficientData
  | InvalidFrameMarker
  | InvalidSyncCode
  | UnsupportedProfile u8
  | BitstreamError

record color_config =
  cc_bit_depth :: u8
  cc_subsampling_x :: "bool option"
  cc_subsampling_y :: "bool option"
  cc_color_space :: u8
  cc_color_range_full :: "bool option"

text \<open>\<open>br.read_bit().ok_or(BitstreamError)?\<close> and its companion for fields.\<close>

definition bit_or_error :: "bit_reader \<Rightarrow> parse_error + u8 \<times> bit_reader" where
  "bit_or_error br = ok_or BitstreamError (read_bit br)"

definition bits_or_error :: "u8 \<Rightarrow> bit_reader \<Rightarrow> parse_error + u32 \<times> bit_reader" where
  "bits_or_error n br = ok_or BitstreamError (read_bits n br)"

definition literal_or_error :: "u8 \<Rightarrow> bit_reader \<Rightarrow> parse_error + u32 \<times> bit_reader" where
  "literal_or_error n br = ok_or BitstreamError (read_literal n br)"

definition read_bool :: "bit_reader \<Rightarrow> parse_error + bool \<times> bit_reader" where
  "read_bool br = and_then (bit_or_error br) (\<lambda>(b, br). Inr (b \<noteq> 0, br))"

definition parse_profile :: "bit_reader \<Rightarrow> parse_error + u8 \<times> bit_reader" where
  "parse_profile br =
     and_then (bit_or_error br) (\<lambda>(low_bit, br).
     and_then (bit_or_error br) (\<lambda>(high_bit, br).
       let p = or (push_bit 1 high_bit) low_bit in
       and_then (if p = 3 then and_then (bit_or_error br) (\<lambda>(_, br). Inr ((), br)) else Inr ((), br))
         (\<lambda>(_, br). if 3 < p then Inl (UnsupportedProfile p) else Inr (p, br))))"

definition parse_frame_sync_code :: "bit_reader \<Rightarrow> parse_error + unit \<times> bit_reader" where
  "parse_frame_sync_code br =
     and_then (bits_or_error 24 br) (\<lambda>(sync_code, br).
       if sync_code = SYNC_CODE then Inr ((), br) else Inl InvalidSyncCode)"

definition parse_color_config :: "u8 \<Rightarrow> bit_reader \<Rightarrow> parse_error + color_config \<times> bit_reader" where
  "parse_color_config p br =
     and_then (if p = 2 \<or> p = 3
               then and_then (read_bool br) (\<lambda>(twelve, br). Inr (if twelve then 12 else 10, br))
               else Inr (8, br)) (\<lambda>(depth, br).
     and_then (bits_or_error 3 br) (\<lambda>(space, br).
     and_then
       (if space \<noteq> COLOR_SPACE_SRGB
        then and_then (bit_or_error br) (\<lambda>(range, br).
             if p = 1 \<or> p = 3
             then and_then (read_bool br) (\<lambda>(x, br).
                  and_then (read_bool br) (\<lambda>(y, br).
                  and_then (bit_or_error br) (\<lambda>(_, br).
                    Inr ((Some (range \<noteq> 0), Some x, Some y), br))))
             else Inr ((Some (range \<noteq> 0), Some True, Some True), br))
        else if p = 1 \<or> p = 3
        then and_then (bit_or_error br) (\<lambda>(_, br). Inr ((None, Some False, Some False), br))
        else Inr ((None, None, None), br))
       (\<lambda>((range, x, y), br).
          Inr (\<lparr>cc_bit_depth = depth, cc_subsampling_x = x, cc_subsampling_y = y,
                cc_color_space = ucast space, cc_color_range_full = range\<rparr>, br))))"

definition parse_frame_size :: "bit_reader \<Rightarrow> parse_error + (u32 \<times> u32) \<times> bit_reader" where
  "parse_frame_size br =
     and_then (literal_or_error 16 br) (\<lambda>(w, br).
     and_then (literal_or_error 16 br) (\<lambda>(h, br). Inr ((w + 1, h + 1), br)))"

definition parse_render_size ::
    "u32 \<Rightarrow> u32 \<Rightarrow> bit_reader \<Rightarrow> parse_error + (u32 \<times> u32) \<times> bit_reader" where
  "parse_render_size w h br =
     and_then (read_bool br) (\<lambda>(different, br).
       if different
       then and_then (literal_or_error 16 br) (\<lambda>(rw, br).
            and_then (literal_or_error 16 br) (\<lambda>(rh, br). Inr ((rw + 1, rh + 1), br)))
       else Inr ((w, h), br))"

text \<open>The loop over the three reference flags, with \<open>n\<close> flags left, and the size after it.\<close>

fun parse_size_from_refs ::
    "nat \<Rightarrow> bit_reader \<Rightarrow> parse_error + (u32 \<times> u32 \<times> u32 \<times> u32) \<times> bit_reader" where
  "parse_size_from_refs 0 br =
     and_then (parse_frame_size br) (\<lambda>((w, h), br).
     and_then (parse_render_size w h br) (\<lambda>((rw, rh), br). Inr ((w, h, rw, rh), br)))"
| "parse_size_from_refs (Suc n) br =
     and_then (read_bool br) (\<lambda>(found, br).
       if found
       then and_then (parse_render_size 0 0 br) (\<lambda>((rw, rh), br). Inr ((0, 0, rw, rh), br))
       else parse_size_from_refs n br)"

definition parse_frame_size_with_refs ::
    "bit_reader \<Rightarrow> parse_error + (u32 \<times> u32 \<times> u32 \<times> u32) \<times> bit_reader" where
  "parse_frame_size_with_refs br = parse_size_from_refs 3 br"

text \<open>The loop over the three references: \<open>ref_frame_idx[index]\<close> and \<open>ref_frame_sign_bias[index + 1]\<close>.\<close>

fun parse_refs ::
    "nat list \<Rightarrow> u8 list \<Rightarrow> u8 list \<Rightarrow> bit_reader \<Rightarrow> parse_error + (u8 list \<times> u8 list) \<times> bit_reader" where
  "parse_refs [] idx bias br = Inr ((idx, bias), br)"
| "parse_refs (i # is) idx bias br =
     and_then (bits_or_error 3 br) (\<lambda>(v, br).
     and_then (bit_or_error br) (\<lambda>(b, br).
       parse_refs is (idx[i := ucast v]) (bias[i + 1 := b]) br))"

text \<open>The branch of a key frame, of an intra-only frame and of an inter frame.\<close>

definition parse_key_frame ::
    "u8 \<Rightarrow> bool \<Rightarrow> bit_reader \<Rightarrow> parse_error + vp9_frame_info \<times> bit_reader" where
  "parse_key_frame p show br =
     and_then (parse_frame_sync_code br) (\<lambda>(_, br).
     and_then (parse_color_config p br) (\<lambda>(cc, br).
     and_then (parse_frame_size br) (\<lambda>((w, h), br).
     and_then (parse_render_size w h br) (\<lambda>((rw, rh), br).
       Inr (\<lparr>keyframe = True, width = w, height = h, render_width = rw, render_height = rh,
             show_frame = show, profile = p, show_existing_frame = False,
             bit_depth = Some (cc_bit_depth cc), subsampling_x = cc_subsampling_x cc,
             subsampling_y = cc_subsampling_y cc, color_space = Some (cc_color_space cc),
             color_range_full = cc_color_range_full cc, refresh_frame_flags = 0xff,
             ref_frame_idx = replicate 3 0, ref_frame_sign_bias = replicate 4 0\<rparr>, br)))))"

definition parse_intra_only ::
    "u8 \<Rightarrow> bool \<Rightarrow> bit_reader \<Rightarrow> parse_error + vp9_frame_info \<times> bit_reader" where
  "parse_intra_only p show br =
     and_then (parse_frame_sync_code br) (\<lambda>(_, br).
     and_then
       (if p = 0 then Inr ((Some 8, Some True, Some True, None, None), br)
        else and_then (parse_color_config p br) (\<lambda>(cc, br).
               Inr ((Some (cc_bit_depth cc), cc_subsampling_x cc, cc_subsampling_y cc,
                     Some (cc_color_space cc), cc_color_range_full cc), br)))
       (\<lambda>((depth, x, y, space, range), br).
     and_then (bits_or_error 8 br) (\<lambda>(refresh, br).
     and_then (parse_frame_size br) (\<lambda>((w, h), br).
     and_then (parse_render_size w h br) (\<lambda>((rw, rh), br).
       Inr (\<lparr>keyframe = False, width = w, height = h, render_width = rw, render_height = rh,
             show_frame = show, profile = p, show_existing_frame = False,
             bit_depth = depth, subsampling_x = x, subsampling_y = y, color_space = space,
             color_range_full = range, refresh_frame_flags = ucast refresh,
             ref_frame_idx = replicate 3 0, ref_frame_sign_bias = replicate 4 0\<rparr>, br))))))"

definition parse_inter_frame ::
    "u8 \<Rightarrow> bool \<Rightarrow> bit_reader \<Rightarrow> parse_error + vp9_frame_info \<times> bit_reader" where
  "parse_inter_frame p show br =
     and_then (bits_or_error 8 br) (\<lambda>(refresh, br).
     and_then (parse_refs [0..<3] (replicate 3 0) (replicate 4 0) br) (\<lambda>((idx, bias), br).
     and_then (parse_frame_size_with_refs br) (\<lambda>((w, h, rw, rh), br).
       Inr (\<lparr>keyframe = False, width = w, height = h, render_width = rw, render_height = rh,
             show_frame = show, profile = p, show_existing_frame = False,
             bit_depth = None, subsampling_x = None, subsampling_y = None, color_space = None,
             color_range_full = None, refresh_frame_flags = ucast refresh,
             ref_frame_idx = idx, ref_frame_sign_bias = bias\<rparr>, br))))"

definition existing_frame_info :: "u8 \<Rightarrow> vp9_frame_info" where
  "existing_frame_info p =
     \<lparr>keyframe = False, width = 0, height = 0, render_width = 0, render_height = 0,
      show_frame = True, profile = p, show_existing_frame = True, bit_depth = None,
      subsampling_x = None, subsampling_y = None, color_space = None, color_range_full = None,
      refresh_frame_flags = 0, ref_frame_idx = replicate 3 0, ref_frame_sign_bias = replicate 4 0\<rparr>"

text \<open>What follows the \<open>show_existing_frame\<close> flag.\<close>

definition parse_coded_frame :: "u8 \<Rightarrow> bit_reader \<Rightarrow> parse_error + vp9_frame_info \<times> bit_reader" where
  "parse_coded_frame p br =
     and_then (bit_or_error br) (\<lambda>(frame_type, br).
     and_then (read_bool br) (\<lambda>(show, br).
     and_then (read_bool br) (\<lambda>(error_resilient_mode, br).
       if frame_type = 0 then parse_key_frame p show br
       else
         and_then (if \<not> show then read_bool br else Inr (False, br)) (\<lambda>(intra_only, br).
         and_then (if \<not> error_resilient_mode
                   then and_then (bits_or_error 2 br) (\<lambda>(_, br). Inr ((), br))
                   else Inr ((), br)) (\<lambda>(_, br).
           if intra_only then parse_intra_only p show br else parse_inter_frame p show br)))))"

definition parse_header_fields :: "bit_reader \<Rightarrow> parse_error + vp9_frame_info \<times> bit_reader" where
  "parse_header_fields br =
     and_then (bits_or_error 2 br) (\<lambda>(frame_marker, br).
       if frame_marker \<noteq> FRAME_MARKER then Inl InvalidFrameMarker
       else
         and_then (parse_profile br) (\<lambda>(p, br).
         and_then (read_bool br) (\<lambda>(existing, br).
           if existing
           then and_then (bits_or_error 3 br) (\<lambda>(_, br). Inr (existing_frame_info p, br))
           else parse_coded_frame p br)))"

definition parse_uncompressed_header :: "u8 list \<Rightarrow> parse_error + vp9_frame_info" where
  "parse_uncompressed_header bytes =
     (if length bytes < 3 then Inl InsufficientData
      else and_then (parse_header_fields (new_bit_reader bytes)) (\<lambda>(info, _). Inr info))"

section \<open>The syntax of the format\<close>

record color_syntax =
  twelve_bit :: bool
  space_code :: nat
  full_range :: bool
  sub_x :: bool
  sub_y :: bool
  reserved_bit :: bool

text \<open>Sizes are coded minus one.\<close>

datatype render_syntax = Same_Size | Own_Size nat nat

datatype size_syntax = From_Reference nat render_syntax | Explicit_Size nat nat render_syntax

datatype frame_syntax =
    Key_Frame bool bool color_syntax nat nat render_syntax
  | Intra_Only_Frame bool nat color_syntax nat nat nat render_syntax
  | Inter_Frame bool bool nat nat "(nat \<times> bool) list" size_syntax

datatype vp9_syntax =
    Show_Existing nat bool nat
  | Coded_Frame nat bool frame_syntax

definition color_bits :: "nat \<Rightarrow> color_syntax \<Rightarrow> bool list" where
  "color_bits p c =
     (if p \<in> {2, 3} then [twelve_bit c] else []) @ nat_bits 3 (space_code c) @
     (if space_code c \<noteq> 7
      then [full_range c] @ (if p \<in> {1, 3} then [sub_x c, sub_y c, reserved_bit c] else [])
      else if p \<in> {1, 3} then [reserved_bit c] else [])"

definition color_info :: "nat \<Rightarrow> color_syntax \<Rightarrow> color_config" where
  "color_info p c =
     (let odd_profile = (p \<in> {1, 3}); srgb = (space_code c = 7) in
      \<lparr>cc_bit_depth = (if p \<in> {2, 3} then if twelve_bit c then 12 else 10 else 8),
       cc_subsampling_x =
         (if srgb then if odd_profile then Some False else None
          else Some (if odd_profile then sub_x c else True)),
       cc_subsampling_y =
         (if srgb then if odd_profile then Some False else None
          else Some (if odd_profile then sub_y c else True)),
       cc_color_space = of_nat (space_code c),
       cc_color_range_full = (if srgb then None else Some (full_range c))\<rparr>)"

fun render_bits :: "render_syntax \<Rightarrow> bool list" where
  "render_bits Same_Size = [False]"
| "render_bits (Own_Size w h) = [True] @ nat_bits 16 w @ nat_bits 16 h"

fun render_info :: "u32 \<times> u32 \<Rightarrow> render_syntax \<Rightarrow> u32 \<times> u32" where
  "render_info wh Same_Size = wh"
| "render_info wh (Own_Size w h) = (of_nat w + 1, of_nat h + 1)"

fun render_ok :: "render_syntax \<Rightarrow> bool" where
  "render_ok Same_Size = True"
| "render_ok (Own_Size w h) = (w < 2 ^ 16 \<and> h < 2 ^ 16)"

definition size_bits :: "nat \<Rightarrow> nat \<Rightarrow> bool list" where
  "size_bits w h = nat_bits 16 w @ nat_bits 16 h"

definition size_info :: "nat \<Rightarrow> nat \<Rightarrow> u32 \<times> u32" where
  "size_info w h = (of_nat w + 1, of_nat h + 1)"

text \<open>Reference \<open>i\<close> of \<open>n\<close> gives the size: \<open>i\<close> cleared flags and a set one.\<close>

fun ref_size_bits :: "nat \<Rightarrow> size_syntax \<Rightarrow> bool list" where
  "ref_size_bits n (From_Reference i render) = replicate i False @ [True] @ render_bits render"
| "ref_size_bits n (Explicit_Size w h render) =
     replicate n False @ size_bits w h @ render_bits render"

fun ref_size_info :: "size_syntax \<Rightarrow> u32 \<times> u32 \<times> u32 \<times> u32" where
  "ref_size_info (From_Reference i render) = (0, 0, render_info (0, 0) render)"
| "ref_size_info (Explicit_Size w h render) =
     (of_nat w + 1, of_nat h + 1, render_info (size_info w h) render)"

fun ref_size_ok :: "nat \<Rightarrow> size_syntax \<Rightarrow> bool" where
  "ref_size_ok n (From_Reference i render) = (i < n \<and> render_ok render)"
| "ref_size_ok n (Explicit_Size w h render) = (w < 2 ^ 16 \<and> h < 2 ^ 16 \<and> render_ok render)"

definition refs_bits :: "(nat \<times> bool) list \<Rightarrow> bool list" where
  "refs_bits refs = concat (map (\<lambda>(i, b). nat_bits 3 i @ [b]) refs)"

definition sync_bits :: "bool list" where
  "sync_bits = nat_bits 24 0x498342"

definition reset_bits :: "bool \<Rightarrow> nat \<Rightarrow> bool list" where
  "reset_bits error_resilient reset = (if error_resilient then [] else nat_bits 2 reset)"

fun frame_bits :: "nat \<Rightarrow> frame_syntax \<Rightarrow> bool list" where
  "frame_bits p (Key_Frame show err c w h render) =
     [False, show, err] @ sync_bits @ color_bits p c @ size_bits w h @ render_bits render"
| "frame_bits p (Intra_Only_Frame err reset c refresh w h render) =
     [True, False, err] @ [True] @ reset_bits err reset @ sync_bits @
     (if p = 0 then [] else color_bits p c) @ nat_bits 8 refresh @ size_bits w h @ render_bits render"
| "frame_bits p (Inter_Frame show err reset refresh refs sz) =
     [True, show, err] @ (if show then [] else [False]) @ reset_bits err reset @
     nat_bits 8 refresh @ refs_bits refs @ ref_size_bits 3 sz"

definition profile_bits :: "nat \<Rightarrow> bool \<Rightarrow> bool list" where
  "profile_bits p reserved = [odd p, odd (p div 2)] @ (if p = 3 then [reserved] else [])"

fun header_bits :: "vp9_syntax \<Rightarrow> bool list" where
  "header_bits (Show_Existing p reserved index) =
     nat_bits 2 2 @ profile_bits p reserved @ [True] @ nat_bits 3 index"
| "header_bits (Coded_Frame p reserved frame) =
     nat_bits 2 2 @ profile_bits p reserved @ [False] @ frame_bits p frame"

fun frame_info :: "nat \<Rightarrow> frame_syntax \<Rightarrow> vp9_frame_info" where
  "frame_info p (Key_Frame show err c w h render) =
     (let cc = color_info p c in
      \<lparr>keyframe = True, width = fst (size_info w h), height = snd (size_info w h),
       render_width = fst (render_info (size_info w h) render),
       render_height = snd (render_info (size_info w h) render),
       show_frame = show, profile = of_nat p, show_existing_frame = False,
       bit_depth = Some (cc_bit_depth cc), subsampling_x = cc_subsampling_x cc,
       subsampling_y = cc_subsampling_y cc, color_space = Some (cc_color_space cc),
       color_range_full = cc_color_range_full cc, refresh_frame_flags = 0xff,
       ref_frame_idx = replicate 3 0, ref_frame_sign_bias = replicate 4 0\<rparr>)"
| "frame_info p (Intra_Only_Frame err reset c refresh w h render) =
     (let cc = color_info p c in
      \<lparr>keyframe = False, width = fst (size_info w h), height = snd (size_info w h),
       render_width = fst (render_info (size_info w h) render),
       render_height = snd (render_info (size_info w h) render),
       show_frame = False, profile = of_nat p, show_existing_frame = False,
       bit_depth = (if p = 0 then Some 8 else Some (cc_bit_depth cc)),
       subsampling_x = (if p = 0 then Some True else cc_subsampling_x cc),
       subsampling_y = (if p = 0 then Some True else cc_subsampling_y cc),
       color_space = (if p = 0 then None else Some (cc_color_space cc)),
       color_range_full = (if p = 0 then None else cc_color_range_full cc),
       refresh_frame_flags = of_nat refresh,
       ref_frame_idx = replicate 3 0, ref_frame_sign_bias = replicate 4 0\<rparr>)"
| "frame_info p (Inter_Frame show err reset refresh refs sz) =
     (let (w, h, rw, rh) = ref_size_info sz in
      \<lparr>keyframe = False, width = w, height = h, render_width = rw, render_height = rh,
       show_frame = show, profile = of_nat p, show_existing_frame = False,
       bit_depth = None, subsampling_x = None, subsampling_y = None, color_space = None,
       color_range_full = None, refresh_frame_flags = of_nat refresh,
       ref_frame_idx = map (\<lambda>(i, b). of_nat i) refs,
       ref_frame_sign_bias = 0 # map (\<lambda>(i, b). of_bool b) refs\<rparr>)"

fun header_info :: "vp9_syntax \<Rightarrow> vp9_frame_info" where
  "header_info (Show_Existing p reserved index) = existing_frame_info (of_nat p)"
| "header_info (Coded_Frame p reserved frame) = frame_info p frame"

fun frame_ok :: "frame_syntax \<Rightarrow> bool" where
  "frame_ok (Key_Frame show err c w h render) =
     (space_code c < 8 \<and> w < 2 ^ 16 \<and> h < 2 ^ 16 \<and> render_ok render)"
| "frame_ok (Intra_Only_Frame err reset c refresh w h render) =
     (reset < 4 \<and> space_code c < 8 \<and> refresh < 2 ^ 8 \<and> w < 2 ^ 16 \<and> h < 2 ^ 16 \<and> render_ok render)"
| "frame_ok (Inter_Frame show err reset refresh refs sz) =
     (reset < 4 \<and> refresh < 2 ^ 8 \<and> length refs = 3 \<and> (\<forall>(i, b) \<in> set refs. i < 8) \<and>
      ref_size_ok 3 sz)"

fun header_ok :: "vp9_syntax \<Rightarrow> bool" where
  "header_ok (Show_Existing p reserved index) = (p < 4 \<and> index < 8)"
| "header_ok (Coded_Frame p reserved frame) = (p < 4 \<and> frame_ok frame)"

section \<open>The reader delivers the bits of the buffer\<close>

definition cursor :: "bit_reader \<Rightarrow> nat" where
  "cursor br = 8 * byte_offset br + unat (bit_offset br)"

definition unread_bits :: "bit_reader \<Rightarrow> bool list" where
  "unread_bits br = drop (cursor br) (bits_of_bytes (br_data br))"

definition reader_ok :: "bit_reader \<Rightarrow> bool" where
  "reader_ok br \<longleftrightarrow> bit_offset br < 8"

lemma drop_bit_and_1: "and (drop_bit n w) 1 = of_bool (bit (w :: 'a::len word) n)"
  by (rule bit_eqI) (auto simp: bit_simps)

lemma unread_Nil_iff:
  assumes "reader_ok br"
  shows "unread_bits br = [] \<longleftrightarrow> length (br_data br) \<le> byte_offset br"
proof -
  have "unat (bit_offset br) < 8" using assms by (simp add: reader_ok_def word_less_nat_alt)
  then show ?thesis by (auto simp: unread_bits_def cursor_def)
qed

lemma read_bit_cases:
  assumes "reader_ok br"
  shows "unread_bits br = [] \<Longrightarrow> read_bit br = None"
    and "unread_bits br = b # bs \<Longrightarrow>
      \<exists>s. read_bit br = Some (of_bool b, s) \<and> reader_ok s \<and> unread_bits s = bs"
proof -
  show "unread_bits br = [] \<Longrightarrow> read_bit br = None"
    using unread_Nil_iff [OF assms] by (simp add: read_bit_def)
next
  assume u: "unread_bits br = b # bs"
  let ?o = "unat (bit_offset br)"
  have o: "?o < 8" using assms by (simp add: reader_ok_def word_less_nat_alt)
  from u unread_Nil_iff [OF assms] have i: "byte_offset br < length (br_data br)" by auto
  then have p: "cursor br < length (bits_of_bytes (br_data br))"
    using o by (simp add: cursor_def)
  from u have b: "b = bits_of_bytes (br_data br) ! cursor br"
    and bs: "bs = drop (Suc (cursor br)) (bits_of_bytes (br_data br))"
    using p by (auto simp: unread_bits_def Cons_nth_drop_Suc [symmetric])
  have pos: "cursor br div 8 = byte_offset br" "cursor br mod 8 = ?o"
    using o by (simp_all add: cursor_def)
  have "b = bit (br_data br ! byte_offset br) (7 - ?o)"
    using p by (simp add: b nth_bits_of_bytes pos)
  moreover have sub: "unat (7 - bit_offset br) = 7 - ?o"
    using o by (simp add: unat_sub word_le_nat_alt)
  ultimately have bit: "and (drop_bit (unat (7 - bit_offset br)) (br_data br ! byte_offset br)) 1
      = (of_bool b :: u8)"
    by (simp add: drop_bit_and_1)
  have next_bit: "unat (bit_offset br + 1) = ?o + 1"
    using o by (simp add: unat_word_ariths)
  have eq8: "bit_offset br + 1 = 8 \<longleftrightarrow> ?o = 7"
    using next_bit by (auto simp: word_unat_eq_iff)
  show "\<exists>s. read_bit br = Some (of_bool b, s) \<and> reader_ok s \<and> unread_bits s = bs"
  proof (cases "?o = 7")
    case True
    then show ?thesis using i bit eq8
      by (simp add: read_bit_def Let_def reader_ok_def unread_bits_def bs cursor_def)
  next
    case False
    with o have "?o + 1 < 8" by simp
    with False show ?thesis using i bit eq8 next_bit
      by (simp add: read_bit_def Let_def reader_ok_def unread_bits_def bs cursor_def
          word_less_nat_alt)
  qed
qed

lemma read_bits_loop_enough:
  "reader_ok br \<Longrightarrow> unread_bits br = bs @ rest \<Longrightarrow>
     \<exists>s. read_bits_loop (length bs) v br =
           Some (foldl (\<lambda>v b. or (push_bit 1 v) (of_bool b)) v bs, s) \<and>
         reader_ok s \<and> unread_bits s = rest"
proof (induction bs arbitrary: br v)
  case (Cons b bs)
  from read_bit_cases(2) [OF Cons.prems(1)] Cons.prems(2) obtain t where t:
    "read_bit br = Some (of_bool b, t)" "reader_ok t" "unread_bits t = bs @ rest" by auto
  from Cons.IH [OF t(2,3)] t(1) show ?case by simp
qed simp

lemma read_bits_loop_short:
  "reader_ok br \<Longrightarrow> length (unread_bits br) < n \<Longrightarrow> read_bits_loop n v br = None"
proof (induction n arbitrary: br v)
  case (Suc n)
  show ?case
  proof (cases "unread_bits br")
    case Nil
    with read_bit_cases(1) [OF Suc.prems(1)] show ?thesis by simp
  next
    case (Cons b bs)
    with read_bit_cases(2) [OF Suc.prems(1)] obtain t where t:
      "read_bit br = Some (of_bool b, t)" "reader_ok t" "unread_bits t = bs" by auto
    with Suc.IH [OF t(2)] Suc.prems(2) Cons show ?thesis by simp
  qed
qed simp

lemma read_bits_of_nat:
  "n \<le> 32 \<Longrightarrow> read_bits (of_nat n) br = read_bits_loop n 0 br"
  by (simp add: read_bits_def word_less_nat_alt unat_of_nat)

interpretation vp9_bits: bit_source unread_bits reader_ok "\<lambda>n. bits_or_error (of_nat n)" 32
proof
  fix n :: nat and r bs rest
  assume "reader_ok r" "n \<le> 32" "unread_bits r = bs @ rest" "length bs = n"
  then show "\<exists>s. bits_or_error (of_nat n) r = Inr (word_of_bits bs, s) \<and> reader_ok s \<and>
      unread_bits s = rest"
    using read_bits_loop_enough [of r bs rest 0, unfolded foldl_word_of_bits]
    by (auto simp: bits_or_error_def read_bits_of_nat)
next
  fix n :: nat and r
  assume "reader_ok r" "n \<le> 32" "length (unread_bits r) < n"
  then show "\<exists>e. bits_or_error (of_nat n) r = Inl e"
    by (simp add: bits_or_error_def read_bits_of_nat read_bits_loop_short)
qed

section \<open>Each parser reads its part of the syntax\<close>

abbreviation vp9_reads ::
    "(bit_reader \<Rightarrow> parse_error + 'a \<times> bit_reader) \<Rightarrow> bool list \<Rightarrow> 'a \<Rightarrow> bool" where
  "vp9_reads \<equiv> reads unread_bits reader_ok"

abbreviation vp9_consumes ::
    "(bit_reader \<Rightarrow> parse_error + 'a \<times> bit_reader) \<Rightarrow> (bool list \<Rightarrow> 'a \<Rightarrow> bool) \<Rightarrow> bool" where
  "vp9_consumes \<equiv> consumes unread_bits reader_ok"

lemma literal_is_bits: "literal_or_error = bits_or_error"
  by (rule ext)+ (simp add: literal_or_error_def bits_or_error_def read_literal_def)

lemma reads_field:
  "v < 2 ^ n \<Longrightarrow> n \<le> 32 \<Longrightarrow> vp9_reads (bits_or_error (of_nat n)) (nat_bits n v) (of_nat v)"
  by (rule vp9_bits.reads_number)

lemma consumes_field:
  "n \<le> 32 \<Longrightarrow> vp9_consumes (bits_or_error (of_nat n))
     (\<lambda>bs x. \<exists>v < 2 ^ n. bs = nat_bits n v \<and> x = of_nat v)"
  by (rule vp9_bits.consumes_number)

lemma reads_bit: "vp9_reads bit_or_error [b] (of_bool b)"
  unfolding reads_def bit_or_error_def using read_bit_cases(2) by fastforce

lemma consumes_bit: "vp9_consumes bit_or_error (\<lambda>bs x. \<exists>b. bs = [b] \<and> x = of_bool b)"
proof (rule consumesI)
  fix r x s
  assume r: "reader_ok r" and x: "bit_or_error r = Inr (x, s)"
  show "reader_ok s \<and> (\<exists>bs. (\<exists>b. bs = [b] \<and> x = of_bool b) \<and> unread_bits r = bs @ unread_bits s)"
  proof (cases "unread_bits r")
    case Nil
    with read_bit_cases(1) [OF r] x show ?thesis by (simp add: bit_or_error_def)
  next
    case (Cons b bs)
    with read_bit_cases(2) [OF r] x show ?thesis by (fastforce simp: bit_or_error_def)
  qed
qed

lemmas reads_u2 = reads_field [of _ 2, simplified]
lemmas reads_u3 = reads_field [of _ 3, simplified]
lemmas vp9_reads_u8 = reads_field [of _ 8, simplified]
lemmas vp9_reads_u16 = reads_field [of _ 16, simplified]
lemmas vp9_reads_u24 = reads_field [of _ 24, simplified]
lemmas consumes_u2 = consumes_field [of 2, simplified]
lemmas consumes_u3 = consumes_field [of 3, simplified]
lemmas vp9_consumes_u8 = consumes_field [of 8, simplified]
lemmas vp9_consumes_u16 = consumes_field [of 16, simplified]
lemmas vp9_consumes_u24 = consumes_field [of 24, simplified]

lemma reads_bool: "vp9_reads read_bool [b] b"
  using reads_map [OF reads_bit [of b], of "\<lambda>x. x \<noteq> 0"]
  by (cases b) (simp_all add: read_bool_def [abs_def])

lemma consumes_bool: "vp9_consumes read_bool (\<lambda>bs x. bs = [x])"
  unfolding read_bool_def [abs_def]
  by (rule consumes_weaken, rule consumes_map, rule consumes_bit) auto

lemmas vp9_read_rules = reads_map reads_bind reads_return
lemmas vp9_consume_rules = consumes_map consumes_bind consumes_return consumes_error

lemma reads_frame_size:
  "w < 2 ^ 16 \<Longrightarrow> h < 2 ^ 16 \<Longrightarrow> vp9_reads parse_frame_size (size_bits w h) (size_info w h)"
  unfolding parse_frame_size_def [abs_def] literal_is_bits size_info_def size_bits_def
  by (rule reads_map reads_bind vp9_reads_u16 | simp)+

lemma consumes_frame_size:
  "vp9_consumes parse_frame_size
     (\<lambda>bs x. \<exists>w h. w < 2 ^ 16 \<and> h < 2 ^ 16 \<and> bs = size_bits w h \<and> x = size_info w h)"
  unfolding parse_frame_size_def [abs_def] literal_is_bits size_info_def
  by (rule consumes_weaken, (rule consumes_map consumes_bind vp9_consumes_u16)+)
    (auto simp: size_bits_def)

lemma reads_render_size:
  "render_ok render \<Longrightarrow>
     vp9_reads (parse_render_size w h) (render_bits render) (render_info (w, h) render)"
proof (cases render)
  case Same_Size
  show ?thesis
    unfolding parse_render_size_def [abs_def] Same_Size render_bits.simps render_info.simps
    by (rule reads_bind_end [OF reads_bool [of False]]) (simp add: reads_return)
next
  case (Own_Size rw rh)
  assume "render_ok render"
  then show ?thesis
    unfolding parse_render_size_def [abs_def] literal_is_bits Own_Size render_bits.simps
      render_info.simps
    by (intro reads_bind [OF reads_bool] reads_If) (rule reads_map reads_bind vp9_reads_u16 | simp)+
qed

lemma consumes_render_size:
  "vp9_consumes (parse_render_size w h)
     (\<lambda>bs x. \<exists>render. render_ok render \<and> bs = render_bits render \<and> x = render_info (w, h) render)"
  unfolding parse_render_size_def [abs_def] literal_is_bits
  by (rule consumes_weaken, (rule consumes_bool consumes_If consumes_map consumes_bind vp9_consumes_u16
        consumes_return)+)
    (auto split: if_splits intro: exI [where x = Same_Size] exI [where x = "Own_Size v va" for v va])

lemma profile_word: "p < 4 \<Longrightarrow> of_nat p = (or (push_bit 1 (of_bool (odd (p div 2)))) (of_bool (odd p)) :: u8)"
proof -
  assume "p < 4"
  then consider "p = 0" | "p = 1" | "p = 2" | "p = 3" by linarith
  then show ?thesis by cases simp_all
qed

lemma small_word_eq:
  assumes "p < 4"
  shows "(of_nat p :: u8) = 0 \<longleftrightarrow> p = 0" "(of_nat p :: u8) = 1 \<longleftrightarrow> p = 1"
    "(of_nat p :: u8) = 2 \<longleftrightarrow> p = 2" "(of_nat p :: u8) = 3 \<longleftrightarrow> p = 3" "\<not> 3 < (of_nat p :: u8)"
proof -
  from assms consider "p = 0" | "p = 1" | "p = 2" | "p = 3" by linarith
  then show "(of_nat p :: u8) = 0 \<longleftrightarrow> p = 0" "(of_nat p :: u8) = 1 \<longleftrightarrow> p = 1"
    "(of_nat p :: u8) = 2 \<longleftrightarrow> p = 2" "(of_nat p :: u8) = 3 \<longleftrightarrow> p = 3" "\<not> 3 < (of_nat p :: u8)"
    by (cases; simp)+
qed

lemma reads_profile:
  assumes "p < 4"
  shows "vp9_reads parse_profile (profile_bits p reserved) (of_nat p)"
  unfolding parse_profile_def [abs_def] profile_bits_def append_Cons append_Nil
  apply (rule reads_bind [of _ _ _ "[a]" for a, unfolded append_Cons append_Nil])
   apply (rule reads_bit)
  apply (rule reads_bind [of _ _ _ "[a]" for a, unfolded append_Cons append_Nil])
   apply (rule reads_bit)
  unfolding profile_word [OF assms, symmetric] Let_def small_word_eq [OF assms]
  apply (cases "p = 3")
   apply (simp_all add: reads_return small_word_eq [OF assms])
  apply (rule reads_map, rule reads_map, rule reads_bit)
  done

lemma consumes_profile:
  "vp9_consumes parse_profile (\<lambda>bs x. \<exists>p r. p < 4 \<and> bs = profile_bits p r \<and> x = of_nat p)"
proof (rule consumesI)
  fix r x s
  assume r: "reader_ok r" and "parse_profile r = Inr (x, s)"
  then obtain l t h u where l: "bit_or_error r = Inr (l, t)" and h: "bit_or_error t = Inr (h, u)"
    and rest: "or (push_bit 1 h) l \<le> 3" "x = or (push_bit 1 h) l"
      "(if x = 3 then \<exists>v. bit_or_error u = Inr (v, s) else s = u)"
    unfolding parse_profile_def Let_def
    by (fastforce simp: and_then_Inr_iff split: if_splits)
  from consumes_bit r l obtain b where t: "reader_ok t" "unread_bits r = b # unread_bits t" "l = of_bool b"
    by (rule consumesE) auto
  from consumes_bit t(1) h obtain c where u: "reader_ok u" "unread_bits t = c # unread_bits u" "h = of_bool c"
    by (rule consumesE) auto
  let ?p = "2 * of_bool c + of_bool b :: nat"
  have p: "?p < 4" "odd ?p = b" "odd (?p div 2) = c" by (cases b; cases c; simp)+
  have x: "x = of_nat ?p" using profile_word [OF p(1)] by (simp only: rest(2) t(3) u(3) p(2,3))
  show "reader_ok s \<and> (\<exists>bs. (\<exists>p r. p < 4 \<and> bs = profile_bits p r \<and> x = of_nat p) \<and>
      unread_bits r = bs @ unread_bits s)"
  proof (cases "?p = 3")
    case True
    with rest(3) x obtain v where "bit_or_error u = Inr (v, s)" by auto
    from consumes_bit u(1) this obtain d where "reader_ok s" "unread_bits u = d # unread_bits s"
      by (rule consumesE) auto
    with True t u x p show ?thesis
      by (intro conjI exI [of _ "profile_bits ?p d"] exI [of _ ?p] exI [of _ d])
        (simp_all only: profile_bits_def if_True append_Cons append_Nil simp_thms)
  next
    case False
    with rest(3) x small_word_eq(4) [OF p(1)] have "s = u" by (simp split: if_splits)
    with False t u x p show ?thesis
      by (intro conjI exI [of _ "profile_bits ?p False"] exI [of _ ?p] exI [of _ False])
        (simp_all only: profile_bits_def if_False append_Cons append_Nil)
  qed
qed

lemma reads_sync: "vp9_reads parse_frame_sync_code sync_bits ()"
  unfolding parse_frame_sync_code_def [abs_def] sync_bits_def
  by (rule reads_bind_end [OF vp9_reads_u24]) (simp_all add: SYNC_CODE_def reads_return)

lemma consumes_sync: "vp9_consumes parse_frame_sync_code (\<lambda>bs x. bs = sync_bits)"
  unfolding parse_frame_sync_code_def [abs_def] sync_bits_def
  by (rule consumes_weaken, (rule vp9_consumes_u24 consumes_If consumes_error consumes_bind
        consumes_return)+)
    (auto simp: SYNC_CODE_def of_nat_word_eq_numeral split: if_splits)

lemma ucast_of_nat: "(ucast (of_nat v :: u32) :: u8) = of_nat v"
  by (rule bit_word_eqI) (simp add: bit_simps)

text \<open>The colour config is parsed in three stages, named here: depth, colour space, range and
  subsampling.\<close>

definition parse_depth :: "nat \<Rightarrow> bit_reader \<Rightarrow> parse_error + u8 \<times> bit_reader" where
  "parse_depth p br =
     (if p = 2 \<or> p = 3
      then and_then (read_bool br) (\<lambda>(twelve, br). Inr (if twelve then 12 else 10, br))
      else Inr (8, br))"

definition parse_range ::
    "nat \<Rightarrow> u32 \<Rightarrow> bit_reader \<Rightarrow> parse_error + (bool option \<times> bool option \<times> bool option) \<times> bit_reader" where
  "parse_range p space br =
     (if space \<noteq> COLOR_SPACE_SRGB
        then and_then (bit_or_error br) (\<lambda>(range, br).
             if p = 1 \<or> p = 3
             then and_then (read_bool br) (\<lambda>(x, br).
                  and_then (read_bool br) (\<lambda>(y, br).
                  and_then (bit_or_error br) (\<lambda>(_, br).
                    Inr ((Some (range \<noteq> 0), Some x, Some y), br))))
             else Inr ((Some (range \<noteq> 0), Some True, Some True), br))
        else if p = 1 \<or> p = 3
        then and_then (bit_or_error br) (\<lambda>(_, br). Inr ((None, Some False, Some False), br))
        else Inr ((None, None, None), br))"

lemma parse_color_config_stages:
  assumes "p < 4"
  shows "parse_color_config (of_nat p) =
     (\<lambda>br. and_then (parse_depth p br) (\<lambda>(depth, br).
      and_then (bits_or_error 3 br) (\<lambda>(space, br).
      and_then (parse_range p space br) (\<lambda>((range, x, y), br).
        Inr (\<lparr>cc_bit_depth = depth, cc_subsampling_x = x, cc_subsampling_y = y,
              cc_color_space = ucast space, cc_color_range_full = range\<rparr>, br)))))"
  by (rule ext) (simp only: parse_color_config_def parse_depth_def parse_range_def
      small_word_eq [OF assms])

definition range_bits :: "nat \<Rightarrow> color_syntax \<Rightarrow> bool list" where
  "range_bits p c =
     (if space_code c \<noteq> 7
      then full_range c # (if p \<in> {1, 3} then [sub_x c, sub_y c, reserved_bit c] else [])
      else if p \<in> {1, 3} then [reserved_bit c] else [])"

lemma color_bits_stages:
  "color_bits p c =
     (if p \<in> {2, 3} then [twelve_bit c] else []) @ nat_bits 3 (space_code c) @ range_bits p c"
  by (simp add: color_bits_def range_bits_def)

lemma reads_depth:
  "vp9_reads (parse_depth p) (if p \<in> {2, 3} then [t] else [])
     (if p \<in> {2, 3} then if t then 12 else 10 else 8)"
  using reads_map [OF reads_bool [of t], of "\<lambda>t. if t then 12 else 10"]
  by (cases "p \<in> {2, 3}") (auto simp: parse_depth_def [abs_def] intro: reads_return)

lemma consumes_depth:
  "vp9_consumes (parse_depth p)
     (\<lambda>bs x. \<exists>t. bs = (if p \<in> {2, 3} then [t] else []) \<and>
        x = (if p \<in> {2, 3} then if t then 12 else 10 else 8))"
  unfolding parse_depth_def [abs_def]
  by (rule consumes_weaken, (rule consumes_bool consumes_If consumes_map consumes_return)+)
    (auto split: if_splits)

lemma reads_range:
  assumes "space_code c < 8"
  shows "vp9_reads (parse_range p (of_nat (space_code c))) (range_bits p c)
     (cc_color_range_full (color_info p c), cc_subsampling_x (color_info p c),
      cc_subsampling_y (color_info p c))"
proof -
  have bits: "range_bits p c =
     (if space_code c \<noteq> 7
      then [full_range c] @ (if p \<in> {1, 3} then [sub_x c] @ [sub_y c] @ [reserved_bit c] else [])
      else if p \<in> {1, 3} then [reserved_bit c] else [])"
    by (simp add: range_bits_def)
  have "(of_nat (space_code c) :: u32) \<noteq> COLOR_SPACE_SRGB \<longleftrightarrow> space_code c \<noteq> 7"
    using assms by (simp add: COLOR_SPACE_SRGB_def of_nat_word_eq_numeral)
  then show ?thesis
    using reads_map [OF reads_bit [of "full_range c"],
        of "\<lambda>range. (Some (range \<noteq> 0), Some True, Some True)"]
    unfolding bits parse_range_def [abs_def]
    apply (cases "space_code c = 7"; cases "p \<in> {1, 3}")
       apply (simp_all only: if_True if_False insert_iff empty_iff simp_thms color_info_def Let_def
        color_config.simps append_Nil2 of_bool_eq_0_iff not_not)
       apply (rule reads_return reads_map reads_bit reads_bind reads_bool)+
    apply (simp_all only: of_bool_eq_0_iff not_not)
    apply (rule reads_map, rule reads_bit)
    done
qed

lemma consumes_range:
  assumes "v < 8"
  shows "vp9_consumes (parse_range p (of_nat v))
     (\<lambda>bs x. \<exists>c. space_code c = v \<and> bs = range_bits p c \<and>
        x = (cc_color_range_full (color_info p c), cc_subsampling_x (color_info p c),
             cc_subsampling_y (color_info p c)))"
proof -
  have srgb: "(of_nat v :: u32) \<noteq> COLOR_SPACE_SRGB \<longleftrightarrow> v \<noteq> 7"
    using assms by (simp add: COLOR_SPACE_SRGB_def of_nat_word_eq_numeral)
  let ?c = "\<lambda>r x y b. \<lparr>twelve_bit = False, space_code = v, full_range = r, sub_x = x, sub_y = y,
      reserved_bit = b\<rparr>"
  note defs = range_bits_def color_info_def Let_def
  show ?thesis
  proof (cases "v = 7"; cases "p = 1 \<or> p = 3")
    assume v: "v = 7" and p: "p = 1 \<or> p = 3"
    show ?thesis
      unfolding parse_range_def [abs_def] srgb using v p
      apply (simp only: simp_thms if_True if_False)
      apply (rule consumes_weaken, rule consumes_map, rule consumes_bit)
      apply clarify
      subgoal for bs f x y u b by (rule exI [of _ "?c False False False b"]) (simp add: defs)
      done
  next
    assume v: "v = 7" and p: "\<not> (p = 1 \<or> p = 3)"
    show ?thesis
      unfolding parse_range_def [abs_def] srgb using v p
      apply (simp only: simp_thms if_True if_False)
      apply (rule consumes_weaken, rule consumes_return)
      apply (rule exI [of _ "?c False False False False"]) 
      apply (simp add: defs)
      done
  next
    assume v: "v \<noteq> 7" and p: "p = 1 \<or> p = 3"
    show ?thesis
      unfolding parse_range_def [abs_def] srgb using v p
      apply (simp only: simp_thms if_True if_False)
      apply (rule consumes_weaken, (rule consumes_map consumes_bind consumes_bit consumes_bool)+)
      apply clarify
      subgoal for bs f x y as u cs r ds sx es t sy hs w b
        by (rule exI [of _ "?c r sx sy b"]) (simp add: defs)
      done
  next
    assume v: "v \<noteq> 7" and p: "\<not> (p = 1 \<or> p = 3)"
    show ?thesis
      unfolding parse_range_def [abs_def] srgb if_P [OF v] if_not_P [OF p]
      apply (rule consumes_weaken, (rule consumes_map consumes_bit)+)
      apply clarify
      subgoal for bs f x y u b
        using v p by (intro exI [of _ "?c b False False False"]) (simp add: defs)
      done
  qed
qed

lemma reads_color_config:
  assumes "p < 4" and "space_code c < 8"
  shows "vp9_reads (parse_color_config (of_nat p)) (color_bits p c) (color_info p c)"
  unfolding parse_color_config_stages [OF assms(1)] color_bits_stages
  apply (rule reads_bind [OF reads_depth])
  apply (rule reads_bind [OF reads_u3 [OF assms(2)]])
  apply (rule reads_bind_end [OF reads_range [OF assms(2)]])
  by (simp add: color_info_def Let_def reads_return ucast_of_nat)

lemma consumes_color_config:
  assumes "p < 4"
  shows "vp9_consumes (parse_color_config (of_nat p))
     (\<lambda>bs x. \<exists>c. space_code c < 8 \<and> bs = color_bits p c \<and> x = color_info p c)"
proof (rule consumesI)
  fix r x s
  assume r: "reader_ok r" and "parse_color_config (of_nat p) r = Inr (x, s)"
  then obtain d t v u f sx sy where d: "parse_depth p r = Inr (d, t)"
    and v: "bits_or_error 3 t = Inr (v, u)" and f: "parse_range p v u = Inr ((f, sx, sy), s)"
    and x: "x = \<lparr>cc_bit_depth = d, cc_subsampling_x = sx, cc_subsampling_y = sy,
      cc_color_space = ucast v, cc_color_range_full = f\<rparr>"
    by (auto simp: parse_color_config_stages [OF assms] and_then_Inr_iff)
  from consumes_depth r d obtain b where b: "reader_ok t"
    "unread_bits r = (if p \<in> {2, 3} then [b] else []) @ unread_bits t"
    "d = (if p \<in> {2, 3} then if b then 12 else 10 else 8)"
    by (rule consumesE) auto
  from consumes_u3 b(1) v obtain n where n: "reader_ok u" "n < 8" "v = of_nat n"
    "unread_bits t = nat_bits 3 n @ unread_bits u"
    by (rule consumesE) auto
  from consumes_range [OF n(2)] n(1) f [unfolded n(3)] obtain c where c: "reader_ok s"
    "space_code c = n" "unread_bits u = range_bits p c @ unread_bits s"
    "f = cc_color_range_full (color_info p c)" "sx = cc_subsampling_x (color_info p c)"
    "sy = cc_subsampling_y (color_info p c)"
    by (rule consumesE) auto
  let ?c = "c\<lparr>twelve_bit := b\<rparr>"
  have "range_bits p ?c = range_bits p c" by (simp add: range_bits_def)
  then have "unread_bits r = color_bits p ?c @ unread_bits s"
    using b(2) n(4) c(2,3) by (simp add: color_bits_stages)
  moreover have "x = color_info p ?c"
    using b(3) n(3) c(2,4-6) by (simp add: x color_info_def Let_def ucast_of_nat)
  ultimately show "reader_ok s \<and> (\<exists>bs. (\<exists>c. space_code c < 8 \<and> bs = color_bits p c \<and>
      x = color_info p c) \<and> unread_bits r = bs @ unread_bits s)"
    using c(1,2) n(2) by (intro conjI exI [of _ "color_bits p ?c"] exI [of _ ?c]) simp_all
qed

text \<open>The reference fields fill the two arrays from the given index on.\<close>

lemma reads_refs_from:
  assumes "\<forall>(i, b) \<in> set refs. i < 8" and "k + length refs = 3" and "length idx = 3"
    and "length bias = 4"
  shows "vp9_reads (parse_refs [k..<3] idx bias) (refs_bits refs)
     (take k idx @ map (\<lambda>(i, b). of_nat i) refs, take (k + 1) bias @ map (\<lambda>(i, b). of_bool b) refs)"
  using assms
proof (induction refs arbitrary: k idx bias)
  case Nil
  then show ?case by (simp add: reads_return refs_bits_def [of "[]"])
next
  case (Cons ref refs)
  obtain i b where ref: "ref = (i, b)" by (cases ref)
  from Cons.prems have k: "k < 3" "i < 8" by (auto simp: ref)
  let ?idx = "idx[k := of_nat i]" and ?bias = "bias[k + 1 := of_bool b]"
  have upt: "[k..<3] = k # [Suc k..<3]" using k by (simp add: upt_conv_Cons)
  have bits: "refs_bits (ref # refs) = nat_bits 3 i @ [b] @ refs_bits refs"
    by (simp add: refs_bits_def ref)
  have rest: "vp9_reads (parse_refs [Suc k..<3] ?idx ?bias) (refs_bits refs)
     (take (Suc k) ?idx @ map (\<lambda>(i, b). of_nat i) refs,
      take (Suc k + 1) ?bias @ map (\<lambda>(i, b). of_bool b) refs)"
    using Cons.prems by (intro Cons.IH) auto
  have takes: "take (Suc k) ?idx = take k idx @ [of_nat i]"
    "take (Suc k + 1) ?bias = take (k + 1) bias @ [of_bool b]"
    using k Cons.prems(3,4) by (simp_all add: take_Suc_conv_app_nth)
  show ?case
    unfolding upt bits parse_refs.simps [abs_def]
    using rest k(2)
    apply (intro reads_bind [OF reads_u3] reads_bind [OF reads_bit])
     apply assumption
    by (simp only: takes ucast_of_nat ref) simp
qed

lemma reads_refs:
  assumes "\<forall>(i, b) \<in> set refs. i < 8" and "length refs = 3"
  shows "vp9_reads (parse_refs [0..<3] (replicate 3 0) (replicate 4 0)) (refs_bits refs)
     (map (\<lambda>(i, b). of_nat i) refs, 0 # map (\<lambda>(i, b). of_bool b) refs)"
  using reads_refs_from [OF assms(1), of 0 "replicate 3 0" "replicate 4 0"] assms(2) by simp

lemma consumes_refs_from:
  "k \<le> 3 \<Longrightarrow> length idx = 3 \<Longrightarrow> length bias = 4 \<Longrightarrow>
   vp9_consumes (parse_refs [k..<3] idx bias) (\<lambda>bs x. \<exists>refs. (\<forall>(i, b) \<in> set refs. i < 8) \<and>
     k + length refs = 3 \<and> bs = refs_bits refs \<and>
     x = (take k idx @ map (\<lambda>(i, b). of_nat i) refs, take (k + 1) bias @ map (\<lambda>(i, b). of_bool b) refs))"
proof (induction "3 - k" arbitrary: k idx bias)
  case 0
  then show ?case
    by (auto intro!: consumes_weaken [OF consumes_return] exI [of _ "[]"] simp: refs_bits_def)
next
  case (Suc n)
  then have k: "k < 3" by simp
  have upt: "[k..<3] = k # [Suc k..<3]" using k by (simp add: upt_conv_Cons)
  show ?case
  proof (rule consumesI)
    fix r x s
    assume r: "reader_ok r" and "parse_refs [k..<3] idx bias r = Inr (x, s)"
    then obtain v t b u where v: "bits_or_error 3 r = Inr (v, t)" and b: "bit_or_error t = Inr (b, u)"
      and rest: "parse_refs [Suc k..<3] (idx[k := ucast v]) (bias[k + 1 := b]) u = Inr (x, s)"
      by (auto simp: upt and_then_Inr_iff)
    from consumes_u3 r v obtain i where i: "reader_ok t" "i < 8" "v = of_nat i"
      "unread_bits r = nat_bits 3 i @ unread_bits t" by (rule consumesE) auto
    from consumes_bit i(1) b obtain c where c: "reader_ok u" "b = of_bool c"
      "unread_bits t = c # unread_bits u" by (rule consumesE) auto
    let ?idx = "idx[k := of_nat i]" and ?bias = "bias[k + 1 := of_bool c]"
    have takes: "take (Suc k) ?idx = take k idx @ [of_nat i]"
      "take (Suc k + 1) ?bias = take (k + 1) bias @ [of_bool c]"
      using k Suc.prems by (simp_all add: take_Suc_conv_app_nth)
    have "parse_refs [Suc k..<3] ?idx ?bias u = Inr (x, s)"
      using rest by (simp only: i(3) c(2) ucast_of_nat)
    from Suc.hyps(1) [of "Suc k" ?idx ?bias] Suc.hyps(2) Suc.prems k
    have "vp9_consumes (parse_refs [Suc k..<3] ?idx ?bias) (\<lambda>bs x. \<exists>refs.
       (\<forall>(i, b) \<in> set refs. i < 8) \<and> Suc k + length refs = 3 \<and> bs = refs_bits refs \<and>
       x = (take (Suc k) ?idx @ map (\<lambda>(i, b). of_nat i) refs,
            take (Suc k + 1) ?bias @ map (\<lambda>(i, b). of_bool b) refs))"
      by auto
    from this c(1) \<open>parse_refs [Suc k..<3] ?idx ?bias u = Inr (x, s)\<close> obtain refs where refs: "reader_ok s" "\<forall>(i, b) \<in> set refs. i < 8" "Suc k + length refs = 3"
      "unread_bits u = refs_bits refs @ unread_bits s"
      "x = (take (Suc k) ?idx @ map (\<lambda>(i, b). of_nat i) refs,
        take (Suc k + 1) ?bias @ map (\<lambda>(i, b). of_bool b) refs)"
      by (rule consumesE) blast
    show "reader_ok s \<and> (\<exists>bs. (\<exists>refs. (\<forall>(i, b) \<in> set refs. i < 8) \<and>
       k + length refs = 3 \<and> bs = refs_bits refs \<and>
       x = (take k idx @ map (\<lambda>(i, b). of_nat i) refs, take (k + 1) bias @ map (\<lambda>(i, b). of_bool b) refs))
       \<and> unread_bits r = bs @ unread_bits s)"
      using refs i c takes
      by (intro conjI exI [of _ "refs_bits ((i, c) # refs)"] exI [of _ "(i, c) # refs"])
        (auto simp: refs_bits_def)
  qed
qed


lemma reads_ref_size:
  "ref_size_ok n z \<Longrightarrow> vp9_reads (parse_size_from_refs n) (ref_size_bits n z) (ref_size_info z)"
proof (induction n arbitrary: z)
  case 0
  then obtain w h render where z: "z = Explicit_Size w h render" by (cases z) auto
  with 0 have ok: "w < 2 ^ 16" "h < 2 ^ 16" "render_ok render" by auto
  show ?case
    unfolding parse_size_from_refs.simps(1) [abs_def] z ref_size_bits.simps ref_size_info.simps
      replicate_0 append_Nil
    apply (rule reads_bind [OF reads_frame_size [OF ok(1,2)]])
    unfolding size_info_def prod.case
    apply (rule reads_bind_end [OF reads_render_size [OF ok(3)]])
    by (simp add: case_prod_unfold reads_return)
next
  case (Suc n)
  show ?case
  proof (cases z)
    case (Explicit_Size w h render)
    then have bits: "ref_size_bits (Suc n) z = [False] @ ref_size_bits n z" by simp
    show ?thesis
      unfolding parse_size_from_refs.simps(2) [abs_def] bits
      using Suc.prems Suc.IH [of z] Explicit_Size
      by (intro reads_bind [OF reads_bool]) simp
  next
    case (From_Reference i render)
    show ?thesis
    proof (cases i)
      case 0
      with From_Reference have bits: "ref_size_bits (Suc n) z = [True] @ render_bits render"
        and ok: "render_ok render" using Suc.prems by simp_all
      show ?thesis
        unfolding parse_size_from_refs.simps(2) [abs_def] bits
        apply (rule reads_bind [OF reads_bool])
        unfolding if_True
        apply (rule reads_bind_end [OF reads_render_size [OF ok]])
        by (simp add: From_Reference case_prod_unfold reads_return)
    next
      case (Suc j)
      let ?y = "From_Reference j render"
      have bits: "ref_size_bits (Suc n) z = [False] @ ref_size_bits n ?y"
        and info: "ref_size_info z = ref_size_info ?y"
        using From_Reference Suc by simp_all
      show ?thesis
        unfolding parse_size_from_refs.simps(2) [abs_def] bits info
        using Suc.prems Suc.IH [of ?y] From_Reference Suc
        by (intro reads_bind [OF reads_bool]) simp
    qed
  qed
qed

lemma consumes_ref_size:
  "vp9_consumes (parse_size_from_refs n)
     (\<lambda>bs x. \<exists>z. ref_size_ok n z \<and> bs = ref_size_bits n z \<and> x = ref_size_info z)"
proof (induction n)
  case 0
  show ?case
  proof (rule consumesI)
    fix r x s
    assume r: "reader_ok r" and "parse_size_from_refs 0 r = Inr (x, s)"
    then obtain w h t rw rh where f: "parse_frame_size r = Inr ((w, h), t)"
      and g: "parse_render_size w h t = Inr ((rw, rh), s)" and x: "x = (w, h, rw, rh)"
      by (auto simp: and_then_Inr_iff)
    from consumes_frame_size r f obtain a b where a: "reader_ok t" "a < 2 ^ 16" "b < 2 ^ 16"
      "(w, h) = size_info a b" "unread_bits r = size_bits a b @ unread_bits t"
      by (rule consumesE) blast
    from consumes_render_size a(1) g obtain render where b: "reader_ok s" "render_ok render"
      "(rw, rh) = render_info (w, h) render" "unread_bits t = render_bits render @ unread_bits s"
      by (rule consumesE) blast
    show "reader_ok s \<and> (\<exists>bs. (\<exists>z. ref_size_ok 0 z \<and> bs = ref_size_bits 0 z \<and> x = ref_size_info z)
        \<and> unread_bits r = bs @ unread_bits s)"
      using a b
      by (intro conjI exI [of _ "ref_size_bits 0 (Explicit_Size a b render)"]
          exI [of _ "Explicit_Size a b render"]) (auto simp: x size_info_def)
  qed
next
  case (Suc n)
  show ?case
  proof (rule consumesI)
    fix r x s
    assume r: "reader_ok r" and p: "parse_size_from_refs (Suc n) r = Inr (x, s)"
    then obtain found t where f: "read_bool r = Inr (found, t)" by (auto simp: and_then_Inr_iff)
    from consumes_bool r f have t: "reader_ok t" "unread_bits r = found # unread_bits t"
      by (rule consumesE, simp)+
    show "reader_ok s \<and> (\<exists>bs. (\<exists>z. ref_size_ok (Suc n) z \<and> bs = ref_size_bits (Suc n) z \<and>
        x = ref_size_info z) \<and> unread_bits r = bs @ unread_bits s)"
    proof (cases found)
      case True
      with p f obtain rw rh where g: "parse_render_size 0 0 t = Inr ((rw, rh), s)"
        and x: "x = (0, 0, rw, rh)" by (auto simp: and_then_Inr_iff)
      from consumes_render_size t(1) g obtain render where b: "reader_ok s" "render_ok render"
        "(rw, rh) = render_info (0, 0) render" "unread_bits t = render_bits render @ unread_bits s"
        by (rule consumesE) blast
      with True t show ?thesis
        by (intro conjI exI [of _ "ref_size_bits (Suc n) (From_Reference 0 render)"]
          exI [of _ "From_Reference 0 render"]) (auto simp: x)
    next
      case False
      with p f have "parse_size_from_refs n t = Inr (x, s)" by simp
      from Suc.IH t(1) this obtain z where z: "reader_ok s" "ref_size_ok n z"
        "x = ref_size_info z" "unread_bits t = ref_size_bits n z @ unread_bits s"
        by (rule consumesE) blast
      let ?z = "case z of From_Reference i render \<Rightarrow> From_Reference (Suc i) render | _ \<Rightarrow> z"
      from z False t show ?thesis
        by (intro conjI exI [of _ "ref_size_bits (Suc n) ?z"] exI [of _ ?z]; cases z) auto
    qed
  qed
qed

lemma reads_key_frame:
  assumes "p < 4" and "frame_ok (Key_Frame show err c w h render)"
  shows "vp9_reads (parse_key_frame (of_nat p) show)
     (sync_bits @ color_bits p c @ size_bits w h @ render_bits render)
     (frame_info p (Key_Frame show err c w h render))"
proof -
  have ok: "space_code c < 8" "w < 2 ^ 16" "h < 2 ^ 16" "render_ok render" using assms(2) by auto
  show ?thesis
    unfolding parse_key_frame_def [abs_def]
    apply (rule reads_bind [OF reads_sync])
    apply (rule reads_bind [OF reads_color_config [OF assms(1) ok(1)]])
    apply (rule reads_bind [OF reads_frame_size [OF ok(2,3)]])
    unfolding size_info_def prod.case
    apply (rule reads_bind_end [OF reads_render_size [OF ok(4)]])
    by (simp add: case_prod_unfold reads_return size_info_def Let_def)
qed

lemma reads_intra_only:
  assumes "p < 4" and "frame_ok (Intra_Only_Frame err reset c refresh w h render)"
  shows "vp9_reads (parse_intra_only (of_nat p) False)
     (sync_bits @ (if p = 0 then [] else color_bits p c) @ nat_bits 8 refresh @ size_bits w h @
      render_bits render)
     (frame_info p (Intra_Only_Frame err reset c refresh w h render))"
proof -
  have ok: "space_code c < 8" "refresh < 256" "w < 2 ^ 16" "h < 2 ^ 16" "render_ok render"
    using assms(2) by auto
  let ?cc = "color_info p c"
  have color: "vp9_reads
     (\<lambda>br. if (of_nat p :: u8) = 0 then Inr ((Some 8, Some True, Some True, None, None), br)
        else and_then (parse_color_config (of_nat p) br) (\<lambda>(cc, br).
               Inr ((Some (cc_bit_depth cc), cc_subsampling_x cc, cc_subsampling_y cc,
                     Some (cc_color_space cc), cc_color_range_full cc), br)))
     (if p = 0 then [] else color_bits p c)
     (if p = 0 then (Some 8, Some True, Some True, None, None)
      else (Some (cc_bit_depth ?cc), cc_subsampling_x ?cc, cc_subsampling_y ?cc,
            Some (cc_color_space ?cc), cc_color_range_full ?cc))"
    unfolding small_word_eq [OF assms(1)]
    by (cases "p = 0") (auto intro!: reads_return reads_map [OF reads_color_config [OF assms(1) ok(1)]])
  show ?thesis
    unfolding parse_intra_only_def [abs_def]
    apply (rule reads_bind [OF reads_sync])
    apply (rule reads_bind [OF color])
    apply (cases "p = 0"; simp only: if_True if_False prod.case simp_thms)
     apply (rule reads_bind [OF vp9_reads_u8 [OF ok(2)]],
        rule reads_bind [OF reads_frame_size [OF ok(3,4)]],
        simp only: size_info_def prod.case,
        rule reads_bind_end [OF reads_render_size [OF ok(5)]],
        simp add: case_prod_unfold reads_return size_info_def Let_def ucast_of_nat)+
    done
qed

lemma reads_inter_frame:
  assumes "frame_ok (Inter_Frame show err reset refresh refs z)"
  shows "vp9_reads (parse_inter_frame (of_nat p) show)
     (nat_bits 8 refresh @ refs_bits refs @ ref_size_bits 3 z)
     (frame_info p (Inter_Frame show err reset refresh refs z))"
proof -
  have ok: "refresh < 256" "\<forall>(i, b) \<in> set refs. i < 8" "length refs = 3" "ref_size_ok 3 z"
    using assms by auto
  show ?thesis
    unfolding parse_inter_frame_def [abs_def] parse_frame_size_with_refs_def
    apply (rule reads_bind [OF vp9_reads_u8 [OF ok(1)]])
    apply (rule reads_bind [OF reads_refs [OF ok(2,3)]])
    unfolding prod.case
    apply (rule reads_bind_end [OF reads_ref_size [OF ok(4)]])
    by (simp add: case_prod_unfold reads_return ucast_of_nat Let_def)
qed

lemma reads_coded_frame:
  assumes p: "p < 4" and "frame_ok f"
  shows "vp9_reads (parse_coded_frame (of_nat p)) (frame_bits p f) (frame_info p f)"
proof -
  have reset: "vp9_reads
      (\<lambda>br. if \<not> err then and_then (bits_or_error 2 br) (\<lambda>(_, br). Inr ((), br)) else Inr ((), br))
      (reset_bits err reset) ()" if "reset < 4" for err reset
    using reads_map [OF reads_u2 [OF that], of "\<lambda>_. ()"]
    by (cases err) (auto simp: reset_bits_def reads_return)
  show ?thesis
  proof (cases f)
    case (Key_Frame shown err c w h render)
    have bits: "frame_bits p f = [False] @ [shown] @ [err] @
        (sync_bits @ color_bits p c @ size_bits w h @ render_bits render)"
      by (simp add: Key_Frame)
    from reads_key_frame [OF p, of shown err c w h render] assms(2) show ?thesis
      unfolding parse_coded_frame_def [abs_def] bits
      by (intro reads_bind [OF reads_bit] reads_bind [OF reads_bool]) (simp add: Key_Frame)
  next
    case (Intra_Only_Frame err reset c refresh w h render)
    have bits: "frame_bits p f = [True] @ [False] @ [err] @ [True] @ reset_bits err reset @
        (sync_bits @ (if p = 0 then [] else color_bits p c) @ nat_bits 8 refresh @ size_bits w h @
         render_bits render)"
      by (simp add: Intra_Only_Frame)
    from assms(2) have "reset < 4" by (simp add: Intra_Only_Frame)
    from reads_intra_only [OF p, of err reset c refresh w h render] assms(2) show ?thesis
      unfolding parse_coded_frame_def [abs_def] bits
      apply (intro reads_bind [OF reads_bit] reads_bind [OF reads_bool])
      apply (simp only: of_bool_eq_0_iff simp_thms if_False if_True)
      apply (intro reads_bind [OF reads_bool] reads_bind [OF reset [OF \<open>reset < 4\<close>]])
      by (simp add: Intra_Only_Frame)
  next
    case (Inter_Frame shown err reset refresh refs z)
    have bits: "frame_bits p f = [True] @ [shown] @ [err] @ (if shown then [] else [False]) @
        reset_bits err reset @ (nat_bits 8 refresh @ refs_bits refs @ ref_size_bits 3 z)"
      by (simp add: Inter_Frame)
    from assms(2) have "reset < 4" by (simp add: Inter_Frame)
    have intra: "vp9_reads (\<lambda>br. if \<not> shown then read_bool br else Inr (False, br))
        (if shown then [] else [False]) False"
      using reads_bool [of False] by (cases shown) (simp_all add: reads_return)
    from reads_inter_frame [of shown err reset refresh refs z p] assms(2) show ?thesis
      unfolding parse_coded_frame_def [abs_def] bits
      apply (intro reads_bind [OF reads_bit] reads_bind [OF reads_bool])
      apply (simp only: of_bool_eq_0_iff simp_thms if_False if_True)
      apply (intro reads_bind [OF intra] reads_bind [OF reset [OF \<open>reset < 4\<close>]])
      by (simp add: Inter_Frame)
  qed
qed

lemma reads_header:
  assumes "header_ok h"
  shows "vp9_reads parse_header_fields (header_bits h) (header_info h)"
proof -
  have marker: "(of_nat 2 :: u32) \<noteq> FRAME_MARKER \<longleftrightarrow> False" by (simp add: FRAME_MARKER_def)
  have two: "2 < (4::nat)" by simp
  show ?thesis
  proof (cases h)
    case (Show_Existing p reserved index)
    with assms have ok: "p < 4" "index < 8" by auto
    show ?thesis
      unfolding parse_header_fields_def [abs_def] Show_Existing header_bits.simps
      apply (rule reads_bind [OF reads_u2 [OF two]])
      apply (simp only: marker if_False)
      apply (rule reads_bind [OF reads_profile [OF ok(1)]])
      apply (rule reads_bind [OF reads_bool])
      apply (simp only: if_True)
      apply (rule reads_bind_end [OF reads_u3 [OF ok(2)]])
      by (simp add: reads_return)
  next
    case (Coded_Frame p reserved f)
    with assms have ok: "p < 4" "frame_ok f" by auto
    show ?thesis
      unfolding parse_header_fields_def [abs_def] Coded_Frame header_bits.simps
      apply (rule reads_bind [OF reads_u2 [OF two]])
      apply (simp only: marker if_False)
      apply (rule reads_bind [OF reads_profile [OF ok(1)]])
      apply (rule reads_bind [OF reads_bool])
      using reads_coded_frame [OF ok] by simp
  qed
qed

lemma consumes_key_frame:
  assumes "p < 4"
  shows "vp9_consumes (parse_key_frame (of_nat p) shown)
     (\<lambda>bs x. \<exists>c w h render. space_code c < 8 \<and> w < 2 ^ 16 \<and> h < 2 ^ 16 \<and> render_ok render \<and>
        bs = sync_bits @ color_bits p c @ size_bits w h @ render_bits render \<and>
        (\<forall>err. x = frame_info p (Key_Frame shown err c w h render)))"
proof (rule consumesI)
  fix r x s
  assume r: "reader_ok r" and "parse_key_frame (of_nat p) shown r = Inr (x, s)"
  then obtain t cc u w h v rw rh where f: "parse_frame_sync_code r = Inr ((), t)"
    "parse_color_config (of_nat p) t = Inr (cc, u)" "parse_frame_size u = Inr ((w, h), v)"
    "parse_render_size w h v = Inr ((rw, rh), s)" and x: "x =
      \<lparr>keyframe = True, width = w, height = h, render_width = rw, render_height = rh,
       show_frame = shown, profile = of_nat p, show_existing_frame = False,
       bit_depth = Some (cc_bit_depth cc), subsampling_x = cc_subsampling_x cc,
       subsampling_y = cc_subsampling_y cc, color_space = Some (cc_color_space cc),
       color_range_full = cc_color_range_full cc, refresh_frame_flags = 0xff,
       ref_frame_idx = replicate 3 0, ref_frame_sign_bias = replicate 4 0\<rparr>"
    by (auto simp: parse_key_frame_def and_then_Inr_iff)
  from consumes_sync r f(1) have t: "reader_ok t" "unread_bits r = sync_bits @ unread_bits t"
    by (rule consumesE, simp)+
  from consumes_color_config [OF assms] t(1) f(2) obtain c where c: "reader_ok u"
    "space_code c < 8" "unread_bits t = color_bits p c @ unread_bits u" "cc = color_info p c"
    by (rule consumesE) blast
  from consumes_frame_size c(1) f(3) obtain a b where a: "reader_ok v" "a < 2 ^ 16" "b < 2 ^ 16"
    "(w, h) = size_info a b" "unread_bits u = size_bits a b @ unread_bits v"
    by (rule consumesE) blast
  from consumes_render_size a(1) f(4) obtain render where b: "reader_ok s" "render_ok render"
    "(rw, rh) = render_info (w, h) render" "unread_bits v = render_bits render @ unread_bits s"
    by (rule consumesE) blast
  have "\<forall>err. x = frame_info p (Key_Frame shown err c a b render)"
    using a(4) b(3) by (simp add: x c(4) Let_def flip: a(4) b(3))
  then show "reader_ok s \<and> (\<exists>bs. (\<exists>c w h render. space_code c < 8 \<and> w < 2 ^ 16 \<and> h < 2 ^ 16 \<and>
        render_ok render \<and> bs = sync_bits @ color_bits p c @ size_bits w h @ render_bits render \<and>
        (\<forall>err. x = frame_info p (Key_Frame shown err c w h render))) \<and>
        unread_bits r = bs @ unread_bits s)"
    using t c a b
    by (intro conjI exI [of _ "sync_bits @ color_bits p c @ size_bits a b @ render_bits render"]
        exI [of _ c] exI [of _ a] exI [of _ b] exI [of _ render]) simp_all
qed

lemma consumes_intra_only:
  assumes "p < 4"
  shows "vp9_consumes (parse_intra_only (of_nat p) False)
     (\<lambda>bs x. \<exists>c refresh w h render. space_code c < 8 \<and> refresh < 2 ^ 8 \<and> w < 2 ^ 16 \<and> h < 2 ^ 16 \<and>
        render_ok render \<and>
        bs = sync_bits @ (if p = 0 then [] else color_bits p c) @ nat_bits 8 refresh @
             size_bits w h @ render_bits render \<and>
        (\<forall>err reset. x = frame_info p (Intra_Only_Frame err reset c refresh w h render)))"
    (is "vp9_consumes _ ?G")
proof (rule consumesI)
  fix r x s
  assume r: "reader_ok r" and "parse_intra_only (of_nat p) False r = Inr (x, s)"
  then obtain t d sx sy sp rg u n q w h v rw rh where f: "parse_frame_sync_code r = Inr ((), t)"
    "(if p = 0 then Inr ((Some 8, Some True, Some True, None, None), t)
        else and_then (parse_color_config (of_nat p) t) (\<lambda>(cc, br).
               Inr ((Some (cc_bit_depth cc), cc_subsampling_x cc, cc_subsampling_y cc,
                     Some (cc_color_space cc), cc_color_range_full cc), br)))
      = Inr ((d, sx, sy, sp, rg), u)"
    "bits_or_error 8 u = Inr (n, q)" "parse_frame_size q = Inr ((w, h), v)"
    "parse_render_size w h v = Inr ((rw, rh), s)" and x: "x =
      \<lparr>keyframe = False, width = w, height = h, render_width = rw, render_height = rh,
       show_frame = False, profile = of_nat p, show_existing_frame = False,
       bit_depth = d, subsampling_x = sx, subsampling_y = sy, color_space = sp,
       color_range_full = rg, refresh_frame_flags = ucast n,
       ref_frame_idx = replicate 3 0, ref_frame_sign_bias = replicate 4 0\<rparr>"
    by (auto simp: parse_intra_only_def and_then_Inr_iff small_word_eq [OF assms])
  from consumes_sync r f(1) have t: "reader_ok t" "unread_bits r = sync_bits @ unread_bits t"
    by (rule consumesE, simp)+
  obtain c where c: "reader_ok u" "space_code c < 8"
    "unread_bits t = (if p = 0 then [] else color_bits p c) @ unread_bits u"
    "(d, sx, sy, sp, rg) = (if p = 0 then (Some 8, Some True, Some True, None, None)
       else (Some (cc_bit_depth (color_info p c)), cc_subsampling_x (color_info p c),
         cc_subsampling_y (color_info p c), Some (cc_color_space (color_info p c)),
         cc_color_range_full (color_info p c)))"
  proof (cases "p = 0")
    case True
    show ?thesis
      by (rule that [of "\<lparr>twelve_bit = False, space_code = 0, full_range = False, sub_x = False,
            sub_y = False, reserved_bit = False\<rparr>"]) (use True f(2) t(1) in auto)
  next
    case False
    with f(2) obtain cc where cc: "parse_color_config (of_nat p) t = Inr (cc, u)"
      "(d, sx, sy, sp, rg) = (Some (cc_bit_depth cc), cc_subsampling_x cc, cc_subsampling_y cc,
         Some (cc_color_space cc), cc_color_range_full cc)"
      by (auto simp: and_then_Inr_iff)
    from consumes_color_config [OF assms] t(1) cc(1) obtain c where "reader_ok u"
      "space_code c < 8" "unread_bits t = color_bits p c @ unread_bits u" "cc = color_info p c"
      by (rule consumesE) blast
    with cc(2) False that [of c] show ?thesis by simp
  qed
  from vp9_consumes_u8 c(1) f(3) obtain m where m: "reader_ok q" "m < 2 ^ 8" "n = of_nat m"
    "unread_bits u = nat_bits 8 m @ unread_bits q" by (rule consumesE) auto
  from consumes_frame_size m(1) f(4) obtain a b where a: "reader_ok v" "a < 2 ^ 16" "b < 2 ^ 16"
    "(w, h) = size_info a b" "unread_bits q = size_bits a b @ unread_bits v"
    by (rule consumesE) blast
  from consumes_render_size a(1) f(5) obtain render where b: "reader_ok s" "render_ok render"
    "(rw, rh) = render_info (w, h) render" "unread_bits v = render_bits render @ unread_bits s"
    by (rule consumesE) blast
  have "\<forall>err reset. x = frame_info p (Intra_Only_Frame err reset c m a b render)"
    using c(4) by (auto simp: x m(3) ucast_of_nat Let_def simp flip: a(4) b(3) split: if_splits)
  then have "?G (sync_bits @ (if p = 0 then [] else color_bits p c) @ nat_bits 8 m @
       size_bits a b @ render_bits render) x"
    using c(2) m(2) a(2,3) b(2) by blast
  moreover have "unread_bits r = (sync_bits @ (if p = 0 then [] else color_bits p c) @ nat_bits 8 m @
       size_bits a b @ render_bits render) @ unread_bits s"
    using t c m a b by simp
  ultimately show "reader_ok s \<and> (\<exists>bs. ?G bs x \<and> unread_bits r = bs @ unread_bits s)"
    using b(1) by blast
qed

lemma consumes_inter_frame:
  "vp9_consumes (parse_inter_frame (of_nat p) shown)
     (\<lambda>bs x. \<exists>refresh refs z. refresh < 2 ^ 8 \<and> (\<forall>(i, b) \<in> set refs. i < 8) \<and> length refs = 3 \<and>
        ref_size_ok 3 z \<and> bs = nat_bits 8 refresh @ refs_bits refs @ ref_size_bits 3 z \<and>
        (\<forall>err reset. x = frame_info p (Inter_Frame shown err reset refresh refs z)))"
    (is "vp9_consumes _ ?G")
proof (rule consumesI)
  fix r x s
  assume r: "reader_ok r" and "parse_inter_frame (of_nat p) shown r = Inr (x, s)"
  then obtain n t idx bias u w h rw rh where f: "bits_or_error 8 r = Inr (n, t)"
    "parse_refs [0..<3] (replicate 3 0) (replicate 4 0) t = Inr ((idx, bias), u)"
    "parse_size_from_refs 3 u = Inr ((w, h, rw, rh), s)" and x: "x =
      \<lparr>keyframe = False, width = w, height = h, render_width = rw, render_height = rh,
       show_frame = shown, profile = of_nat p, show_existing_frame = False,
       bit_depth = None, subsampling_x = None, subsampling_y = None, color_space = None,
       color_range_full = None, refresh_frame_flags = ucast n,
       ref_frame_idx = idx, ref_frame_sign_bias = bias\<rparr>"
    by (auto simp: parse_inter_frame_def parse_frame_size_with_refs_def and_then_Inr_iff)
  from vp9_consumes_u8 r f(1) obtain m where m: "reader_ok t" "m < 2 ^ 8" "n = of_nat m"
    "unread_bits r = nat_bits 8 m @ unread_bits t" by (rule consumesE) auto
  have refs: "vp9_consumes (parse_refs [0..<3] (replicate 3 0) (replicate 4 0)) (\<lambda>bs x. \<exists>refs.
     (\<forall>(i, b) \<in> set refs. i < 8) \<and> length refs = 3 \<and> bs = refs_bits refs \<and>
     x = (map (\<lambda>(i, b). of_nat i) refs, 0 # map (\<lambda>(i, b). of_bool b) refs))"
    using consumes_refs_from [of 0 "replicate 3 0" "replicate 4 0"] by simp
  from refs m(1) f(2) obtain refs where refs: "reader_ok u" "\<forall>(i, b) \<in> set refs. i < 8"
    "length refs = 3" "unread_bits t = refs_bits refs @ unread_bits u"
    "(idx, bias) = (map (\<lambda>(i, b). of_nat i) refs, 0 # map (\<lambda>(i, b). of_bool b) refs)"
    by (rule consumesE) blast
  from consumes_ref_size refs(1) f(3) obtain z where z: "reader_ok s" "ref_size_ok 3 z"
    "(w, h, rw, rh) = ref_size_info z" "unread_bits u = ref_size_bits 3 z @ unread_bits s"
    by (rule consumesE) blast
  have "\<forall>err reset. x = frame_info p (Inter_Frame shown err reset m refs z)"
    using refs(5) by (simp add: x m(3) ucast_of_nat flip: z(3))
  then have "?G (nat_bits 8 m @ refs_bits refs @ ref_size_bits 3 z) x"
    using m(2) refs(2,3) z(2) by blast
  moreover have "unread_bits r = (nat_bits 8 m @ refs_bits refs @ ref_size_bits 3 z) @ unread_bits s"
    using m refs z by simp
  ultimately show "reader_ok s \<and> (\<exists>bs. ?G bs x \<and> unread_bits r = bs @ unread_bits s)"
    using z(1) by blast
qed

lemma consumes_reset:
  "vp9_consumes
      (\<lambda>br. if \<not> err then and_then (bits_or_error 2 br) (\<lambda>(_, br). Inr ((), br)) else Inr ((), br))
      (\<lambda>bs x. \<exists>reset. reset < 4 \<and> bs = reset_bits err reset)"
  by (rule consumes_weaken, (rule consumes_If consumes_map consumes_u2 consumes_return)+)
    (auto simp: reset_bits_def split: if_splits intro: exI [of _ 0])

lemma consumes_coded_frame:
  assumes "p < 4"
  shows "vp9_consumes (parse_coded_frame (of_nat p))
     (\<lambda>bs x. \<exists>f. frame_ok f \<and> bs = frame_bits p f \<and> x = frame_info p f)"
    (is "vp9_consumes _ ?G")
proof (rule consumesI)
  fix r x s
  assume r: "reader_ok r" and parse: "parse_coded_frame (of_nat p) r = Inr (x, s)"
  then obtain b t shown u err v where f: "bit_or_error r = Inr (b, t)"
    "read_bool t = Inr (shown, u)" "read_bool u = Inr (err, v)"
    by (auto simp: parse_coded_frame_def and_then_Inr_iff)
  from consumes_bit r f(1) obtain inter where t: "reader_ok t" "b = of_bool inter"
    "unread_bits r = inter # unread_bits t" by (rule consumesE) auto
  from consumes_bool t(1) f(2) have u: "reader_ok u" "unread_bits t = shown # unread_bits u"
    by (rule consumesE, simp)+
  from consumes_bool u(1) f(3) have v: "reader_ok v" "unread_bits u = err # unread_bits v"
    by (rule consumesE, simp)+
  show "reader_ok s \<and> (\<exists>bs. ?G bs x \<and> unread_bits r = bs @ unread_bits s)"
  proof (cases inter)
    case False
    with parse f t(2) have "parse_key_frame (of_nat p) shown v = Inr (x, s)"
      by (simp add: parse_coded_frame_def)
    from consumes_key_frame [OF assms] v(1) this obtain c w h render where k: "reader_ok s"
      "space_code c < 8" "w < 2 ^ 16" "h < 2 ^ 16" "render_ok render"
      "unread_bits v = (sync_bits @ color_bits p c @ size_bits w h @ render_bits render) @ unread_bits s"
      "x = frame_info p (Key_Frame shown err c w h render)"
      by (rule consumesE) blast
    then have "frame_ok (Key_Frame shown err c w h render)"
      "unread_bits r = frame_bits p (Key_Frame shown err c w h render) @ unread_bits s"
      using False t u v by simp_all
    with k show ?thesis by blast
  next
    case True
    with parse f t(2) obtain intra q d where g:
      "(if \<not> shown then read_bool v else Inr (False, v)) = Inr (intra, q)"
      "(if \<not> err then and_then (bits_or_error 2 q) (\<lambda>(_, br). Inr ((), br)) else Inr ((), q)) = Inr ((), d)"
      "(if intra then parse_intra_only (of_nat p) shown d else parse_inter_frame (of_nat p) shown d)
        = Inr (x, s)"
      by (auto simp: parse_coded_frame_def and_then_Inr_iff)
    have q: "reader_ok q" "shown \<Longrightarrow> \<not> intra"
      "unread_bits v = (if shown then [] else [intra]) @ unread_bits q"
    proof -
      have "reader_ok q \<and> unread_bits v = intra # unread_bits q" if "\<not> shown"
        using consumes_bool v(1) g(1) that by (simp, elim consumesE) auto
      then show "reader_ok q" "shown \<Longrightarrow> \<not> intra"
        "unread_bits v = (if shown then [] else [intra]) @ unread_bits q"
        using g(1) v(1) by (auto split: if_splits)
    qed
    from consumes_reset q(1) g(2) obtain reset where d: "reader_ok d" "reset < 4"
      "unread_bits q = reset_bits err reset @ unread_bits d"
      by (rule consumesE) blast
    show ?thesis
    proof (cases intra)
      case intra: True
      with q(2) have "\<not> shown" by blast
      with g(3) intra have "parse_intra_only (of_nat p) False d = Inr (x, s)" by simp
      from consumes_intra_only [OF assms] d(1) this obtain c refresh w h render where k: "reader_ok s"
        "space_code c < 8" "refresh < 2 ^ 8" "w < 2 ^ 16" "h < 2 ^ 16" "render_ok render"
        "unread_bits d = (sync_bits @ (if p = 0 then [] else color_bits p c) @ nat_bits 8 refresh @
           size_bits w h @ render_bits render) @ unread_bits s"
        "x = frame_info p (Intra_Only_Frame err reset c refresh w h render)"
        by (rule consumesE) blast
      let ?f = "Intra_Only_Frame err reset c refresh w h render"
      from k d(2) have "frame_ok ?f" by simp
      moreover have "unread_bits r = frame_bits p ?f @ unread_bits s"
        using k(7) d(3) q(3) v(2) u(2) t(3) True \<open>\<not> shown\<close> intra by simp
      ultimately show ?thesis using k(1,8) by blast
    next
      case inter: False
      with g(3) have "parse_inter_frame (of_nat p) shown d = Inr (x, s)" by simp
      from consumes_inter_frame d(1) this obtain refresh refs z where k: "reader_ok s"
        "refresh < 2 ^ 8" "\<forall>(i, b) \<in> set refs. i < 8" "length refs = 3" "ref_size_ok 3 z"
        "unread_bits d = (nat_bits 8 refresh @ refs_bits refs @ ref_size_bits 3 z) @ unread_bits s"
        "x = frame_info p (Inter_Frame shown err reset refresh refs z)"
        by (rule consumesE) blast
      let ?f = "Inter_Frame shown err reset refresh refs z"
      from k d(2) have "frame_ok ?f" by simp
      moreover have "unread_bits r = frame_bits p ?f @ unread_bits s"
        using k(6) d(3) q(3) v(2) u(2) t(3) True inter by simp
      ultimately show ?thesis using k(1,7) by blast
    qed
  qed
qed

lemma consumes_header:
  "vp9_consumes parse_header_fields
     (\<lambda>bs x. \<exists>h. header_ok h \<and> bs = header_bits h \<and> x = header_info h)"
    (is "vp9_consumes _ ?G")
proof (rule consumesI)
  fix r x s
  assume r: "reader_ok r" and parse: "parse_header_fields r = Inr (x, s)"
  then obtain t w u e v where f: "bits_or_error 2 r = Inr (FRAME_MARKER, t)"
    "parse_profile t = Inr (w, u)" "read_bool u = Inr (e, v)"
    by (auto simp: parse_header_fields_def and_then_Inr_iff split: if_splits)
  from consumes_u2 r f(1) obtain m where "reader_ok t" "m < 4" "FRAME_MARKER = of_nat m"
    "unread_bits r = nat_bits 2 m @ unread_bits t" by (rule consumesE) auto
  moreover from this have "m = 2"
    using of_nat_word_eq_iff [where 'a = 32, of m 2] by (simp add: FRAME_MARKER_def)
  ultimately have t: "reader_ok t" "unread_bits r = nat_bits 2 2 @ unread_bits t" by simp_all
  from consumes_profile t(1) f(2) obtain p reserved where u: "reader_ok u" "p < 4" "w = of_nat p"
    "unread_bits t = profile_bits p reserved @ unread_bits u" by (rule consumesE) blast
  from consumes_bool u(1) f(3) have v: "reader_ok v" "unread_bits u = e # unread_bits v"
    by (rule consumesE, simp)+
  show "reader_ok s \<and> (\<exists>bs. ?G bs x \<and> unread_bits r = bs @ unread_bits s)"
  proof (cases e)
    case True
    with parse f u(3) obtain k where g: "bits_or_error 3 v = Inr (k, s)" "x = existing_frame_info (of_nat p)"
      by (auto simp: parse_header_fields_def and_then_Inr_iff)
    from consumes_u3 v(1) g(1) obtain i where i: "reader_ok s" "i < 8"
      "unread_bits v = nat_bits 3 i @ unread_bits s" by (rule consumesE) auto
    let ?h = "Show_Existing p reserved i"
    have "?G (header_bits ?h) x" using u(2) i(2) g(2) by (intro exI [of _ ?h]) simp
    moreover have "unread_bits r = header_bits ?h @ unread_bits s"
      using t(2) u(4) v(2) i(3) True by simp
    ultimately show ?thesis using i(1) by blast
  next
    case False
    with parse f u(3) have "parse_coded_frame (of_nat p) v = Inr (x, s)"
      by (auto simp: parse_header_fields_def)
    from consumes_coded_frame [OF u(2)] v(1) this obtain g where g: "reader_ok s" "frame_ok g"
      "unread_bits v = frame_bits p g @ unread_bits s" "x = frame_info p g"
      by (rule consumesE) blast
    let ?h = "Coded_Frame p reserved g"
    have "?G (header_bits ?h) x" using u(2) g(2,4) by (intro exI [of _ ?h]) simp
    moreover have "unread_bits r = header_bits ?h @ unread_bits s"
      using t(2) u(4) v(2) g(3) False by simp
    ultimately show ?thesis using g(1) by blast
  qed
qed

section \<open>The parser accepts exactly the headers of the format\<close>

lemma new_reader: "reader_ok (new_bit_reader bytes)" "unread_bits (new_bit_reader bytes) = bits_of_bytes bytes"
  by (simp_all add: reader_ok_def unread_bits_def cursor_def new_bit_reader_def)

lemma parse_header_iff:
  "parse_uncompressed_header bytes = Inr info \<longleftrightarrow>
     3 \<le> length bytes \<and>
     (\<exists>h rest. header_ok h \<and> bits_of_bytes bytes = header_bits h @ rest \<and> info = header_info h)"
proof
  assume p: "parse_uncompressed_header bytes = Inr info"
  then obtain s where s: "3 \<le> length bytes" "parse_header_fields (new_bit_reader bytes) = Inr (info, s)"
    by (auto simp: parse_uncompressed_header_def and_then_Inr_iff split: if_splits)
  from consumes_header new_reader(1) s(2) obtain h where "header_ok h"
    "unread_bits (new_bit_reader bytes) = header_bits h @ unread_bits s" "info = header_info h"
    by (rule consumesE) blast
  with s(1) show "3 \<le> length bytes \<and>
     (\<exists>h rest. header_ok h \<and> bits_of_bytes bytes = header_bits h @ rest \<and> info = header_info h)"
    by (auto simp: new_reader)
next
  assume "3 \<le> length bytes \<and>
     (\<exists>h rest. header_ok h \<and> bits_of_bytes bytes = header_bits h @ rest \<and> info = header_info h)"
  then obtain h rest where h: "3 \<le> length bytes" "header_ok h"
    "bits_of_bytes bytes = header_bits h @ rest" "info = header_info h" by blast
  from readsD [OF reads_header [OF h(2)] new_reader(1)] h(3)
  obtain s where "parse_header_fields (new_bit_reader bytes) = Inr (header_info h, s)"
    by (auto simp: new_reader)
  with h(1,4) show "parse_uncompressed_header bytes = Inr info"
    by (simp add: parse_uncompressed_header_def)
qed

text \<open>A packet that only shows an existing frame needs one byte (two in profile 3), and the length
  check refuses it.\<close>

lemma lone_show_existing_refused:
  assumes "p < 4"
  shows "parse_uncompressed_header (bytes_of_bits (header_bits (Show_Existing p reserved index))) =
      Inl InsufficientData"
proof -
  have "length (header_bits (Show_Existing p reserved index)) \<le> 9"
    by (simp add: profile_bits_def)
  then have "length (bytes_of_bits (header_bits (Show_Existing p reserved index))) < 3"
    by (simp add: length_bytes_of_bits)
  then show ?thesis by (simp add: parse_uncompressed_header_def)
qed
end
