(* ===== verification/Sample_Streams.thy ===== *)
theory Sample_Streams
  imports Pgs_Builder Ac3_Access_Unit Vp9_Header
begin

text \<open>
  Concrete streams the witnesses evaluate: a display set with one picture in two fragments, decoder
  limits it fits into, a bitmap of two pixels, and an E-AC-3 frame of six bytes.
\<close>

definition sample_image :: object_image_spec where
  "sample_image =
     \<lparr>image_object_id = 7, image_width = 2, image_height = 1, image_indices = [1, 0],
      max_rle_bytes_per_fragment = Some 3\<rparr>"

definition sample_object :: composition_object where
  "sample_object =
     \<lparr>co_object_id = 7, co_window_id = 0, co_forced = Regular, co_x = 100, co_y = 200, co_crop = None\<rparr>"

definition sample_display_set :: display_set_spec where
  "sample_display_set =
     \<lparr>ds_reference_width = 1920, ds_reference_height = 1080, ds_state = EpochStart, ds_palette_only = False,
      ds_palette_id = 0,
      ds_windows = [\<lparr>window_id = 0, window_x = 100, window_y = 200, window_width = 10, window_height = 10\<rparr>],
      ds_palettes = [\<lparr>ps_palette_id = 0, ps_version = 0,
        ps_colors = [\<lparr>color_index = 1, color_rgba = (255, 255, 255, 255)\<rparr>]\<rparr>],
      ds_images = [sample_image], ds_composition = [sample_object]\<rparr>"

definition sample_limits :: pgs_decoder_limits where
  "sample_limits = \<lparr>max_object_rle_bytes = 1000, max_epoch_rle_bytes = 5000\<rparr>"

definition sample_frame :: "u8 list" where
  "sample_frame = [0x0B, 0x77, 0x00, 0x02, 0x34, 0x80]"

lemma sample_rle: "encode_rle [1, 0] 2 1 = [1, 0, 1, 0, 0]"
  by (simp add: encode_rle_def encode_row_def encode_columns.simps grow_run.simps push_run_def slice_get_def
      MAX_RUN_def Let_def upt_rec)

lemma map_filter_single: "List.map_filter f [x] = (case f x of None \<Rightarrow> [] | Some y \<Rightarrow> [y])"
  by (simp add: map_filter_simps split: option.split)

lemma sample_composition: "ds_composition sample_display_set = [sample_object]"
  by (simp add: sample_display_set_def)

lemma sample_limits_ok: "limits_ok sample_limits"
  by (simp add: limits_ok_def sample_limits_def usize_max_def)

lemma sample_display_set_ok: "spec_ok sample_limits sample_display_set" "small_images 100 sample_display_set"
proof -
  have "image_spec_ok sample_limits sample_image"
    by (simp add: image_spec_ok_def sample_image_def sample_limits_def sample_rle)
  then show "spec_ok sample_limits sample_display_set"
    using sample_limits_ok
    by (simp add: spec_ok_def sample_display_set_def sample_object_def reference_size_ok_def palette_spec_ok_def
        MAX_REFERENCE_WIDTH_def MAX_REFERENCE_HEIGHT_def rle_total_def picture_of_def encoded_len_def)
      (simp add: sample_image_def sample_limits_def sample_rle)
  show "small_images 100 sample_display_set"
    by (simp add: small_images_def sample_display_set_def sample_image_def)
qed

text \<open>The second frame begins the next access unit, so the first one is complete.\<close>

definition sample_unit :: access_unit where
  "sample_unit =
     \<lparr>primary_header =
        \<lparr>frame_layout =
           Layout_Enhanced_Ac3 \<lparr>stream_type = Independent, substream_id = 0, channel_map = FromCodingMode\<rparr>,
         bitstream_id = 16, frame_length_bytes = 6, sample_rate_hz = 48000, samples_per_frame = 1536,
         coding_mode = Stereo, lfe = Lfe_Absent\<rparr>,
      unit_codec = Codec_Enhanced_Ac3, total_length_bytes = 6, primary_program_length_bytes = 6,
      syncframe_count = 1, primary_program_locations = 40960, has_additional_programs = False\<rparr>"

lemma sample_scan: "scan_access_unit (sample_frame @ sample_frame) MoreBytesMayFollow = Inr (Complete_Unit sample_unit)"
  by code_simp

end
