(* ===== verification/Spec2Isabelle.thy ===== *)
theory Spec2Isabelle
  imports Sample_Queue Sample_Streams
begin

text \<open>
  A verification of the playlist logic of fastiplayer, a desktop media player in Rust, and of its
  decoder for bitmap subtitles and the parsers of VP9 and AC-3 headers.

  \<^bold>\<open>The program.\<close> The player keeps one canonical queue. Its entries are single items and compound
  groups (a file that holds several tracks); a client, the playlist controller of \<open>app-egui\<close>, edits
  it, navigates in it, sorts it, saves and restores it. The logic is the crate
  \<open>src/crates/playlist-core\<close> with the comparison of \<open>src/crates/natural-sort-key\<close>. Its parts work on
  one state, \<open>PlaylistQueue\<close>, and are tied together by three revision counters and a lock:
  \<^item> an operation that changes rows raises the structural revision, one that changes the current item
    or the shuffle state the traversal revision, one that changes cached metadata the metadata revision;
  \<^item> previews, plans, snapshots and prepared sorts are plain values a client keeps; they carry the
    revisions they were made for and are checked when they come back;
  \<^item> a prepared token freezes the queue (\<open>active_reservation\<close>) until it is committed or aborted.

  Independent of the queue are three parsers that the playback side calls on bytes of a container:
  \<open>subtitle-pgs\<close> (Blu-ray bitmap subtitles: segments, display sets, epochs, pictures), \<open>vp9-parser\<close>
  (uncompressed frame headers) and \<open>ac3-syncframe\<close> (headers, search, access units of AC-3 and E-AC-3).

  \<^bold>\<open>Theories and sources of the queue\<close> (under \<open>src/crates/playlist-core/src\<close> unless named otherwise):
  \<^item> \<open>Prelude\<close>: machine integers, slices and lists as the code uses them; the locale
    \<open>invariant_system\<close> of transition systems.
  \<^item> \<open>Identity\<close>: \<open>id.rs\<close>, \<open>entry.rs\<close>. Both identity lineages are interpretations of one locale,
    \<open>id_allocator\<close>.
  \<^item> \<open>Playlist_Entry\<close>: \<open>entry.rs\<close>, \<open>entry_restore.rs\<close>, \<open>item.rs\<close>, \<open>metadata.rs\<close>, \<open>playback_span.rs\<close>,
    \<open>cue_semantics.rs\<close>, \<open>locator.rs\<close>, and the read accessors of \<open>queue/read.rs\<close>.
  \<^item> \<open>Shuffle\<close>: \<open>queue/shuffle/*.rs\<close>. History, upcoming entries, cycles, speculative previews.
  \<^item> \<open>Queue\<close>: \<open>queue/mod.rs\<close>, \<open>queue/entries.rs\<close>, \<open>queue/structural.rs\<close>, \<open>queue/traversal.rs\<close>. The
    state as a record, appending, replacing, clearing, selecting, shuffle on and off; \<open>queue_inv\<close>
    and the revision discipline \<open>op_ok\<close> that every operation of every later theory is shown to keep.
  \<^item> \<open>Queue_Removal\<close>, \<open>Queue_Reorder\<close>, \<open>Queue_Metadata\<close>, \<open>Queue_Restore\<close>, \<open>Queue_Reservation\<close>: the
    files \<open>queue/removal.rs\<close>, \<open>queue/reordering.rs\<close> with \<open>queue/discovery.rs\<close>,
    \<open>queue/metadata_patch.rs\<close>, \<open>queue/restore.rs\<close>, \<open>queue/reservation.rs\<close>.
  \<^item> \<open>Queue_Navigation\<close>: \<open>queue/navigation.rs\<close> and \<open>queue/navigation/*.rs\<close>; \<open>Queue_Automatic\<close>:
    \<open>queue/automatic.rs\<close>.
  \<^item> \<open>Comparator\<close>: comparators as a locale; \<open>Natural_Sort_Key\<close>: \<open>natural-sort-key/src/lib.rs\<close>;
    \<open>Sort_Keys\<close>: the keys and the order of \<open>queue/sort.rs\<close> and \<open>queue/sort/natural.rs\<close>; \<open>Index_Sort\<close>:
    the merge loops and the in-place permutation, over the locale \<open>index_merge\<close>; \<open>Queue_Sort\<close>:
    \<open>queue/sort.rs\<close>, \<open>queue/sort/prepared.rs\<close>.
  \<^item> \<open>Queue_System\<close>: the queue together with everything clients hold, as a transition system whose
    steps are arbitrary calls.
  \<^item> \<open>Sample_Queue\<close>: concrete queues and runs on which properties are instantiated.

  \<^bold>\<open>Theories and sources of the parsers\<close> (under \<open>src/crates\<close>):
  \<^item> \<open>Bit_Stream\<close>: results, bits and bytes, the calculus \<open>reads\<close> and \<open>consumes\<close> of parsers, and the
    locale \<open>bit_source\<close>, the contract of a bit reader.
  \<^item> \<open>Vp9_Header\<close>: \<open>vp9-parser/src/bit_reader.rs\<close>, \<open>uncompressed_header.rs\<close>, with the headers of the
    format as a datatype and their bits as the reference.
  \<^item> \<open>Ac3_Syncframe\<close>: \<open>ac3-syncframe/src/bit_reader.rs\<close>, \<open>tables.rs\<close>, \<open>channels.rs\<close>, \<open>header.rs\<close>;
    \<open>Ac3_Access_Unit\<close>: \<open>search.rs\<close>, \<open>access_unit.rs\<close>.
  \<^item> \<open>Picture\<close>: \<open>subtitle-core/src/picture.rs\<close>. The others model \<open>subtitle-pgs/src\<close>: \<open>Pgs_Rle\<close> the run
    length code (\<open>rle.rs\<close>), \<open>Pgs_Segment\<close> the framing (\<open>segment.rs\<close>), \<open>Pgs_Payload\<close> the payloads
    (\<open>reader.rs\<close>, \<open>pcs.rs\<close>, \<open>wds.rs\<close>, \<open>pds.rs\<close>, \<open>ods.rs\<close>), \<open>Pgs_Color\<close> the colours (\<open>color.rs\<close>,
    with \<open>f32\<close> arithmetic as rounding of exact values), \<open>Pgs_Picture\<close> the pixels
    (\<open>picture_decode.rs\<close>), \<open>Pgs_Decoder\<close> the state machine (\<open>decoder/*.rs\<close>), and \<open>Pgs_Builder\<close> the
    encoder of the tests (\<open>stream_builder.rs\<close>), which serves as reference for all of them.
  \<^item> \<open>Sample_Streams\<close>: concrete streams for the witnesses.

  \<^bold>\<open>Conventions.\<close> \<open>u64\<close>, \<open>u32\<close> and \<open>u16\<close> are words of that length; \<open>usize\<close> is \<open>nat\<close> with the bound
  \<open>usize_max\<close> = 2 ^ 64 - 1 written out in checked and saturating operations. A type \<open>'a run\<close> is
  \<open>'a option\<close>, where \<open>None\<close> is a panic (\<open>expect\<close>, an index out of range, \<open>unreachable!\<close>, a failed
  \<open>assert!\<close>); Rust's \<open>Result\<close> is a sum with the error on the left. Hash sets are sets, hash maps are
  maps; where the code iterates over one, the order is an argument. \<open>debug_assert!\<close> is not modelled
  (release build). \<open>Arc::make_mut\<close> is a plain update, since the values are persistent. All loops are
  structurally recursive or have a termination proof, except the two outer loops of the merge sort,
  which are partial functions that are shown to return (\<open>background_sort_returns\<close>); there is no fuel.

  \<^bold>\<open>Parameters.\<close> The random source is a record \<open>rng\<close> of the two calls the code makes of the \<open>rand\<close>
  crate; \<open>rng_ok\<close> states that a shuffle permutes and a drawn number lies in its range. The Unicode
  tables (normalisation, case folding) are a record \<open>text_tables\<close> of two arbitrary functions. The
  cancellation callback of the background sort is an arbitrary state machine. The address that
  serves as reservation key is an argument, nonzero as addresses of heap cells are.

  \<^bold>\<open>What is shown.\<close> The component theories show for every operation that it returns, that it keeps
  \<open>queue_inv\<close> and the revision discipline, and what it does on each branch. \<open>Queue_System\<close> composes
  this: from any restored queue, over any sequence of calls with any mixture of stale and fresh
  values, no call panics but one, and the invariant holds throughout. The properties below state
  this and, component by component, functional behaviour, round trips, equivalence of optimised and
  reference algorithms, termination and bounds. For the parsers, each accepts exactly the encodings of
  its format; the decoder of subtitles keeps an invariant over every history of blocks and seeks, and
  encoding followed by decoding paints the described pixels. Three defects are shown: the one
  panicking call, a shuffle state that can be saved but not restored, and VP9 packets of one or two
  bytes that are refused.

  \<^bold>\<open>Not modelled.\<close> The validation of service payloads and URLs, \<open>Debug\<close> and \<open>Display\<close> output, and
  every crate outside those above: demuxers, decoders, rendering, audio devices, network sources,
  browser bridge and settings, which are adapters to operating system, GPU, codec or network
  interfaces; the parsers of manifests and of text subtitles, which rest on third-party XML and URL
  libraries; and the vendored patches, which are third-party code.
\<close>

section \<open>The system of calls\<close>



text \<open>C2. In every state a client can reach from a restored queue: entries are well formed, item and
  entry identities are distinct, nonzero and below the watermark, at most 50000 items are
  retained, and the current item is in the queue.\<close>
theorem reachable_queues_are_sound:
  assumes "restore_input_wf input" and "restore input = Some (Inr q)"
    and "(system_step R)\<^sup>*\<^sup>* (system_of q) t"
  shows "(\<forall>e \<in> set (entries (queue t)). entry_wf e)
    \<and> distinct (iter_playable_ids (entries (queue t)))
    \<and> distinct (iter_top_level_entry_ids (entries (queue t)))
    \<and> (\<forall>i \<in> set (iter_playable_ids (entries (queue t))).
         0 < unat (item_raw i) \<and> unat (item_raw i) < unat (next_item_id (item_allocator (queue t))))
    \<and> retained_item_count (entries (queue t)) \<le> MAX_PLAYLIST_ITEMS
    \<and> (\<forall>c. traversal_current (queue t) = Some c \<longrightarrow> c \<in> set (iter_playable_ids (entries (queue t))))"
proof -
  have "queue_inv q" using restore_ok [OF assms(1)] assms(2) by auto
  then have "system_inv t" using system.inv_steps [OF assms(3)] system_of_inv by blast
  then have "queue_inv (queue t)" by (rule system_invD)
  then show ?thesis
    using distinct_entry_ids unfolding queue_inv_def entries_wf_def items.below_def
    by (metis unat_gt_0)
qed

theorem reachable_queues_are_sound_witness:
  "distinct (iter_top_level_entry_ids (entries (queue sample_moved)))
   \<and> traversal_current (queue sample_moved) = Some (PlaylistItemId 1)
   \<and> PlaylistItemId 1 \<in> set (iter_playable_ids (entries (queue sample_moved)))"
  using reachable_queues_are_sound [OF sample_restore_run r_into_rtranclp [of "system_step sample_rng", OF sample_step]]
  by (simp add: sample_moved_def system_of_def sample_restored_def sample_queue_def)

text \<open>C3. Identities are never reused: when an entry identity occurs in two states of one history,
  with removals, undo and additions in between, it names the same items in the same order in
  both.\<close>
theorem identities_name_the_same_rows:
  assumes "system_inv s" and "(system_step R)\<^sup>*\<^sup>* s t"
    and "e \<in> set (entries (queue s))" and "f \<in> set (entries (queue t))" and "entry_id e = entry_id f"
  shows "map item_id (entry_playable_items e) = map item_id (entry_playable_items f)"
  using identities_not_reused [OF assms] by (simp add: shape_def)

theorem identities_name_the_same_rows_witness:
  "map item_id (entry_playable_items (entries (queue sample_moved) ! 2)) = [PlaylistItemId 2, PlaylistItemId 3]"
  using identities_name_the_same_rows [OF sample_system_inv r_into_rtranclp [of "system_step sample_rng", OF sample_step],
      of "Compound sample_group" "entries (queue sample_moved) ! 2"]
  by (simp add: sample_moved_def system_of_def sample_restored_def sample_defs)

text \<open>C4. The three revisions never decrease. Two states of one history with equal structural
  revisions have the same rows, and with equal traversal revisions as well the same current item
  and shuffle state. This is what makes revision checks of tokens, previews and plans sound.\<close>
theorem revisions_identify_states:
  assumes "system_inv s" and "(system_step R)\<^sup>*\<^sup>* s t"
  shows "structural_revision (queue s) \<le> structural_revision (queue t)
    \<and> traversal_revision (queue s) \<le> traversal_revision (queue t)
    \<and> metadata_revision (queue s) \<le> metadata_revision (queue t)
    \<and> (structural_revision (queue s) = structural_revision (queue t) \<longrightarrow>
         map entry_id (entries (queue s)) = map entry_id (entries (queue t))
         \<and> iter_playable_ids (entries (queue s)) = iter_playable_ids (entries (queue t))
         \<and> (traversal_revision (queue s) = traversal_revision (queue t) \<longrightarrow>
              traversal_current (queue s) = traversal_current (queue t)
              \<and> shuffle_traversal (queue s) = shuffle_traversal (queue t)))"
  using steps_advance [OF assms(2,1)] shape_projections(1,2) [of "entries (queue s)" "entries (queue t)"]
  by (auto simp: advances_def shapes_def iter_top_level_entry_ids_def)

theorem revisions_identify_states_witness:
  "structural_revision (queue (system_of sample_restored)) \<le> structural_revision (queue sample_moved)
   \<and> structural_revision (queue (system_of sample_restored)) \<noteq> structural_revision (queue sample_moved)"
  using revisions_identify_states [OF sample_system_inv r_into_rtranclp [of "system_step sample_rng", OF sample_step]]
  by (simp add: sample_moved_def system_of_def sample_restored_def sample_queue_def)

text \<open>C5. However long a client waits between preparing a reserved mutation and committing it, and
  whatever it calls in between, the commit succeeds while the token is live: it installs the
  prepared selection or replacement and releases the reservation.\<close>
theorem prepared_commit_cannot_be_lost:
  assumes "rng_ok R" and "system_inv s" and "(system_step R)\<^sup>*\<^sup>* s u"
    and "live_token u = Some (ReservedToken t)"
  shows "\<exists>u' r'. perform R r u CommitToken = Some (u', r') \<and> system_inv u'
    \<and> active_reservation (queue u') = None \<and> live_token u' = None
    \<and> (case token_mutation t of
         PreparedSelect i _ \<Rightarrow> traversal_current (queue u') = Some i \<and> entries (queue u') = entries (queue u)
       | PreparedReplace its _ c _ _ \<Rightarrow> traversal_current (queue u') = Some c
           \<and> entries (queue u') = map Single its)"
proof -
  have inv: "system_inv u" using system.inv_steps assms(2,3) by blast
  note parts = system_invD(1) [OF inv] system_invD(5) [OF inv assms(4)]
  have "call_run u (perform R r u CommitToken)"
    by (rule perform_ok [OF assms(1) inv]) (simp_all add: shuffle_dropped_def assms(4))
  moreover obtain res q' r' where c: "commit_reserved R r (queue u) t = Some (res, q', r')"
      "active_reservation q' = None" "traversal_current q' = Some (commit_traversal_current res)"
      "case token_mutation t of
         PreparedSelect i _ \<Rightarrow> commit_traversal_current res = i \<and> entries q' = entries (queue u)
       | PreparedReplace its _ c _ _ \<Rightarrow> commit_traversal_current res = c \<and> entries q' = map Single its"
    using commit_reserved_ok [OF assms(1) parts(1), of t r] parts(2)
    by (cases "token_mutation t") auto
  ultimately show ?thesis
    using assms(4) by (cases "token_mutation t") (auto simp: call_ok_def)
qed

theorem prepared_commit_cannot_be_lost_witness:
  "\<exists>u' r'. perform sample_rng () sample_locked CommitToken = Some (u', r')
     \<and> traversal_current (queue u') = Some (PlaylistItemId 3)"
  using prepared_commit_cannot_be_lost [OF sample_rng_ok sample_system_inv
      r_into_rtranclp [of "system_step sample_rng", OF sample_select_step], of sample_token "()"]
  by (auto simp: sample_locked_def sample_token_def)

section \<open>Persistence and undo\<close>

text \<open>C6. Restoring a persisted queue never panics; a restored queue satisfies the invariant and has
  exactly the persisted identities, current item and watermarks.\<close>
theorem restore_sound:
  assumes "restore_input_wf s"
  shows "\<exists>res. restore s = Some res
    \<and> (\<forall>q. res = Inr q \<longrightarrow> queue_inv q
         \<and> iter_playable_ids (entries q) = concat (map restored_item_ids (restored_entries s))
         \<and> traversal_current q = restored_current s
         \<and> next_item_id (item_allocator q) = restored_next_item_id s
         \<and> next_group_id (group_allocator q) = restored_next_group_id s)"
  using restore_ok [OF assms] by blast

theorem restore_sound_witness:
  "iter_playable_ids (entries sample_restored) = map PlaylistItemId [1, 2, 3, 4]
   \<and> queue_inv sample_restored"
  using restore_sound [OF sample_restore_run(1)] sample_restore_run(2) sample_ids(1)
  by (simp add: sample_restored_def)

text \<open>C7. Restore returns an error exactly when a persisted queue breaks one of its rules: too many
  items, a duplicate item or group identity, an identity at or above its watermark, or a current
  item that is not in the queue.\<close>
theorem restore_accepts_exactly:
  assumes "restore_input_wf s"
  shows "restore s \<noteq> None \<and> ((\<exists>q. restore s = Some (Inr q)) \<longleftrightarrow> restorable s)"
  using restore_ok [OF assms] restore_accepts_restorable restorable_accepted [OF assms] by (metis option.distinct(1))

theorem restore_accepts_exactly_witness:
  "(\<nexists>q. restore duplicate_input = Some (Inr q)) \<and> restore duplicate_input \<noteq> None"
  using restore_accepts_exactly [of duplicate_input]
  by (simp add: duplicate_input_def restore_input_wf_def restorable_def restore_input_of_def sample_defs)

text \<open>C8. A queue that is written out and restored is the same queue with its revisions reset.\<close>
theorem restore_round_trip:
  assumes "queue_inv q" and "active_reservation q = None" and "shuffle_traversal q = None"
  shows "restore (restore_input_of q) =
    Some (Inr (q\<lparr>structural_revision := 0, traversal_revision := 0, metadata_revision := 0\<rparr>))"
  unfolding restore_complete [OF assms(1)] using assms(2,3) by simp

theorem restore_round_trip_witness:
  "restore (restore_input_of sample_queue) = Some (Inr sample_restored)"
  using restore_round_trip [OF sample_queue_inv] by (simp add: sample_restored_def sample_queue_def)

text \<open>C9. A queue with shuffle enabled survives writing and restoring unchanged up to its revisions,
  provided the entry of the current item is not among the upcoming entries.\<close>
theorem restore_with_shuffle_round_trip:
  assumes "queue_inv q" and "active_reservation q = None" and "shuffle_traversal q = Some t"
    and "\<And>c e. traversal_current q = Some c \<Longrightarrow> structural_entry_id_for_item (entries q) c = Some e \<Longrightarrow>
      e \<notin> set (upcoming t)"
  shows "restore_with_shuffle (restore_input_of q) (shuffle_snapshot t) =
    Some (Inr (q\<lparr>structural_revision := 0, traversal_revision := 0, metadata_revision := 0\<rparr>))"
proof -
  note complete = restore_with_shuffle_complete [OF assms(1,3)]
  show ?thesis by (subst complete) (use assms(2,4) in \<open>simp_all\<close>)
qed

theorem restore_with_shuffle_round_trip_witness:
  "restore_with_shuffle (restore_input_of sample_shuffled) (shuffle_snapshot sample_traversal)
     = Some (Inr (sample_shuffled\<lparr>structural_revision := 0, traversal_revision := 0, metadata_revision := 0\<rparr>))"
  by (rule restore_with_shuffle_round_trip [OF sample_shuffled_inv])
    (auto simp: sample_shuffled_def sample_defs sample_traversal_def)

text \<open>C10. Undoing a removal right after it brings back the entries, the current item and the
  shuffle state; only the revisions have moved on. The conditions exclude revisions at the
  maximum of 64 bits.\<close>
theorem undo_restores_removed_entry:
  assumes "queue_inv q" and "remove_entry q k = Some (remove_item_outcome.Removed j eff out, q')"
    and "structural_revision q' \<noteq> -1" and "traversal_revision q' \<noteq> -1"
  shows "\<exists>q''. restore_removal_snapshot q' (capture_removal_snapshot q) = (Inr (traversal_current q), q'')
    \<and> entries q'' = entries q \<and> traversal_current q'' = traversal_current q
    \<and> shuffle_traversal q'' = shuffle_traversal q \<and> structural_revision q'' = structural_revision q' + 1"
  by (rule remove_restore_round_trip [OF assms(1,2) checked_next_below_max [OF assms(3)]])
    (simp add: checked_next_below_max [OF assms(4)])

theorem undo_restores_removed_entry_witness:
  "\<exists>q''. restore_removal_snapshot sample_removed (capture_removal_snapshot sample_queue)
       = (Inr (Some (PlaylistItemId 1)), q'')
     \<and> entries q'' = entries sample_queue"
  using undo_restores_removed_entry [OF sample_queue_inv sample_remove_run]
  by (auto simp: sample_removed_def sample_queue_def)

section \<open>Sorting\<close>

text \<open>C11. The background sort is equivalent to the direct one: publishing a prepared order with a
  batch of metadata patches gives the queue and the outcome of applying the patches and sorting
  directly.\<close>
theorem background_sort_agrees:
  assumes "queue_inv q" and "active_reservation q = None"
    and "sort_prepare T (canonical_sort_snapshot_of q) patches intent is_cancelled c = Some (Inr plan)"
    and "apply_metadata_patch_batch q patches = (Inr mo, q1)"
    and "sort_canonical T q1 intent = Some (so, q2)" and "so \<noteq> SortStructuralRevisionExhausted"
  shows "apply_prepared_canonical_sort q plan patches =
    Some (Inr \<lparr>sort_metadata_outcome = mo, was_reordered = (so \<noteq> AlreadyInCanonicalOrder)\<rparr>, q2)"
  by (rule background_agrees [OF assms])

theorem background_sort_agrees_witness:
  "\<exists>plan mo. sort_prepare sample_tables (canonical_sort_snapshot_of sample_queue) [] sample_intent never_cancelled ()
       = Some (Inr plan)
     \<and> apply_prepared_canonical_sort sample_queue plan [] =
         Some (Inr \<lparr>sort_metadata_outcome = mo, was_reordered = True\<rparr>, sample_sorted)"
proof -
  have never: "\<forall>c. \<not> fst (never_cancelled c)" by (simp add: never_cancelled_def)
  have small: "length (snapshot_entries (canonical_sort_snapshot_of sample_queue)) \<le> usize_max"
    by (simp add: canonical_sort_snapshot_of_def sample_queue_def usize_max_def)
  from sort_prepare_uncancelled [OF never small] obtain plan where
    plan: "sort_prepare sample_tables (canonical_sort_snapshot_of sample_queue) [] sample_intent
      never_cancelled () = Some (Inr plan)" by (rule exE)
  have free: "active_reservation sample_queue = None" by (simp add: sample_queue_def)
  obtain mo where "apply_metadata_patch_batch sample_queue [] = (Inr mo, sample_queue)"
    by (simp add: apply_metadata_patch_batch_def preflight_metadata_patch_batch_def prepare_metadata_patch_plan_def
        changed_metadata_def commit_metadata_patch_batch_def apply_to_entries_def sample_queue_def sample_group_def patch_item_def)
  from background_sort_agrees [OF sample_queue_inv free plan this sample_sort_run] plan
  show ?thesis by auto
qed



text \<open>C13. The cancellable merge sort returns on every input. A callback that never cancels gets a
  plan, and n entries cost at most n * passes comparisons for n <= 2 ^ passes.\<close>
theorem background_sort_returns:
  assumes "length (snapshot_entries snap) \<le> usize_max"
  shows "\<exists>res. sort_prepare T snap patches intent is_cancelled c = Some res
    \<and> ((\<forall>x. \<not> fst (is_cancelled x)) \<longrightarrow> (\<exists>plan. res = Inr plan))
    \<and> (\<forall>plan passes. res = Inr plan \<longrightarrow> length (snapshot_entries snap) \<le> 2 ^ passes \<longrightarrow>
         stat_comparisons (sort_statistics plan) \<le> length (snapshot_entries snap) * passes)"
proof -
  obtain res where res: "sort_prepare T snap patches intent is_cancelled c = Some res"
    "case res of Inl _ \<Rightarrow> True
     | Inr plan \<Rightarrow> plan_sorts T intent snap (effective_entries (snapshot_entries snap) patches) plan"
    using sort_prepare_ok [OF assms, of T intent patches is_cancelled c] unfolding returns_def by blast
  have "\<exists>plan. res = Inr plan" if "\<forall>x. \<not> fst (is_cancelled x)"
    using sort_prepare_uncancelled [OF that assms, of T patches intent c] res(1) by auto
  with res show ?thesis by (auto simp: plan_sorts_def)
qed

theorem background_sort_returns_witness:
  "\<exists>plan. sort_prepare sample_tables (canonical_sort_snapshot_of sample_queue) [] sample_intent never_cancelled ()
       = Some (Inr plan) \<and> stat_comparisons (sort_statistics plan) \<le> 6"
proof -
  have three: "length (snapshot_entries (canonical_sort_snapshot_of sample_queue)) = 3"
    by (simp add: canonical_sort_snapshot_of_def sample_queue_def)
  then have "length (snapshot_entries (canonical_sort_snapshot_of sample_queue)) \<le> usize_max" by (simp add: usize_max_def)
  from background_sort_returns [OF this, of sample_tables "[]" sample_intent never_cancelled "()"] three
  show ?thesis by (auto simp: never_cancelled_def dest!: spec [of _ 2])
qed

text \<open>C14. Permuting a list in place by swaps along two index tables gives the list read off in the
  requested order, for every permutation.\<close>
theorem in_place_permutation_is_exact:
  assumes "mset order = mset [0..<length xs]"
  shows "apply_prepared_order xs order = Some (map ((!) xs) order)"
  by (rule apply_prepared_order_ok [OF assms])

theorem in_place_permutation_is_exact_witness:
  "apply_prepared_order [CHR ''a'', CHR ''b'', CHR ''c''] [2, 0, 1] = Some [CHR ''c'', CHR ''a'', CHR ''b'']"
  using in_place_permutation_is_exact [of "[2, 0, 1]" "[CHR ''a'', CHR ''b'', CHR ''c'']"]
  by (simp add: upt_rec add_mset_commute)

text \<open>C15. The natural comparison by indices over prepared units never leaves its ranges and refines
  the comparison of token lists, in which a run of digits is its numeric value of any length; it
  is a total preorder.\<close>
theorem natural_comparison_is_by_tokens:
  "compare_natural_units l r = Some (list_cmp natural_token_cmp (natural_key_tokens l) (natural_key_tokens r))
   \<and> total_comparator natural_key_cmp"
  using compare_natural_units_tokens natural.total_comparator_axioms by blast

section \<open>Edits\<close>

text \<open>C16. A batch of metadata patches is equivalent to treating every item by itself with the
  patches in order, where a patch counts only if it names the item, its locator and its
  fingerprint. Rows, structural revision and current item stay.\<close>
theorem metadata_batch_is_sequential:
  assumes "queue_inv q" and "apply_metadata_patch_batch q patches = (Inr out, q')"
  shows "iter_playable_items (entries q') = map (patch_one patches) (iter_playable_items (entries q))
    \<and> map entry_id (entries q') = map entry_id (entries q)
    \<and> structural_revision q' = structural_revision q \<and> traversal_current q' = traversal_current q"
proof -
  let ?its = "iter_playable_items (entries q)"
  have wf: "entries_wf (entries q)" using assms(1) by (simp add: queue_inv_def)
  then have d: "distinct (map item_id ?its)" by (simp add: entries_wf_def iter_playable_ids_def)
  obtain s os n where plan: "prepare_patches (item_by_id ?its) (\<lambda>_. None) patches = (s, os, n)"
    by (metis prod_cases3)
  from assms(2) obtain c where c: "preflight_metadata_patch_batch q patches = Inr c"
    and q': "q' = snd (commit_metadata_patch_batch q c)"
    by (auto simp: apply_metadata_patch_batch_def split: sum.splits prod.splits)
  from c have "staged_cache_by_item_id (commit_plan c) = s"
    by (auto simp: preflight_metadata_patch_batch_def prepare_metadata_patch_plan_def plan Let_def
        split: if_splits option.splits)
  then have es: "entries q' = map (for_each_playable_item_mut (patched s)) (entries q)"
    by (simp add: q' commit_metadata_patch_batch_def apply_to_entries_eq [OF wf])
  have "patched s it = patch_one patches it" if "it \<in> set ?its" for it
    using prepare_patches_effective [OF item_by_id_mem [OF d that] _ plan] item_by_id_Some
    by (simp add: patched_effective patch_one_def effective_cache_def [of "\<lambda>_. None"])
  then show ?thesis
    using es apply_metadata_patch_batch_ok(2) [OF assms] for_each_entries(1) [of "patched s" "entries q"]
    by (simp add: iter_playable_items_for_each iter_top_level_entry_ids_def same_core_def cong: map_cong)
qed

theorem metadata_batch_is_sequential_witness:
  "\<exists>out q'. apply_metadata_patch_batch trio_queue [sample_patch] = (Inr out, q')
     \<and> map (\<lambda>it. title (cached_metadata (item_payload it))) (iter_playable_items (entries q'))
         = [Some ''A'', None, None]"
proof -
  obtain out q' where run: "apply_metadata_patch_batch trio_queue [sample_patch] = (Inr out, q')"
    using sample_patch_run by blast
  have "map (\<lambda>it. title (cached_metadata (item_payload (patch_one [sample_patch] it))))
      (iter_playable_items (entries trio_queue)) = [Some ''A'', None, None]"
    by (simp add: patch_one_def patched_cache_def patch_matches_def sample_patch_def metadata_patch_new_def
        trio_queue_def iter_playable_items_def sample_item_def into_item_def sample_draft_def sample_metadata_def
        metadata_new_def replace_local_cache_def path_components_def segment_component_def)
  with metadata_batch_is_sequential [OF trio_inv run] run show ?thesis by (auto simp: comp_def)
qed



text \<open>C18. A capped append never exceeds 50000 items and never fails for capacity: it accounts for
  every draft, and it rejects one only when the queue is full afterwards.\<close>
theorem append_capped_tail_fills_capacity:
  assumes "rng_ok R" and "queue_inv q"
  shows "\<exists>res q' r'. append_capped_tail R r q drafts = Some (res, q', r')
     \<and> retained_item_count (entries q') \<le> MAX_PLAYLIST_ITEMS
     \<and> (case res of
          Inl e \<Rightarrow> q' = q \<and> (\<forall>c m x. e \<noteq> add_items_error.CapacityExceeded c m x)
        | Inr out \<Rightarrow>
            length (allocated_item_ids_of_tail out) + capacity_rejected out = length drafts
            \<and> (capacity_rejected out \<noteq> 0 \<longrightarrow> retained_item_count (entries q') = MAX_PLAYLIST_ITEMS))"
  using append_capped_tail_ok [OF assms, of r drafts] by (force simp: op_ok_def queue_inv_def split: sum.splits)

theorem append_capped_tail_fills_capacity_witness:
  "\<exists>res q' r'. append_capped_tail sample_rng () sample_queue [sample_draft ''new''] = Some (res, q', r')
     \<and> retained_item_count (entries q') \<le> MAX_PLAYLIST_ITEMS"
  using append_capped_tail_fills_capacity [OF sample_rng_ok sample_queue_inv] by blast

text \<open>C19. Allocation hands out the next n consecutive identities when they fit into 64 bits and
  reports exhaustion otherwise; no identity wraps around or collides.\<close>
theorem allocations_never_wrap:
  assumes "next_item_id a \<noteq> 0" and "\<forall>i \<in> existing. unat (item_raw i) < unat (next_item_id a)"
  shows "if unat (next_item_id a) + n < 2 ^ 64
    then \<exists>p. item_preflight_allocation a n existing = Inr p
      \<and> map (\<lambda>i. unat (item_raw i)) (allocated_item_ids p) = map (\<lambda>k. unat (next_item_id a) + k) [0..<n]
      \<and> unat (next_item_id (item_commit_allocation a p)) = unat (next_item_id a) + n
      \<and> set (allocated_item_ids p) \<inter> existing = {}
    else item_preflight_allocation a n existing = Inl ItemArithmeticExhausted"
proof (cases "item_preflight_allocation a n existing")
  case (Inl e)
  with item_preflight_Inl [OF this assms] show ?thesis by auto
next
  case (Inr p)
  note spec = items.plan_length [OF Inr] items.plan_raw [OF Inr] items.plan_watermark [OF Inr]
  have "map (\<lambda>i. unat (item_raw i)) (allocated_item_ids p) = map (\<lambda>k. unat (next_item_id a) + k) [0..<n]"
    using spec(1,2) by (simp add: list_eq_iff_nth_eq)
  moreover have "set (allocated_item_ids p) \<inter> existing = {}"
    using assms(2) items.plan_range [OF Inr] by fastforce
  moreover have "unat (next_item_id a) + n < 2 ^ 64"
    using spec(3) unsigned_less [of "next_item_id (item_commit_allocation a p)", where ?'a = nat] by simp
  ultimately show ?thesis using Inr spec(3) by simp
qed

theorem allocations_never_wrap_witness:
  "item_preflight_allocation \<lparr>next_item_id = -1\<rparr> 2 {} = Inl ItemArithmeticExhausted"
  using allocations_never_wrap [of "\<lparr>next_item_id = -1\<rparr>" "{}" 2]
  by (simp add: unsigned_minus_1_eq_mask mask_eq_exp_minus_1)

text \<open>C20. Materialising a group draft gives a group whose parts carry the group's identity, the
  ordinals 1, 2, ... and the given item identities in order.\<close>
theorem compound_groups_are_wellformed:
  assumes "length (gdraft_parts d) = length ids" and "length ids < 2 ^ 32" and "gdraft_parts d \<noteq> []"
  shows "\<exists>grp. group_from_draft d g ids = Some grp \<and> group_id grp = g
    \<and> map part_group_id (group_parts grp) = replicate (length ids) g
    \<and> map (\<lambda>p. unat (part_ordinal p)) (group_parts grp) = map Suc [0..<length ids]
    \<and> map (\<lambda>p. item_id (part_item p)) (group_parts grp) = ids"
proof -
  obtain grp where grp: "group_from_draft d g ids = Some grp" "group_id grp = g" "entry_wf (Compound grp)"
      "map (\<lambda>p. item_id (part_item p)) (group_parts grp) = ids"
    using group_from_draft_ex [OF assms] by blast
  have "length (group_parts grp) = length ids" using grp(4) by (metis length_map)
  with grp show ?thesis by simp
qed

theorem compound_groups_are_wellformed_witness:
  "\<exists>grp. group_from_draft sample_group_draft (PlaylistCompoundGroupId 1) (map PlaylistItemId [2, 3]) = Some grp
     \<and> map (\<lambda>p. unat (part_ordinal p)) (group_parts grp) = [1, 2]"
  using compound_groups_are_wellformed [of sample_group_draft "map PlaylistItemId [2, 3]" "PlaylistCompoundGroupId 1"]
  by (auto simp: sample_group_draft_def upt_rec)

text \<open>C21. Moving a set of top-level entries puts them as one block, in queue order, at the front,
  at the back, or next to the anchor, and keeps the order of the rest.\<close>
theorem move_items_places_block:
  assumes "queue_inv q" and "active_reservation q = None" and "structural_revision q \<noteq> -1"
    and "ks \<noteq> []" and "distinct ks" and "set ks \<subseteq> set (iter_top_level_entry_ids (entries q))"
    and "\<And>a. move_anchor intent = Some a \<Longrightarrow> a \<in> set (iter_top_level_entry_ids (entries q)) - set ks"
  shows "\<exists>res q'. move_items q ks intent = Some (res, q') \<and> queue_inv q'
    \<and> mset (entries q') = mset (entries q)
    \<and> iter_top_level_entry_ids (entries q') =
        place_block intent (filter (\<lambda>k. k \<in> set ks) (iter_top_level_entry_ids (entries q)))
          (filter (\<lambda>k. k \<notin> set ks) (iter_top_level_entry_ids (entries q)))"
proof -
  obtain res q' where run: "move_items q ks intent = Some (res, q')"
      "\<exists>n. res = move_items_outcome.Moved n \<or> res = move_items_outcome.AlreadyInPlace n"
    using move_items_succeeds [OF assms] by blast
  with move_items_ok [OF assms(1), of ks intent] show ?thesis by (simp add: op_ok_def)
qed

theorem move_items_places_block_witness:
  "\<exists>res q'. move_items sample_queue [EntrySingle (PlaylistItemId 4), EntrySingle (PlaylistItemId 1)]
        (After (EntryCompound (PlaylistCompoundGroupId 1))) = Some (res, q')
     \<and> iter_top_level_entry_ids (entries q') =
        [EntryCompound (PlaylistCompoundGroupId 1), EntrySingle (PlaylistItemId 1), EntrySingle (PlaylistItemId 4)]"
proof -
  have "structural_revision sample_queue \<noteq> -1" "active_reservation sample_queue = None"
    by (simp_all add: sample_queue_def)
  from move_items_places_block [OF sample_queue_inv this(2,1), of
      "[EntrySingle (PlaylistItemId 4), EntrySingle (PlaylistItemId 1)]" "After (EntryCompound (PlaylistCompoundGroupId 1))"]
  show ?thesis by (auto simp: sample_ids)
qed



section \<open>Navigation\<close>

text \<open>C23. A manual navigation that was begun and prepared commits to the item it announced, without
  touching the rows; aborting it instead gives back the preview and the queue as it was.\<close>
theorem navigation_commit_opens_target:
  assumes "rng_ok R" and "queue_inv q" and "address \<noteq> 0"
    and "begin_manual_navigation R r q intent = Some (manual_navigation_outcome.OpenItem i p, r1)"
    and "prepare_manual_navigation q p address = Some (Inr tok, q1)"
  shows "i \<in> set (iter_playable_ids (entries q))
    \<and> (\<exists>q2 r3. commit_manual_navigation R r2 q1 tok = Some (i, q2, r3) \<and> queue_inv q2
         \<and> traversal_current q2 = Some i \<and> entries q2 = entries q \<and> active_reservation q2 = None)
    \<and> abort_manual_navigation q1 tok = Some (p, q)"
proof -
  have out: "manual_outcome_ok q (manual_navigation_outcome.OpenItem i p)"
    using begin_manual_navigation_ok [OF assms(1,2), of r intent] assms(4) by auto
  then have fits: "preview_fits q p" "latest_target_item_id p = i" "i \<in> set (iter_playable_ids (entries q))"
    by (auto simp: manual_outcome_ok_def)
  have q1: "active_reservation q = None" "q1 = q\<lparr>active_reservation := Some address\<rparr>"
      "manual_token_ok q1 tok" "token_preview tok = p"
    using prepare_manual_navigation_ok [OF assms(2) fits(1) assms(3)] assms(5) by auto
  then have inv: "queue_inv q1" using assms(2) by simp
  from commit_manual_navigation_ok [OF assms(1) inv q1(3), of r2] obtain q2 r3 where
    "commit_manual_navigation R r2 q1 tok = Some (i, q2, r3)" "queue_inv q2" "traversal_current q2 = Some i"
    "entries q2 = entries q1" "active_reservation q2 = None"
    unfolding q1(4) fits(2) by blast
  moreover have "q1\<lparr>active_reservation := None\<rparr> = q" using q1(1,2) by simp
  ultimately show ?thesis
    using abort_manual_navigation_ok(1) [OF inv q1(3)] q1(2,4) fits(3) by simp
qed

theorem navigation_commit_opens_target_witness:
  "\<exists>q2 r3. commit_manual_navigation sample_rng () (sample_queue\<lparr>active_reservation := Some 64\<rparr>) sample_manual_token
       = Some (PlaylistItemId 2, q2, r3) \<and> traversal_current q2 = Some (PlaylistItemId 2)"
  using navigation_commit_opens_target [OF sample_rng_ok sample_queue_inv _ sample_begin_run sample_prepare_run, of "()"]
  by auto

text \<open>C24. A preview made for another structural or traversal revision is refused by both continue
  and prepare, and the queue stays as it is.\<close>
theorem stale_preview_is_rejected:
  assumes "rng_ok R" and "queue_inv q" and "preview_fits q p" and "address \<noteq> 0"
    and "rev_structural (expected_revision p) \<noteq> structural_revision q
      \<or> rev_traversal (expected_revision p) \<noteq> traversal_revision q"
  shows "(\<exists>r'. continue_manual_navigation R r q p intent =
           Some (Inl (QueueChanged (expected_revision p) (revision_snapshot q)), r'))
    \<and> (\<exists>f. prepare_manual_navigation q p address = Some (Inl f, q) \<and> failure_preview f = p)"
proof -
  have stale: "\<not> revisions_match q (expected_revision p)" using assms(5) by (auto simp: revisions_match_def)
  obtain res q' where prep: "prepare_manual_navigation q p address = Some (res, q')"
    and res: "case res of
         Inl f \<Rightarrow> q' = q \<and> failure_preview f = p
       | Inr tok \<Rightarrow> active_reservation q = None \<and> q' = q\<lparr>active_reservation := Some address\<rparr>
           \<and> manual_token_ok q' tok \<and> token_preview tok = p"
    using prepare_manual_navigation_ok [OF assms(2,3,4)] by blast
  have "\<exists>f. res = Inl f"
  proof (cases res)
    case (Inr tok)
    obtain x q'' where x: "prepare_reserved_mutation q (expected_revision p)
        (SelectCommitted (latest_target_item_id p)) address = Some (x, q'')"
      using prep by (auto simp: prepare_manual_navigation_def)
    moreover obtain t where "x = Inr t"
      using prep Inr x by (cases x) (auto simp: prepare_manual_navigation_def)
    ultimately show ?thesis
      using prepare_reserved_ok [OF assms(2,4), of "expected_revision p" "SelectCommitted (latest_target_item_id p)"] assms(5)
      by auto
  qed simp
  then show ?thesis
    using prep res continue_manual_navigation_ok [OF assms(1,2,3), of r intent] stale by auto
qed

theorem stale_preview_is_rejected_witness:
  "\<exists>f. prepare_manual_navigation sample_later sample_preview 64 = Some (Inl f, sample_later)"
proof -
  have inv: "queue_inv sample_later"
    using sample_queue_inv by (simp add: sample_later_def queue_inv_def sample_queue_def)
  have "preview_fits sample_later sample_preview"
    by (simp add: preview_fits_def sample_preview_def sample_later_def revisions_match_def revision_snapshot_def sample_queue_def)
  from stale_preview_is_rejected [OF sample_rng_ok inv this, of 64 "()" sample_next] show ?thesis
    by (auto simp: sample_later_def sample_preview_def sample_queue_def revision_snapshot_def)
qed

text \<open>C25. Skipping over items that fail to open cannot go on forever, on whatever sequence of
  queues the plan is advanced.\<close>
theorem failure_chain_terminates:
  assumes "rng_ok R"
  shows "wf {(plan', plan). fails_to R plan plan'}"
  by (rule wf_subset [OF wf_measure [of untried]]) (use fails_to_ok(3) [OF assms] in auto)

theorem failure_chain_terminates_witness:
  "wf {(plan', plan). fails_to sample_rng plan plan'}"
  by (rule failure_chain_terminates [OF sample_rng_ok])

text \<open>C26. In repeat mode without shuffle the plan gives up only after as many attempts as the queue
  had items when it began.\<close>
theorem all_failed_means_all_tried:
  assumes "rng_ok R" and "queue_inv q" and "shuffle_traversal q = None"
    and "begin_automatic_traversal R r q RepeatQueue failed = Some (automatic_traversal_start.OpenItem i plan, r1)"
    and "(fails_to R)\<^sup>*\<^sup>* plan plan'" and "queue_inv q'"
    and "advance_automatic_traversal_after_failure R r2 q' plan' = Some (AllFailed n, r3)"
  shows "retained_item_count (entries q) \<le> n"
proof -
  have start: "plan_wf plan" "plan_covers plan {target_item_id plan}" "plan_shuffle_preview plan = None"
      "eligible_item_ids plan = set (iter_playable_ids (entries q))" "plan_repeat_mode plan = RepeatQueue"
    using begin_automatic_traversal_ok [OF assms(1,2), of r RepeatQueue failed] assms(3,4) by auto
  from assms(5) have "plan_wf plan' \<and> plan_covers plan' {target_item_id plan'} \<and> plan_shuffle_preview plan' = None
      \<and> plan_repeat_mode plan' = RepeatQueue \<and> eligible_item_ids plan' = eligible_item_ids plan"
    by (induction rule: rtranclp_induct) (use start fails_to_ok [OF assms(1)] in auto)
  then have "card (eligible_item_ids plan) \<le> n"
    using advance_automatic_traversal_ok [OF assms(1,6), of plan' r2] assms(7) by auto
  moreover have "card (eligible_item_ids plan) = retained_item_count (entries q)"
    using start(4) assms(2) distinct_card [of "iter_playable_ids (entries q)"]
    by (simp add: queue_inv_def entries_wf_def length_iter_playable_ids)
  ultimately show ?thesis by simp
qed

theorem all_failed_means_all_tried_witness: "retained_item_count (entries solo_queue) \<le> 1"
  by (rule all_failed_means_all_tried [OF sample_rng_ok solo_queue_inv _ solo_runs(1) _ solo_queue_inv solo_runs(2)])
    (simp_all add: solo_queue_def sample_queue_def)





text \<open>C29. A new shuffle cycle contains every entry once and, with more than one entry, does not
  begin with the entry that was played last.\<close>
theorem shuffle_cycle_is_permutation:
  assumes "rng_ok R" and "distinct canonical" and "new_cycle R r canonical last_entry = (c, r')"
  shows "mset c = mset canonical \<and> (1 < length canonical \<longrightarrow> Some (hd c) \<noteq> last_entry)"
proof -
  note spec = new_cycle_spec [OF assms]
  have "length c = length canonical" using spec(1) by (rule mset_eq_length)
  then have "1 < length canonical \<Longrightarrow> hd c = c ! 0" by (cases c) auto
  then show ?thesis using spec by auto
qed

theorem shuffle_cycle_is_permutation_witness:
  "hd (fst (new_cycle sample_rng () (iter_top_level_entry_ids (entries sample_queue)) (Some (EntrySingle (PlaylistItemId 1)))))
     \<noteq> EntrySingle (PlaylistItemId 1)"
  using shuffle_cycle_is_permutation [OF sample_rng_ok queue_inv_distinct [OF sample_queue_inv], of "()"
      "Some (EntrySingle (PlaylistItemId 1))"]
  by (cases "new_cycle sample_rng () (iter_top_level_entry_ids (entries sample_queue)) (Some (EntrySingle (PlaylistItemId 1)))")
    (simp add: sample_ids)

text \<open>C30. New entries are merged into the upcoming ones without losing any and without reordering
  the ones already there; the history stays.\<close>
theorem shuffle_merge_keeps_order:
  assumes "rng_ok R" and "merge_new_entries R r t new_ids = (t', r')"
  shows "mset (upcoming t') = mset (upcoming t) + mset new_ids \<and> subseq (upcoming t) (upcoming t')
    \<and> history t' = history t \<and> history_cursor t' = history_cursor t"
  using merge_new_entries_spec [OF assms] by blast

theorem shuffle_merge_keeps_order_witness:
  "mset (upcoming (fst (merge_new_entries sample_rng () sample_traversal [EntrySingle (PlaylistItemId 9)])))
     = mset (upcoming sample_traversal) + {# EntrySingle (PlaylistItemId 9) #}"
  using shuffle_merge_keeps_order [OF sample_rng_ok, of "()" sample_traversal "[EntrySingle (PlaylistItemId 9)]"]
  by (cases "merge_new_entries sample_rng () sample_traversal [EntrySingle (PlaylistItemId 9)]") simp

section \<open>Subtitles and elementary streams\<close>



text \<open>C32. Whatever bytes the decoder is fed, with discontinuities in between, its invariant holds:
  the stored bytes are the exact sum over the stored pictures and within the epoch limit, every
  object under assembly is within the object limit, palettes have 256 entries, unfinished
  objects exist only while a set is pending, and before an entry point the epoch is empty. Every
  cue it emits shows a nonempty region inside its picture.\<close>
theorem subtitle_decoder_stays_sound:
  assumes "limits_ok limits" and "decoder_run calls (new_decoder limits) = (compositions, d)"
  shows "decoder_inv d \<and> list_all composition_ok compositions"
  using decoder_run_inv [OF new_decoder_inv [OF assms(1)] assms(2)] by (simp add: list_all_iff)

theorem subtitle_decoder_stays_sound_witness:
  "decoder_inv (snd (decoder_run [Push_Block 40 [0x16, 0, 1, 0], Discontinuity] (new_decoder sample_limits)))"
  using subtitle_decoder_stays_sound [OF sample_limits_ok surjective_pairing] by blast

text \<open>C33. After a discontinuity the decoder gives, on every further history of blocks and
  discontinuities, the compositions that a new decoder with the same limits gives.\<close>
theorem seek_forgets_the_past:
  "fst (decoder_run calls (reset_after_discontinuity d)) = fst (decoder_run calls (new_decoder (decoder_limits d)))"
  by (rule seek_forgets)

text \<open>C34. The placement of an object by intersecting rectangles is equivalent to a test per pixel:
  a position of the screen shows the pixel of the picture at its offset from the position of the
  object and the crop rectangle, if that pixel is inside the crop rectangle and the picture and
  the position is inside the window, where a window is known.\<close>
theorem placed_pixels_are_object_pixels:
  "placed_pixel (place_object obj (full_rect picture) window) x y = object_pixel obj picture window x y"
  by (rule place_object_pixels)

text \<open>C35. The reader of .sup files accepts exactly the concatenations of encoded records and
  returns their times and segments in order, so whatever the builder writes is read back and
  nothing else is accepted.\<close>
theorem sup_files_are_runs_of_records:
  "read_sup bytes = Inr out \<longleftrightarrow>
     (\<exists>rs. list_all sup_record_ok rs \<and> bytes = concat (map sup_record_bytes rs) \<and> out = map sup_record rs)"
  by (rule read_sup_iff)

text \<open>C36. The parser of uncompressed VP9 headers accepts exactly the buffers of at least three
  bytes that begin with the bits of a header of the format, and returns the values these bits
  denote; it is equivalent to the bit-level grammar.\<close>
theorem vp9_headers_parse_exactly:
  "parse_uncompressed_header bytes = Inr info \<longleftrightarrow>
     3 \<le> length bytes \<and>
     (\<exists>h rest. header_ok h \<and> bits_of_bytes bytes = header_bits h @ rest \<and> info = header_info h)"
  by (rule parse_header_iff)

text \<open>C37. Searching AC-3 syncframes in a stream that arrives in pieces: a frame that was found
  stays where it is when bytes are added, and after a request for more data the prefix that may
  be discarded cannot contain a frame, so that dropping it and searching again gives the result
  of searching the whole buffer.\<close>
theorem syncframe_search_is_incremental:
  "case locate_syncframe bytes of
     Found offset h \<Rightarrow> locate_syncframe (bytes @ extra) = Found offset h
   | Search_Need_More_Data d \<Rightarrow> d \<le> length bytes \<and>
       locate_syncframe (bytes @ extra) = search_shift d (locate_syncframe (drop d bytes @ extra))"
  by (rule locate_streaming)

text \<open>C38. A decision that the scan for AC-3 access units takes while more bytes may follow, an
  access unit, an orphan or an error, is the decision on every longer buffer, at the end of the
  stream as well.\<close>
theorem access_unit_decision_is_final:
  assumes "scan_access_unit bytes MoreBytesMayFollow = r" and "r \<noteq> Inr Scan_Need_More_Data"
  shows "scan_access_unit (bytes @ extra) ending = r"
  by (rule scan_access_unit_stable [OF assms])

theorem access_unit_decision_is_final_witness:
  "scan_access_unit ((sample_frame @ sample_frame) @ [0, 1, 2]) EndOfStream = Inr (Complete_Unit sample_unit)"
  using access_unit_decision_is_final [OF sample_scan, of "[0, 1, 2]" EndOfStream] by simp

section \<open>Defects shown on concrete histories\<close>


text \<open>C40. A history whose saved queue is refused: after a shuffle cycle restarts in repeat mode,
  Previous moves the cursor back to an item whose entry is still upcoming in the new cycle, and
  restore then reports that the current entry is present in upcoming.\<close>
theorem previous_breaks_saved_shuffle:
  "\<exists>q t. map_option (\<lambda>(s, r). queue s) (run_calls sample_rng () (system_of trio_queue) previous_trace) = Some q
     \<and> shuffle_traversal q = Some t \<and> traversal_current q = Some (PlaylistItemId 3)
     \<and> restore_with_shuffle (restore_input_of q) (shuffle_snapshot t) =
         Some (Inl (TraversalError (CurrentEntryPresentInUpcoming (PlaylistItemId 3) (EntrySingle (PlaylistItemId 3)))))"
proof -
  have "shuffle_traversal trio_after_previous = Some trio_traversal"
    "traversal_current trio_after_previous = Some (PlaylistItemId 3)" by (simp_all add: trio_after_previous_def)
  then show ?thesis using previous_trace_run trio_restore by blast
qed

end
